(* ===== verification/Shm_Prelude.thy ===== *)
theory Shm_Prelude
  imports Main "HOL-Library.Word" "HOL-Library.Monad_Syntax"
begin

text \<open>
  The part of the development that every component shares.

  \<^item> The machine integers of the Go sources as words of the same width.
  \<^item> A mapped memory as a list of bytes, with the typed loads and stores that the
    sources make through \<^verbatim>\<open>unsafe.Pointer\<close> (little endian, the byte order of amd64
    and arm64) and the ones made by \<^verbatim>\<open>encoding/binary\<close> (big endian).
  \<^item> A Go panic, or an access that leaves the mapping, is the value \<open>None\<close>;
    an error that the source returns is a value of the type \<open>go_error\<close>.

  The laws of loads and stores (same place, disjoint place, length) are collected
  in \<open>mem_simps\<close>, which the component proofs use.
\<close>

unbundle bit_operations_syntax

declare of_nat_unat [simp del]

lemma word_of_nat_unat [simp]: "(word_of_nat (unat w) :: 'a::len word) = w"
  by (simp add: of_nat_unat)

named_theorems mem_simps \<open>loads after stores\<close>
named_theorems consts_defs \<open>numeric constants of the sources\<close>

subsection \<open>Names for the types of the model\<close>

type_synonym u8 = "8 word"
type_synonym u16 = "16 word"
type_synonym u32 = "32 word"
type_synonym u64 = "64 word"
type_synonym bytes = "8 word list"

text \<open>The errors of \<^verbatim>\<open>errors.go\<close>; an error made by \<^verbatim>\<open>fmt.Errorf\<close> or
  \<^verbatim>\<open>errors.New\<close> at its place of use is \<open>ErrMsg\<close> with the fixed part of its text.\<close>

datatype go_error =
    ErrInvalidVersion
  | ErrInvalidMsgType
  | ErrSessionShutdown
  | ErrStreamsExhausted
  | ErrTimeout
  | ErrStreamClosed
  | ErrConnectionWriteTimeout
  | ErrEndOfStream
  | ErrSessionUnhealthy
  | ErrNotEnoughData
  | ErrNoMoreBuffer
  | ErrShareMemoryHadNotLeftSpace
  | ErrStreamCallbackHadExisted
  | ErrOSNonSupported
  | ErrArchNonSupported
  | ErrHotRestartInProgress
  | ErrInHandshakeStage
  | ErrFileNameTooLong
  | ErrQueueFull
  | errQueueEmpty
  | ErrMsg string

subsection \<open>Numbers as byte strings\<close>

fun le_bytes :: "nat \<Rightarrow> nat \<Rightarrow> bytes" where
  "le_bytes 0 v = []"
| "le_bytes (Suc n) v = word_of_nat v # le_bytes n (v div 256)"

fun le_val :: "bytes \<Rightarrow> nat" where
  "le_val [] = 0"
| "le_val (b # bs) = unat b + 256 * le_val bs"

lemma length_le_bytes [simp]: "length (le_bytes n v) = n"
  by (induction n arbitrary: v) auto

lemma le_bytes_numeral [simp]:
  "le_bytes (numeral k) v = word_of_nat v # le_bytes (pred_numeral k) (v div 256)"
  by (simp add: numeral_eq_Suc [of k])

lemma unat_byte: "unat (word_of_nat v :: u8) = v mod 256"
  by (simp add: unat_of_nat)

lemma le_val_le_bytes: "le_val (le_bytes n v) = v mod 256 ^ n"
proof (induction n arbitrary: v)
  case 0
  then show ?case by simp
next
  case (Suc n)
  have "v mod 256 + 256 * (v div 256 mod 256 ^ n) = v mod (256 * 256 ^ n)"
    by (simp add: mod_mult2_eq add.commute)
  with Suc show ?case by (simp add: unat_byte)
qed

lemma le_val_bound: "le_val bs < 256 ^ length bs"
proof (induction bs)
  case Nil
  then show ?case by simp
next
  case (Cons b bs)
  have "unat b < 256" using unsigned_less [of b] by simp
  with Cons show ?case by simp
qed

lemma le_bytes_le_val: "le_bytes (length bs) (le_val bs) = bs"
proof (induction bs)
  case (Cons b bs)
  have "unat b < 256" using unsigned_less [of b] by simp
  then have "(unat b + 256 * le_val bs) div 256 = le_val bs" by simp
  moreover have "(word_of_nat (unat b + 256 * le_val bs) :: u8) = b"
  proof (rule word_unat_eq_iff [THEN iffD2])
    show "unat (word_of_nat (unat b + 256 * le_val bs) :: u8) = unat b"
      using \<open>unat b < 256\<close> by (simp only: unat_byte mod_mult_self2 mod_less)
  qed
  ultimately show ?case using Cons by simp
qed simp

subsection \<open>Loads and stores of a byte range\<close>

definition load :: "bytes \<Rightarrow> nat \<Rightarrow> nat \<Rightarrow> bytes" where
  "load m a n = take n (drop a m)"

definition store :: "bytes \<Rightarrow> nat \<Rightarrow> bytes \<Rightarrow> bytes" where
  "store m a bs = take a m @ bs @ drop (a + length bs) m"

lemma length_store [simp]: "a + length bs \<le> length m \<Longrightarrow> length (store m a bs) = length m"
  by (simp add: store_def)

lemma length_load [simp]: "a + n \<le> length m \<Longrightarrow> length (load m a n) = n"
  by (simp add: load_def)

lemma load_store_same [mem_simps]:
  "a + length bs \<le> length m \<Longrightarrow> n = length bs \<Longrightarrow> load (store m a bs) a n = bs"
  by (simp add: load_def store_def)

lemma load_store_before [mem_simps]:
  assumes "b + n \<le> a" and "a + length bs \<le> length m"
  shows "load (store m a bs) b n = load m b n"
proof -
  have "take n (drop b (take a m)) = take n (drop b m)"
    using assms by (simp add: drop_take min_def)
  then show ?thesis using assms by (simp add: load_def store_def)
qed

lemma load_store_after [mem_simps]:
  assumes "a + length bs \<le> b" and "a + length bs \<le> length m"
  shows "load (store m a bs) b n = load m b n"
  using assms by (simp add: load_def store_def drop_take)

lemma load_store_disjoint:
  assumes "b + n \<le> a \<or> a + length bs \<le> b" and "a + length bs \<le> length m"
  shows "load (store m a bs) b n = load m b n"
  using assms load_store_before load_store_after by blast

lemma load_load: "i + k \<le> n \<Longrightarrow> load (load m a n) i k = load m (a + i) k"
  by (simp add: load_def drop_take min_def add.commute)

lemma nth_store:
  assumes "a + length src \<le> length m" and "j < length m"
  shows "store m a src ! j = (if a \<le> j \<and> j < a + length src then src ! (j - a) else m ! j)"
  using assms by (auto simp: store_def nth_append min_def)

lemma load_store_inner:
  assumes "a + n \<le> length m" and "i + length src \<le> n"
  shows "load (store m (a + i) src) a n = store (load m a n) i src"
  by (rule nth_equalityI) (use assms in \<open>auto simp: nth_store load_def\<close>)

lemma load_store_join:
  assumes "i + k = a" and "a + length src \<le> length b"
  shows "load (store b a src) i (k + length src) = load b i k @ src"
proof -
  have "load (store b a src) i (k + length src) = load (store b a src) i k @ load (store b a src) a (length src)"
    using assms(1) by (simp add: load_def take_add add.commute)
  with assms show ?thesis by (simp add: load_store_before load_store_same)
qed

lemma store_store_same:
  "a + length bs \<le> length m \<Longrightarrow> length cs = length bs \<Longrightarrow> store (store m a bs) a cs = store m a cs"
  by (simp add: store_def)

lemma store_load: "a + n \<le> length m \<Longrightarrow> store m a (load m a n) = m"
  by (simp add: store_def load_def) (metis append_take_drop_id drop_drop add.commute)

subsection \<open>Typed loads and stores\<close>

text \<open>
  \<open>rd m a\<close> is the Go expression \<^verbatim>\<open>*(*T)(unsafe.Pointer(&m[a]))\<close>, the width of
  the word type \<open>T\<close> giving the number of bytes; \<open>wr m a v\<close> is the assignment.
  The model uses the guarded forms \<open>mload\<close> and \<open>mstore\<close>, which are \<open>None\<close>
  where the access is not inside the memory.
\<close>

definition rd :: "bytes \<Rightarrow> nat \<Rightarrow> 'a::len word" where
  "rd m a = word_of_nat (le_val (load m a (LENGTH('a) div 8)))"

definition wr :: "bytes \<Rightarrow> nat \<Rightarrow> 'a::len word \<Rightarrow> bytes" where
  "wr m a v = store m a (le_bytes (LENGTH('a) div 8) (unat v))"

definition mload :: "bytes \<Rightarrow> nat \<Rightarrow> 'a::len word option" where
  "mload m a = (if a + LENGTH('a) div 8 \<le> length m then Some (rd m a) else None)"

definition mstore :: "bytes \<Rightarrow> nat \<Rightarrow> 'a::len word \<Rightarrow> bytes option" where
  "mstore m a v = (if a + LENGTH('a) div 8 \<le> length m then Some (wr m a v) else None)"

lemma length_wr [simp]:
  fixes v :: "'a::len word"
  shows "a + LENGTH('a) div 8 \<le> length m \<Longrightarrow> length (wr m a v) = length m"
  by (simp add: wr_def)

lemma rd_wr_same [mem_simps]:
  fixes v :: "'a::len word"
  assumes "a + LENGTH('a) div 8 \<le> length m" and "8 dvd LENGTH('a)"
  shows "rd (wr m a v) a = v"
proof -
  have "(256::nat) ^ (LENGTH('a) div 8) = 2 ^ LENGTH('a)"
    using assms(2) power_mult [of "2::nat" 8 "LENGTH('a) div 8"] by simp
  moreover have "unat v < 2 ^ LENGTH('a)" by (rule unsigned_less)
  ultimately show ?thesis
    using assms(1) by (simp add: rd_def wr_def load_store_same le_val_le_bytes)
qed

lemma mload_Some [simp]:
  "a + LENGTH('a::len) div 8 \<le> length m \<Longrightarrow> mload m a = Some (rd m a :: 'a word)"
  by (simp add: mload_def)

lemma mstore_Some [simp]:
  "a + LENGTH('a::len) div 8 \<le> length m \<Longrightarrow> mstore m a (v :: 'a word) = Some (wr m a v)"
  by (simp add: mstore_def)

lemma wr_wr_same [mem_simps]:
  fixes v w :: "'a::len word"
  shows "a + LENGTH('a) div 8 \<le> length m \<Longrightarrow> wr (wr m a v) a w = wr m a w"
  by (simp add: wr_def store_store_same)

lemma wr_rd_same [mem_simps]:
  assumes "a + LENGTH('a::len) div 8 \<le> length m" and "8 dvd LENGTH('a)"
  shows "wr m a (rd m a :: 'a word) = m"
proof -
  let ?bs = "load m a (LENGTH('a) div 8)"
  have l: "length ?bs = LENGTH('a) div 8" using assms(1) by simp
  have "(256::nat) ^ (LENGTH('a) div 8) = 2 ^ LENGTH('a)"
    using assms(2) power_mult [of "2::nat" 8 "LENGTH('a) div 8"] by simp
  then have "le_val ?bs < 2 ^ LENGTH('a)" using le_val_bound [of ?bs] l by simp
  then have "unat (rd m a :: 'a word) = le_val ?bs" by (simp add: rd_def unat_of_nat)
  then have "le_bytes (LENGTH('a) div 8) (unat (rd m a :: 'a word)) = ?bs" using le_bytes_le_val [of ?bs] l by simp
  then show ?thesis using store_load [OF assms(1)] by (simp add: wr_def)
qed

subsection \<open>Footprints\<close>

text \<open>
  \<open>unchanged_off A m m'\<close>: the memories differ only at addresses in \<open>A\<close>. Every
  operation on shared memory has a footprint, and a load outside the footprint
  sees the old value.
\<close>

definition unchanged_off :: "nat set \<Rightarrow> bytes \<Rightarrow> bytes \<Rightarrow> bool" where
  "unchanged_off A m m' \<longleftrightarrow>
     length m' = length m \<and> (\<forall>i < length m. i \<notin> A \<longrightarrow> m' ! i = m ! i)"

lemma unchanged_off_refl [simp, intro]: "unchanged_off A m m"
  by (simp add: unchanged_off_def)

lemma unchanged_off_length: "unchanged_off A m m' \<Longrightarrow> length m' = length m"
  by (simp add: unchanged_off_def)

lemma unchanged_off_trans:
  "unchanged_off A m m' \<Longrightarrow> unchanged_off B m' m'' \<Longrightarrow> unchanged_off (A \<union> B) m m''"
  by (simp add: unchanged_off_def)

lemma unchanged_off_seq: "unchanged_off A m m' \<Longrightarrow> unchanged_off A m' m'' \<Longrightarrow> unchanged_off A m m''"
  by (simp add: unchanged_off_def)

lemma unchanged_off_mono: "unchanged_off A m m' \<Longrightarrow> A \<subseteq> B \<Longrightarrow> unchanged_off B m m'"
  by (auto simp: unchanged_off_def)

lemma unchanged_off_store:
  assumes "a + length bs \<le> length m"
  shows "unchanged_off {a..<a + length bs} m (store m a bs)"
  using assms by (auto simp: unchanged_off_def store_def nth_append)

lemma unchanged_off_wr [intro]:
  fixes v :: "'a::len word"
  assumes "a + LENGTH('a) div 8 \<le> length m"
  shows "unchanged_off {a..<a + LENGTH('a) div 8} m (wr m a v)"
  using assms unchanged_off_store [of a "le_bytes (LENGTH('a) div 8) (unat v)" m]
  by (simp add: wr_def)

lemma unchanged_off_wrI:
  fixes v :: "'a::len word"
  assumes "unchanged_off A m m'" and "{a..<a + LENGTH('a) div 8} \<subseteq> A"
    and "a + LENGTH('a) div 8 \<le> length m"
  shows "unchanged_off A m (wr m' a v)"
  using unchanged_off_trans [OF assms(1) unchanged_off_mono [OF unchanged_off_wr assms(2)], of v]
    assms(1,3) by (simp add: unchanged_off_def)

lemma load_unchanged:
  assumes "unchanged_off A m m'" and "{a..<a + n} \<inter> A = {}" and "a + n \<le> length m"
  shows "load m' a n = load m a n"
proof (rule nth_equalityI)
  show "length (load m' a n) = length (load m a n)"
    using assms by (simp add: unchanged_off_def)
next
  fix i
  assume "i < length (load m' a n)"
  with assms have "i < n" by (simp add: unchanged_off_def)
  moreover from this have "a + i \<in> {a..<a + n}" by simp
  with assms(2) have "a + i \<notin> A" by blast
  ultimately show "load m' a n ! i = load m a n ! i"
    using assms(1,3) by (simp add: unchanged_off_def load_def)
qed

lemma rd_unchanged:
  assumes "unchanged_off A m m'" and "{a..<a + LENGTH('a) div 8} \<inter> A = {}"
    and "a + LENGTH('a) div 8 \<le> length m"
  shows "(rd m' a :: 'a::len word) = rd m a"
  using load_unchanged [OF assms] by (simp add: rd_def)

lemma rd_frame:
  assumes "unchanged_off A m m'" and "F \<inter> A = {}" and "{a..<a + LENGTH('a) div 8} \<subseteq> F"
    and "a + LENGTH('a) div 8 \<le> length m"
  shows "(rd m' a :: 'a::len word) = rd m a"
  using assms(2,3) by (intro rd_unchanged [OF assms(1) _ assms(4)]) blast

lemma rd_wr_before:
  fixes v :: "'a::len word"
  assumes "b + LENGTH('b) div 8 \<le> a" and "a + LENGTH('a) div 8 \<le> length m"
  shows "(rd (wr m a v) b :: 'b::len word) = rd m b"
  using assms by (intro rd_unchanged [OF unchanged_off_wr]) auto

lemma rd_wr_after:
  fixes v :: "'a::len word"
  assumes "a + LENGTH('a) div 8 \<le> b" and "a + LENGTH('a) div 8 \<le> length m"
  shows "(rd (wr m a v) b :: 'b::len word) = rd m b"
  using assms by (simp add: rd_def wr_def load_store_after)

text \<open>Two address ranges that do not meet. Layout facts are stated with it, so that
  the simplifier finds them among the assumptions.\<close>

definition sep :: "nat \<Rightarrow> nat \<Rightarrow> nat \<Rightarrow> nat \<Rightarrow> bool" where
  "sep b n a k \<longleftrightarrow> b + n \<le> a \<or> a + k \<le> b"

lemma sep_before [simp]: "b + n \<le> a \<Longrightarrow> sep b n a k"
  by (simp add: sep_def)

lemma sep_after [simp]: "a + k \<le> b \<Longrightarrow> sep b n a k"
  by (simp add: sep_def)

lemma sep_sym: "sep b n a k \<Longrightarrow> sep a k b n"
  by (auto simp: sep_def)

lemma rd_wr_sep [mem_simps]:
  fixes v :: "'a::len word"
  assumes "sep b (LENGTH('b) div 8) a (LENGTH('a) div 8)" and "a + LENGTH('a) div 8 \<le> length m"
  shows "(rd (wr m a v) b :: 'b::len word) = rd m b"
  using assms rd_wr_before rd_wr_after unfolding sep_def by blast

subsection \<open>Atomic operations\<close>

text \<open>\<^verbatim>\<open>atomic.AddInt32\<close>, \<^verbatim>\<open>atomic.AddInt64\<close> (the new value and the new
  memory) and \<^verbatim>\<open>atomic.CompareAndSwapUint32\<close>, as sequential operations.\<close>

definition atomic_add :: "bytes \<Rightarrow> nat \<Rightarrow> 'a::len word \<Rightarrow> ('a word \<times> bytes) option" where
  "atomic_add m a d = do {
     v \<leftarrow> mload m a;
     m' \<leftarrow> mstore m a (v + d);
     Some (v + d, m')
   }"

definition atomic_cas :: "bytes \<Rightarrow> nat \<Rightarrow> 'a::len word \<Rightarrow> 'a word \<Rightarrow> (bool \<times> bytes) option" where
  "atomic_cas m a old new = do {
     v \<leftarrow> mload m a;
     if v = old then do { m' \<leftarrow> mstore m a new; Some (True, m') }
     else Some (False, m)
   }"

lemma atomic_add_Some [simp]:
  fixes d :: "'a::len word"
  assumes "a + LENGTH('a) div 8 \<le> length m"
  shows "atomic_add m a d = Some (rd m a + d, wr m a (rd m a + d))"
  using assms by (simp add: atomic_add_def)

lemma atomic_cas_Some [simp]:
  fixes old :: "'a::len word"
  assumes "a + LENGTH('a) div 8 \<le> length m"
  shows "atomic_cas m a old new =
    Some (if rd m a = old then (True, wr m a new) else (False, m))"
  using assms by (simp add: atomic_cas_def)

subsection \<open>Go slices of a mapped memory and Go integers\<close>

text \<open>
  A slice of the mapped memory is its first address, its length and its capacity;
  \<open>sub_slice s lo hi\<close> is \<^verbatim>\<open>s[lo:hi]\<close> (Go checks the upper bound against the
  capacity), \<open>elem_addr s i\<close> is \<^verbatim>\<open>&s[i]\<close> (checked against the length).
  Out of range both panic.
\<close>

record gslice =
  sl_base :: nat
  sl_len :: nat
  sl_cap :: nat

definition whole_slice :: "bytes \<Rightarrow> gslice" where
  "whole_slice m = \<lparr>sl_base = 0, sl_len = length m, sl_cap = length m\<rparr>"

definition sub_slice :: "gslice \<Rightarrow> int \<Rightarrow> int \<Rightarrow> gslice option" where
  "sub_slice s lo hi =
     (if 0 \<le> lo \<and> lo \<le> hi \<and> hi \<le> int (sl_cap s)
      then Some \<lparr>sl_base = sl_base s + nat lo, sl_len = nat (hi - lo), sl_cap = sl_cap s - nat lo\<rparr>
      else None)"

definition elem_addr :: "gslice \<Rightarrow> int \<Rightarrow> nat option" where
  "elem_addr s i = (if 0 \<le> i \<and> i < int (sl_len s) then Some (sl_base s + nat i) else None)"

definition slice_load :: "bytes \<Rightarrow> gslice \<Rightarrow> int \<Rightarrow> 'a::len word option" where
  "slice_load m s i = do { a \<leftarrow> elem_addr s i; mload m a }"

definition slice_store :: "bytes \<Rightarrow> gslice \<Rightarrow> int \<Rightarrow> 'a::len word \<Rightarrow> bytes option" where
  "slice_store m s i v = do { a \<leftarrow> elem_addr s i; mstore m a v }"

lemma slice_load_Some [simp]:
  assumes "i < sl_len s" and "sl_base s + i + LENGTH('a::len) div 8 \<le> length m"
  shows "slice_load m s (int i) = Some (rd m (sl_base s + i) :: 'a word)"
  using assms by (simp add: slice_load_def elem_addr_def)

lemma slice_store_Some [simp]:
  fixes v :: "'a::len word"
  assumes "i < sl_len s" and "sl_base s + i + LENGTH('a) div 8 \<le> length m"
  shows "slice_store m s (int i) v = Some (wr m (sl_base s + i) v)"
  using assms by (simp add: slice_store_def elem_addr_def)

text \<open>Go's remainder truncates towards zero and panics on a zero divisor.\<close>

definition go_rem :: "int \<Rightarrow> int \<Rightarrow> int option" where
  "go_rem a b = (if b = 0 then None else Some (sgn a * (\<bar>a\<bar> mod \<bar>b\<bar>)))"

lemma go_rem_nonneg: "0 \<le> a \<Longrightarrow> 0 < b \<Longrightarrow> go_rem a b = Some (a mod b)"
  by (cases "a = 0") (simp_all add: go_rem_def)

text \<open>A signed 64 bit counter that is not negative reads the same unsigned.\<close>

lemma sint_eq_unat:
  fixes w :: "'a::len word"
  assumes "unat w < 2 ^ (LENGTH('a) - 1)"
  shows "sint w = int (unat w)"
proof -
  have u: "uint w = int (unat w)" by (rule uint_nat)
  from assms have "int (unat w) < int (2 ^ (LENGTH('a) - 1))"
    by (simp only: of_nat_less_iff)
  then have "uint w < 2 ^ (LENGTH('a) - 1)" by (simp add: u)
  moreover have "- (2 ^ (LENGTH('a) - 1)) \<le> uint w"
    by (rule order_trans [of _ 0]) simp_all
  ultimately have "sint w = uint w"
    by (simp only: sint_uint signed_take_bit_int_eq_self One_nat_def)
  with u show ?thesis by (simp only:)
qed

lemma unat_plus_one:
  fixes w :: "'a::len word"
  assumes "unat w + 1 < 2 ^ LENGTH('a)"
  shows "unat (w + 1) = unat w + 1"
  using assms by (simp add: unat_word_ariths)

lemma unat_of_nat32: "x < 2 ^ 32 \<Longrightarrow> unat (word_of_nat x :: u32) = x"
  by (simp add: unat_of_nat)

lemma uint_of_nat32: "x < 2 ^ 32 \<Longrightarrow> uint (word_of_nat x :: u32) = int x"
  by (simp add: uint_nat unat_of_nat32)

text \<open>The live slots of a ring with running counters are not the slot that is filled next.\<close>

lemma live_slot_neq:
  assumes "h \<le> i" and "i < t" and "t < h + (c::nat)"
  shows "i mod c \<noteq> t mod c"
proof
  assume "i mod c = t mod c"
  then have "c dvd t - i" using mod_eq_dvd_iff_nat [of i t c] assms(2) by simp
  moreover have "0 < t - i" "t - i < c" using assms by auto
  ultimately show False by (simp add: nat_dvd_not_less)
qed

end
