(* ===== verification/Os_Interface.thy ===== *)
theory Os_Interface
  imports Shm_Prelude
begin

text \<open>
  What the program asks of the operating system, as one record of functions that the
  definitions take as an argument, and the helpers of \<^verbatim>\<open>util.go\<close> that wrap it. The
  record stands for code outside the repository (the Go runtime, the kernel, the disk
  usage package); nothing is assumed of it here. Results that depend on it carry a
  hypothesis such as \<open>mmap_ok\<close>, which states the documented behaviour of
  \<^verbatim>\<open>mmap\<close>: the mapping has the length that was asked for.
\<close>

datatype memMapType = MemMapTypeDevShmFile | MemMapTypeMemFd

record file_info =
  fi_Size :: nat
  fi_IsDir :: bool

record os_env =
  os_GOOS :: string
  os_GOARCH :: string
  os_Stat :: "string \<Rightarrow> bool + file_info"  \<comment> \<open>on an error, the result of \<^verbatim>\<open>os.IsExist\<close>\<close>
  os_Remove :: "string \<Rightarrow> go_error option"
  os_Create :: "string \<Rightarrow> go_error option"
  os_Open :: "string \<Rightarrow> go_error option"
  os_Truncate :: "nat \<Rightarrow> go_error option"
  os_Mmap :: "nat \<Rightarrow> go_error + bytes"
  os_MemfdCreate :: "string \<Rightarrow> go_error + int"
  os_Fstat :: "int \<Rightarrow> go_error + nat"
  os_DiskFree :: "u64 option"  \<comment> \<open>free bytes of \<^verbatim>\<open>/dev/shm\<close>, \<open>None\<close> on an error\<close>

definition mmap_ok :: "os_env \<Rightarrow> bool" where
  "mmap_ok os \<longleftrightarrow> (\<forall>n mem. os_Mmap os n = Inr mem \<longrightarrow> length mem = n)"

subsection \<open>The helpers of util.go\<close>

definition isArmArch :: "os_env \<Rightarrow> bool" where
  "isArmArch os \<longleftrightarrow> os_GOARCH os = ''arm'' \<or> os_GOARCH os = ''arm64''"

definition minInt :: "int \<Rightarrow> int \<Rightarrow> int" where
  "minInt a b = (if a < b then a else b)"

definition maxInt :: "int \<Rightarrow> int \<Rightarrow> int" where
  "maxInt a b = (if a < b then b else a)"

definition pathExists :: "os_env \<Rightarrow> string \<Rightarrow> bool" where
  "pathExists os path = (case os_Stat os path of Inl isExist \<Rightarrow> isExist | Inr _ \<Rightarrow> True)"

text \<open>\<^verbatim>\<open>strings.Contains\<close>.\<close>

fun str_prefix :: "string \<Rightarrow> string \<Rightarrow> bool" where
  "str_prefix [] s = True"
| "str_prefix (c # cs) [] = False"
| "str_prefix (c # cs) (d # ds) = (c = d \<and> str_prefix cs ds)"

fun str_contains :: "string \<Rightarrow> string \<Rightarrow> bool" where
  "str_contains [] sub = str_prefix sub []"
| "str_contains (c # cs) sub = (str_prefix sub (c # cs) \<or> str_contains cs sub)"

definition canCreateOnDevShm :: "os_env \<Rightarrow> u64 \<Rightarrow> string \<Rightarrow> bool" where
  "canCreateOnDevShm os sz path =
     (if os_GOOS os = ''linux'' \<and> str_contains path ''/dev/shm'' then
        (case os_DiskFree os of None \<Rightarrow> False | Some free \<Rightarrow> free \<ge> sz)
      else True)"

definition safeRemoveUdsFile :: "os_env \<Rightarrow> string \<Rightarrow> bool" where
  "safeRemoveUdsFile os filename =
     (case os_Stat os filename of
        Inl _ \<Rightarrow> False
      | Inr fi \<Rightarrow> if fi_IsDir fi then False
                  else (case os_Remove os filename of Some _ \<Rightarrow> False | None \<Rightarrow> True))"

end
