(* ===== verification/Fifo_Interface.thy ===== *)
theory Fifo_Interface
  imports Main
begin

text \<open>
  The contract of a bounded first-in first-out ring. The IO queue of \<^verbatim>\<open>queue.go\<close>
  and the stream pool of \<^verbatim>\<open>session_manager.go\<close> both promise it: \<open>items\<close> is the
  abstraction to a list, \<open>room\<close> says that the ring has a free slot, and \<open>budget\<close>
  is the number of insertions that the running counters of the ring still allow
  before they overflow. The clients' lemma, proved once here, is that any mixture of
  insertions and removals delivers exactly what was inserted, in order.
\<close>

datatype 'e fifo_op = Enq 'e | Deq

locale bounded_fifo =
  fixes invar :: "'s \<Rightarrow> bool"
    and items :: "'s \<Rightarrow> 'e list"
    and capacity :: nat
    and budget :: "'s \<Rightarrow> nat"
    and enq :: "'e \<Rightarrow> 's \<Rightarrow> 's option"
    and deq :: "'s \<Rightarrow> ('e \<times> 's) option"
  assumes items_bound: "invar s \<Longrightarrow> length (items s) \<le> capacity"
    and enq_room: "\<lbrakk>invar s; length (items s) < capacity; 0 < budget s\<rbrakk> \<Longrightarrow>
      \<exists>s'. enq e s = Some s' \<and> invar s' \<and> items s' = items s @ [e] \<and> budget s' = budget s - 1"
    and enq_full: "\<lbrakk>invar s; length (items s) = capacity\<rbrakk> \<Longrightarrow> enq e s = None"
    and deq_empty: "\<lbrakk>invar s; items s = []\<rbrakk> \<Longrightarrow> deq s = None"
    and deq_Cons: "\<lbrakk>invar s; items s = x # xs\<rbrakk> \<Longrightarrow>
      \<exists>s'. deq s = Some (x, s') \<and> invar s' \<and> items s' = xs \<and> budget s' = budget s"
begin

text \<open>A run: a refused insertion and a removal from an empty ring change nothing.
  The results are the accepted insertions, the removed items and the final state.\<close>

fun run_ops :: "'e fifo_op list \<Rightarrow> 's \<Rightarrow> 'e list \<times> 'e list \<times> 's" where
  "run_ops [] s = ([], [], s)"
| "run_ops (Enq e # os) s =
     (case enq e s of
        None \<Rightarrow> run_ops os s
      | Some s' \<Rightarrow> (case run_ops os s' of (ins, outs, t) \<Rightarrow> (e # ins, outs, t)))"
| "run_ops (Deq # os) s =
     (case deq s of
        None \<Rightarrow> run_ops os s
      | Some (x, s') \<Rightarrow> (case run_ops os s' of (ins, outs, t) \<Rightarrow> (ins, x # outs, t)))"

lemma enq_cases:
  assumes "invar s" and "0 < budget s"
  obtains (full) "length (items s) = capacity" "enq e s = None"
    | (room) s' where "enq e s = Some s'" "invar s'" "items s' = items s @ [e]"
        "budget s' = budget s - 1"
proof (cases "length (items s) = capacity")
  case True
  show ?thesis by (rule full [OF True enq_full [OF assms(1) True]])
next
  case False
  with items_bound [OF assms(1)] have "length (items s) < capacity" by simp
  from enq_room [OF assms(1) this assms(2), of e] room show ?thesis by auto
qed

lemma deq_cases:
  assumes "invar s"
  obtains (empty) "items s = []" "deq s = None"
    | (item) x s' where "deq s = Some (x, s')" "invar s'" "items s = x # items s'"
        "budget s' = budget s"
proof (cases "items s")
  case Nil
  show ?thesis by (rule empty [OF Nil deq_empty [OF assms Nil]])
next
  case (Cons x xs)
  from deq_Cons [OF assms Cons] Cons item show ?thesis by auto
qed

theorem run_ops_fifo:
  assumes "invar s" and "length os \<le> budget s" and "run_ops os s = (ins, outs, t)"
  shows "invar t \<and> items s @ ins = outs @ items t \<and> length (items t) \<le> capacity"
  using assms
proof (induction os arbitrary: s ins outs)
  case Nil
  then show ?case by (simp add: items_bound)
next
  case (Cons o' os)
  show ?case
  proof (cases o')
    case (Enq e)
    have "0 < budget s" using Cons.prems(2) by simp
    with Cons.prems(1) show ?thesis
    proof (cases rule: enq_cases [of s e])
      case full
      with Cons.prems Enq Cons.IH [of s ins outs] show ?thesis by simp
    next
      case (room s')
      with Cons.prems Enq obtain ins' where "run_ops os s' = (ins', outs, t)" "ins = e # ins'"
        by (auto split: prod.splits)
      moreover have "length os \<le> budget s'" using Cons.prems(2) room by simp
      ultimately show ?thesis using Cons.IH [of s' ins' outs] room by simp
    qed
  next
    case Deq
    from Cons.prems(1) show ?thesis
    proof (cases rule: deq_cases [of s])
      case empty
      with Cons.prems Deq Cons.IH [of s ins outs] show ?thesis by simp
    next
      case (item x s')
      with Cons.prems Deq obtain outs' where "run_ops os s' = (ins, outs', t)" "outs = x # outs'"
        by (auto split: prod.splits)
      then show ?thesis using Cons.IH [of s' ins outs'] Cons.prems(2) item by simp
    qed
  qed
qed

text \<open>The consumer's drain loop: it returns every item, oldest first, and stops.\<close>

fun drain :: "nat \<Rightarrow> 's \<Rightarrow> 'e list \<times> 's" where
  "drain 0 s = ([], s)"
| "drain (Suc n) s =
     (case deq s of
        None \<Rightarrow> ([], s)
      | Some (x, s') \<Rightarrow> (case drain n s' of (xs, t) \<Rightarrow> (x # xs, t)))"

lemma drain_all:
  assumes "invar s" and "length (items s) \<le> n"
  shows "\<exists>t. drain n s = (items s, t) \<and> invar t \<and> items t = [] \<and> budget t = budget s"
  using assms
proof (induction n arbitrary: s)
  case 0
  then show ?case by simp
next
  case (Suc n)
  from Suc.prems(1) show ?case
  proof (cases rule: deq_cases [of s])
    case empty
    with Suc.prems show ?thesis by simp
  next
    case (item x s')
    with Suc.prems Suc.IH [of s'] show ?thesis by (auto split: prod.splits)
  qed
qed

end

end
