(* ===== verification/Io_Queue.thy ===== *)
theory Io_Queue
  imports Shm_Prelude Os_Interface Fifo_Interface
begin

text \<open>
  The IO queue of \<^verbatim>\<open>queue.go\<close>: a ring of twelve byte elements in shared memory
  with two running counters, \<open>head\<close> (written by the consumer) and \<open>tail\<close> (written
  by the producer). The record \<open>queue\<close> holds the addresses of the counters in the
  mapping and the slice of the elements, as the Go struct does; the memory itself is
  passed through the operations. The layout depends on the architecture (argument
  \<open>arm\<close>, the result of \<^verbatim>\<open>isArmArch\<close>).
\<close>

subsection \<open>Data\<close>

definition queueHeaderLength :: nat where [consts_defs]: "queueHeaderLength = 24"
definition queueElementLen :: nat where [consts_defs]: "queueElementLen = 12"
definition queueCount :: nat where [consts_defs]: "queueCount = 2"

record queue =
  q_head :: nat
  q_tail :: nat
  q_workingFlag :: nat
  q_cap :: u64
  queueBytesOnMemory :: gslice

record queueElement =
  seqID :: u32
  offsetInShmBuf :: u32
  status :: u32

record queueManager =
  qm_path :: string
  sendQueue :: queue
  recvQueue :: queue
  qm_mmapMapType :: memMapType
  qm_memFd :: int

subsection \<open>Construction\<close>

definition countQueueMemSize :: "u32 \<Rightarrow> nat" where
  "countQueueMemSize queueCap = queueHeaderLength + queueElementLen * unat queueCap"

definition mappingQueueFromBytes :: "bool \<Rightarrow> gslice \<Rightarrow> bytes \<Rightarrow> queue option" where
  "mappingQueueFromBytes arm data m = do {
     cap \<leftarrow> (slice_load m data 0 :: u32 option);
     let queueEndOffset = word_of_nat queueHeaderLength + cap * word_of_nat queueElementLen;
     let (wOff, hOff, tOff) = (if arm then (4, 8, 16) else (20, 4, 12));
     w \<leftarrow> elem_addr data wOff;
     h \<leftarrow> elem_addr data hOff;
     t \<leftarrow> elem_addr data tOff;
     region \<leftarrow> sub_slice data (int queueHeaderLength) (uint (queueEndOffset :: u32));
     Some \<lparr>q_head = h, q_tail = t, q_workingFlag = w, q_cap = ucast cap,
           queueBytesOnMemory = region\<rparr>
   }"

definition createQueueFromBytes :: "bool \<Rightarrow> gslice \<Rightarrow> u32 \<Rightarrow> bytes \<Rightarrow> (queue \<times> bytes) option" where
  "createQueueFromBytes arm data cap m = do {
     m1 \<leftarrow> slice_store m data 0 cap;
     q \<leftarrow> mappingQueueFromBytes arm data m1;
     m2 \<leftarrow> mstore m1 (q_head q) (0 :: u64);
     m3 \<leftarrow> mstore m2 (q_tail q) (0 :: u64);
     m4 \<leftarrow> mstore m3 (q_workingFlag q) (0 :: u32);
     Some (q, m4)
   }"

definition createQueue :: "bool \<Rightarrow> u32 \<Rightarrow> (queue \<times> bytes) option" where
  "createQueue arm cap =
     (let mem = replicate (queueHeaderLength + unat (cap * word_of_nat queueElementLen)) 0
      in createQueueFromBytes arm (whole_slice mem) cap mem)"

text \<open>The two halves of the mapping: the creator sends on the first and receives on the
  second, the peer that maps it the other way round.\<close>

definition createQueues :: "bool \<Rightarrow> u32 \<Rightarrow> bytes \<Rightarrow> ((queue \<times> queue) \<times> bytes) option" where
  "createQueues arm queueCap mem = do {
     let memSize = int (countQueueMemSize queueCap * queueCount);
     lo \<leftarrow> sub_slice (whole_slice mem) 0 (memSize div 2);
     hi \<leftarrow> sub_slice (whole_slice mem) (memSize div 2) (int (length mem));
     (sq, m1) \<leftarrow> createQueueFromBytes arm lo queueCap mem;
     (rq, m2) \<leftarrow> createQueueFromBytes arm hi queueCap m1;
     Some ((sq, rq), m2)
   }"

definition mapQueues :: "bool \<Rightarrow> nat \<Rightarrow> bytes \<Rightarrow> (queue \<times> queue) option" where
  "mapQueues arm mappingSize mem = do {
     hi \<leftarrow> sub_slice (whole_slice mem) (int mappingSize div 2) (int (length mem));
     lo \<leftarrow> sub_slice (whole_slice mem) 0 (int mappingSize div 2);
     sq \<leftarrow> mappingQueueFromBytes arm hi mem;
     rq \<leftarrow> mappingQueueFromBytes arm lo mem;
     Some (sq, rq)
   }"

definition createQueueManagerWithMemFd ::
  "os_env \<Rightarrow> string \<Rightarrow> u32 \<Rightarrow> (go_error + queueManager \<times> bytes) option" where
  "createQueueManagerWithMemFd os queuePathName queueCap =
     (case os_MemfdCreate os queuePathName of
        Inl err \<Rightarrow> Some (Inl err)
      | Inr memFd \<Rightarrow>
          let memSize = countQueueMemSize queueCap * queueCount in
          case os_Truncate os memSize of
            Some err \<Rightarrow> Some (Inl (ErrMsg ''createQueueManagerWithMemFd truncate share memory failed''))
          | None \<Rightarrow>
              case os_Mmap os memSize of
                Inl err \<Rightarrow> Some (Inl err)
              | Inr mem \<Rightarrow> do {
                  ((sq, rq), mem') \<leftarrow> createQueues (isArmArch os) queueCap (map (\<lambda>_. 0) mem);
                  Some (Inr (\<lparr>qm_path = queuePathName, sendQueue = sq, recvQueue = rq,
                              qm_mmapMapType = MemMapTypeMemFd, qm_memFd = memFd\<rparr>, mem'))
                })"

definition createQueueManager ::
  "os_env \<Rightarrow> string \<Rightarrow> u32 \<Rightarrow> (go_error + queueManager \<times> bytes) option" where
  "createQueueManager os shmPath queueCap =
     (if pathExists os shmPath then Some (Inl (ErrMsg ''queue was existed''))
      else let memSize = countQueueMemSize queueCap * queueCount in
      if \<not> canCreateOnDevShm os (word_of_nat memSize) shmPath
      then Some (Inl (ErrMsg ''share memory had not left space''))
      else case os_Create os shmPath of
        Some err \<Rightarrow> Some (Inl err)
      | None \<Rightarrow>
          case os_Truncate os memSize of
            Some err \<Rightarrow> Some (Inl (ErrMsg ''truncate share memory failed''))
          | None \<Rightarrow>
              case os_Mmap os memSize of
                Inl err \<Rightarrow> Some (Inl err)
              | Inr mem \<Rightarrow> do {
                  ((sq, rq), mem') \<leftarrow> createQueues (isArmArch os) queueCap (map (\<lambda>_. 0) mem);
                  Some (Inr (\<lparr>qm_path = shmPath, sendQueue = sq, recvQueue = rq,
                              qm_mmapMapType = MemMapTypeDevShmFile, qm_memFd = 0\<rparr>, mem'))
                })"

definition mappingQueueManagerMemfd ::
  "os_env \<Rightarrow> string \<Rightarrow> int \<Rightarrow> (go_error + queueManager \<times> bytes) option" where
  "mappingQueueManagerMemfd os queuePathName memFd =
     (case os_Fstat os memFd of
        Inl err \<Rightarrow> Some (Inl err)
      | Inr mappingSize \<Rightarrow>
          if isArmArch os \<and> mappingSize mod 16 \<noteq> 0
          then Some (Inl (ErrMsg ''the memory size of queue should be a multiple of 16''))
          else case os_Mmap os mappingSize of
            Inl err \<Rightarrow> Some (Inl err)
          | Inr mem \<Rightarrow> do {
              (sq, rq) \<leftarrow> mapQueues (isArmArch os) mappingSize mem;
              Some (Inr (\<lparr>qm_path = queuePathName, sendQueue = sq, recvQueue = rq,
                          qm_mmapMapType = MemMapTypeMemFd, qm_memFd = memFd\<rparr>, mem))
            })"

definition mappingQueueManager ::
  "os_env \<Rightarrow> string \<Rightarrow> (go_error + queueManager \<times> bytes) option" where
  "mappingQueueManager os shmPath =
     (case os_Open os shmPath of
        Some err \<Rightarrow> Some (Inl err)
      | None \<Rightarrow>
          case os_Stat os shmPath of
            Inl _ \<Rightarrow> Some (Inl (ErrMsg ''stat failed''))
          | Inr fi \<Rightarrow>
              let mappingSize = fi_Size fi in
              if isArmArch os \<and> mappingSize mod 16 \<noteq> 0
              then Some (Inl (ErrMsg ''the memory size of queue should be a multiple of 16''))
              else case os_Mmap os mappingSize of
                Inl err \<Rightarrow> Some (Inl err)
              | Inr mem \<Rightarrow> do {
                  (sq, rq) \<leftarrow> mapQueues (isArmArch os) mappingSize mem;
                  Some (Inr (\<lparr>qm_path = shmPath, sendQueue = sq, recvQueue = rq,
                              qm_mmapMapType = MemMapTypeDevShmFile, qm_memFd = 0\<rparr>, mem))
                })"

subsection \<open>Operations\<close>

definition queue_size :: "queue \<Rightarrow> bytes \<Rightarrow> u64 option" where
  "queue_size q m = do { t \<leftarrow> mload m (q_tail q); h \<leftarrow> mload m (q_head q); Some (t - h) }"

definition queue_isFull :: "queue \<Rightarrow> bytes \<Rightarrow> bool option" where
  "queue_isFull q m = do { n \<leftarrow> queue_size q m; Some (n = q_cap q) }"

definition queue_isEmpty :: "queue \<Rightarrow> bytes \<Rightarrow> bool option" where
  "queue_isEmpty q m = do { n \<leftarrow> queue_size q m; Some (n = 0) }"

definition queue_pop :: "queue \<Rightarrow> bytes \<Rightarrow> ((go_error + queueElement) \<times> bytes) option" where
  "queue_pop q m = do {
     head \<leftarrow> (mload m (q_head q) :: u64 option);
     tail \<leftarrow> (mload m (q_tail q) :: u64 option);
     if sint head \<ge> sint tail then Some (Inl errQueueEmpty, m)
     else do {
       r \<leftarrow> go_rem (sint head) (sint (q_cap q));
       let queueOffset = r * int queueElementLen;
       sid \<leftarrow> slice_load m (queueBytesOnMemory q) queueOffset;
       off \<leftarrow> slice_load m (queueBytesOnMemory q) (queueOffset + 4);
       stat \<leftarrow> slice_load m (queueBytesOnMemory q) (queueOffset + 8);
       (_, m') \<leftarrow> atomic_add m (q_head q) (1 :: u64);
       Some (Inr \<lparr>seqID = sid, offsetInShmBuf = off, status = stat\<rparr>, m')
     }
   }"

definition queue_put :: "queue \<Rightarrow> queueElement \<Rightarrow> bytes \<Rightarrow> (go_error option \<times> bytes) option" where
  "queue_put q e m = do {
     tail \<leftarrow> (mload m (q_tail q) :: u64 option);
     head \<leftarrow> mload m (q_head q);
     if sint (tail - head) \<ge> sint (q_cap q) then Some (Some ErrQueueFull, m)
     else do {
       r \<leftarrow> go_rem (sint tail) (sint (q_cap q));
       let queueOffset = r * int queueElementLen;
       m1 \<leftarrow> slice_store m (queueBytesOnMemory q) queueOffset (seqID e);
       m2 \<leftarrow> slice_store m1 (queueBytesOnMemory q) (queueOffset + 4) (offsetInShmBuf e);
       m3 \<leftarrow> slice_store m2 (queueBytesOnMemory q) (queueOffset + 8) (status e);
       (_, m4) \<leftarrow> atomic_add m3 (q_tail q) (1 :: u64);
       Some (None, m4)
     }
   }"

definition consumerIsWorking :: "queue \<Rightarrow> bytes \<Rightarrow> bool option" where
  "consumerIsWorking q m = do { f \<leftarrow> (mload m (q_workingFlag q) :: u32 option); Some (f > 0) }"

definition markWorking :: "queue \<Rightarrow> bytes \<Rightarrow> (bool \<times> bytes) option" where
  "markWorking q m = atomic_cas m (q_workingFlag q) (0 :: u32) 1"

definition markNotWorking :: "queue \<Rightarrow> bytes \<Rightarrow> (bool \<times> bytes) option" where
  "markNotWorking q m = do {
     m1 \<leftarrow> mstore m (q_workingFlag q) (0 :: u32);
     n \<leftarrow> queue_size q m1;
     if n = 0 then Some (True, m1)
     else do { m2 \<leftarrow> mstore m1 (q_workingFlag q) (1 :: u32); Some (False, m2) }
   }"

subsection \<open>Invariant and abstraction\<close>

abbreviation qcap :: "queue \<Rightarrow> nat" where "qcap q \<equiv> unat (q_cap q)"
abbreviation qbase :: "queue \<Rightarrow> nat" where "qbase q \<equiv> sl_base (queueBytesOnMemory q)"
abbreviation qhead :: "queue \<Rightarrow> bytes \<Rightarrow> nat" where "qhead q m \<equiv> unat (rd m (q_head q) :: u64)"
abbreviation qtail :: "queue \<Rightarrow> bytes \<Rightarrow> nat" where "qtail q m \<equiv> unat (rd m (q_tail q) :: u64)"

text \<open>The layout: the counters and the flag lie in the header, below the elements,
  and do not overlap.\<close>

definition queue_wf :: "queue \<Rightarrow> nat \<Rightarrow> bool" where
  "queue_wf q n \<longleftrightarrow>
     0 < qcap q \<and> qcap q < 2 ^ 32 \<and>
     sl_len (queueBytesOnMemory q) = 12 * qcap q \<and> qbase q + 12 * qcap q \<le> n \<and>
     q_head q + 8 \<le> qbase q \<and> q_tail q + 8 \<le> qbase q \<and> q_workingFlag q + 4 \<le> qbase q \<and>
     sep (q_head q) 8 (q_tail q) 8 \<and> sep (q_tail q) 8 (q_head q) 8 \<and>
     sep (q_head q) 8 (q_workingFlag q) 4 \<and> sep (q_tail q) 8 (q_workingFlag q) 4 \<and>
     sep (q_workingFlag q) 4 (q_head q) 8 \<and> sep (q_workingFlag q) 4 (q_tail q) 8"

definition queue_inv :: "queue \<Rightarrow> bytes \<Rightarrow> bool" where
  "queue_inv q m \<longleftrightarrow> queue_wf q (length m) \<and>
     qhead q m \<le> qtail q m \<and> qtail q m \<le> qhead q m + qcap q \<and> qtail q m < 2 ^ 63"

definition elem_at :: "queue \<Rightarrow> bytes \<Rightarrow> nat \<Rightarrow> queueElement" where
  "elem_at q m k = \<lparr>seqID = rd m (qbase q + 12 * k), offsetInShmBuf = rd m (qbase q + (12 * k + 4)),
     status = rd m (qbase q + (12 * k + 8))\<rparr>"

definition queue_items :: "queue \<Rightarrow> bytes \<Rightarrow> queueElement list" where
  "queue_items q m = map (\<lambda>i. elem_at q m (i mod qcap q)) [qhead q m..<qtail q m]"

text \<open>A queue nobody has used yet: both counters and the working flag are zero.\<close>

definition queue_fresh :: "queue \<Rightarrow> bytes \<Rightarrow> bool" where
  "queue_fresh q m \<longleftrightarrow> queue_inv q m \<and> qhead q m = 0 \<and> qtail q m = 0 \<and> (rd m (q_workingFlag q) :: u32) = 0"

lemma length_queue_items: "length (queue_items q m) = qtail q m - qhead q m"
  by (simp add: queue_items_def)

lemma go_rem_unat:
  fixes w c :: u64
  assumes "unat w < 2 ^ 63" and "unat c < 2 ^ 32" and "0 < unat c"
  shows "go_rem (sint w) (sint c) = Some (int (unat w mod unat c))"
proof -
  have "sint w = int (unat w)" using assms(1) by (simp add: sint_eq_unat)
  moreover have "sint c = int (unat c)" by (rule sint_eq_unat) (use assms(2) in simp)
  ultimately show ?thesis using assms(3) by (simp only: go_rem_nonneg of_nat_0_le_iff of_nat_0_less_iff zmod_int)
qed

lemma sint_diff_cap:
  fixes t h c :: u64
  assumes "unat h \<le> unat t" and "unat t < 2 ^ 63" and "unat c < 2 ^ 32"
  shows "sint c \<le> sint (t - h) \<longleftrightarrow> unat c \<le> unat t - unat h"
proof -
  have d: "unat (t - h) = unat t - unat h" using assms(1) by (simp add: unat_sub word_le_nat_alt)
  have "sint (t - h) = int (unat (t - h))" by (rule sint_eq_unat) (use assms d in simp)
  moreover have "sint c = int (unat c)" by (rule sint_eq_unat) (use assms(3) in simp)
  ultimately show ?thesis by (simp only: d of_nat_le_iff)
qed

definition put_mem :: "queue \<Rightarrow> queueElement \<Rightarrow> bytes \<Rightarrow> bytes" where
  "put_mem q e m =
     (let a = qbase q + 12 * (qtail q m mod qcap q);
          m3 = wr (wr (wr m a (seqID e)) (a + 4) (offsetInShmBuf e)) (a + 8) (status e)
      in wr m3 (q_tail q) (rd m (q_tail q) + 1 :: u64))"

lemma slot_bound:
  assumes "queue_wf q n"
  shows "qbase q + 12 * (k mod qcap q) + 12 \<le> n" 
    and "12 * (k mod qcap q) + 12 \<le> sl_len (queueBytesOnMemory q)"
proof -
  have "k mod qcap q < qcap q" using assms by (simp add: queue_wf_def)
  then have "12 * (k mod qcap q) + 12 \<le> 12 * qcap q" by simp
  then show "qbase q + 12 * (k mod qcap q) + 12 \<le> n" 
    "12 * (k mod qcap q) + 12 \<le> sl_len (queueBytesOnMemory q)"
    using assms by (simp_all add: queue_wf_def)
qed

lemma slot_load_store:
  assumes "queue_wf q (length m)" and "k < qcap q" and "d \<le> 8"
    and "i = int k * int queueElementLen + int d"
  shows "slice_load m (queueBytesOnMemory q) i = Some (rd m (qbase q + (12 * k + d)) :: u32)"
    and "slice_store m (queueBytesOnMemory q) i (v :: u32) = Some (wr m (qbase q + (12 * k + d)) v)"
proof -
  have i: "i = int (12 * k + d)" using assms(4) by (simp add: queueElementLen_def)
  have "12 * k + 12 \<le> 12 * qcap q" using assms(2) by simp
  then have b: "12 * k + d < sl_len (queueBytesOnMemory q)" "qbase q + (12 * k + d) + 4 \<le> length m"
    using assms(1,3) by (simp_all add: queue_wf_def)
  show "slice_load m (queueBytesOnMemory q) i = Some (rd m (qbase q + (12 * k + d)) :: u32)"
    unfolding i by (rule slice_load_Some) (use b in simp_all)
  show "slice_store m (queueBytesOnMemory q) i v = Some (wr m (qbase q + (12 * k + d)) v)"
    unfolding i by (rule slice_store_Some) (use b in simp_all)
qed

lemmas slot_access =
  slot_load_store [where d = 0, simplified, OF _ _ refl]
  slot_load_store [where d = 4, simplified, OF _ _ refl]
  slot_load_store [where d = 8, simplified, OF _ _ refl]

lemma queue_put_room:
  assumes inv: "queue_inv q m" and "qtail q m < qhead q m + qcap q"
  shows "queue_put q e m = Some (None, put_mem q e m)"
proof -
  let ?k = "qtail q m mod qcap q"
  have wf: "queue_wf q (length m)" using inv by (simp add: queue_inv_def)
  then have k: "?k < qcap q" by (simp add: queue_wf_def)
  note sb = slot_bound [OF wf, of "qtail q m"]
  have r: "go_rem (sint (rd m (q_tail q) :: u64)) (sint (q_cap q)) = Some (int ?k)"
    by (rule go_rem_unat) (use inv in \<open>simp_all add: queue_inv_def queue_wf_def\<close>)
  have nf: "\<not> sint (q_cap q) \<le> sint (rd m (q_tail q) - rd m (q_head q) :: u64)"
    using inv assms(2) unfolding queue_inv_def queue_wf_def by (subst sint_diff_cap) auto
  have hdr: "q_head q + 8 \<le> length m" "q_tail q + 8 \<le> length m" "q_tail q + 8 \<le> qbase q"
    using wf by (simp_all add: queue_wf_def)
  show ?thesis
    using wf sb nf hdr k unfolding queue_put_def put_mem_def Let_def
    by (simp add: r slot_access mem_simps add.assoc)
qed

lemma length_put_mem [simp]: "queue_wf q (length m) \<Longrightarrow> length (put_mem q e m) = length m"
  using slot_bound [of q "length m" "qtail q m"]
  by (simp add: put_mem_def Let_def queue_wf_def)

lemma put_mem_header:
  assumes wf: "queue_wf q (length m)"
  shows "(rd (put_mem q e m) (q_head q) :: u64) = rd m (q_head q)"
    and "(rd (put_mem q e m) (q_tail q) :: u64) = rd m (q_tail q) + 1"
    and "(rd (put_mem q e m) (q_workingFlag q) :: u32) = rd m (q_workingFlag q)"
  using assms slot_bound [OF wf, of "qtail q m"]
  by (simp_all add: put_mem_def Let_def queue_wf_def mem_simps)

lemma slots_sep:
  assumes "j \<noteq> (k::nat)"
  shows "12 * j + 12 \<le> 12 * k \<or> 12 * k + 12 \<le> 12 * j"
  using assms by arith

lemma elem_at_put_mem:
  assumes wf: "queue_wf q (length m)" and "k < qcap q"
  shows "elem_at q (put_mem q e m) k = (if k = qtail q m mod qcap q then e else elem_at q m k)"
proof (cases "k = qtail q m mod qcap q")
  case True
  with wf slot_bound [OF wf, of "qtail q m"] show ?thesis
    by (simp add: put_mem_def Let_def elem_at_def queue_wf_def mem_simps add.assoc)
next
  case False
  from slots_sep [OF this] assms slot_bound [OF wf, of "qtail q m"] show ?thesis
    by (auto simp: False put_mem_def Let_def elem_at_def queue_wf_def mem_simps add.assoc)
qed

lemma queue_items_put:
  assumes inv: "queue_inv q m" and room: "qtail q m < qhead q m + qcap q"
    and "qtail q m < 2 ^ 63 - 1"
  shows "queue_inv q (put_mem q e m)" and "queue_items q (put_mem q e m) = queue_items q m @ [e]"
proof -
  have wf: "queue_wf q (length m)" using inv by (simp add: queue_inv_def)
  have t: "unat (rd m (q_tail q) + 1 :: u64) = qtail q m + 1"
    by (rule unat_plus_one) (use assms(3) in simp)
  show "queue_inv q (put_mem q e m)"
    using inv room assms(3) wf by (simp add: queue_inv_def put_mem_header t)
  have old: "elem_at q (put_mem q e m) (i mod qcap q) = elem_at q m (i mod qcap q)"
    if "qhead q m \<le> i" "i < qtail q m" for i
  proof -
    have "i mod qcap q \<noteq> qtail q m mod qcap q"
    proof
      assume eq: "i mod qcap q = qtail q m mod qcap q"
      then have "qcap q dvd qtail q m - i"
        using mod_eq_dvd_iff_nat [of i "qtail q m" "qcap q"] that(2) by simp
      moreover have "0 < qtail q m - i" "qtail q m - i < qcap q" using that room by auto
      ultimately show False by (simp add: nat_dvd_not_less)
    qed
    moreover have "i mod qcap q < qcap q" using wf by (simp add: queue_wf_def)
    ultimately show ?thesis using wf by (simp add: elem_at_put_mem)
  qed
  have new: "elem_at q (put_mem q e m) (qtail q m mod qcap q) = e"
    using wf by (simp add: elem_at_put_mem queue_wf_def)
  have "[qhead q m..<qtail q m + 1] = [qhead q m..<qtail q m] @ [qtail q m]"
    using inv by (simp add: queue_inv_def)
  then show "queue_items q (put_mem q e m) = queue_items q m @ [e]"
    using wf old new by (simp add: queue_items_def put_mem_header t)
qed

lemma queue_put_full:
  assumes inv: "queue_inv q m" and "qtail q m = qhead q m + qcap q"
  shows "queue_put q e m = Some (Some ErrQueueFull, m)"
proof -
  have "sint (q_cap q) \<le> sint (rd m (q_tail q) - rd m (q_head q) :: u64)"
    using inv assms(2) unfolding queue_inv_def queue_wf_def by (subst sint_diff_cap) auto
  then show ?thesis using inv unfolding queue_put_def queue_inv_def queue_wf_def by simp
qed

definition pop_mem :: "queue \<Rightarrow> bytes \<Rightarrow> bytes" where
  "pop_mem q m = wr m (q_head q) (rd m (q_head q) + 1 :: u64)"

lemma sint_counters:
  assumes "queue_inv q m"
  shows "sint (rd m (q_tail q) :: u64) \<le> sint (rd m (q_head q) :: u64) \<longleftrightarrow> qtail q m \<le> qhead q m"
proof -
  have "sint (rd m (q_head q) :: u64) = int (qhead q m)" "sint (rd m (q_tail q) :: u64) = int (qtail q m)"
    using assms unfolding queue_inv_def by (intro sint_eq_unat; simp)+
  then show ?thesis by (simp only: of_nat_le_iff)
qed

lemma queue_pop_some:
  assumes inv: "queue_inv q m" and ne: "qhead q m < qtail q m"
  shows "queue_pop q m = Some (Inr (elem_at q m (qhead q m mod qcap q)), pop_mem q m)"
proof -
  let ?k = "qhead q m mod qcap q"
  have wf: "queue_wf q (length m)" using inv by (simp add: queue_inv_def)
  then have k: "?k < qcap q" by (simp add: queue_wf_def)
  have hdr: "q_head q + 8 \<le> length m" "q_tail q + 8 \<le> length m"
    using wf by (simp_all add: queue_wf_def)
  have r: "go_rem (sint (rd m (q_head q) :: u64)) (sint (q_cap q)) = Some (int ?k)"
    by (rule go_rem_unat) (use inv ne in \<open>simp_all add: queue_inv_def queue_wf_def\<close>)
  show ?thesis
    using wf hdr k ne unfolding queue_pop_def pop_mem_def Let_def elem_at_def
    by (simp add: sint_counters [OF inv] r slot_access)
qed

lemma queue_pop_empty:
  assumes inv: "queue_inv q m" and "qhead q m = qtail q m"
  shows "queue_pop q m = Some (Inl errQueueEmpty, m)"
proof -
  have "q_head q + 8 \<le> length m" "q_tail q + 8 \<le> length m"
    using inv by (simp_all add: queue_inv_def queue_wf_def)
  with assms(2) show ?thesis by (simp add: queue_pop_def sint_counters [OF inv])
qed

lemma queue_items_pop:
  assumes inv: "queue_inv q m" and ne: "qhead q m < qtail q m"
  shows "queue_inv q (pop_mem q m)"
    and "queue_items q m = elem_at q m (qhead q m mod qcap q) # queue_items q (pop_mem q m)"
    and "(rd (pop_mem q m) (q_tail q) :: u64) = rd m (q_tail q)"
proof -
  have wf: "queue_wf q (length m)" using inv by (simp add: queue_inv_def)
  have l: "length (pop_mem q m) = length m" using wf by (simp add: pop_mem_def queue_wf_def)
  have h: "unat (rd m (q_head q) + 1 :: u64) = qhead q m + 1"
    by (rule unat_plus_one) (use inv ne in \<open>simp add: queue_inv_def\<close>)
  have hd': "(rd (pop_mem q m) (q_head q) :: u64) = rd m (q_head q) + 1"
    using wf by (simp add: pop_mem_def queue_wf_def mem_simps)
  show tl': "(rd (pop_mem q m) (q_tail q) :: u64) = rd m (q_tail q)"
    using wf by (simp add: pop_mem_def queue_wf_def mem_simps)
  show "queue_inv q (pop_mem q m)"
    using inv ne l by (simp add: queue_inv_def hd' tl' h)
  have e: "elem_at q (pop_mem q m) k = elem_at q m k" if "k < qcap q" for k
  proof -
    have "12 * k + 12 \<le> 12 * qcap q" using that by simp
    then show ?thesis using wf by (simp add: elem_at_def pop_mem_def queue_wf_def mem_simps)
  qed
  have "[qhead q m..<qtail q m] = qhead q m # [qhead q m + 1..<qtail q m]"
    using ne by (simp add: upt_conv_Cons)
  then show "queue_items q m = elem_at q m (qhead q m mod qcap q) # queue_items q (pop_mem q m)"
    using wf by (simp add: queue_items_def hd' tl' h e queue_wf_def)
qed

subsection \<open>The ring contract\<close>

definition queue_enq :: "queue \<Rightarrow> queueElement \<Rightarrow> bytes \<Rightarrow> bytes option" where
  "queue_enq q e m = (case queue_put q e m of Some (None, m') \<Rightarrow> Some m' | _ \<Rightarrow> None)"

definition queue_deq :: "queue \<Rightarrow> bytes \<Rightarrow> (queueElement \<times> bytes) option" where
  "queue_deq q m = (case queue_pop q m of Some (Inr e, m') \<Rightarrow> Some (e, m') | _ \<Rightarrow> None)"

definition queue_budget :: "queue \<Rightarrow> bytes \<Rightarrow> nat" where
  "queue_budget q m = 2 ^ 63 - 1 - qtail q m"

lemma queue_put_cases:
  assumes "queue_inv q m"
  obtains (full) "length (queue_items q m) = qcap q" "queue_put q e m = Some (Some ErrQueueFull, m)"
    | (room) "length (queue_items q m) < qcap q" "queue_put q e m = Some (None, put_mem q e m)"
proof (cases "qtail q m = qhead q m + qcap q")
  case True
  with assms full queue_put_full show ?thesis by (simp add: length_queue_items)
next
  case False
  with assms have "qtail q m < qhead q m + qcap q" "qhead q m \<le> qtail q m"
    by (auto simp: queue_inv_def)
  with assms room queue_put_room show ?thesis by (simp add: length_queue_items)
qed

lemma queue_pop_cases:
  assumes "queue_inv q m"
  obtains (empty) "queue_items q m = []" "queue_pop q m = Some (Inl errQueueEmpty, m)"
    | (item) e where "queue_pop q m = Some (Inr e, pop_mem q m)" "queue_inv q (pop_mem q m)"
        "queue_items q m = e # queue_items q (pop_mem q m)"
        "queue_budget q (pop_mem q m) = queue_budget q m"
proof (cases "qhead q m = qtail q m")
  case True
  with assms empty queue_pop_empty show ?thesis by (simp add: queue_items_def)
next
  case False
  with assms have "qhead q m < qtail q m" by (auto simp: queue_inv_def)
  with assms item queue_pop_some queue_items_pop show ?thesis by (simp add: queue_budget_def)
qed

lemma queue_put_room_spec:
  assumes "queue_inv q m" and "length (queue_items q m) < qcap q" and "0 < queue_budget q m"
  shows "queue_put q e m = Some (None, put_mem q e m) \<and> queue_inv q (put_mem q e m) \<and>
    queue_items q (put_mem q e m) = queue_items q m @ [e] \<and>
    queue_budget q (put_mem q e m) = queue_budget q m - 1"
proof -
  have wf: "queue_wf q (length m)" using assms(1) by (simp add: queue_inv_def)
  have lt: "qtail q m < 2 ^ 63 - 1" using assms(3) by (simp add: queue_budget_def)
  have room: "qtail q m < qhead q m + qcap q" using assms(2) by (simp add: length_queue_items)
  have "unat (rd m (q_tail q) + 1 :: u64) = qtail q m + 1"
    by (rule unat_plus_one) (use lt in simp)
  then have "queue_budget q (put_mem q e m) = queue_budget q m - 1"
    using wf by (simp add: queue_budget_def put_mem_header)
  with queue_put_room [OF assms(1) room] queue_items_put [OF assms(1) room lt] show ?thesis by simp
qed

interpretation ioq: bounded_fifo "queue_inv q" "queue_items q" "qcap q" "queue_budget q"
  "queue_enq q" "queue_deq q" for q
proof
  fix m
  assume "queue_inv q m"
  then show "length (queue_items q m) \<le> qcap q"
    by (auto simp: length_queue_items queue_inv_def)
next
  fix m e
  assume "queue_inv q m" "length (queue_items q m) < qcap q" "0 < queue_budget q m"
  from queue_put_room_spec [OF this]
  show "\<exists>m'. queue_enq q e m = Some m' \<and> queue_inv q m' \<and>
      queue_items q m' = queue_items q m @ [e] \<and> queue_budget q m' = queue_budget q m - 1"
    by (simp add: queue_enq_def)
next
  fix m e
  assume "queue_inv q m" "length (queue_items q m) = qcap q"
  then show "queue_enq q e m = None"
    by (cases rule: queue_put_cases [of q m e]) (simp_all add: queue_enq_def)
next
  fix m
  assume "queue_inv q m" "queue_items q m = []"
  then show "queue_deq q m = None"
    by (cases rule: queue_pop_cases [of q m]) (simp_all add: queue_deq_def)
next
  fix m x xs
  assume "queue_inv q m" "queue_items q m = x # xs"
  then show "\<exists>m'. queue_deq q m = Some (x, m') \<and> queue_inv q m' \<and> queue_items q m' = xs \<and>
      queue_budget q m' = queue_budget q m"
    by (cases rule: queue_pop_cases [of q m]) (simp_all add: queue_deq_def)
qed

text \<open>A run of puts and pops as the code makes them: the accepted elements, the popped
  elements and the final memory; a panic anywhere is \<open>None\<close>.\<close>

fun queue_run :: "queue \<Rightarrow> queueElement fifo_op list \<Rightarrow> bytes \<Rightarrow>
    (queueElement list \<times> queueElement list \<times> bytes) option" where
  "queue_run q [] m = Some ([], [], m)"
| "queue_run q (Enq e # os) m = do {
     (err, m') \<leftarrow> queue_put q e m;
     (ins, outs, t) \<leftarrow> queue_run q os m';
     Some (if err = None then e # ins else ins, outs, t)
   }"
| "queue_run q (Deq # os) m = do {
     (r, m') \<leftarrow> queue_pop q m;
     (ins, outs, t) \<leftarrow> queue_run q os m';
     Some (ins, (case r of Inl _ \<Rightarrow> outs | Inr e \<Rightarrow> e # outs), t)
   }"

lemma queue_run_eq:
  assumes "queue_inv q m" and "length os \<le> queue_budget q m"
  shows "queue_run q os m = Some (ioq.run_ops q os m)"
  using assms
proof (induction os arbitrary: m)
  case Nil
  then show ?case by simp
next
  case (Cons o' os)
  show ?case
  proof (cases o')
    case (Enq e)
    from Cons.prems(1) show ?thesis
    proof (cases rule: queue_put_cases [of q m e])
      case full
      then have "queue_enq q e m = None" by (simp add: queue_enq_def)
      with full Cons Enq show ?thesis by (simp split: prod.splits)
    next
      case room
      then have "queue_enq q e m = Some (put_mem q e m)" by (simp add: queue_enq_def)
      with room Cons Enq queue_put_room_spec [of q m e] show ?thesis by (simp split: prod.splits)
    qed
  next
    case Deq
    from Cons.prems(1) show ?thesis
    proof (cases rule: queue_pop_cases [of q m])
      case empty
      then have "queue_deq q m = None" by (simp add: queue_deq_def)
      with empty Cons Deq show ?thesis by (simp split: prod.splits)
    next
      case (item e)
      then have "queue_deq q m = Some (e, pop_mem q m)" by (simp add: queue_deq_def)
      with item Cons Deq show ?thesis by (simp split: prod.splits)
    qed
  qed
qed

subsection \<open>What construction establishes\<close>

definition queue_layout :: "bool \<Rightarrow> gslice \<Rightarrow> u32 \<Rightarrow> queue" where
  "queue_layout arm d cap =
     \<lparr>q_head = sl_base d + (if arm then 8 else 4), q_tail = sl_base d + (if arm then 16 else 12),
      q_workingFlag = sl_base d + (if arm then 4 else 20), q_cap = ucast cap,
      queueBytesOnMemory = \<lparr>sl_base = sl_base d + 24, sl_len = 12 * unat cap, sl_cap = sl_cap d - 24\<rparr>\<rparr>"

definition queue_fits :: "gslice \<Rightarrow> u32 \<Rightarrow> nat \<Rightarrow> bool" where
  "queue_fits d cap n \<longleftrightarrow> 0 < cap \<and> 24 + 12 * unat cap < 2 ^ 32 \<and> 24 + 12 * unat cap \<le> sl_len d \<and>
     sl_len d \<le> sl_cap d \<and> sl_base d + sl_len d \<le> n"

lemma unat_queue_end:
  assumes "24 + 12 * unat (cap :: u32) < 2 ^ 32"
  shows "uint (word_of_nat queueHeaderLength + cap * word_of_nat queueElementLen :: u32)
    = int (24 + 12 * unat cap)"
proof -
  have "unat (24 + cap * 12 :: u32) = 24 + unat cap * 12"
    using assms by (simp add: unat_word_ariths)
  then show ?thesis by (simp add: consts_defs uint_nat )
qed

lemma mappingQueueFromBytes_ok:
  assumes fits: "queue_fits d cap (length m)" and "rd m (sl_base d) = cap"
  shows "mappingQueueFromBytes arm d m = Some (queue_layout arm d cap)"
proof -
  have "sub_slice d (int queueHeaderLength)
      (uint (word_of_nat queueHeaderLength + cap * word_of_nat queueElementLen :: u32)) =
    Some \<lparr>sl_base = sl_base d + 24, sl_len = 12 * unat cap, sl_cap = sl_cap d - 24\<rparr>"
    using fits unfolding queue_fits_def
    by (subst unat_queue_end) (auto simp: sub_slice_def queueHeaderLength_def)
  moreover have "slice_load m d 0 = Some cap"
    using slice_load_Some [of 0 d m, where 'a = 32] assms by (simp add: queue_fits_def)
  ultimately show ?thesis
    using fits by (simp add: mappingQueueFromBytes_def queue_layout_def queue_fits_def elem_addr_def)
qed

lemma qcap_layout [simp]: "qcap (queue_layout arm d cap) = unat cap"
proof -
  have "unat cap < 2 ^ 64" using unsigned_less [of cap] by (rule less_trans) simp
  then show ?thesis by (simp add: queue_layout_def unsigned_ucast_eq take_bit_nat_eq_self)
qed

lemma queue_wf_layout: "queue_fits d cap n \<Longrightarrow> queue_wf (queue_layout arm d cap) n"
  using qcap_layout [of arm d cap]
  by (simp add: queue_fits_def queue_wf_def word_less_nat_alt) (simp add: queue_layout_def sep_def)

definition create_mem :: "bool \<Rightarrow> gslice \<Rightarrow> u32 \<Rightarrow> bytes \<Rightarrow> bytes" where
  "create_mem arm d cap m =
     (let q = queue_layout arm d cap
      in wr (wr (wr (wr m (sl_base d) cap) (q_head q) (0 :: u64)) (q_tail q) (0 :: u64)) (q_workingFlag q) (0 :: u32))"

lemma createQueueFromBytes_ok:
  assumes fits: "queue_fits d cap (length m)"
  shows "createQueueFromBytes arm d cap m = Some (queue_layout arm d cap, create_mem arm d cap m)"
proof -
  have "slice_store m d 0 cap = Some (wr m (sl_base d) cap)"
    using slice_store_Some [of 0 d m cap] fits by (simp add: queue_fits_def)
  moreover have "mappingQueueFromBytes arm d (wr m (sl_base d) cap) = Some (queue_layout arm d cap)"
    using fits by (intro mappingQueueFromBytes_ok) (simp_all add: queue_fits_def mem_simps)
  ultimately show ?thesis
    using fits by (simp add: createQueueFromBytes_def create_mem_def queue_fits_def queue_layout_def)
qed

lemma create_mem_props:
  fixes arm :: bool
  assumes fits: "queue_fits d cap (length m)"
  defines "q \<equiv> queue_layout arm d cap" and "m' \<equiv> create_mem arm d cap m"
  shows "length m' = length m" and "rd m' (sl_base d) = cap"
    and "queue_fresh q m'" and "unchanged_off {sl_base d..<sl_base d + 24} m m'"
proof -
  show l: "length m' = length m" and c: "rd m' (sl_base d) = cap"
    using fits by (simp_all add: q_def m'_def create_mem_def queue_fits_def queue_layout_def Let_def mem_simps)
  have ht: "(rd m' (q_head q) :: u64) = 0" "(rd m' (q_tail q) :: u64) = 0"
    "(rd m' (q_workingFlag q) :: u32) = 0"
    using fits by (simp_all add: q_def m'_def create_mem_def queue_fits_def queue_layout_def Let_def mem_simps)
  show "queue_fresh q m'"
    using queue_wf_layout [OF fits, of arm] l by (simp add: queue_fresh_def queue_inv_def ht flip: q_def)
  show "unchanged_off {sl_base d..<sl_base d + 24} m m'"
    unfolding m'_def create_mem_def Let_def
    by (intro unchanged_off_wrI unchanged_off_refl)
      (use fits in \<open>auto simp: queue_fits_def queue_layout_def\<close>)
qed

lemma createQueue_ok:
  assumes "0 < cap" and "24 + 12 * unat cap < 2 ^ 32"
  shows "\<exists>q m. createQueue arm cap = Some (q, m) \<and> queue_fresh q m \<and> qcap q = unat cap"
proof -
  let ?m = "replicate (24 + 12 * unat cap) (0 :: u8)"
  have "unat (cap * 12) = unat cap * 12" using assms(2) by (simp add: unat_word_ariths)
  then have e: "createQueue arm cap = createQueueFromBytes arm (whole_slice ?m) cap ?m"
    by (simp add: createQueue_def consts_defs mult.commute Let_def)
  have f: "queue_fits (whole_slice ?m) cap (length ?m)"
    using assms by (simp add: queue_fits_def whole_slice_def)
  from e createQueueFromBytes_ok [OF f] create_mem_props [OF f] show ?thesis by simp
qed

subsection \<open>Footprints: two queues in one mapping\<close>

definition queue_foot :: "queue \<Rightarrow> nat set" where
  "queue_foot q = {q_head q..<q_head q + 8} \<union> {q_tail q..<q_tail q + 8} \<union>
     {q_workingFlag q..<q_workingFlag q + 4} \<union> {qbase q..<qbase q + 12 * qcap q}"

lemma queue_foot_layout:
  "queue_foot (queue_layout arm d cap) \<subseteq> {sl_base d..<sl_base d + 24 + 12 * unat cap}"
  using qcap_layout [of arm d cap] by (auto simp: queue_foot_def) (auto simp: queue_layout_def split: if_splits)

lemma queue_frame:
  assumes u: "unchanged_off A m m'" and A: "A \<inter> queue_foot q = {}" and wf: "queue_wf q (length m)"
  shows "queue_items q m' = queue_items q m" and "queue_inv q m' \<longleftrightarrow> queue_inv q m"
    and "(rd m' (q_workingFlag q) :: u32) = rd m (q_workingFlag q)" and "queue_fresh q m' \<longleftrightarrow> queue_fresh q m"
proof -
  have h: "(rd m' (q_head q) :: u64) = rd m (q_head q)" "(rd m' (q_tail q) :: u64) = rd m (q_tail q)"
    and f: "(rd m' (q_workingFlag q) :: u32) = rd m (q_workingFlag q)"
    using A wf by (auto intro!: rd_unchanged [OF u] simp: queue_foot_def queue_wf_def)
  then show "(rd m' (q_workingFlag q) :: u32) = rd m (q_workingFlag q)" by simp
  show "queue_inv q m' \<longleftrightarrow> queue_inv q m"
    using unchanged_off_length [OF u] by (simp add: queue_inv_def h)
  then show "queue_fresh q m' \<longleftrightarrow> queue_fresh q m" by (simp add: queue_fresh_def h f)
  have e: "elem_at q m' k = elem_at q m k" if "k < qcap q" for k
  proof -
    have b: "12 * k + 12 \<le> 12 * qcap q" using that by simp
    have "(rd m' (qbase q + (12 * k + d)) :: u32) = rd m (qbase q + (12 * k + d))" if "d \<le> 8" for d
      by (rule rd_unchanged [OF u]) (use A wf b that in \<open>auto simp: queue_foot_def queue_wf_def\<close>)
    from this [of 0] this [of 4] this [of 8] show ?thesis by (simp add: elem_at_def)
  qed
  then show "queue_items q m' = queue_items q m"
    using wf by (simp add: queue_items_def h queue_wf_def)
qed

lemma put_mem_foot:
  assumes "queue_wf q (length m)"
  shows "unchanged_off (queue_foot q) m (put_mem q e m)"
  using slot_bound [OF assms, of "qtail q m"] assms unfolding put_mem_def Let_def
  by (intro unchanged_off_wrI unchanged_off_refl) (auto simp: queue_foot_def queue_wf_def)

lemma pop_mem_foot:
  assumes "queue_wf q (length m)"
  shows "unchanged_off (queue_foot q) m (pop_mem q m)"
  using assms unfolding pop_mem_def
  by (intro unchanged_off_wrI unchanged_off_refl) (auto simp: queue_foot_def queue_wf_def)

subsection \<open>The two ends of a queue manager\<close>

definition lower_half :: "u32 \<Rightarrow> gslice" where
  "lower_half cap = \<lparr>sl_base = 0, sl_len = countQueueMemSize cap, sl_cap = 2 * countQueueMemSize cap\<rparr>"

definition upper_half :: "u32 \<Rightarrow> gslice" where
  "upper_half cap = \<lparr>sl_base = countQueueMemSize cap, sl_len = countQueueMemSize cap, sl_cap = countQueueMemSize cap\<rparr>"

lemma halves:
  assumes "length mem = 2 * countQueueMemSize cap"
  shows "sub_slice (whole_slice mem) 0 (int (length mem) div 2) = Some (lower_half cap)"
    and "sub_slice (whole_slice mem) (int (length mem) div 2) (int (length mem)) = Some (upper_half cap)"
  using assms by (simp_all add: sub_slice_def whole_slice_def lower_half_def upper_half_def)

lemma halves_fit:
  assumes "0 < cap" and "24 + 12 * unat cap < 2 ^ 32"
  shows "queue_fits (lower_half cap) cap (2 * countQueueMemSize cap)"
    and "queue_fits (upper_half cap) cap (2 * countQueueMemSize cap)"
  using assms by (simp_all add: queue_fits_def lower_half_def upper_half_def countQueueMemSize_def consts_defs)

lemma halves_foot:
  "queue_foot (queue_layout arm (lower_half cap) cap) \<inter> queue_foot (queue_layout arm (upper_half cap) cap) = {}"
  using queue_foot_layout [of arm "lower_half cap" cap] queue_foot_layout [of arm "upper_half cap" cap]
  by (fastforce simp: lower_half_def upper_half_def countQueueMemSize_def consts_defs)

lemma createQueues_ok:
  fixes arm :: bool
  assumes cap: "0 < cap" "24 + 12 * unat cap < 2 ^ 32" and len: "length mem = 2 * countQueueMemSize cap"
  defines "sq \<equiv> queue_layout arm (lower_half cap) cap" and "rq \<equiv> queue_layout arm (upper_half cap) cap"
  shows "\<exists>m. createQueues arm cap mem = Some ((sq, rq), m) \<and> length m = length mem \<and>
    queue_fresh sq m \<and> queue_fresh rq m \<and>
    mapQueues arm (length mem) m = Some (rq, sq)"
proof -
  let ?m1 = "create_mem arm (lower_half cap) cap mem"
  let ?m2 = "create_mem arm (upper_half cap) cap ?m1"
  have fl: "queue_fits (lower_half cap) cap (length mem)" and fu: "queue_fits (upper_half cap) cap (length mem)"
    using halves_fit [OF cap] len by simp_all
  note p1 = create_mem_props [OF fl, of arm]
  have fu': "queue_fits (upper_half cap) cap (length ?m1)" using fu p1 by simp
  note p2 = create_mem_props [OF fu', of arm]
  have c: "createQueues arm cap mem = Some ((sq, rq), ?m2)"
    using halves [OF len] createQueueFromBytes_ok [OF fl] createQueueFromBytes_ok [OF fu'] len
    by (simp add: createQueues_def sq_def rq_def queueCount_def mult.commute)
  have u: "unchanged_off {countQueueMemSize cap..<countQueueMemSize cap + 24} ?m1 ?m2"
    using p2(4) by (simp add: upper_half_def)
  have d: "{countQueueMemSize cap..<countQueueMemSize cap + 24} \<inter> queue_foot sq = {}"
    using queue_foot_layout [of arm "lower_half cap" cap]
    by (fastforce simp: sq_def lower_half_def countQueueMemSize_def consts_defs)
  have wf: "queue_wf sq (length ?m1)" using queue_wf_layout [OF fl] p1 by (simp add: sq_def)
  note fr = queue_frame [OF u d wf]
  have "(rd ?m2 0 :: u32) = rd ?m1 0"
    by (rule rd_unchanged [OF u]) (use p1 len in \<open>auto simp: countQueueMemSize_def consts_defs\<close>)
  then have r0: "rd ?m2 (sl_base (lower_half cap)) = cap" using p1 by (simp add: lower_half_def)
  have l2: "length ?m2 = length mem" using p1 p2 by simp
  have "mapQueues arm (length mem) ?m2 = Some (rq, sq)"
    using halves [of ?m2 cap] len l2 r0 p2(2) fl fu
    by (simp add: mapQueues_def mappingQueueFromBytes_ok sq_def rq_def)
  with c l2 fr p1 p2 show ?thesis by (simp add: sq_def rq_def)
qed

subsection \<open>Properties\<close>

lemma queue_fresh_items: "queue_fresh q m \<Longrightarrow> queue_inv q m \<and> queue_items q m = []"
  by (simp add: queue_fresh_def queue_items_def)

text \<open>
  C9. The IO queue is a FIFO. From any well-formed memory and for any sequence of puts and
  pops that keeps the 63-bit counters from overflowing, no operation panics, the
  well-formedness is kept, and the initial content followed by the accepted elements is
  the popped elements followed by the final content: nothing is lost, duplicated,
  reordered or invented.
\<close>

theorem queue_fifo:
  assumes "queue_inv q m" and "length os \<le> queue_budget q m"
  shows "\<exists>ins outs t. queue_run q os m = Some (ins, outs, t) \<and> queue_inv q t \<and>
    queue_items q m @ ins = outs @ queue_items q t"
proof -
  obtain ins outs t where r: "ioq.run_ops q os m = (ins, outs, t)" by (rule prod_cases3)
  with ioq.run_ops_fifo [OF assms r] queue_run_eq [OF assms] show ?thesis by simp
qed

definition demo_queue :: queue where
  "demo_queue = \<lparr>q_head = 4, q_tail = 12, q_workingFlag = 20, q_cap = 2,
     queueBytesOnMemory = \<lparr>sl_base = 24, sl_len = 24, sl_cap = 24\<rparr>\<rparr>"

definition demo_mem :: bytes where
  "demo_mem = 2 # replicate 47 0"

lemma demo_create: "createQueue False 2 = Some (demo_queue, demo_mem)"
  by code_simp

lemma demo_fresh: "queue_fresh demo_queue demo_mem"
  using createQueue_ok [of 2 False] demo_create by simp

theorem queue_fifo_witness:
  "\<exists>ins outs t. queue_run demo_queue [Enq \<lparr>seqID = 1, offsetInShmBuf = 2, status = 3\<rparr>, Deq] demo_mem =
     Some (ins, outs, t) \<and> queue_inv demo_queue t \<and>
     queue_items demo_queue demo_mem @ ins = outs @ queue_items demo_queue t"
proof -
  have "length [Enq \<lparr>seqID = 1, offsetInShmBuf = 2, status = 3\<rparr>, Deq] \<le> queue_budget demo_queue demo_mem"
    using demo_fresh by (simp add: queue_budget_def queue_fresh_def)
  with demo_fresh show ?thesis by (intro queue_fifo) (simp_all add: queue_fresh_def)
qed

text \<open>
  \<^verbatim>\<open>put\<close> refuses exactly when the ring holds \<open>cap\<close> elements, with \<^verbatim>\<open>ErrQueueFull\<close> and the memory
  untouched; otherwise it returns nil and appends the element. It never writes outside the
  slots of the ring (the access checks of the model succeed).
\<close>

theorem queue_put_spec:
  assumes "queue_inv q m" and "qtail q m + 1 < 2 ^ 63"
  shows "\<exists>err m'. queue_put q e m = Some (err, m') \<and> queue_inv q m' \<and>
    (if length (queue_items q m) = qcap q then err = Some ErrQueueFull \<and> m' = m
     else err = None \<and> queue_items q m' = queue_items q m @ [e])"
  using assms(1)
proof (cases rule: queue_put_cases [of q m e])
  case full
  with assms show ?thesis by (simp add: length_queue_items)
next
  case room
  with assms queue_put_room_spec [of q m e] show ?thesis by (simp add: length_queue_items queue_budget_def)
qed

theorem queue_put_spec_witness:
  "\<exists>err m'. queue_put demo_queue \<lparr>seqID = 1, offsetInShmBuf = 2, status = 3\<rparr> demo_mem = Some (err, m') \<and>
    queue_inv demo_queue m' \<and>
    (if length (queue_items demo_queue demo_mem) = qcap demo_queue then err = Some ErrQueueFull \<and> m' = demo_mem
     else err = None \<and> queue_items demo_queue m' =
       queue_items demo_queue demo_mem @ [\<lparr>seqID = 1, offsetInShmBuf = 2, status = 3\<rparr>])"
  by (rule queue_put_spec) (use demo_fresh in \<open>simp_all add: queue_fresh_def\<close>)

text \<open>
  \<^verbatim>\<open>pop\<close> returns \<^verbatim>\<open>errQueueEmpty\<close> with the memory untouched on an empty queue and otherwise
  removes and returns the oldest element.
\<close>

theorem queue_pop_spec:
  assumes "queue_inv q m"
  shows "\<exists>r m'. queue_pop q m = Some (r, m') \<and> queue_inv q m' \<and>
    (case queue_items q m of
       [] \<Rightarrow> r = Inl errQueueEmpty \<and> m' = m
     | e # es \<Rightarrow> r = Inr e \<and> queue_items q m' = es)"
  using assms
proof (cases rule: queue_pop_cases [of q m])
  case empty
  with assms show ?thesis by simp
next
  case (item e)
  with assms show ?thesis by simp
qed

theorem queue_pop_spec_witness:
  "\<exists>r m'. queue_pop demo_queue demo_mem = Some (r, m') \<and> queue_inv demo_queue m' \<and>
    (case queue_items demo_queue demo_mem of
       [] \<Rightarrow> r = Inl errQueueEmpty \<and> m' = demo_mem
     | e # es \<Rightarrow> r = Inr e \<and> queue_items demo_queue m' = es)"
  by (rule queue_pop_spec) (use demo_fresh in \<open>simp add: queue_fresh_def\<close>)

lemma queue_size_items:
  assumes "queue_inv q m"
  shows "\<exists>n. queue_size q m = Some n \<and> unat n = length (queue_items q m)"
  using assms by (auto simp: queue_size_def queue_inv_def queue_wf_def mload_def length_queue_items unat_sub word_le_nat_alt)

lemma flag_frame:
  assumes "queue_inv q m"
  shows "queue_inv q (wr m (q_workingFlag q) (f :: u32))"
    and "queue_items q (wr m (q_workingFlag q) f) = queue_items q m"
proof -
  have wf: "queue_wf q (length m)" using assms by (simp add: queue_inv_def)
  have "(rd (wr m (q_workingFlag q) f) (q_head q) :: u64) = rd m (q_head q)"
    "(rd (wr m (q_workingFlag q) f) (q_tail q) :: u64) = rd m (q_tail q)"
    "length (wr m (q_workingFlag q) f) = length m"
    using wf by (simp_all add: queue_wf_def mem_simps)
  moreover have "elem_at q (wr m (q_workingFlag q) f) (i mod qcap q) = elem_at q m (i mod qcap q)" for i
    using slot_bound(1) [OF wf, of i] wf by (simp add: elem_at_def queue_wf_def mem_simps)
  ultimately show "queue_inv q (wr m (q_workingFlag q) (f :: u32))"
    "queue_items q (wr m (q_workingFlag q) f) = queue_items q m"
    using assms by (simp_all add: queue_inv_def queue_items_def)
qed

lemma markNotWorking_ok:
  assumes "queue_inv q m"
  shows "\<exists>m'. markNotWorking q m = Some (queue_items q m = [], m') \<and> queue_inv q m' \<and>
    queue_items q m' = queue_items q m \<and> consumerIsWorking q m' = Some (queue_items q m \<noteq> [])"
proof -
  have wf: "queue_wf q (length m)" using assms by (simp add: queue_inv_def)
  let ?m0 = "wr m (q_workingFlag q) (0 :: u32)"
  note f0 = flag_frame [OF assms, of 0]
  note f1 = flag_frame [OF f0(1), of 1]
  obtain n where n: "queue_size q ?m0 = Some n" "unat n = length (queue_items q m)"
    using queue_size_items [OF f0(1)] f0(2) by auto
  have z: "n = 0 \<longleftrightarrow> queue_items q m = []" using n(2) by (auto simp flip: unat_eq_0)
  show ?thesis
    using wf f0 f1 n z by (auto simp: markNotWorking_def consumerIsWorking_def queue_wf_def mem_simps mload_def mstore_def)
qed

text \<open>
  \<^verbatim>\<open>markNotWorking\<close> returns true exactly when the queue is empty, leaves the working flag
  set exactly when it returns false (the consumer must go on), and keeps the elements.
\<close>

theorem markNotWorking_spec:
  assumes "queue_inv q m"
  shows "\<exists>m'. markNotWorking q m = Some (queue_items q m = [], m') \<and> queue_inv q m' \<and>
    queue_items q m' = queue_items q m \<and> consumerIsWorking q m' = Some (queue_items q m \<noteq> [])"
  by (rule markNotWorking_ok [OF assms])

theorem markNotWorking_spec_witness:
  "\<exists>m'. markNotWorking demo_queue demo_mem = Some (queue_items demo_queue demo_mem = [], m') \<and>
    queue_inv demo_queue m' \<and> queue_items demo_queue m' = queue_items demo_queue demo_mem \<and>
    consumerIsWorking demo_queue m' = Some (queue_items demo_queue demo_mem \<noteq> [])"
  by (rule markNotWorking_spec) (use demo_fresh in \<open>simp add: queue_fresh_def\<close>)

lemma createQueueManager_mem:
  assumes "createQueueManager os path cap = Some (Inr (qm, mem))" and "mmap_ok os"
  obtains mem0 where "length mem0 = 2 * countQueueMemSize cap"
    "createQueues (isArmArch os) cap mem0 = Some ((sendQueue qm, recvQueue qm), mem)"
proof -
  from assms(1) obtain mem1 where
    1: "os_Mmap os (countQueueMemSize cap * queueCount) = Inr mem1" and
    2: "createQueues (isArmArch os) cap (map (\<lambda>_. 0) mem1) = Some ((sendQueue qm, recvQueue qm), mem)"
    by (auto simp: createQueueManager_def Let_def bind_eq_Some_conv split: if_splits option.splits sum.splits)
  from 1 assms(2) have "length mem1 = 2 * countQueueMemSize cap"
    by (auto simp: mmap_ok_def queueCount_def)
  with that [of "map (\<lambda>_. 0) mem1"] 2 show thesis by simp
qed

lemma managers_wired_ok:
  assumes "createQueueManager os path cap = Some (Inr (qm, mem))" and "mmap_ok os"
    and "0 < cap" and "24 + 12 * unat cap < 2 ^ 32" and "isArmArch os \<longrightarrow> even (unat cap)"
    and "isArmArch peer = isArmArch os" and "os_Open peer path = None" and "os_Stat peer path = Inr fi"
    and "fi_Size fi = length mem" and "os_Mmap peer (length mem) = Inr mem"
  shows "\<exists>pm. mappingQueueManager peer path = Some (Inr (pm, mem)) \<and>
    sendQueue pm = recvQueue qm \<and> recvQueue pm = sendQueue qm \<and>
    queue_fresh (sendQueue qm) mem \<and> queue_fresh (recvQueue qm) mem \<and>
    queue_foot (sendQueue qm) \<inter> queue_foot (recvQueue qm) = {}"
proof -
  from assms(1,2) obtain mem0 where l: "length mem0 = 2 * countQueueMemSize cap"
    and c: "createQueues (isArmArch os) cap mem0 = Some ((sendQueue qm, recvQueue qm), mem)"
    by (rule createQueueManager_mem)
  from createQueues_ok [OF assms(3,4) l, of "isArmArch os"] c
  have q: "sendQueue qm = queue_layout (isArmArch os) (lower_half cap) cap"
      "recvQueue qm = queue_layout (isArmArch os) (upper_half cap) cap"
    and m: "length mem = length mem0" "queue_fresh (sendQueue qm) mem" "queue_fresh (recvQueue qm) mem"
      "mapQueues (isArmArch os) (length mem) mem = Some (recvQueue qm, sendQueue qm)"
    by auto
  have "length mem mod 16 = 0" if "isArmArch os"
    using that assms(5) l m(1) by (auto simp: countQueueMemSize_def consts_defs elim!: evenE)
  then show ?thesis
    using assms(6-10) m halves_foot [of "isArmArch os" cap] q by (simp add: mappingQueueManager_def Let_def)
qed

text \<open>
  C26. The two processes agree on the queues. When one process creates the queue manager over a
  file and the peer, on the same architecture, maps the same bytes, the peer's send queue is
  the creator's receive queue and the other way round, both queues are empty and idle, and
  they occupy disjoint parts of the mapping.
\<close>

theorem queue_managers_wired:
  assumes "createQueueManager os path cap = Some (Inr (qm, mem))" and "mmap_ok os"
    and "0 < cap" and "24 + 12 * unat cap < 2 ^ 32" and "isArmArch os \<longrightarrow> even (unat cap)"
    and "isArmArch peer = isArmArch os" and "os_Open peer path = None" and "os_Stat peer path = Inr fi"
    and "fi_Size fi = length mem" and "os_Mmap peer (length mem) = Inr mem"
  shows "\<exists>pm. mappingQueueManager peer path = Some (Inr (pm, mem)) \<and>
    sendQueue pm = recvQueue qm \<and> recvQueue pm = sendQueue qm \<and>
    queue_fresh (sendQueue qm) mem \<and> queue_fresh (recvQueue qm) mem \<and>
    queue_foot (sendQueue qm) \<inter> queue_foot (recvQueue qm) = {}"
  using assms by (rule managers_wired_ok)

lemma queue_run_foot:
  assumes "queue_inv q m" and "length os \<le> queue_budget q m" and "queue_run q os m = Some (ins, outs, t)"
  shows "unchanged_off (queue_foot q) m t"
  using assms
proof (induction os arbitrary: m ins outs)
  case Nil
  then show ?case by (simp add: unchanged_off_refl)
next
  case (Cons o' os)
  have wf: "queue_wf q (length m)" using Cons.prems(1) by (simp add: queue_inv_def)
  show ?case
  proof (cases o')
    case (Enq e)
    from Cons.prems(1) show ?thesis
    proof (cases rule: queue_put_cases [of q m e])
      case full
      with Cons Enq show ?thesis by (auto simp: bind_eq_Some_conv)
    next
      case room
      then have i: "queue_inv q (put_mem q e m)" "length os \<le> queue_budget q (put_mem q e m)"
        using queue_put_room_spec [of q m e] Cons.prems by simp_all
      from room Cons.prems Enq obtain a b where "queue_run q os (put_mem q e m) = Some (a, b, t)"
        by (auto simp: bind_eq_Some_conv)
      with Cons.IH [OF i] show ?thesis by (blast intro: unchanged_off_seq put_mem_foot wf)
    qed
  next
    case Deq
    from Cons.prems(1) show ?thesis
    proof (cases rule: queue_pop_cases [of q m])
      case empty
      with Cons Deq show ?thesis by (auto simp: bind_eq_Some_conv)
    next
      case (item e)
      with Cons.prems Deq obtain a b where "queue_run q os (pop_mem q m) = Some (a, b, t)"
        by (auto simp: bind_eq_Some_conv)
      with Cons.IH [OF item(2)] item(4) Cons.prems(2) show ?thesis
        by (auto intro: unchanged_off_seq pop_mem_foot wf)
    qed
  qed
qed

text \<open>
  C27. The two directions do not interfere: no sequence of puts and pops on one queue changes
  the elements, the well-formedness or the working flag of a queue with a disjoint footprint
  in the same mapping.
\<close>

theorem queue_isolated:
  assumes "queue_inv q m" and "length os \<le> queue_budget q m" and "queue_run q os m = Some (ins, outs, t)"
    and "queue_inv q' m" and "queue_foot q \<inter> queue_foot q' = {}"
  shows "queue_items q' t = queue_items q' m \<and> queue_inv q' t \<and> consumerIsWorking q' t = consumerIsWorking q' m"
proof -
  have wf: "queue_wf q' (length m)" using assms(4) by (simp add: queue_inv_def)
  note u = queue_run_foot [OF assms(1-3)]
  from queue_frame [OF u assms(5) wf] unchanged_off_length [OF u] assms(4) wf
  show ?thesis by (simp add: consumerIsWorking_def mload_def queue_wf_def)
qed


definition demo_os :: os_env where
  "demo_os = \<lparr>os_GOOS = ''linux'', os_GOARCH = ''amd64'', os_Stat = (\<lambda>_. Inl False), os_Remove = (\<lambda>_. None),
     os_Create = (\<lambda>_. None), os_Open = (\<lambda>_. None), os_Truncate = (\<lambda>_. None), os_Mmap = (\<lambda>n. Inr (replicate n 0)),
     os_MemfdCreate = (\<lambda>_. Inr 3), os_Fstat = (\<lambda>_. Inr 96), os_DiskFree = Some 1000000\<rparr>"

definition demo_peer_os :: "bytes \<Rightarrow> os_env" where
  "demo_peer_os mem = demo_os\<lparr>os_Stat := (\<lambda>_. Inr \<lparr>fi_Size = length mem, fi_IsDir = False\<rparr>),
     os_Mmap := (\<lambda>n. if n = length mem then Inr mem else Inl (ErrMsg ''EINVAL''))\<rparr>"

definition demo_mem2 :: bytes where
  "demo_mem2 = demo_mem @ demo_mem"

definition demo_recv :: queue where
  "demo_recv = \<lparr>q_head = 52, q_tail = 60, q_workingFlag = 68, q_cap = 2,
     queueBytesOnMemory = \<lparr>sl_base = 72, sl_len = 24, sl_cap = 24\<rparr>\<rparr>"

definition demo_send :: queue where
  "demo_send = \<lparr>q_head = 4, q_tail = 12, q_workingFlag = 20, q_cap = 2,
     queueBytesOnMemory = \<lparr>sl_base = 24, sl_len = 24, sl_cap = 72\<rparr>\<rparr>"

lemma demo_manager: "createQueueManager demo_os ''/dev/shm/q'' 2 =
  Some (Inr (\<lparr>qm_path = ''/dev/shm/q'', sendQueue = demo_send, recvQueue = demo_recv,
     qm_mmapMapType = MemMapTypeDevShmFile, qm_memFd = 0\<rparr>, demo_mem2))"
  by code_simp


theorem queue_managers_wired_witness:
  "\<exists>pm. mappingQueueManager (demo_peer_os demo_mem2) ''/dev/shm/q'' = Some (Inr (pm, demo_mem2)) \<and>
    sendQueue pm = demo_recv \<and> recvQueue pm = demo_send \<and>
    queue_fresh demo_send demo_mem2 \<and> queue_fresh demo_recv demo_mem2 \<and>
    queue_foot demo_send \<inter> queue_foot demo_recv = {}"
  using queue_managers_wired [OF demo_manager, of "demo_peer_os demo_mem2"]
  by (simp add: mmap_ok_def demo_os_def demo_peer_os_def isArmArch_def)

lemma demo_pair:
  "queue_fresh demo_send demo_mem2" "queue_fresh demo_recv demo_mem2"
  "queue_foot demo_send \<inter> queue_foot demo_recv = {}"
proof -
  have e: "queue_layout False (lower_half 2) 2 = demo_send" "queue_layout False (upper_half 2) 2 = demo_recv"
    by code_simp+
  have "createQueues False 2 (replicate 96 0) = Some ((demo_send, demo_recv), demo_mem2)" by code_simp
  then show "queue_fresh demo_send demo_mem2" "queue_fresh demo_recv demo_mem2"
    "queue_foot demo_send \<inter> queue_foot demo_recv = {}"
    using createQueues_ok [of 2 "replicate 96 0" False] halves_foot [of False 2]
    by (simp_all add: countQueueMemSize_def consts_defs e)
qed

theorem queue_isolated_witness:
  "\<exists>t. queue_run demo_send [Enq \<lparr>seqID = 1, offsetInShmBuf = 2, status = 3\<rparr>] demo_mem2 =
      Some ([\<lparr>seqID = 1, offsetInShmBuf = 2, status = 3\<rparr>], [], t) \<and>
    queue_items demo_recv t = queue_items demo_recv demo_mem2 \<and> queue_inv demo_recv t \<and>
    consumerIsWorking demo_recv t = consumerIsWorking demo_recv demo_mem2"
proof -
  let ?e = "\<lparr>seqID = 1, offsetInShmBuf = 2, status = 3\<rparr>"
  have i: "queue_inv demo_send demo_mem2" "queue_inv demo_recv demo_mem2"
    using demo_pair by (simp_all add: queue_fresh_def)
  have b: "length [Enq ?e] \<le> queue_budget demo_send demo_mem2"
    using demo_pair by (simp add: queue_budget_def queue_fresh_def)
  have "\<not> Option.is_none (queue_run demo_send [Enq ?e] demo_mem2) \<and>
      fst (the (queue_run demo_send [Enq ?e] demo_mem2)) = [?e] \<and>
      fst (snd (the (queue_run demo_send [Enq ?e] demo_mem2))) = []" by code_simp
  then obtain t where r: "queue_run demo_send [Enq ?e] demo_mem2 = Some ([?e], [], t)"
    by (cases "queue_run demo_send [Enq ?e] demo_mem2") auto
  from queue_isolated [OF i(1) b r i(2) demo_pair(3)] r show ?thesis by blast
qed


end
