(* ===== verification/Queue_Concurrency.thy ===== *)
theory Queue_Concurrency
  imports Io_Queue
begin

text \<open>
  The IO queue under concurrency: any number of goroutines of one process run
  \<^verbatim>\<open>put\<close> followed by \<^verbatim>\<open>wakeUpPeer\<close> while the peer process runs \<^verbatim>\<open>handlePolling\<close>, which pops
  until the queue is empty and then calls \<^verbatim>\<open>markNotWorking\<close>. Each load, store, atomic
  operation and lock operation of the source is one step of the relation \<open>conc_step\<close>;
  the scheduler may interleave the steps of the threads in any order. \<open>conc_inv\<close>
  relates the memory to the elements sent and received so far, \<open>wake_inv\<close> states that
  a non-empty queue always has somebody responsible for it.
\<close>

subsection \<open>Single stores\<close>

lemma elem_store:
  assumes "queue_wf q (length m)" and "k < qcap q" and "j < qcap q"
  shows "elem_at q (wr m (qbase q + 12 * k) (v :: u32)) j =
      (if j = k then (elem_at q m j)\<lparr>seqID := v\<rparr> else elem_at q m j)"
    and "elem_at q (wr m (qbase q + (12 * k + 4)) (v :: u32)) j =
      (if j = k then (elem_at q m j)\<lparr>offsetInShmBuf := v\<rparr> else elem_at q m j)"
    and "elem_at q (wr m (qbase q + (12 * k + 8)) (v :: u32)) j =
      (if j = k then (elem_at q m j)\<lparr>status := v\<rparr> else elem_at q m j)"
proof -
  have b: "12 * k + 12 \<le> 12 * qcap q" "12 * j + 12 \<le> 12 * qcap q" using assms(2,3) by simp_all
  have s: "j = k \<or> 12 * j + 12 \<le> 12 * k \<or> 12 * k + 12 \<le> 12 * j" using slots_sep by blast
  show "elem_at q (wr m (qbase q + 12 * k) (v :: u32)) j =
      (if j = k then (elem_at q m j)\<lparr>seqID := v\<rparr> else elem_at q m j)"
    "elem_at q (wr m (qbase q + (12 * k + 4)) (v :: u32)) j =
      (if j = k then (elem_at q m j)\<lparr>offsetInShmBuf := v\<rparr> else elem_at q m j)"
    "elem_at q (wr m (qbase q + (12 * k + 8)) (v :: u32)) j =
      (if j = k then (elem_at q m j)\<lparr>status := v\<rparr> else elem_at q m j)"
    using s assms(1) b by (auto simp: elem_at_def queue_wf_def mem_simps)
qed

lemma header_elem_store:
  fixes v :: u32
  assumes "queue_wf q (length m)" and "k < qcap q" and "d \<le> 8"
  defines "m' \<equiv> wr m (qbase q + (12 * k + d)) (v :: u32)"
  shows "length m' = length m" "(rd m' (q_head q) :: u64) = rd m (q_head q)"
    "(rd m' (q_tail q) :: u64) = rd m (q_tail q)" "(rd m' (q_workingFlag q) :: u32) = rd m (q_workingFlag q)"
proof -
  have "12 * k + 12 \<le> 12 * qcap q" using assms(2) by simp
  then show "length m' = length m" "(rd m' (q_head q) :: u64) = rd m (q_head q)"
    "(rd m' (q_tail q) :: u64) = rd m (q_tail q)" "(rd m' (q_workingFlag q) :: u32) = rd m (q_workingFlag q)"
    using assms(1,3) by (simp_all add: m'_def queue_wf_def mem_simps)
qed

lemma header_store:
  assumes "queue_wf q (length m)"
  shows "length (wr m (q_tail q) (t :: u64)) = length m" "length (wr m (q_head q) (t :: u64)) = length m"
    "length (wr m (q_workingFlag q) (f :: u32)) = length m"
    "rd (wr m (q_tail q) (t :: u64)) (q_tail q) = t" "(rd (wr m (q_tail q) t) (q_head q) :: u64) = rd m (q_head q)"
    "(rd (wr m (q_tail q) t) (q_workingFlag q) :: u32) = rd m (q_workingFlag q)"
    "rd (wr m (q_head q) (t :: u64)) (q_head q) = t" "(rd (wr m (q_head q) t) (q_tail q) :: u64) = rd m (q_tail q)"
    "(rd (wr m (q_head q) t) (q_workingFlag q) :: u32) = rd m (q_workingFlag q)"
    "rd (wr m (q_workingFlag q) (f :: u32)) (q_workingFlag q) = f"
    "(rd (wr m (q_workingFlag q) f) (q_head q) :: u64) = rd m (q_head q)"
    "(rd (wr m (q_workingFlag q) f) (q_tail q) :: u64) = rd m (q_tail q)"
    "j < qcap q \<Longrightarrow> elem_at q (wr m (q_tail q) t) j = elem_at q m j"
    "j < qcap q \<Longrightarrow> elem_at q (wr m (q_head q) t) j = elem_at q m j"
    "j < qcap q \<Longrightarrow> elem_at q (wr m (q_workingFlag q) f) j = elem_at q m j"
proof -
  show "length (wr m (q_tail q) (t :: u64)) = length m" "length (wr m (q_head q) (t :: u64)) = length m"
    "length (wr m (q_workingFlag q) (f :: u32)) = length m"
    "rd (wr m (q_tail q) (t :: u64)) (q_tail q) = t" "(rd (wr m (q_tail q) t) (q_head q) :: u64) = rd m (q_head q)"
    "(rd (wr m (q_tail q) t) (q_workingFlag q) :: u32) = rd m (q_workingFlag q)"
    "rd (wr m (q_head q) (t :: u64)) (q_head q) = t" "(rd (wr m (q_head q) t) (q_tail q) :: u64) = rd m (q_tail q)"
    "(rd (wr m (q_head q) t) (q_workingFlag q) :: u32) = rd m (q_workingFlag q)"
    "rd (wr m (q_workingFlag q) (f :: u32)) (q_workingFlag q) = f"
    "(rd (wr m (q_workingFlag q) f) (q_head q) :: u64) = rd m (q_head q)"
    "(rd (wr m (q_workingFlag q) f) (q_tail q) :: u64) = rd m (q_tail q)"
    using assms by (simp_all add: queue_wf_def mem_simps)
next
  assume "j < qcap q"
  then have "12 * j + 12 \<le> 12 * qcap q" by simp
  then show "elem_at q (wr m (q_tail q) t) j = elem_at q m j" "elem_at q (wr m (q_head q) t) j = elem_at q m j"
    "elem_at q (wr m (q_workingFlag q) f) j = elem_at q m j"
    using assms by (simp_all add: elem_at_def queue_wf_def mem_simps)
qed


subsection \<open>Threads\<close>

datatype ppc =
    PIdle
  | PLock queueElement             \<comment> \<open>\<^verbatim>\<open>q.Lock()\<close>\<close>
  | PTail queueElement             \<comment> \<open>\<^verbatim>\<open>tail := atomic.LoadInt64(q.tail)\<close>\<close>
  | PHead queueElement u64         \<comment> \<open>\<^verbatim>\<open>if tail-atomic.LoadInt64(q.head) >= q.cap\<close>\<close>
  | PSeq queueElement u64          \<comment> \<open>the three stores into the slot\<close>
  | POff queueElement u64
  | PStat queueElement u64
  | PAdd queueElement              \<comment> \<open>\<^verbatim>\<open>atomic.AddInt64(q.tail, 1)\<close>\<close>
  | PUnlock bool                   \<comment> \<open>\<^verbatim>\<open>q.Unlock()\<close>, with the result of the put\<close>
  | PMark                          \<comment> \<open>\<^verbatim>\<open>sendQueue.markWorking()\<close> of \<^verbatim>\<open>wakeUpPeer\<close>\<close>
  | PNotify                        \<comment> \<open>the polling event is written\<close>

datatype cpc =
    CWait                          \<comment> \<open>no polling event is being handled\<close>
  | CHead                          \<comment> \<open>\<^verbatim>\<open>head := atomic.LoadInt64(q.head)\<close>\<close>
  | CTail u64                      \<comment> \<open>\<^verbatim>\<open>if head >= atomic.LoadInt64(q.tail)\<close>\<close>
  | CSeq u64                       \<comment> \<open>the three loads from the slot\<close>
  | COff u64 u32
  | CStat u64 u32 u32
  | CAdd queueElement              \<comment> \<open>\<^verbatim>\<open>atomic.AddInt64(q.head, 1)\<close>\<close>
  | CClear                         \<comment> \<open>\<^verbatim>\<open>atomic.StoreUint32(q.workingFlag, 0)\<close>\<close>
  | CSizeTail                      \<comment> \<open>the two loads of \<^verbatim>\<open>q.size()\<close>\<close>
  | CSizeHead u64
  | CSet                           \<comment> \<open>\<^verbatim>\<open>atomic.StoreUint32(q.workingFlag, 1)\<close>\<close>

record conc =
  shm :: bytes
  lck :: "nat option"
  producers :: "nat \<Rightarrow> ppc"
  consumer :: cpc
  events :: nat                    \<comment> \<open>polling events written and not yet handled\<close>
  sent :: "queueElement list"      \<comment> \<open>elements whose put succeeded, in order\<close>
  recvd :: "queueElement list"     \<comment> \<open>elements popped, in order\<close>

definition slot_addr :: "queue \<Rightarrow> u64 \<Rightarrow> nat" where
  "slot_addr q i = qbase q + 12 * (unat i mod qcap q)"

inductive conc_step :: "queue \<Rightarrow> conc \<Rightarrow> conc \<Rightarrow> bool" for q where
  start: "producers s p = PIdle \<Longrightarrow> conc_step q s (s\<lparr>producers := (producers s)(p := PLock e)\<rparr>)"
| lock: "producers s p = PLock e \<Longrightarrow> lck s = None \<Longrightarrow>
    conc_step q s (s\<lparr>producers := (producers s)(p := PTail e), lck := Some p\<rparr>)"
| load_tail: "producers s p = PTail e \<Longrightarrow>
    conc_step q s (s\<lparr>producers := (producers s)(p := PHead e (rd (shm s) (q_tail q)))\<rparr>)"
| full: "producers s p = PHead e t \<Longrightarrow> sint (t - rd (shm s) (q_head q)) \<ge> sint (q_cap q) \<Longrightarrow>
    conc_step q s (s\<lparr>producers := (producers s)(p := PUnlock False)\<rparr>)"
| room: "producers s p = PHead e t \<Longrightarrow> \<not> sint (t - rd (shm s) (q_head q)) \<ge> sint (q_cap q) \<Longrightarrow>
    conc_step q s (s\<lparr>producers := (producers s)(p := PSeq e t)\<rparr>)"
| store_seq: "producers s p = PSeq e t \<Longrightarrow>
    conc_step q s (s\<lparr>producers := (producers s)(p := POff e t), shm := wr (shm s) (slot_addr q t) (seqID e)\<rparr>)"
| store_off: "producers s p = POff e t \<Longrightarrow>
    conc_step q s (s\<lparr>producers := (producers s)(p := PStat e t), shm := wr (shm s) (slot_addr q t + 4) (offsetInShmBuf e)\<rparr>)"
| store_stat: "producers s p = PStat e t \<Longrightarrow>
    conc_step q s (s\<lparr>producers := (producers s)(p := PAdd e), shm := wr (shm s) (slot_addr q t + 8) (status e)\<rparr>)"
| add_tail: "producers s p = PAdd e \<Longrightarrow>
    conc_step q s (s\<lparr>producers := (producers s)(p := PUnlock True),
      shm := wr (shm s) (q_tail q) (rd (shm s) (q_tail q) + 1 :: u64), sent := sent s @ [e]\<rparr>)"
| unlock: "producers s p = PUnlock ok \<Longrightarrow>
    conc_step q s (s\<lparr>producers := (producers s)(p := if ok then PMark else PIdle), lck := None\<rparr>)"
| mark_fail: "producers s p = PMark \<Longrightarrow> (rd (shm s) (q_workingFlag q) :: u32) \<noteq> 0 \<Longrightarrow>
    conc_step q s (s\<lparr>producers := (producers s)(p := PIdle)\<rparr>)"
| mark: "producers s p = PMark \<Longrightarrow> (rd (shm s) (q_workingFlag q) :: u32) = 0 \<Longrightarrow>
    conc_step q s (s\<lparr>producers := (producers s)(p := PNotify), shm := wr (shm s) (q_workingFlag q) (1 :: u32)\<rparr>)"
| notify: "producers s p = PNotify \<Longrightarrow>
    conc_step q s (s\<lparr>producers := (producers s)(p := PIdle), events := events s + 1\<rparr>)"
| wake: "consumer s = CWait \<Longrightarrow> 0 < events s \<Longrightarrow>
    conc_step q s (s\<lparr>consumer := CHead, events := events s - 1\<rparr>)"
| pop_head: "consumer s = CHead \<Longrightarrow> conc_step q s (s\<lparr>consumer := CTail (rd (shm s) (q_head q))\<rparr>)"
| pop_empty: "consumer s = CTail h \<Longrightarrow> sint h \<ge> sint (rd (shm s) (q_tail q) :: u64) \<Longrightarrow>
    conc_step q s (s\<lparr>consumer := CClear\<rparr>)"
| pop_some: "consumer s = CTail h \<Longrightarrow> \<not> sint h \<ge> sint (rd (shm s) (q_tail q) :: u64) \<Longrightarrow>
    conc_step q s (s\<lparr>consumer := CSeq h\<rparr>)"
| load_seq: "consumer s = CSeq h \<Longrightarrow>
    conc_step q s (s\<lparr>consumer := COff h (rd (shm s) (slot_addr q h))\<rparr>)"
| load_off: "consumer s = COff h a \<Longrightarrow>
    conc_step q s (s\<lparr>consumer := CStat h a (rd (shm s) (slot_addr q h + 4))\<rparr>)"
| load_stat: "consumer s = CStat h a b \<Longrightarrow>
    conc_step q s (s\<lparr>consumer := CAdd \<lparr>seqID = a, offsetInShmBuf = b, status = rd (shm s) (slot_addr q h + 8)\<rparr>\<rparr>)"
| add_head: "consumer s = CAdd e \<Longrightarrow>
    conc_step q s (s\<lparr>consumer := CHead, shm := wr (shm s) (q_head q) (rd (shm s) (q_head q) + 1 :: u64),
      recvd := recvd s @ [e]\<rparr>)"
| clear: "consumer s = CClear \<Longrightarrow>
    conc_step q s (s\<lparr>consumer := CSizeTail, shm := wr (shm s) (q_workingFlag q) (0 :: u32)\<rparr>)"
| size_tail: "consumer s = CSizeTail \<Longrightarrow> conc_step q s (s\<lparr>consumer := CSizeHead (rd (shm s) (q_tail q))\<rparr>)"
| size_zero: "consumer s = CSizeHead t \<Longrightarrow> t - rd (shm s) (q_head q) = 0 \<Longrightarrow>
    conc_step q s (s\<lparr>consumer := CWait\<rparr>)"
| size_pos: "consumer s = CSizeHead t \<Longrightarrow> t - rd (shm s) (q_head q) \<noteq> 0 \<Longrightarrow>
    conc_step q s (s\<lparr>consumer := CSet\<rparr>)"
| set: "consumer s = CSet \<Longrightarrow>
    conc_step q s (s\<lparr>consumer := CHead, shm := wr (shm s) (q_workingFlag q) (1 :: u32)\<rparr>)"

inductive conc_reach :: "queue \<Rightarrow> bytes \<Rightarrow> conc \<Rightarrow> bool" for q m0 where
  init: "conc_reach q m0 \<lparr>shm = m0, lck = None, producers = (\<lambda>_. PIdle), consumer = CWait, events = 0,
    sent = [], recvd = []\<rparr>"
| step: "conc_reach q m0 s \<Longrightarrow> conc_step q s t \<Longrightarrow> conc_reach q m0 t"

subsection \<open>The invariant\<close>

fun critical :: "ppc \<Rightarrow> bool" where
  "critical (PTail e) = True" | "critical (PHead e t) = True" | "critical (PSeq e t) = True"
| "critical (POff e t) = True" | "critical (PStat e t) = True" | "critical (PAdd e) = True"
| "critical (PUnlock ok) = True" | "critical _ = False"

fun prod_ok :: "queue \<Rightarrow> bytes \<Rightarrow> ppc \<Rightarrow> bool" where
  "prod_ok q m (PHead e t) = (t = rd m (q_tail q))"
| "prod_ok q m (PSeq e t) = (t = rd m (q_tail q) \<and> qtail q m < qhead q m + qcap q)"
| "prod_ok q m (POff e t) = (t = rd m (q_tail q) \<and> qtail q m < qhead q m + qcap q \<and>
     seqID (elem_at q m (qtail q m mod qcap q)) = seqID e)"
| "prod_ok q m (PStat e t) = (t = rd m (q_tail q) \<and> qtail q m < qhead q m + qcap q \<and>
     seqID (elem_at q m (qtail q m mod qcap q)) = seqID e \<and>
     offsetInShmBuf (elem_at q m (qtail q m mod qcap q)) = offsetInShmBuf e)"
| "prod_ok q m (PAdd e) = (qtail q m < qhead q m + qcap q \<and> elem_at q m (qtail q m mod qcap q) = e)"
| "prod_ok q m _ = True"

fun cons_ok :: "queue \<Rightarrow> bytes \<Rightarrow> cpc \<Rightarrow> bool" where
  "cons_ok q m (CTail h) = (h = rd m (q_head q))"
| "cons_ok q m (CSeq h) = (h = rd m (q_head q) \<and> qhead q m < qtail q m)"
| "cons_ok q m (COff h a) = (h = rd m (q_head q) \<and> qhead q m < qtail q m \<and>
     a = seqID (elem_at q m (qhead q m mod qcap q)))"
| "cons_ok q m (CStat h a b) = (h = rd m (q_head q) \<and> qhead q m < qtail q m \<and>
     a = seqID (elem_at q m (qhead q m mod qcap q)) \<and>
     b = offsetInShmBuf (elem_at q m (qhead q m mod qcap q)))"
| "cons_ok q m (CAdd e) = (qhead q m < qtail q m \<and> e = elem_at q m (qhead q m mod qcap q))"
| "cons_ok q m _ = True"

definition conc_inv :: "queue \<Rightarrow> conc \<Rightarrow> bool" where
  "conc_inv q s \<longleftrightarrow>
     queue_inv q (shm s) \<and> qtail q (shm s) = length (sent s) \<and>
     sent s = recvd s @ queue_items q (shm s) \<and>
     (\<forall>p. critical (producers s p) \<longleftrightarrow> lck s = Some p) \<and>
     (\<forall>p. prod_ok q (shm s) (producers s p)) \<and> cons_ok q (shm s) (consumer s)"


lemma queue_wfI [simp]: "queue_inv q m \<Longrightarrow> queue_wf q (length m)"
  by (simp add: queue_inv_def)

lemma mod_cap_less [simp]: "queue_wf q n \<Longrightarrow> i mod qcap q < qcap q"
  by (simp add: queue_wf_def)

lemma same_view:
  assumes "length m' = length m" and "(rd m' (q_head q) :: u64) = rd m (q_head q)"
    and "(rd m' (q_tail q) :: u64) = rd m (q_tail q)" and wf: "queue_wf q (length m)"
    and e: "\<And>i. qhead q m \<le> i \<Longrightarrow> i < qtail q m \<Longrightarrow>
      elem_at q m' (i mod qcap q) = elem_at q m (i mod qcap q)"
  shows "queue_inv q m' = queue_inv q m" and "queue_items q m' = queue_items q m"
    and "cons_ok q m' c = cons_ok q m c"
  using assms by (cases c; auto simp: queue_inv_def queue_items_def)+

lemma flag_store_ok:
  assumes wf: "queue_wf q (length m)"
  shows "queue_inv q (wr m (q_workingFlag q) (f :: u32)) = queue_inv q m"
    and "queue_items q (wr m (q_workingFlag q) f) = queue_items q m"
    and "prod_ok q (wr m (q_workingFlag q) f) pc = prod_ok q m pc"
    and "cons_ok q (wr m (q_workingFlag q) f) c = cons_ok q m c"
proof -
  note hs = header_store [OF wf] and lt = mod_cap_less [OF wf]
  show "queue_inv q (wr m (q_workingFlag q) f) = queue_inv q m"
    "queue_items q (wr m (q_workingFlag q) f) = queue_items q m"
    "cons_ok q (wr m (q_workingFlag q) f) c = cons_ok q m c"
    by (rule same_view; simp add: hs lt wf)+
  show "prod_ok q (wr m (q_workingFlag q) f) pc = prod_ok q m pc"
    by (cases pc) (simp_all add: hs lt)
qed

lemma slot_store_ok:
  fixes v :: u32
  assumes inv: "queue_inv q m" and room: "qtail q m < qhead q m + qcap q" and "d \<in> {0, 4, 8}"
  defines "m' \<equiv> wr m (slot_addr q (rd m (q_tail q)) + d) (v :: u32)"
  shows "queue_inv q m'" and "queue_items q m' = queue_items q m" and "cons_ok q m' c = cons_ok q m c"
    and "(rd m' (q_head q) :: u64) = rd m (q_head q)" and "(rd m' (q_tail q) :: u64) = rd m (q_tail q)"
    and "(rd m' (q_workingFlag q) :: u32) = rd m (q_workingFlag q)"
    and "length m' = length m"
proof -
  have wf: "queue_wf q (length m)" using inv by simp
  let ?k = "qtail q m mod qcap q"
  have k: "?k < qcap q" using wf by simp
  have m': "m' = wr m (qbase q + (12 * ?k + d)) v" by (simp add: m'_def slot_addr_def add.assoc)
  have d: "d \<le> 8" using assms(3) by auto
  note h = header_elem_store [OF wf k d, of v, folded m']
  have e: "elem_at q m' (i mod qcap q) = elem_at q m (i mod qcap q)"
    if "qhead q m \<le> i" "i < qtail q m" for i
    using live_slot_neq [OF that room] assms(3) wf elem_store [OF wf k, of "i mod qcap q" v]
    by (auto simp: m')
  note sv = same_view [OF h(1,2,3) wf e]
  show "queue_inv q m'" "queue_items q m' = queue_items q m" "cons_ok q m' c = cons_ok q m c"
    using sv inv by simp_all
  show "(rd m' (q_head q) :: u64) = rd m (q_head q)" "(rd m' (q_tail q) :: u64) = rd m (q_tail q)"
    "(rd m' (q_workingFlag q) :: u32) = rd m (q_workingFlag q)" "length m' = length m"
    using h by simp_all
qed

lemma tail_store_ok:
  assumes inv: "queue_inv q m" and room: "qtail q m < qhead q m + qcap q" and b: "qtail q m + 1 < 2 ^ 63"
  defines "m' \<equiv> wr m (q_tail q) (rd m (q_tail q) + 1 :: u64)"
  shows "queue_inv q m'" and "queue_items q m' = queue_items q m @ [elem_at q m (qtail q m mod qcap q)]"
    and "cons_ok q m c \<Longrightarrow> cons_ok q m' c" and "qtail q m' = qtail q m + 1"
proof -
  have wf: "queue_wf q (length m)" using inv by simp
  have t: "unat (rd m (q_tail q) + 1 :: u64) = qtail q m + 1"
    by (rule unat_plus_one) (use b in simp)
  note hs = header_store [OF wf] and lt = mod_cap_less [OF wf]
  show tl: "qtail q m' = qtail q m + 1" by (simp add: m'_def hs t)
  show "queue_inv q m'" using inv room b by (simp add: m'_def queue_inv_def hs t)
  have "[qhead q m..<qtail q m + 1] = [qhead q m..<qtail q m] @ [qtail q m]"
    using inv by (simp add: queue_inv_def)
  then show "queue_items q m' = queue_items q m @ [elem_at q m (qtail q m mod qcap q)]"
    by (simp add: queue_items_def m'_def hs t lt)
  show "cons_ok q m c \<Longrightarrow> cons_ok q m' c"
    by (cases c) (auto simp: m'_def hs t lt)
qed

lemma head_store_ok:
  assumes inv: "queue_inv q m" and ne: "qhead q m < qtail q m"
  defines "m' \<equiv> wr m (q_head q) (rd m (q_head q) + 1 :: u64)"
  shows "queue_inv q m'" and "queue_items q m = elem_at q m (qhead q m mod qcap q) # queue_items q m'"
    and "prod_ok q m pc \<Longrightarrow> prod_ok q m' pc" and "qtail q m' = qtail q m"
proof -
  have wf: "queue_wf q (length m)" using inv by simp
  have h: "unat (rd m (q_head q) + 1 :: u64) = qhead q m + 1"
    by (rule unat_plus_one) (use inv ne in \<open>simp add: queue_inv_def\<close>)
  note hs = header_store [OF wf] and lt = mod_cap_less [OF wf]
  show "queue_inv q m'" "queue_items q m = elem_at q m (qhead q m mod qcap q) # queue_items q m'"
    "qtail q m' = qtail q m"
    using queue_items_pop [OF inv ne] by (simp_all add: m'_def pop_mem_def hs)
  show "prod_ok q m pc \<Longrightarrow> prod_ok q m' pc"
    by (cases pc) (auto simp: m'_def hs h lt)
qed

lemma not_critical_ok: "\<not> critical pc \<Longrightarrow> prod_ok q m pc"
  by (cases pc) simp_all

lemma sole_critical:
  assumes "\<And>p. critical (f p) \<longleftrightarrow> l = Some (p :: nat)" and "critical (f p)" and "p' \<noteq> p"
  shows "\<not> critical (f p')"
  using assms by auto


lemma conc_invD:
  assumes "conc_inv q s"
  shows "queue_inv q (shm s)" "qtail q (shm s) = length (sent s)"
    "sent s = recvd s @ queue_items q (shm s)" "critical (producers s p) \<longleftrightarrow> lck s = Some p"
    "prod_ok q (shm s) (producers s p)" "cons_ok q (shm s) (consumer s)"
  using assms by (simp_all add: conc_inv_def)

lemma others_ok:
  assumes "conc_inv q s" and "critical (producers s p)" and "p' \<noteq> p"
  shows "prod_ok q m' (producers s p')"
  using sole_critical [of "producers s" "lck s" p p'] conc_invD(4) [OF assms(1)] assms(2,3)
  by (blast intro: not_critical_ok)

lemma slot_step:
  fixes v :: u32
  assumes inv: "conc_inv q s" and crit: "critical (producers s p)"
    and t: "t = rd (shm s) (q_tail q)" and room: "qtail q (shm s) < qhead q (shm s) + qcap q"
    and d: "d \<in> {0, 4, 8}" and m': "m' = wr (shm s) (slot_addr q t + d) v"
    and pc: "critical pc'" "prod_ok q m' pc'"
  shows "conc_inv q (s\<lparr>producers := (producers s)(p := pc'), shm := m'\<rparr>)"
proof -
  note ok = slot_store_ok [OF conc_invD(1) [OF inv] room d, of v, folded m' [unfolded t]]
  show ?thesis
    unfolding conc_inv_def
    using ok conc_invD [OF inv] pc crit others_ok [OF inv crit, of _ m'] by auto
qed

lemma slot_write_self:
  assumes "queue_inv q m"
  shows "elem_at q (wr m (slot_addr q (rd m (q_tail q))) (v :: u32)) (qtail q m mod qcap q) =
      (elem_at q m (qtail q m mod qcap q))\<lparr>seqID := v\<rparr>"
    and "elem_at q (wr m (slot_addr q (rd m (q_tail q)) + 4) (v :: u32)) (qtail q m mod qcap q) =
      (elem_at q m (qtail q m mod qcap q))\<lparr>offsetInShmBuf := v\<rparr>"
    and "elem_at q (wr m (slot_addr q (rd m (q_tail q)) + 8) (v :: u32)) (qtail q m mod qcap q) =
      (elem_at q m (qtail q m mod qcap q))\<lparr>status := v\<rparr>"
proof -
  have wf: "queue_wf q (length m)" using assms by simp
  note e = elem_store [OF wf mod_cap_less [OF wf] mod_cap_less [OF wf]]
  show "elem_at q (wr m (slot_addr q (rd m (q_tail q))) (v :: u32)) (qtail q m mod qcap q) =
      (elem_at q m (qtail q m mod qcap q))\<lparr>seqID := v\<rparr>"
    "elem_at q (wr m (slot_addr q (rd m (q_tail q)) + 4) (v :: u32)) (qtail q m mod qcap q) =
      (elem_at q m (qtail q m mod qcap q))\<lparr>offsetInShmBuf := v\<rparr>"
    "elem_at q (wr m (slot_addr q (rd m (q_tail q)) + 8) (v :: u32)) (qtail q m mod qcap q) =
      (elem_at q m (qtail q m mod qcap q))\<lparr>status := v\<rparr>"
    using e by (simp_all add: slot_addr_def add.assoc)
qed

lemma store_steps_inv:
  assumes inv: "conc_inv q s"
  shows "producers s p = PSeq e t \<Longrightarrow>
      conc_inv q (s\<lparr>producers := (producers s)(p := POff e t), shm := wr (shm s) (slot_addr q t) (seqID e)\<rparr>)"
    and "producers s p = POff e t \<Longrightarrow>
      conc_inv q (s\<lparr>producers := (producers s)(p := PStat e t), shm := wr (shm s) (slot_addr q t + 4) (offsetInShmBuf e)\<rparr>)"
    and "producers s p = PStat e t \<Longrightarrow>
      conc_inv q (s\<lparr>producers := (producers s)(p := PAdd e), shm := wr (shm s) (slot_addr q t + 8) (status e)\<rparr>)"
proof -
  note qi = conc_invD(1) [OF inv] and po = conc_invD(5) [OF inv, of p]
  { assume pc: "producers s p = PSeq e t"
    with po slot_write_self [OF qi] slot_store_ok [OF qi, of 0 "seqID e"]
    show "conc_inv q (s\<lparr>producers := (producers s)(p := POff e t), shm := wr (shm s) (slot_addr q t) (seqID e)\<rparr>)"
      by (intro slot_step [OF inv, where d = 0]) auto }
  { assume pc: "producers s p = POff e t"
    with po slot_write_self [OF qi] slot_store_ok [OF qi, of 4 "offsetInShmBuf e"]
    show "conc_inv q (s\<lparr>producers := (producers s)(p := PStat e t), shm := wr (shm s) (slot_addr q t + 4) (offsetInShmBuf e)\<rparr>)"
      by (intro slot_step [OF inv, where d = 4]) auto }
  { assume pc: "producers s p = PStat e t"
    with po slot_write_self [OF qi] slot_store_ok [OF qi, of 8 "status e"]
    show "conc_inv q (s\<lparr>producers := (producers s)(p := PAdd e), shm := wr (shm s) (slot_addr q t + 8) (status e)\<rparr>)"
      by (intro slot_step [OF inv, where d = 8]) auto }
qed

lemma add_tail_inv:
  assumes inv: "conc_inv q s" and pc: "producers s p = PAdd e" and b: "length (sent s) + 1 < 2 ^ 63"
  shows "conc_inv q (s\<lparr>producers := (producers s)(p := PUnlock True),
      shm := wr (shm s) (q_tail q) (rd (shm s) (q_tail q) + 1 :: u64), sent := sent s @ [e]\<rparr>)"
proof -
  have po: "qtail q (shm s) < qhead q (shm s) + qcap q" "elem_at q (shm s) (qtail q (shm s) mod qcap q) = e"
    using conc_invD(5) [OF inv, of p] pc by simp_all
  have "qtail q (shm s) + 1 < 2 ^ 63" using b conc_invD(2) [OF inv] by simp
  note ok = tail_store_ok [OF conc_invD(1) [OF inv] po(1) this]
  have crit: "critical (producers s p)" using pc by simp
  show ?thesis
    unfolding conc_inv_def
    using ok conc_invD [OF inv] po crit others_ok [OF inv crit] by auto
qed

lemma flag_step_inv:
  assumes inv: "conc_inv q s"
  shows "cons_ok q (shm s) c \<Longrightarrow>
      conc_inv q (s\<lparr>consumer := c, shm := wr (shm s) (q_workingFlag q) (f :: u32)\<rparr>)"
    and "\<not> critical (producers s p) \<Longrightarrow> \<not> critical pc \<Longrightarrow>
      conc_inv q (s\<lparr>producers := (producers s)(p := pc), shm := wr (shm s) (q_workingFlag q) f\<rparr>)"
proof -
  have "queue_wf q (length (shm s))" using conc_invD(1) [OF inv] by simp
  note fs = flag_store_ok [OF this, of f] header_store [OF this]
  show "cons_ok q (shm s) c \<Longrightarrow>
      conc_inv q (s\<lparr>consumer := c, shm := wr (shm s) (q_workingFlag q) (f :: u32)\<rparr>)"
    "\<not> critical (producers s p) \<Longrightarrow> \<not> critical pc \<Longrightarrow>
      conc_inv q (s\<lparr>producers := (producers s)(p := pc), shm := wr (shm s) (q_workingFlag q) f\<rparr>)"
    using fs conc_invD [OF inv] by (simp_all add: conc_inv_def not_critical_ok)
qed

lemma add_head_inv:
  assumes inv: "conc_inv q s" and pc: "consumer s = CAdd e"
  shows "conc_inv q (s\<lparr>consumer := CHead, shm := wr (shm s) (q_head q) (rd (shm s) (q_head q) + 1 :: u64),
      recvd := recvd s @ [e]\<rparr>)"
proof -
  have ne: "qhead q (shm s) < qtail q (shm s)" and e: "e = elem_at q (shm s) (qhead q (shm s) mod qcap q)"
    using conc_invD(6) [OF inv] pc by simp_all
  note ok = head_store_ok [OF conc_invD(1) [OF inv] ne]
  show ?thesis using ok conc_invD [OF inv] e by (simp add: conc_inv_def)
qed

lemma slot_read:
  "rd m (slot_addr q (rd m (q_head q))) = seqID (elem_at q m (qhead q m mod qcap q))"
  "rd m (slot_addr q (rd m (q_head q)) + 4) = offsetInShmBuf (elem_at q m (qhead q m mod qcap q))"
  "rd m (slot_addr q (rd m (q_head q)) + 8) = status (elem_at q m (qhead q m mod qcap q))"
  by (simp_all add: slot_addr_def elem_at_def add.assoc)

text \<open>The consumer moves and nothing else does.\<close>

lemma consumer_step_inv:
  assumes "conc_inv q s" and "cons_ok q (shm s) c"
  shows "conc_inv q (s\<lparr>consumer := c\<rparr>)" and "conc_inv q (s\<lparr>consumer := c, events := n\<rparr>)"
  using assms by (simp_all add: conc_inv_def)

lemma producer_step_inv:
  assumes "conc_inv q s" and "prod_ok q (shm s) pc" and "critical pc = critical (producers s p)"
  shows "conc_inv q (s\<lparr>producers := (producers s)(p := pc)\<rparr>)"
    and "conc_inv q (s\<lparr>producers := (producers s)(p := pc), events := n\<rparr>)"
  using assms by (simp_all add: conc_inv_def)

lemma sint_full:
  assumes "queue_inv q m"
  shows "sint (q_cap q) \<le> sint (rd m (q_tail q) - rd m (q_head q) :: u64) \<longleftrightarrow> qhead q m + qcap q \<le> qtail q m"
  using assms unfolding queue_inv_def queue_wf_def by (subst sint_diff_cap) auto

lemma conc_step_inv:
  assumes "conc_step q s s'" and inv: "conc_inv q s" and b: "length (sent s') < 2 ^ 63"
  shows "conc_inv q s'"
  using assms(1)
proof cases
  case (room p e t)
  have "t = rd (shm s) (q_tail q)" using conc_invD(5) [OF inv, of p] room by simp
  then show ?thesis
    using room sint_full [OF conc_invD(1) [OF inv]] by (auto intro!: producer_step_inv inv)
next
  case (pop_some h)
  have "h = rd (shm s) (q_head q)" using conc_invD(6) [OF inv] pop_some by simp
  then show ?thesis
    using pop_some sint_counters [OF conc_invD(1) [OF inv]] by (auto intro!: consumer_step_inv inv)
next
  case (lock p e)
  then show ?thesis using conc_invD [OF inv] by (auto simp: conc_inv_def)
next
  case (unlock p ok)
  then have "lck s = Some p" using conc_invD(4) [OF inv, of p] by simp
  with unlock show ?thesis using conc_invD [OF inv] by (auto simp: conc_inv_def)
next
  case (add_tail p e)
  then show ?thesis using add_tail_inv [OF inv] b by simp
qed (use conc_invD(5) [OF inv] conc_invD(6) [OF inv] in
    \<open>auto intro!: producer_step_inv consumer_step_inv store_steps_inv add_head_inv
      flag_step_inv inv simp: slot_read\<close>)

subsection \<open>Wake-ups\<close>

lemma slot_store_view:
  assumes inv: "conc_inv q s" and "producers s p \<in> {PSeq e t, POff e t, PStat e t}" and "d \<in> {0, 4, 8}"
  shows "(rd (wr (shm s) (slot_addr q t + d) (v :: u32)) (q_head q) :: u64) = rd (shm s) (q_head q)"
    and "(rd (wr (shm s) (slot_addr q t + d) v) (q_tail q) :: u64) = rd (shm s) (q_tail q)"
    and "(rd (wr (shm s) (slot_addr q t + d) v) (q_workingFlag q) :: u32) = rd (shm s) (q_workingFlag q)"
proof -
  have t: "t = rd (shm s) (q_tail q)" and r: "qtail q (shm s) < qhead q (shm s) + qcap q"
    using conc_invD(5) [OF inv, of p] assms(2) by auto
  note ok = slot_store_ok [OF conc_invD(1) [OF inv] r assms(3), of v, folded t]
  show "(rd (wr (shm s) (slot_addr q t + d) v) (q_head q) :: u64) = rd (shm s) (q_head q)"
    "(rd (wr (shm s) (slot_addr q t + d) v) (q_tail q) :: u64) = rd (shm s) (q_tail q)"
    "(rd (wr (shm s) (slot_addr q t + d) v) (q_workingFlag q) :: u32) = rd (shm s) (q_workingFlag q)"
    using ok t by simp_all
qed

fun draining :: "cpc \<Rightarrow> bool" where
  "draining CWait = False" | "draining CSizeTail = False" | "draining (CSizeHead t) = False"
| "draining CSet = False" | "draining _ = True"

definition pending :: "(nat \<Rightarrow> ppc) \<Rightarrow> bool" where
  "pending pr \<longleftrightarrow> (\<exists>p. pr p = PUnlock True \<or> pr p = PMark)"

definition notifying :: "(nat \<Rightarrow> ppc) \<Rightarrow> bool" where
  "notifying pr \<longleftrightarrow> (\<exists>p. pr p = PNotify)"

definition wake_inv :: "queue \<Rightarrow> conc \<Rightarrow> bool" where
  "wake_inv q s \<longleftrightarrow>
     ((rd (shm s) (q_workingFlag q) :: u32) \<noteq> 0 \<longrightarrow> 0 < events s \<or> notifying (producers s) \<or> draining (consumer s)) \<and>
     (consumer s = CWait \<longrightarrow> qhead q (shm s) < qtail q (shm s) \<longrightarrow>
        (rd (shm s) (q_workingFlag q) :: u32) \<noteq> 0 \<or> pending (producers s)) \<and>
     (\<forall>t. consumer s = CSizeHead t \<longrightarrow> unat t < qtail q (shm s) \<longrightarrow>
        (rd (shm s) (q_workingFlag q) :: u32) \<noteq> 0 \<or> pending (producers s))"

lemma pending_upd:
  "pending (pr(p := PUnlock True))" "pending (pr(p := PMark))"
  "pr p \<noteq> PUnlock True \<Longrightarrow> pr p \<noteq> PMark \<Longrightarrow> pending pr \<Longrightarrow> pending (pr(p := pc))"
  by (auto simp: pending_def)

lemma notifying_upd:
  "notifying (pr(p := PNotify))" "pr p \<noteq> PNotify \<Longrightarrow> notifying pr \<Longrightarrow> notifying (pr(p := pc))"
  by (auto simp: notifying_def)

lemma wake_step_inv:
  assumes "conc_step q s s'" and inv: "conc_inv q s" and w: "wake_inv q s"
  shows "wake_inv q s'"
proof -
  have wf: "queue_wf q (length (shm s))" using conc_invD(1) [OF inv] by simp
  note hs = header_store [OF wf]
  show ?thesis using assms(1)
  proof cases
    case (store_seq p e t)
    then show ?thesis using w slot_store_view [OF inv, of p e t 0]
      by (auto simp: wake_inv_def pending_upd notifying_upd)
  next
    case (store_off p e t)
    then show ?thesis using w slot_store_view [OF inv, of p e t 4]
      by (auto simp: wake_inv_def pending_upd notifying_upd)
  next
    case (store_stat p e t)
    then show ?thesis using w slot_store_view [OF inv, of p e t 8]
      by (auto simp: wake_inv_def pending_upd notifying_upd)
  next
    case (size_zero t)
    then show ?thesis using w by (auto simp: wake_inv_def)
  next
    case (unlock p ok)
    then show ?thesis using w by (cases ok) (auto simp: wake_inv_def pending_upd notifying_upd)
  qed (use w in \<open>auto simp: wake_inv_def hs pending_upd notifying_upd\<close>)
qed

lemma conc_reach_inv:
  assumes "conc_reach q m0 s" and "queue_fresh q m0" and "length (sent s) < 2 ^ 63"
  shows "conc_inv q s \<and> wake_inv q s"
  using assms(1,3)
proof induction
  case init
  show ?case using assms(2) by (auto simp: queue_fresh_def conc_inv_def wake_inv_def queue_items_def queue_inv_def)
next
  case (step s t)
  from step.hyps(2) have "length (sent s) \<le> length (sent t)" by cases auto
  with step have i: "conc_inv q s" "wake_inv q s" by simp_all
  with conc_step_inv [OF step.hyps(2) i(1) step.prems] wake_step_inv [OF step.hyps(2) i]
  show ?case by simp
qed


subsection \<open>A thread that runs alone\<close>

text \<open>
  The steps of one producer without interference compose to the sequential \<open>put_mem\<close>,
  those of the consumer to \<open>pop_mem\<close>: the relation is a refinement of the sequential
  operations of the component.
\<close>

lemma put_mem_stores:
  fixes e :: queueElement and m :: bytes and q :: queue
  assumes qi: "queue_inv q m" and room: "qtail q m < qhead q m + qcap q"
  defines "a \<equiv> slot_addr q (rd m (q_tail q))"
  defines "m3 \<equiv> wr (wr (wr m a (seqID e)) (a + 4) (offsetInShmBuf e)) (a + 8) (status e)"
  shows "put_mem q e m = wr m3 (q_tail q) (rd m3 (q_tail q) + 1 :: u64)"
proof -
  have "(rd m3 (q_tail q) :: u64) = rd m (q_tail q)"
    using slot_store_ok [OF qi room, of 0 "seqID e"]
      slot_store_ok [of q "wr m a (seqID e)" 4 "offsetInShmBuf e"]
      slot_store_ok [of q "wr (wr m a (seqID e)) (a + 4) (offsetInShmBuf e)" 8 "status e"] room
    by (simp add: m3_def a_def)
  then show ?thesis by (simp add: put_mem_def Let_def m3_def a_def slot_addr_def)
qed

lemma solo_put_reach:
  assumes r: "conc_reach q m0 \<lparr>shm = m, lck = None, producers = pr, consumer = c, events = n, sent = S, recvd = R\<rparr>"
    and qi: "queue_inv q m" and p: "pr p = PIdle" and room: "qtail q m < qhead q m + qcap q"
  shows "conc_reach q m0 \<lparr>shm = put_mem q e m, lck = None, producers = pr(p := PMark), consumer = c, events = n,
    sent = S @ [e], recvd = R\<rparr>"
proof -
  let ?t = "rd m (q_tail q) :: u64"
  note st = conc_reach.step
  note 1 = st [OF r start [where p = p and e = e], simplified, OF p]
  note 2 = st [OF 1 lock [of _ p e], simplified]
  note 3 = st [OF 2 load_tail [of _ p e], simplified]
  note 4 = st [OF 3 conc_step.room [of _ p e ?t], simplified]
  have 5: "\<not> sint (q_cap q) \<le> sint (?t - rd m (q_head q))" using sint_full [OF qi] room by simp
  note 6 = st [OF 4 store_seq [of _ p e ?t], simplified, OF 5]
  note 7 = st [OF 6 store_off [of _ p e ?t], simplified]
  note 8 = st [OF 7 store_stat [of _ p e ?t], simplified]
  note 9 = st [OF 8 add_tail [of _ p e], simplified]
  note 10 = st [OF 9 unlock [of _ p True], simplified]
  then show ?thesis by (simp add: put_mem_stores [OF qi room])
qed

lemma solo_pop_reach:
  assumes r: "conc_reach q m0 \<lparr>shm = m, lck = l, producers = pr, consumer = CHead, events = n, sent = S, recvd = R\<rparr>"
    and qi: "queue_inv q m" and ne: "qhead q m < qtail q m"
  shows "conc_reach q m0 \<lparr>shm = pop_mem q m, lck = l, producers = pr, consumer = CHead, events = n,
    sent = S, recvd = R @ [hd (queue_items q m)]\<rparr>"
proof -
  let ?h = "rd m (q_head q) :: u64"
  note st = conc_reach.step
  note 1 = st [OF r pop_head, simplified]
  note 2 = st [OF 1 pop_some [of _ ?h], simplified]
  have 3: "\<not> sint (rd m (q_tail q) :: u64) \<le> sint ?h" using sint_counters [OF qi] ne by simp
  note 4 = st [OF 2 load_seq [of _ ?h], simplified, OF 3]
  note 5 = st [OF 4 load_off [of _ ?h], simplified]
  note 6 = st [OF 5 load_stat [of _ ?h], simplified]
  note 7 = st [OF 6 add_head, simplified]
  moreover have "hd (queue_items q m) = elem_at q m (qhead q m mod qcap q)"
    using head_store_ok(2) [OF qi ne] by simp
  ultimately show ?thesis by (simp add: pop_mem_def slot_read)
qed

subsection \<open>Properties\<close>

text \<open>
  C3. Under every interleaving of any number of producers with the consumer, starting from a
  freshly created queue, the elements whose put succeeded are, in order, the elements
  received so far followed by the elements in the ring: each is received once, whole, and
  in the order of the puts, although the three words of an element are written and read by
  separate unsynchronised accesses.
\<close>

theorem conc_fifo:
  assumes "conc_reach q m0 s" and "queue_fresh q m0" and "length (sent s) < 2 ^ 63"
  shows "sent s = recvd s @ queue_items q (shm s) \<and> queue_inv q (shm s)"
  using conc_reach_inv [OF assms] conc_invD by blast

definition demo_elem :: queueElement where
  "demo_elem = \<lparr>seqID = 1, offsetInShmBuf = 2, status = 3\<rparr>"

lemma demo_conc:
  "conc_reach demo_queue demo_mem \<lparr>shm = put_mem demo_queue demo_elem demo_mem, lck = None,
     producers = (\<lambda>_. PIdle)(0 := PMark), consumer = CWait, events = 0, sent = [demo_elem], recvd = []\<rparr>"
proof -
  have "queue_inv demo_queue demo_mem" "qtail demo_queue demo_mem < qhead demo_queue demo_mem + qcap demo_queue"
    using demo_fresh by (simp_all add: queue_fresh_def demo_queue_def)
  from solo_put_reach [OF conc_reach.init this(1) _ this(2), where p = 0 and e = demo_elem] show ?thesis by simp
qed

theorem conc_fifo_witness:
  "[demo_elem] = [] @ queue_items demo_queue (put_mem demo_queue demo_elem demo_mem) \<and>
   queue_inv demo_queue (put_mem demo_queue demo_elem demo_mem)"
  using conc_fifo [OF demo_conc demo_fresh] by simp

text \<open>
  C5. No wake-up is lost. Whenever the ring is not empty, the consumer is inside
  \<^verbatim>\<open>handlePolling\<close>, or a polling event is on its way, or some producer still has
  the notification of the consumer ahead of it (its unlock, its \<^verbatim>\<open>markWorking\<close> or the
  write of the event). So the consumer never sleeps on a non-empty ring with nobody left
  to wake it.
\<close>

theorem conc_no_lost_wakeup:
  assumes "conc_reach q m0 s" and "queue_fresh q m0" and "length (sent s) < 2 ^ 63"
    and "queue_items q (shm s) \<noteq> []"
  shows "consumer s \<noteq> CWait \<or> 0 < events s \<or>
    (\<exists>p. producers s p = PUnlock True \<or> producers s p = PMark \<or> producers s p = PNotify)"
proof -
  have w: "wake_inv q s" using conc_reach_inv [OF assms(1-3)] by blast
  have "qhead q (shm s) < qtail q (shm s)" using assms(4) by (auto simp: queue_items_def)
  with w show ?thesis by (auto simp: wake_inv_def pending_def notifying_def)
qed

theorem conc_no_lost_wakeup_witness:
  "queue_items demo_queue (put_mem demo_queue demo_elem demo_mem) \<noteq> [] \<and>
   (\<exists>p. ((\<lambda>_. PIdle)(0 := PMark)) p = PUnlock True \<or> ((\<lambda>_. PIdle)(0 := PMark)) p = PMark \<or>
      ((\<lambda>_. PIdle)(0 := PMark)) (p :: nat) = PNotify)"
proof -
  have "queue_items demo_queue (put_mem demo_queue demo_elem demo_mem) \<noteq> []" by code_simp
  with conc_no_lost_wakeup [OF demo_conc demo_fresh] show ?thesis by simp
qed

end
