(* ===== verification/Buffer_Slice.thy ===== *)
theory Buffer_Slice
  imports Shm_Prelude
begin

text \<open>
  The buffer slice of \<^verbatim>\<open>buffer_slice.go\<close>: a view of one buffer, in shared memory behind
  a twenty byte header (capacity, size, start, next, flag) or on the Go heap when the
  shared memory is exhausted. The Go struct is the record \<open>bufferSlice\<close>; the field
  \<^verbatim>\<open>nextSlice\<close>, which only the slice list uses, is added by the theory of the slice list.
  Operations on a slice take the shared memory and return it, so a store through one
  slice is seen by every other view of the same bytes.
\<close>

unbundle bit_operations_syntax

subsection \<open>Data\<close>

definition bufferHeaderSize :: nat where [consts_defs]: "bufferHeaderSize = 20"
definition bufferCapOffset :: nat where [consts_defs]: "bufferCapOffset = 0"
definition bufferSizeOffset :: nat where [consts_defs]: "bufferSizeOffset = 4"
definition bufferDataStartOffset :: nat where [consts_defs]: "bufferDataStartOffset = 8"
definition nextBufferOffset_pos :: nat where [consts_defs]: "nextBufferOffset_pos = 12"
definition bufferFlagOffset :: nat where [consts_defs]: "bufferFlagOffset = 16"
definition hasNextBufferFlag :: u8 where [consts_defs]: "hasNextBufferFlag = 1"
definition sliceInUsedFlag :: u8 where [consts_defs]: "sliceInUsedFlag = 2"

text \<open>The two kinds of backing array. A heap array made by the program has its length as
  capacity.\<close>

datatype sdata = ShmData gslice | HeapData bytes

record bufferSlice =
  bufferHeader :: "gslice option"
  bs_data :: sdata
  bs_cap :: u32
  bs_start :: u32
  offsetInShm :: u32
  readIndex :: int
  writeIndex :: int
  isFromShm :: bool

definition zero_slice :: bufferSlice where
  "zero_slice = \<lparr>bufferHeader = None, bs_data = HeapData [], bs_cap = 0, bs_start = 0, offsetInShm = 0,
     readIndex = 0, writeIndex = 0, isFromShm = False\<rparr>"

text \<open>\<^verbatim>\<open>s.data[lo:hi]\<close> as the bytes it shows, and \<^verbatim>\<open>copy(s.data[lo:], src)\<close>.\<close>

definition data_cap :: "sdata \<Rightarrow> nat" where
  "data_cap d = (case d of ShmData g \<Rightarrow> sl_cap g | HeapData bs \<Rightarrow> length bs)"

definition data_range :: "bytes \<Rightarrow> sdata \<Rightarrow> int \<Rightarrow> int \<Rightarrow> bytes option" where
  "data_range m d lo hi = (case d of
     ShmData g \<Rightarrow> do {
       r \<leftarrow> sub_slice g lo hi;
       if sl_base r + sl_len r \<le> length m then Some (load m (sl_base r) (sl_len r)) else None
     }
   | HeapData bs \<Rightarrow>
       if 0 \<le> lo \<and> lo \<le> hi \<and> hi \<le> int (length bs) then Some (load bs (nat lo) (nat (hi - lo))) else None)"

definition data_copy :: "bytes \<Rightarrow> sdata \<Rightarrow> int \<Rightarrow> bytes \<Rightarrow> (nat \<times> bytes \<times> sdata) option" where
  "data_copy m d lo src = (case d of
     ShmData g \<Rightarrow>
       if 0 \<le> lo \<and> lo \<le> int (sl_len g) \<and> sl_base g + sl_len g \<le> length m then
         let n = min (sl_len g - nat lo) (length src)
         in Some (n, store m (sl_base g + nat lo) (take n src), d)
       else None
   | HeapData bs \<Rightarrow>
       if 0 \<le> lo \<and> lo \<le> int (length bs) then
         let n = min (length bs - nat lo) (length src)
         in Some (n, m, HeapData (store bs (nat lo) (take n src)))
       else None)"

subsection \<open>The header in shared memory\<close>

definition nextBufferOffset :: "bytes \<Rightarrow> gslice \<Rightarrow> u32 option" where
  "nextBufferOffset m h = slice_load m h (int nextBufferOffset_pos)"

definition hasNext :: "bytes \<Rightarrow> gslice \<Rightarrow> bool option" where
  "hasNext m h = do { f \<leftarrow> slice_load m h (int bufferFlagOffset); Some (f AND hasNextBufferFlag > 0) }"

definition clearFlag :: "bytes \<Rightarrow> gslice \<Rightarrow> bytes option" where
  "clearFlag m h = slice_store m h (int bufferFlagOffset) (0 :: u8)"

definition setInUsed :: "bytes \<Rightarrow> gslice \<Rightarrow> bytes option" where
  "setInUsed m h = do {
     f \<leftarrow> slice_load m h (int bufferFlagOffset);
     slice_store m h (int bufferFlagOffset) (f OR sliceInUsedFlag)
   }"

definition isInUsed :: "bytes \<Rightarrow> gslice \<Rightarrow> bool option" where
  "isInUsed m h = do { f \<leftarrow> slice_load m h (int bufferFlagOffset); Some (f AND sliceInUsedFlag > 0) }"

definition linkNext :: "bytes \<Rightarrow> gslice \<Rightarrow> u32 \<Rightarrow> bytes option" where
  "linkNext m h nxt = do {
     m1 \<leftarrow> slice_store m h (int nextBufferOffset_pos) nxt;
     f \<leftarrow> slice_load m1 h (int bufferFlagOffset);
     slice_store m1 h (int bufferFlagOffset) (f OR hasNextBufferFlag)
   }"

subsection \<open>Operations\<close>

text \<open>The object comes from \<^verbatim>\<open>bufferSlicePool\<close>: a new one is zero, and
  \<open>putBackBufferSlice\<close> zeroes an object before it is pooled.\<close>

definition putBackBufferSlice :: "bufferSlice \<Rightarrow> bufferSlice" where
  "putBackBufferSlice s = s\<lparr>isFromShm := False, offsetInShm := 0, bs_data := HeapData [], bufferHeader := None,
     bs_cap := 0, writeIndex := 0, readIndex := 0, bs_start := 0\<rparr>"

definition newBufferSlice :: "bytes \<Rightarrow> gslice option \<Rightarrow> sdata \<Rightarrow> u32 \<Rightarrow> bool \<Rightarrow> bufferSlice option" where
  "newBufferSlice m header dat off fromShm =
     (let s = zero_slice in
      case (fromShm, header) of
        (True, Some h) \<Rightarrow> do {
          c \<leftarrow> (slice_load m h (int bufferCapOffset) :: u32 option);
          st \<leftarrow> (slice_load m h (int bufferDataStartOffset) :: u32 option);
          sz \<leftarrow> (slice_load m h (int bufferSizeOffset) :: u32 option);
          Some (s\<lparr>bs_cap := c, bs_start := st, readIndex := uint st, writeIndex := uint (st + sz),
                  bufferHeader := header, bs_data := dat, offsetInShm := off, isFromShm := fromShm\<rparr>)
        }
      | _ \<Rightarrow> Some (s\<lparr>bs_cap := word_of_nat (data_cap dat),
                  bufferHeader := header, bs_data := dat, offsetInShm := off, isFromShm := fromShm\<rparr>))"

definition slice_size :: "bufferSlice \<Rightarrow> int" where
  "slice_size s = writeIndex s - readIndex s"

definition slice_remain :: "bufferSlice \<Rightarrow> int" where
  "slice_remain s = uint (bs_cap s) - writeIndex s"

definition slice_capacity :: "bufferSlice \<Rightarrow> int" where
  "slice_capacity s = uint (bs_cap s)"

text \<open>\<open>next_off\<close> is \<^verbatim>\<open>s.nextSlice.offsetInShm\<close> when there is a next slice.\<close>

definition update :: "bytes \<Rightarrow> bufferSlice \<Rightarrow> u32 option \<Rightarrow> bytes option" where
  "update m s next_off = (case bufferHeader s of
     None \<Rightarrow> Some m
   | Some h \<Rightarrow> do {
       m1 \<leftarrow> slice_store m h (int bufferSizeOffset) (word_of_int (slice_size s) :: u32);
       m2 \<leftarrow> slice_store m1 h (int bufferDataStartOffset) (bs_start s);
       case next_off of None \<Rightarrow> Some m2 | Some off \<Rightarrow> linkNext m2 h off
     })"

definition slice_reset :: "bytes \<Rightarrow> bufferSlice \<Rightarrow> (bytes \<times> bufferSlice) option" where
  "slice_reset m s = do {
     m' \<leftarrow> (case bufferHeader s of
        None \<Rightarrow> Some m
      | Some h \<Rightarrow> do {
          m1 \<leftarrow> slice_store m h (int bufferSizeOffset) (0 :: u32);
          m2 \<leftarrow> slice_store m1 h (int bufferDataStartOffset) (0 :: u32);
          clearFlag m2 h
        });
     Some (m', s\<lparr>writeIndex := 0, readIndex := 0\<rparr>)
   }"

text \<open>The result of \<^verbatim>\<open>reserve\<close> is the range of \<^verbatim>\<open>s.data\<close> the caller may fill.\<close>

definition reserve :: "bufferSlice \<Rightarrow> int \<Rightarrow> ((go_error + (int \<times> int)) \<times> bufferSlice) option" where
  "reserve s n =
     (let start = writeIndex s in
      if slice_remain s \<ge> n then
        let s' = s\<lparr>writeIndex := writeIndex s + n\<rparr> in
        if 0 \<le> start \<and> start \<le> writeIndex s' \<and> writeIndex s' \<le> int (data_cap (bs_data s))
        then Some (Inr (start, writeIndex s'), s') else None
      else Some (Inl ErrNoMoreBuffer, s))"

definition slice_append :: "bytes \<Rightarrow> bufferSlice \<Rightarrow> bytes \<Rightarrow> (nat \<times> bytes \<times> bufferSlice) option" where
  "slice_append m s src =
     (if src = [] then Some (0, m, s)
      else do {
        (copySize, m', d') \<leftarrow> data_copy m (bs_data s) (writeIndex s) src;
        Some (copySize, m', s\<lparr>bs_data := d', writeIndex := writeIndex s + int copySize\<rparr>)
      })"

definition slice_read :: "bytes \<Rightarrow> bufferSlice \<Rightarrow> int \<Rightarrow> ((bytes \<times> go_error option) \<times> bufferSlice) option" where
  "slice_read m s size0 =
     (let unRead = slice_size s;
          (n, err) = (if unRead < size0 then (unRead, Some ErrNotEnoughData) else (size0, None))
      in do {
        bs \<leftarrow> data_range m (bs_data s) (readIndex s) (readIndex s + n);
        Some ((bs, err), s\<lparr>readIndex := readIndex s + n\<rparr>)
      })"

definition slice_peek :: "bytes \<Rightarrow> bufferSlice \<Rightarrow> int \<Rightarrow> ((bytes \<times> go_error option) \<times> bufferSlice) option" where
  "slice_peek m s n = do {
     let origin = readIndex s;
     (r, s') \<leftarrow> slice_read m s n;
     Some (r, s'\<lparr>readIndex := origin\<rparr>)
   }"

definition slice_skip :: "bufferSlice \<Rightarrow> int \<Rightarrow> int \<times> bufferSlice" where
  "slice_skip s n =
     (let unRead = slice_size s in
      if unRead > n then (n, s\<lparr>readIndex := readIndex s + n\<rparr>)
      else (unRead, s\<lparr>readIndex := readIndex s + unRead\<rparr>))"

subsection \<open>Well-formed slices and their content\<close>

definition data_wf :: "nat \<Rightarrow> nat \<Rightarrow> sdata \<Rightarrow> bool" where
  "data_wf n c d = (case d of
     ShmData g \<Rightarrow> sl_len g = c \<and> c \<le> sl_cap g \<and> sl_base g + c \<le> n
   | HeapData bs \<Rightarrow> length bs = c)"

definition slice_wf :: "nat \<Rightarrow> bufferSlice \<Rightarrow> bool" where
  "slice_wf n s \<longleftrightarrow> 0 \<le> readIndex s \<and> readIndex s \<le> writeIndex s \<and> writeIndex s \<le> int (unat (bs_cap s)) \<and>
     data_wf n (unat (bs_cap s)) (bs_data s)"

definition backing :: "bytes \<Rightarrow> sdata \<Rightarrow> bytes" where
  "backing m d = (case d of ShmData g \<Rightarrow> load m (sl_base g) (sl_len g) | HeapData bs \<Rightarrow> bs)"

text \<open>The bytes written and not yet read.\<close>

definition content :: "bytes \<Rightarrow> bufferSlice \<Rightarrow> bytes" where
  "content m s = load (backing m (bs_data s)) (nat (readIndex s)) (nat (slice_size s))"

definition data_foot :: "sdata \<Rightarrow> nat set" where
  "data_foot d = (case d of ShmData g \<Rightarrow> {sl_base g..<sl_base g + sl_len g} | HeapData _ \<Rightarrow> {})"

lemma length_backing: "slice_wf (length m) s \<Longrightarrow> length (backing m (bs_data s)) = unat (bs_cap s)"
  by (auto simp: slice_wf_def data_wf_def backing_def split: sdata.splits)

lemma slice_wfD:
  assumes "slice_wf n s"
  shows "0 \<le> readIndex s" "readIndex s \<le> writeIndex s" "nat (writeIndex s) \<le> unat (bs_cap s)" "0 \<le> slice_size s"
    "nat (readIndex s) + nat (slice_size s) = nat (writeIndex s)"
  using assms by (auto simp: slice_wf_def slice_size_def nat_add_distrib [symmetric])

lemma length_content:
  assumes "slice_wf (length m) s"
  shows "length (content m s) = nat (slice_size s)"
  using length_backing [OF assms] slice_wfD [OF assms] by (simp add: content_def)

lemma data_range_ok:
  assumes wf: "slice_wf (length m) s" and "0 \<le> lo" and "lo \<le> hi" and "hi \<le> int (unat (bs_cap s))"
  shows "data_range m (bs_data s) lo hi = Some (load (backing m (bs_data s)) (nat lo) (nat (hi - lo)))"
proof (cases "bs_data s")
  case (ShmData g)
  have "nat lo + nat (hi - lo) \<le> unat (bs_cap s)" using assms(2-4) by linarith
  with assms ShmData show ?thesis
    by (auto simp: data_range_def sub_slice_def slice_wf_def data_wf_def backing_def load_load)
next
  case (HeapData bs)
  with assms show ?thesis by (auto simp: data_range_def slice_wf_def data_wf_def backing_def)
qed

lemma slice_read_ok:
  assumes wf: "slice_wf (length m) s" and n: "0 \<le> n"
  defines "s' \<equiv> s\<lparr>readIndex := readIndex s + min n (slice_size s)\<rparr>"
  shows "slice_read m s n = Some ((take (nat n) (content m s), if slice_size s < n then Some ErrNotEnoughData else None), s')"
    and "slice_wf (length m) s'" and "content m s' = drop (nat n) (content m s)"
proof -
  note d = slice_wfD [OF wf]
  have e: "readIndex s + min n (slice_size s) \<le> int (unat (bs_cap s))"
    using wf by (auto simp: slice_wf_def slice_size_def)
  have r: "data_range m (bs_data s) (readIndex s) (readIndex s + min n (slice_size s)) =
      Some (load (backing m (bs_data s)) (nat (readIndex s)) (nat (min n (slice_size s))))"
    using data_range_ok [OF wf d(1) _ e] n d(4) by simp
  have t: "load b i (nat (min n (slice_size s))) = take (nat n) (load b i (nat (slice_size s)))" for b :: bytes and i
    using n d(4) by (auto simp: load_def min_def nat_le_iff)
  show "slice_read m s n = Some ((take (nat n) (content m s), if slice_size s < n then Some ErrNotEnoughData else None), s')"
    using r by (auto simp: slice_read_def Let_def s'_def content_def t [symmetric] min_def split: if_splits)
  show "slice_wf (length m) s'"
    using wf n d(4) by (auto simp: slice_wf_def s'_def slice_size_def)
  have "nat (readIndex s + min n (slice_size s)) = nat (readIndex s) + nat (min n (slice_size s))"
    using d n by (simp add: nat_add_distrib)
  then show "content m s' = drop (nat n) (content m s)"
    using n d by (auto simp: content_def s'_def slice_size_def load_def drop_take min_def nat_diff_distrib add.commute)
qed

lemma slice_peek_ok:
  assumes wf: "slice_wf (length m) s" and n: "0 \<le> n"
  shows "slice_peek m s n = Some ((take (nat n) (content m s), if slice_size s < n then Some ErrNotEnoughData else None), s)"
  by (simp add: slice_peek_def slice_read_ok(1) [OF assms])

lemma slice_skip_ok:
  assumes wf: "slice_wf (length m) s" and n: "0 \<le> n"
  defines "s' \<equiv> s\<lparr>readIndex := readIndex s + min n (slice_size s)\<rparr>"
  shows "slice_skip s n = (min n (slice_size s), s')"
  using slice_wfD [OF wf] by (auto simp: slice_skip_def s'_def Let_def min_def)

lemma slice_remain_unat: "slice_remain s = int (unat (bs_cap s)) - writeIndex s"
  by (simp only: slice_remain_def uint_nat)

lemma slice_append_ok:
  assumes wf: "slice_wf (length m) s" and ne: "src \<noteq> []"
  obtains m' s' where "slice_append m s src = Some (min (nat (slice_remain s)) (length src), m', s')"
    and "slice_wf (length m) s'" and "content m' s' = content m s @ take (nat (slice_remain s)) src"
    and "unchanged_off (data_foot (bs_data s)) m m'" and "data_foot (bs_data s') = data_foot (bs_data s)"
    and "s' = s\<lparr>bs_data := bs_data s', writeIndex := writeIndex s + int (min (nat (slice_remain s)) (length src))\<rparr>"
proof -
  define w where "w = nat (writeIndex s)"
  define n where "n = min (nat (slice_remain s)) (length src)"
  define d where "d = bs_data s"
  note wd = slice_wfD [OF wf]
  have w: "writeIndex s = int w" "w \<le> unat (bs_cap s)" using wd by (simp_all add: w_def)
  have n: "n = min (unat (bs_cap s) - w) (length src)" by (simp add: n_def slice_remain_unat w nat_diff_distrib)
  have dw: "data_wf (length m) (unat (bs_cap s)) d" using wf by (simp add: slice_wf_def d_def)
  obtain m' d' where c: "data_copy m d (int w) src = Some (n, m', d')"
    and bk: "backing m' d' = store (backing m d) w (take n src)"
    and dw': "data_wf (length m) (unat (bs_cap s)) d'"
    and un: "unchanged_off (data_foot d) m m'" and ft: "data_foot d' = data_foot d"
  proof (cases d)
    case (ShmData g)
    have g: "sl_len g = unat (bs_cap s)" "sl_base g + unat (bs_cap s) \<le> length m"
      using dw ShmData by (simp_all add: data_wf_def)
    have l: "length (take n src) = n" "w + n \<le> unat (bs_cap s)" using n w by auto
    have "data_copy m d (int w) src = Some (n, store m (sl_base g + w) (take n src), d)"
      using g w by (simp add: ShmData data_copy_def Let_def n)
    moreover have "backing (store m (sl_base g + w) (take n src)) d = store (backing m d) w (take n src)"
      using g l by (simp add: ShmData backing_def load_store_inner)
    moreover have "unchanged_off (data_foot d) m (store m (sl_base g + w) (take n src))"
      by (rule unchanged_off_mono [OF unchanged_off_store]) (use g l in \<open>auto simp: ShmData data_foot_def\<close>)
    ultimately show thesis using that dw by blast
  next
    case (HeapData bs)
    with dw w n that [of m "HeapData (store bs w (take n src))"] show thesis
      by (auto simp: data_wf_def data_copy_def Let_def backing_def data_foot_def)
  qed
  define s' where "s' = s\<lparr>bs_data := d', writeIndex := writeIndex s + int n\<rparr>"
  have 1: "slice_append m s src = Some (n, m', s')"
    using ne c by (simp add: slice_append_def s'_def w d_def)
  have 2: "slice_wf (length m) s'" using wf dw' n w by (auto simp: slice_wf_def s'_def)
  have "slice_size s' = slice_size s + int n" by (simp add: s'_def slice_size_def)
  then have sz: "nat (slice_size s') = nat (slice_size s) + n"
    using wd(4) by (simp add: nat_add_distrib)
  have l: "length (take n src) = n" "w + n \<le> unat (bs_cap s)" using n w(2) by auto
  have "load (store (backing m d) w (take n src)) (nat (readIndex s)) (nat (slice_size s) + length (take n src)) =
      load (backing m d) (nat (readIndex s)) (nat (slice_size s)) @ take n src"
    by (rule load_store_join) (use wd(5) l length_backing [OF wf] in \<open>simp_all add: w_def d_def\<close>)
  then have "content m' s' = content m s @ take n src"
    unfolding content_def sz using bk l(1) by (simp add: s'_def d_def)
  moreover have "take n src = take (nat (slice_remain s)) src" by (simp add: n_def min_def)
  ultimately show thesis
    using that [of m' s'] 1 2 un ft by (simp add: s'_def n_def d_def)
qed

lemma reserve_ok:
  assumes wf: "slice_wf (length m) s" and n: "0 \<le> n" "n \<le> slice_remain s"
  shows "reserve s n = Some (Inr (writeIndex s, writeIndex s + n), s\<lparr>writeIndex := writeIndex s + n\<rparr>)"
    and "slice_wf (length m) (s\<lparr>writeIndex := writeIndex s + n\<rparr>)"
proof -
  have "writeIndex s + n \<le> int (unat (bs_cap s))" using n(2) by (simp add: slice_remain_unat)
  moreover have "unat (bs_cap s) \<le> data_cap (bs_data s)"
    using wf by (auto simp: slice_wf_def data_wf_def data_cap_def split: sdata.splits)
  ultimately show "reserve s n = Some (Inr (writeIndex s, writeIndex s + n), s\<lparr>writeIndex := writeIndex s + n\<rparr>)"
    "slice_wf (length m) (s\<lparr>writeIndex := writeIndex s + n\<rparr>)"
    using wf n by (simp_all add: reserve_def Let_def slice_wf_def)
qed

lemma reserve_full: "slice_remain s < n \<Longrightarrow> reserve s n = Some (Inl ErrNoMoreBuffer, s)"
  by (simp add: reserve_def)

lemma content_frame:
  assumes wf: "slice_wf (length m) s" and u: "unchanged_off A m m'" and A: "A \<inter> data_foot (bs_data s) = {}"
  shows "content m' s = content m s"
proof -
  have "backing m' (bs_data s) = backing m (bs_data s)"
    using wf A by (auto simp: backing_def slice_wf_def data_wf_def data_foot_def split: sdata.splits
        intro!: load_unchanged [OF u])
  then show ?thesis by (simp add: content_def)
qed

subsection \<open>The header operations on a header inside the memory\<close>

definition hdr_ok :: "nat \<Rightarrow> gslice \<Rightarrow> bool" where
  "hdr_ok n h \<longleftrightarrow> sl_len h = 20 \<and> sl_base h + 20 \<le> n"

text \<open>What the header at address \<open>b\<close> says of the next buffer.\<close>

definition link_at :: "bytes \<Rightarrow> nat \<Rightarrow> u32 option" where
  "link_at m b = (if (rd m (b + 16) :: u8) AND 1 = 0 then None else Some (rd m (b + 12)))"

lemma or_one_and_one: "((f :: u8) OR 1) AND 1 \<noteq> 0"
  by (simp add: bit_eq_iff [of _ 0] bit_simps) (rule exI [of _ 0], simp)

lemma hdr_access:
  assumes "hdr_ok (length m) h"
  shows "slice_load m h 0 = Some (rd m (sl_base h) :: u32)" "slice_load m h 4 = Some (rd m (sl_base h + 4) :: u32)"
    "slice_load m h 8 = Some (rd m (sl_base h + 8) :: u32)" "slice_load m h 12 = Some (rd m (sl_base h + 12) :: u32)"
    "slice_load m h 16 = Some (rd m (sl_base h + 16) :: u8)"
    "slice_store m h 4 v = Some (wr m (sl_base h + 4) (v :: u32))" "slice_store m h 8 v = Some (wr m (sl_base h + 8) (v :: u32))"
    "slice_store m h 12 v = Some (wr m (sl_base h + 12) (v :: u32))" "slice_store m h 16 f = Some (wr m (sl_base h + 16) (f :: u8))"
  using assms by (simp_all add: hdr_ok_def slice_load_def slice_store_def elem_addr_def)

lemma hasNext_ok: "hdr_ok (length m) h \<Longrightarrow> hasNext m h = Some (link_at m (sl_base h) \<noteq> None)"
  by (simp add: hasNext_def consts_defs hdr_access link_at_def word_gt_0)

lemma nextBufferOffset_ok: "hdr_ok (length m) h \<Longrightarrow> nextBufferOffset m h = Some (rd m (sl_base h + 12))"
  by (simp add: nextBufferOffset_def consts_defs hdr_access)

lemma clearFlag_ok: "hdr_ok (length m) h \<Longrightarrow> clearFlag m h = Some (wr m (sl_base h + 16) (0 :: u8))"
  by (simp add: clearFlag_def consts_defs hdr_access)

lemma setInUsed_ok: "hdr_ok (length m) h \<Longrightarrow>
    setInUsed m h = Some (wr m (sl_base h + 16) ((rd m (sl_base h + 16) :: u8) OR 2))"
  by (simp add: setInUsed_def consts_defs hdr_access)

lemma linkNext_ok:
  assumes "hdr_ok (length m) h"
  shows "linkNext m h nxt =
    Some (wr (wr m (sl_base h + 12) nxt) (sl_base h + 16) ((rd m (sl_base h + 16) :: u8) OR 1))"
proof -
  have "hdr_ok (length (wr m (sl_base h + 12) nxt)) h" using assms by (simp add: hdr_ok_def)
  with assms show ?thesis
    by (simp add: linkNext_def consts_defs hdr_access) (simp add: hdr_ok_def mem_simps)
qed

lemma link_at_linkNext:
  assumes "b + 20 \<le> length m"
  shows "link_at (wr (wr m (b + 12) (nxt :: u32)) (b + 16) ((f :: u8) OR 1)) b = Some nxt"
  using assms by (simp add: link_at_def mem_simps or_one_and_one)

lemma link_at_clear: "b + 20 \<le> length m \<Longrightarrow> link_at (wr m (b + 16) (0 :: u8)) b = None"
  by (simp add: link_at_def mem_simps)

lemma link_at_frame:
  assumes "unchanged_off A m m'" and "{b + 12..<b + 17} \<inter> A = {}" and "b + 20 \<le> length m"
  shows "link_at m' b = link_at m b"
proof -
  have "(rd m' (b + 16) :: u8) = rd m (b + 16)" "(rd m' (b + 12) :: u32) = rd m (b + 12)"
    using assms(2,3) by (auto intro!: rd_unchanged [OF assms(1)] simp: disjoint_iff)
  then show ?thesis by (simp add: link_at_def)
qed

end
