(* ===== verification/Pool_Interface.thy ===== *)
theory Pool_Interface
  imports Main "HOL-Library.Multiset" "HOL-Library.Monad_Syntax"
begin

text \<open>
  What a pool of buffers promises its clients. \<open>acquire\<close> hands out a free slot unless
  only one is left (the last slot stays in the pool), \<open>release\<close> takes a slot back; both
  fail (\<open>None\<close>) only when the memory access would panic, which the laws exclude. The
  locale shows once, for any sequence of operations, that no slot is handed out twice and
  that none is lost.
\<close>

datatype pool_op = Acquire | Release nat

definition remove_nth :: "nat \<Rightarrow> 'a list \<Rightarrow> 'a list" where
  "remove_nth i xs = take i xs @ drop (Suc i) xs"

lemma mset_remove_nth: "i < length xs \<Longrightarrow> add_mset (xs ! i) (mset (remove_nth i xs)) = mset xs"
  by (subst (3) id_take_nth_drop [of i xs]) (simp_all add: remove_nth_def)

locale slot_pool =
  fixes invar :: "'s \<Rightarrow> bool" and free :: "'s \<Rightarrow> 'x list" and valid :: "'x \<Rightarrow> bool"
    and acquire :: "'s \<Rightarrow> ('x option \<times> 's) option" and release :: "'x \<Rightarrow> 's \<Rightarrow> 's option"
  assumes acquire_last: "invar s \<Longrightarrow> length (free s) = 1 \<Longrightarrow> acquire s = Some (None, s)"
    and acquire_some: "invar s \<Longrightarrow> free s = x # y # r \<Longrightarrow>
      \<exists>s'. acquire s = Some (Some x, s') \<and> invar s' \<and> free s' = y # r"
    and release_ok: "invar s \<Longrightarrow> valid x \<Longrightarrow> x \<notin> set (free s) \<Longrightarrow>
      \<exists>s'. release x s = Some s' \<and> invar s' \<and> free s' = free s @ [x]"
    and free_props: "invar s \<Longrightarrow> free s \<noteq> [] \<and> (\<forall>x \<in> set (free s). valid x)"
begin

text \<open>The clients hold the slots \<open>out\<close>; an operation releases the \<open>i\<close>-th of them.\<close>

fun run_pool :: "pool_op list \<Rightarrow> 's \<times> 'x list \<Rightarrow> ('s \<times> 'x list) option" where
  "run_pool [] st = Some st"
| "run_pool (Acquire # ops) (s, out) = do {
     (r, s') \<leftarrow> acquire s;
     run_pool ops (s', case r of None \<Rightarrow> out | Some x \<Rightarrow> x # out)
   }"
| "run_pool (Release i # ops) (s, out) =
     (if i < length out then do { s' \<leftarrow> release (out ! i) s; run_pool ops (s', remove_nth i out) }
      else run_pool ops (s, out))"

definition ledger :: "'s \<Rightarrow> 'x list \<Rightarrow> bool" where
  "ledger s out \<longleftrightarrow> invar s \<and> distinct (out @ free s) \<and> (\<forall>x \<in> set out. valid x)"

lemma acquire_step:
  assumes "ledger s out"
  obtains r s' where "acquire s = Some (r, s')" and "ledger s' (case r of None \<Rightarrow> out | Some x \<Rightarrow> x # out)"
    and "mset ((case r of None \<Rightarrow> out | Some x \<Rightarrow> x # out) @ free s') = mset (out @ free s)"
proof -
  have i: "invar s" using assms by (simp add: ledger_def)
  show thesis
  proof (cases "free s")
    case Nil
    then show thesis using free_props [OF i] by simp
  next
    case (Cons x r)
    show thesis
    proof (cases r)
      case Nil
      with Cons acquire_last [OF i] assms that [of None s] show thesis by simp
    next
      case (Cons y r')
      with \<open>free s = x # r\<close> acquire_some [OF i, of x y r'] obtain s'
        where s': "acquire s = Some (Some x, s')" "invar s'" "free s' = y # r'" by auto
      have "valid x" using free_props [OF i] \<open>free s = x # r\<close> by simp
      with s' assms \<open>free s = x # r\<close> Cons have "ledger s' (x # out)"
        by (auto simp: ledger_def)
      with s' that [of "Some x" s'] \<open>free s = x # r\<close> Cons show thesis by simp
    qed
  qed
qed

lemma release_step:
  assumes "ledger s out" and "i < length out"
  obtains s' where "release (out ! i) s = Some s'" and "ledger s' (remove_nth i out)"
    and "mset (remove_nth i out @ free s') = mset (out @ free s)"
proof -
  have v: "invar s" "valid (out ! i)" "out ! i \<notin> set (free s)"
    using assms nth_mem [OF assms(2)] by (auto simp: ledger_def disjoint_iff)
  from release_ok [OF this] obtain s' where s': "release (out ! i) s = Some s'" "invar s'" "free s' = free s @ [out ! i]"
    by blast
  have m: "mset (remove_nth i out @ free s') = mset (out @ free s)"
    using mset_remove_nth [OF assms(2)] s'(3) by (simp add: ac_simps)
  have "distinct (remove_nth i out @ free s')"
    using assms(1) mset_eq_imp_distinct_iff [OF m] by (simp add: ledger_def)
  moreover have "set (remove_nth i out) \<subseteq> set out"
    unfolding remove_nth_def by (auto dest: in_set_takeD in_set_dropD)
  ultimately have "ledger s' (remove_nth i out)" using s'(2) assms(1) by (auto simp: ledger_def)
  with that s'(1) m show thesis by blast
qed

lemma run_pool_ledger:
  assumes "ledger s out"
  shows "\<exists>s' out'. run_pool ops (s, out) = Some (s', out') \<and> ledger s' out' \<and>
    mset (out' @ free s') = mset (out @ free s)"
  using assms
proof (induction ops arbitrary: s out)
  case Nil
  then show ?case by simp
next
  case (Cons op ops)
  show ?case
  proof (cases op)
    case Acquire
    from Cons.prems obtain r s' where "acquire s = Some (r, s')"
      and "ledger s' (case r of None \<Rightarrow> out | Some x \<Rightarrow> x # out)"
      and "mset ((case r of None \<Rightarrow> out | Some x \<Rightarrow> x # out) @ free s') = mset (out @ free s)"
      by (rule acquire_step)
    with Acquire Cons.IH [of s' "case r of None \<Rightarrow> out | Some x \<Rightarrow> x # out"] show ?thesis by simp
  next
    case (Release i)
    show ?thesis
    proof (cases "i < length out")
      case True
      from release_step [OF Cons.prems True] obtain s' where "release (out ! i) s = Some s'"
        and "ledger s' (remove_nth i out)" and "mset (remove_nth i out @ free s') = mset (out @ free s)" .
      with Release True Cons.IH [of s' "remove_nth i out"] show ?thesis by simp
    next
      case False
      with Release Cons show ?thesis by simp
    qed
  qed
qed

end

end
