(* ===== verification/Buffer_List.thy ===== *)
theory Buffer_List
  imports Buffer_Slice Pool_Interface
begin

text \<open>
  The free list of \<^verbatim>\<open>buffer_manager.go\<close>: buffers of one capacity laid out one behind the
  other in a region of the shared memory and threaded through the \<^verbatim>\<open>next\<close> field of
  their headers. \<open>bufferList\<close> holds the addresses of the counters, as the Go struct holds
  pointers; \<open>free_list bl N C m fs\<close> says that the memory represents the sequence
  \<open>fs\<close> of free buffers (offsets in the region) of a list of \<open>N\<close> buffers of capacity
  \<open>C\<close>. \<^verbatim>\<open>pop\<close> takes the first and never the last one, \<^verbatim>\<open>push\<close> appends.
\<close>

subsection \<open>Data\<close>

definition bufferListHeaderSize :: nat where [consts_defs]: "bufferListHeaderSize = 36"

record bufferList =
  bl_size :: nat
  bl_cap :: nat
  bl_head :: nat
  bl_tail :: nat
  bl_capPerBuffer :: nat
  bl_counter :: nat
  bufferRegion :: gslice
  bufferRegionOffsetInShm :: u32
  bl_offsetInShm :: u32

definition countBufferListMemSize :: "u32 \<Rightarrow> u32 \<Rightarrow> u32" where
  "countBufferListMemSize bufferNum capPerBuffer =
     word_of_nat bufferListHeaderSize + bufferNum * (capPerBuffer + word_of_nat bufferHeaderSize)"

subsection \<open>Construction\<close>

text \<open>The loop that writes the headers; \<open>k\<close> iterations are left and \<open>current\<close> is the
  offset of the next header.\<close>

fun init_slots :: "gslice \<Rightarrow> u32 \<Rightarrow> u32 \<Rightarrow> nat \<Rightarrow> u32 \<Rightarrow> bytes \<Rightarrow> bytes option" where
  "init_slots region bufferNum capPerBuffer 0 current m = Some m"
| "init_slots region bufferNum capPerBuffer (Suc k) current m = do {
     let i = unat bufferNum - Suc k;
     let nxt = current + capPerBuffer + word_of_nat bufferHeaderSize;
     m1 \<leftarrow> slice_store m region (uint current) capPerBuffer;
     m2 \<leftarrow> slice_store m1 region (uint (current + word_of_nat bufferSizeOffset)) (0 :: u32);
     m3 \<leftarrow> slice_store m2 region (uint (current + word_of_nat bufferDataStartOffset)) (0 :: u32);
     m5 \<leftarrow> (if i < unat (bufferNum - 1) then do {
         m4 \<leftarrow> slice_store m3 region (uint (current + word_of_nat nextBufferOffset_pos)) nxt;
         f \<leftarrow> slice_load m4 region (uint (current + word_of_nat bufferFlagOffset));
         slice_store m4 region (uint (current + word_of_nat bufferFlagOffset)) (f OR hasNextBufferFlag)
       } else Some m3);
     init_slots region bufferNum capPerBuffer k nxt m5
   }"

definition createFreeBufferList ::
  "u32 \<Rightarrow> u32 \<Rightarrow> bytes \<Rightarrow> u32 \<Rightarrow> (go_error + (bufferList \<times> bytes)) option" where
  "createFreeBufferList bufferNum capPerBuffer mem offsetInMem =
     (if bufferNum = 0 \<or> capPerBuffer = 0
      then Some (Inl (ErrMsg ''bufferNum or capPerBuffer cannot be 0''))
      else
        let atLeastSize = countBufferListMemSize bufferNum capPerBuffer in
        if length mem < unat (offsetInMem + atLeastSize) \<or> offsetInMem > word_of_nat (length mem) \<or>
           atLeastSize > word_of_nat (length mem)
        then Some (Inl (ErrMsg ''mem's size is at least''))
        else
          let bufferRegionStart = offsetInMem + word_of_nat bufferListHeaderSize;
              bufferRegionEnd = offsetInMem + atLeastSize in
          if bufferRegionEnd \<le> bufferRegionStart
          then Some (Inl (ErrMsg ''slice bounds out of range''))
          else do {
            sz \<leftarrow> elem_addr (whole_slice mem) (uint (offsetInMem + 0));
            cp \<leftarrow> elem_addr (whole_slice mem) (uint (offsetInMem + 4));
            hd \<leftarrow> elem_addr (whole_slice mem) (uint (offsetInMem + 8));
            tl \<leftarrow> elem_addr (whole_slice mem) (uint (offsetInMem + 12));
            pb \<leftarrow> elem_addr (whole_slice mem) (uint (offsetInMem + 16));
            ct \<leftarrow> elem_addr (whole_slice mem) (uint (offsetInMem + 20));
            region \<leftarrow> sub_slice (whole_slice mem) (uint (offsetInMem + word_of_nat bufferListHeaderSize))
              (uint (offsetInMem + atLeastSize));
            let b = \<lparr>bl_size = sz, bl_cap = cp, bl_head = hd, bl_tail = tl, bl_capPerBuffer = pb, bl_counter = ct,
                     bufferRegion = region,
                     bufferRegionOffsetInShm = offsetInMem + word_of_nat bufferListHeaderSize,
                     bl_offsetInShm = offsetInMem\<rparr>;
            m1 \<leftarrow> mstore mem (bl_size b) bufferNum;
            m2 \<leftarrow> mstore m1 (bl_cap b) bufferNum;
            m3 \<leftarrow> mstore m2 (bl_head b) (0 :: u32);
            m4 \<leftarrow> mstore m3 (bl_tail b) ((bufferNum - 1) * (capPerBuffer + word_of_nat bufferHeaderSize));
            m5 \<leftarrow> mstore m4 (bl_capPerBuffer b) capPerBuffer;
            m6 \<leftarrow> mstore m5 (bl_counter b) (0 :: u32);
            m7 \<leftarrow> init_slots region bufferNum capPerBuffer (unat bufferNum) 0 m6;
            t \<leftarrow> (mload m7 (bl_tail b) :: u32 option);
            h \<leftarrow> sub_slice region (uint t) (int (sl_len region));
            m8 \<leftarrow> clearFlag m7 h;
            Some (Inr (b, m8))
          })"

definition mappingFreeBufferList :: "bytes \<Rightarrow> u32 \<Rightarrow> (go_error + bufferList) option" where
  "mappingFreeBufferList mem offset =
     (if length mem < bufferListHeaderSize + unat offset
      then Some (Inl (ErrMsg ''mappingFreeBufferList failed''))
      else do {
        sz \<leftarrow> elem_addr (whole_slice mem) (uint (offset + 0));
        cp \<leftarrow> elem_addr (whole_slice mem) (uint (offset + 4));
        hd \<leftarrow> elem_addr (whole_slice mem) (uint (offset + 8));
        tl \<leftarrow> elem_addr (whole_slice mem) (uint (offset + 12));
        pb \<leftarrow> elem_addr (whole_slice mem) (uint (offset + 16));
        ct \<leftarrow> elem_addr (whole_slice mem) (uint (offset + 24));
        c \<leftarrow> (mload mem cp :: u32 option);
        p \<leftarrow> (mload mem pb :: u32 option);
        let needSize = countBufferListMemSize c p;
        if offset + needSize > word_of_nat (length mem) \<or>
           offset + needSize < offset + word_of_nat bufferListHeaderSize
        then Some (Inl (ErrMsg ''mappingFreeBufferList failed''))
        else do {
          region \<leftarrow> sub_slice (whole_slice mem) (uint (offset + word_of_nat bufferListHeaderSize)) (uint (offset + needSize));
          Some (Inr \<lparr>bl_size = sz, bl_cap = cp, bl_head = hd, bl_tail = tl, bl_capPerBuffer = pb, bl_counter = ct,
                     bufferRegion = region,
                     bufferRegionOffsetInShm = offset + word_of_nat bufferListHeaderSize,
                     bl_offsetInShm = offset\<rparr>)
        }
      })"

subsection \<open>Operations\<close>

text \<open>\<open>i\<close> iterations of the retry loop of \<^verbatim>\<open>pop\<close> are left.\<close>

fun pop_loop :: "bufferList \<Rightarrow> nat \<Rightarrow> u32 \<Rightarrow> bytes \<Rightarrow> ((go_error + bufferSlice) \<times> bytes) option" where
  "pop_loop b 0 oldHead m = do {
     (_, m1) \<leftarrow> atomic_add m (bl_size b) (1 :: u32);
     Some (Inl ErrNoMoreBuffer, m1)
   }"
| "pop_loop b (Suc i) oldHead m = do {
     bh \<leftarrow> sub_slice (bufferRegion b) (uint oldHead) (uint (oldHead + word_of_nat bufferHeaderSize));
     hn \<leftarrow> hasNext m bh;
     if hn then do {
       nx \<leftarrow> nextBufferOffset m bh;
       (swapped, m1) \<leftarrow> atomic_cas m (bl_head b) oldHead nx;
       if swapped then do {
         h \<leftarrow> sub_slice (bufferRegion b) (uint oldHead) (uint (oldHead + word_of_nat bufferHeaderSize));
         m2 \<leftarrow> clearFlag m1 h;
         m3 \<leftarrow> setInUsed m2 h;
         (_, m4) \<leftarrow> atomic_add m3 (bl_counter b) (1 :: u32);
         c \<leftarrow> (mload m4 (bl_capPerBuffer b) :: u32 option);
         d \<leftarrow> sub_slice (bufferRegion b) (uint (oldHead + word_of_nat bufferHeaderSize))
           (uint (oldHead + word_of_nat bufferHeaderSize + c));
         s \<leftarrow> newBufferSlice m4 (Some h) (ShmData d) (oldHead + bufferRegionOffsetInShm b) True;
         Some (Inr s, m4)
       } else do {
         hd \<leftarrow> mload m1 (bl_head b);
         pop_loop b i hd m1
       }
     } else do {
       sz \<leftarrow> (mload m (bl_size b) :: u32 option);
       if sint sz \<le> 1 then do {
         (_, m1) \<leftarrow> atomic_add m (bl_size b) (1 :: u32);
         Some (Inl ErrNoMoreBuffer, m1)
       } else do {
         hd \<leftarrow> mload m (bl_head b);
         pop_loop b i hd m
       }
     }
   }"

definition bufferList_pop :: "bufferList \<Rightarrow> bytes \<Rightarrow> ((go_error + bufferSlice) \<times> bytes) option" where
  "bufferList_pop b m = do {
     oldHead \<leftarrow> mload m (bl_head b);
     (remain, m1) \<leftarrow> atomic_add m (bl_size b) (- 1 :: u32);
     if sint remain \<le> 0 then do {
       (_, m2) \<leftarrow> atomic_add m1 (bl_size b) (1 :: u32);
       Some (Inl ErrNoMoreBuffer, m2)
     } else pop_loop b 200 oldHead m1
   }"

text \<open>The retry loop of \<^verbatim>\<open>push\<close> has no bound.\<close>

partial_function (option) push_loop :: "bufferList \<Rightarrow> u32 \<Rightarrow> bytes \<Rightarrow> bytes option" where
  "push_loop b off m = do {
     oldTail \<leftarrow> mload m (bl_tail b);
     let newTail = off - bufferRegionOffsetInShm b;
     (swapped, m1) \<leftarrow> atomic_cas m (bl_tail b) oldTail newTail;
     if swapped then do {
       h \<leftarrow> sub_slice (bufferRegion b) (uint oldTail) (uint (oldTail + word_of_nat bufferHeaderSize));
       m2 \<leftarrow> linkNext m1 h newTail;
       (_, m3) \<leftarrow> atomic_add m2 (bl_size b) (1 :: u32);
       (_, m4) \<leftarrow> atomic_add m3 (bl_counter b) (- 1 :: u32);
       Some m4
     } else push_loop b off m1
   }"

definition bufferList_push :: "bufferList \<Rightarrow> bufferSlice \<Rightarrow> bytes \<Rightarrow> (bytes \<times> bufferSlice) option" where
  "bufferList_push b buffer m = do {
     (m1, buffer') \<leftarrow> slice_reset m buffer;
     m2 \<leftarrow> push_loop b (offsetInShm buffer') m1;
     Some (m2, buffer')
   }"

definition bufferList_remain :: "bufferList \<Rightarrow> bytes \<Rightarrow> int option" where
  "bufferList_remain b m = do { sz \<leftarrow> (mload m (bl_size b) :: u32 option); Some (sint (sz - 1)) }"

subsection \<open>The representation invariant\<close>

abbreviation bl_base :: "bufferList \<Rightarrow> nat" where "bl_base b \<equiv> sl_base (bufferRegion b)"
abbreviation bl_off :: "bufferList \<Rightarrow> nat" where "bl_off b \<equiv> unat (bl_offsetInShm b)"

text \<open>A buffer of a list of \<open>N\<close> buffers of capacity \<open>C\<close>, by its offset in the region.\<close>

definition slot :: "nat \<Rightarrow> nat \<Rightarrow> nat \<Rightarrow> bool" where
  "slot N C x \<longleftrightarrow> (\<exists>k < N. x = k * (C + 20))"

definition list_layout :: "bufferList \<Rightarrow> nat \<Rightarrow> nat \<Rightarrow> nat \<Rightarrow> bool" where
  "list_layout b N C n \<longleftrightarrow>
     bl_size b = bl_off b \<and> bl_cap b = bl_off b + 4 \<and> bl_head b = bl_off b + 8 \<and> bl_tail b = bl_off b + 12 \<and>
     bl_capPerBuffer b = bl_off b + 16 \<and> (bl_counter b = bl_off b + 20 \<or> bl_counter b = bl_off b + 24) \<and>
     bl_base b = bl_off b + 36 \<and> unat (bufferRegionOffsetInShm b) = bl_base b \<and>
     sl_len (bufferRegion b) = N * (C + 20) \<and> N * (C + 20) \<le> sl_cap (bufferRegion b) \<and>
     bl_base b + N * (C + 20) \<le> n \<and> n < 2 ^ 32 \<and> 0 < C"

definition list_wf :: "bufferList \<Rightarrow> nat \<Rightarrow> nat \<Rightarrow> bytes \<Rightarrow> bool" where
  "list_wf b N C m \<longleftrightarrow> list_layout b N C (length m) \<and>
     rd m (bl_cap b) = (word_of_nat N :: u32) \<and> rd m (bl_capPerBuffer b) = (word_of_nat C :: u32) \<and>
     (\<forall>x. slot N C x \<longrightarrow> rd m (bl_base b + x) = (word_of_nat C :: u32))"

fun is_chain :: "bytes \<Rightarrow> nat \<Rightarrow> nat list \<Rightarrow> bool" where
  "is_chain m b [] = True"
| "is_chain m b [x] = (link_at m (b + x) = None)"
| "is_chain m b (x # y # r) = (link_at m (b + x) = Some (word_of_nat y) \<and> is_chain m b (y # r))"

definition free_hdrs :: "bufferList \<Rightarrow> bytes \<Rightarrow> nat list \<Rightarrow> bool" where
  "free_hdrs b m fs \<longleftrightarrow> is_chain m (bl_base b) fs \<and>
     (\<forall>x \<in> set fs. rd m (bl_base b + x + 4) = (0 :: u32) \<and> rd m (bl_base b + x + 8) = (0 :: u32))"

definition free_list :: "bufferList \<Rightarrow> nat \<Rightarrow> nat \<Rightarrow> bytes \<Rightarrow> nat list \<Rightarrow> bool" where
  "free_list b N C m fs \<longleftrightarrow> list_wf b N C m \<and> fs \<noteq> [] \<and> distinct fs \<and> (\<forall>x \<in> set fs. slot N C x) \<and>
     rd m (bl_head b) = (word_of_nat (hd fs) :: u32) \<and> rd m (bl_tail b) = (word_of_nat (last fs) :: u32) \<and>
     rd m (bl_size b) = (word_of_nat (length fs) :: u32) \<and> free_hdrs b m fs"

lemma slot_le:
  assumes "slot N C x"
  shows "x + (C + 20) \<le> N * (C + 20)"
proof -
  from assms obtain k where "k < N" "x = k * (C + 20)" by (auto simp: slot_def)
  then have "(k + 1) * (C + 20) \<le> N * (C + 20)" by (intro mult_le_mono1) simp
  with \<open>x = _\<close> show ?thesis by simp
qed

lemma slots_apart:
  assumes "slot N C x" and "slot N C y" and "x \<noteq> y"
  shows "x + (C + 20) \<le> y \<or> y + (C + 20) \<le> x"
proof -
  from assms obtain k l where kl: "x = k * (C + 20)" "y = l * (C + 20)" "k \<noteq> l" by (auto simp: slot_def)
  then have "k + 1 \<le> l \<or> l + 1 \<le> k" by auto
  then have "(k + 1) * (C + 20) \<le> l * (C + 20) \<or> (l + 1) * (C + 20) \<le> k * (C + 20)"
    using mult_le_mono1 by blast
  with kl show ?thesis by (simp add: add.commute)
qed

text \<open>The bytes the invariant depends on: the counters, the capacity field of every buffer
  and the headers of the free ones.\<close>

definition wf_foot :: "bufferList \<Rightarrow> nat \<Rightarrow> nat \<Rightarrow> nat set" where
  "wf_foot b N C = {bl_off b + 4..<bl_off b + 8} \<union> {bl_off b + 16..<bl_off b + 20} \<union>
     {a. \<exists>x. slot N C x \<and> bl_base b + x \<le> a \<and> a < bl_base b + x + 4}"

definition hdrs_foot :: "bufferList \<Rightarrow> nat list \<Rightarrow> nat set" where
  "hdrs_foot b fs = {a. \<exists>x \<in> set fs. bl_base b + x + 4 \<le> a \<and> a < bl_base b + x + 20}"

lemma hdrs_foot_range:
  assumes "x \<in> set fs" and "4 \<le> d" and "d + k \<le> 20"
  shows "{bl_base b + x + d..<bl_base b + x + d + k} \<subseteq> hdrs_foot b fs"
proof -
  have "bl_base b + x + 4 \<le> a \<and> a < bl_base b + x + 20" if "a \<in> {bl_base b + x + d..<bl_base b + x + d + k}" for a
    using that assms(2,3) by auto
  then show ?thesis using assms(1) unfolding hdrs_foot_def by blast
qed

definition free_foot :: "bufferList \<Rightarrow> nat \<Rightarrow> nat \<Rightarrow> nat list \<Rightarrow> nat set" where
  "free_foot b N C fs = {bl_off b..<bl_off b + 20} \<union> wf_foot b N C \<union> hdrs_foot b fs"

lemma list_wf_frame:
  assumes f: "list_wf b N C m" and u: "unchanged_off A m m'" and A: "wf_foot b N C \<inter> A = {}"
  shows "list_wf b N C m'"
proof -
  have l: "list_layout b N C (length m)" using f by (simp add: list_wf_def)
  have h: "(rd m' (bl_cap b) :: u32) = rd m (bl_cap b)" "(rd m' (bl_capPerBuffer b) :: u32) = rd m (bl_capPerBuffer b)"
    using l by (auto intro!: rd_frame [OF u A] simp: wf_foot_def list_layout_def)
  have c: "(rd m' (bl_base b + x) :: u32) = rd m (bl_base b + x)" if "slot N C x" for x
    using that l slot_le [OF that] by (intro rd_frame [OF u A]) (auto simp: wf_foot_def list_layout_def)
  show ?thesis using f unchanged_off_length [OF u] by (simp add: list_wf_def h c)
qed

lemma is_chain_frame:
  assumes u: "unchanged_off A m m'" and A: "\<And>x. x \<in> set fs \<Longrightarrow> {b + x + 12..<b + x + 17} \<inter> A = {}"
    and "\<And>x. x \<in> set fs \<Longrightarrow> b + x + 20 \<le> length m"
  shows "is_chain m' b fs = is_chain m b fs"
proof -
  have "link_at m' (b + x) = link_at m (b + x)" if "x \<in> set fs" for x
    using A [OF that] assms(3) [OF that] by (intro link_at_frame [OF u]) auto
  then show ?thesis by (induction m' b fs rule: is_chain.induct) auto
qed

lemma free_hdrs_frame:
  assumes f: "free_hdrs b m fs" and u: "unchanged_off A m m'" and A: "hdrs_foot b fs \<inter> A = {}"
    and l: "list_layout b N C (length m)" and s: "\<forall>x \<in> set fs. slot N C x"
  shows "free_hdrs b m' fs"
proof -
  have bd: "bl_base b + x + 20 \<le> length m" if "x \<in> set fs" for x
    using that s l slot_le [of N C x] by (simp add: list_layout_def)
  have r: "(rd m' (bl_base b + x + d) :: u32) = rd m (bl_base b + x + d)" if "x \<in> set fs" "4 \<le> d" "d \<le> 16" for x d
  proof (rule rd_frame [OF u A])
    show "{bl_base b + x + d..<bl_base b + x + d + LENGTH(32) div 8} \<subseteq> hdrs_foot b fs"
      using that by (intro hdrs_foot_range) auto
  qed (use that bd [OF that(1)] in simp)
  have "is_chain m' (bl_base b) fs = is_chain m (bl_base b) fs"
  proof (rule is_chain_frame [OF u _ bd])
    fix x assume x: "x \<in> set fs"
    from hdrs_foot_range [OF x, of 12 5 b] A show "{bl_base b + x + 12..<bl_base b + x + 17} \<inter> A = {}"
      by (auto simp: add.assoc)
  qed
  with f r [of _ 4] r [of _ 8] show ?thesis by (simp add: free_hdrs_def)
qed

lemma free_list_frame:
  assumes f: "free_list b N C m fs" and u: "unchanged_off A m m'" and A: "free_foot b N C fs \<inter> A = {}"
  shows "free_list b N C m' fs"
proof -
  have l: "list_layout b N C (length m)" using f by (simp add: free_list_def list_wf_def)
  have h: "(rd m' (bl_head b) :: u32) = rd m (bl_head b)" "(rd m' (bl_tail b) :: u32) = rd m (bl_tail b)"
    "(rd m' (bl_size b) :: u32) = rd m (bl_size b)"
    using l by (auto intro!: rd_frame [OF u A] simp: free_foot_def list_layout_def)
  have "list_wf b N C m'" "free_hdrs b m' fs"
    using f A l by (auto intro!: list_wf_frame [OF _ u] free_hdrs_frame [OF _ u] simp: free_list_def free_foot_def)
  with f h show ?thesis by (simp add: free_list_def)
qed

subsection \<open>Taking a buffer\<close>

definition slot_hdr :: "bufferList \<Rightarrow> nat \<Rightarrow> gslice" where
  "slot_hdr b x = \<lparr>sl_base = bl_base b + x, sl_len = 20, sl_cap = sl_cap (bufferRegion b) - x\<rparr>"

text \<open>The slice object of an empty buffer.\<close>

definition slot_slice :: "bufferList \<Rightarrow> nat \<Rightarrow> nat \<Rightarrow> bufferSlice" where
  "slot_slice b C x = \<lparr>bufferHeader = Some (slot_hdr b x),
     bs_data = ShmData \<lparr>sl_base = bl_base b + x + 20, sl_len = C, sl_cap = sl_cap (bufferRegion b) - (x + 20)\<rparr>,
     bs_cap = word_of_nat C, bs_start = 0, offsetInShm = word_of_nat (bl_base b + x),
     readIndex = 0, writeIndex = 0, isFromShm = True\<rparr>"

lemma slot_sub:
  assumes l: "list_layout b N C n" and x: "slot N C x"
  shows "sub_slice (bufferRegion b) (uint (word_of_nat x :: u32)) (uint (word_of_nat x + word_of_nat bufferHeaderSize :: u32))
      = Some (slot_hdr b x)"
    and "sub_slice (bufferRegion b) (uint (word_of_nat x + word_of_nat bufferHeaderSize :: u32))
      (uint (word_of_nat x + word_of_nat bufferHeaderSize + word_of_nat C :: u32))
      = Some \<lparr>sl_base = bl_base b + x + 20, sl_len = C, sl_cap = sl_cap (bufferRegion b) - (x + 20)\<rparr>"
proof -
  have lt: "x + (C + 20) < 2 ^ 32" "x + (C + 20) \<le> sl_cap (bufferRegion b)"
    using slot_le [OF x] l by (simp_all add: list_layout_def)
  have 1: "uint (word_of_nat x :: u32) = int x" by (rule uint_of_nat32) (use lt in simp)
  have "word_of_nat x + word_of_nat bufferHeaderSize = (word_of_nat (x + 20) :: u32)"
    by (simp add: consts_defs)
  with lt have 2: "uint (word_of_nat x + word_of_nat bufferHeaderSize :: u32) = int (x + 20)"
    using uint_of_nat32 [of "x + 20"] by simp
  have "word_of_nat x + word_of_nat bufferHeaderSize + word_of_nat C = (word_of_nat (x + 20 + C) :: u32)"
    by (simp add: consts_defs)
  with lt have 3: "uint (word_of_nat x + word_of_nat bufferHeaderSize + word_of_nat C :: u32) = int (x + 20 + C)"
    using uint_of_nat32 [of "x + 20 + C"] by simp
  show "sub_slice (bufferRegion b) (uint (word_of_nat x :: u32)) (uint (word_of_nat x + word_of_nat bufferHeaderSize :: u32))
      = Some (slot_hdr b x)"
    "sub_slice (bufferRegion b) (uint (word_of_nat x + word_of_nat bufferHeaderSize :: u32))
      (uint (word_of_nat x + word_of_nat bufferHeaderSize + word_of_nat C :: u32))
      = Some \<lparr>sl_base = bl_base b + x + 20, sl_len = C, sl_cap = sl_cap (bufferRegion b) - (x + 20)\<rparr>"
    unfolding 1 2 3 using lt by (simp_all add: sub_slice_def slot_hdr_def nat_add_distrib)
qed

lemma slot_hdr_ok: "list_layout b N C n \<Longrightarrow> slot N C x \<Longrightarrow> hdr_ok n (slot_hdr b x)"
  using slot_le [of N C x] by (simp add: hdr_ok_def slot_hdr_def list_layout_def)

lemma newBufferSlice_slot:
  assumes l: "list_layout b N C (length m)" and x: "slot N C x"
    and "rd m (bl_base b + x) = (word_of_nat C :: u32)" and "rd m (bl_base b + x + 4) = (0 :: u32)"
    and "rd m (bl_base b + x + 8) = (0 :: u32)"
  shows "newBufferSlice m (Some (slot_hdr b x))
      (ShmData \<lparr>sl_base = bl_base b + x + 20, sl_len = C, sl_cap = sl_cap (bufferRegion b) - (x + 20)\<rparr>)
      (word_of_nat x + bufferRegionOffsetInShm b) True = Some (slot_slice b C x)"
proof -
  have "bufferRegionOffsetInShm b = word_of_nat (bl_base b)" using l by (metis list_layout_def word_of_nat_unat)
  moreover have "sl_base (slot_hdr b x) = bl_base b + x" by (simp add: slot_hdr_def)
  ultimately show ?thesis
    using hdr_access [OF slot_hdr_ok [OF l x]] assms(3-)
    by (simp add: newBufferSlice_def consts_defs zero_slice_def slot_slice_def add.commute)
qed

definition pop_list_mem :: "bufferList \<Rightarrow> nat \<Rightarrow> nat \<Rightarrow> bytes \<Rightarrow> bytes" where
  "pop_list_mem b x y m =
     (let m1 = wr m (bl_size b) (rd m (bl_size b) + (- 1) :: u32);
          m2 = wr m1 (bl_head b) (word_of_nat y :: u32);
          m3 = wr (wr m2 (bl_base b + x + 16) (0 :: u8)) (bl_base b + x + 16) (2 :: u8)
      in wr m3 (bl_counter b) (rd m3 (bl_counter b) + 1 :: u32))"

lemma size_bound:
  assumes "list_layout b N C n" and "distinct fs" and "\<forall>x \<in> set fs. slot N C x"
  shows "length fs \<le> N" "N < 2 ^ 31"
proof -
  have "set fs \<subseteq> (\<lambda>k. k * (C + 20)) ` {..<N}" using assms(3) by (auto simp: slot_def)
  then have "card (set fs) \<le> card ((\<lambda>k. k * (C + 20)) ` {..<N})" by (intro card_mono) auto
  also have "\<dots> \<le> N" using card_image_le [of "{..<N}" "\<lambda>k. k * (C + 20)"] by simp
  finally show "length fs \<le> N" using assms(2) by (simp add: distinct_card)
  have "N * 20 \<le> N * (C + 20)" by (rule mult_le_mono2) simp
  also have "\<dots> < 2 ^ 32" using assms(1) unfolding list_layout_def by linarith
  finally show "N < 2 ^ 31" by simp
qed

lemma pop_list_mem_facts:
  fixes y :: nat
  assumes l: "list_layout b N C (length m)" and x: "slot N C x"
  defines "m' \<equiv> pop_list_mem b x y m"
  shows "length m' = length m"
    and "unchanged_off ({bl_off b..<bl_off b + 4} \<union> {bl_off b + 8..<bl_off b + 12} \<union> {bl_off b + 20..<bl_off b + 28} \<union>
      {bl_base b + x + 16..<bl_base b + x + 17}) m m'"
    and "rd m' (bl_size b) = (rd m (bl_size b) + (- 1) :: u32)" and "rd m' (bl_head b) = (word_of_nat y :: u32)"
    and "rd m' (bl_base b + x + 16) = (2 :: u8)"
proof -
  have f: "bl_size b = bl_off b" "bl_head b = bl_off b + 8" "bl_base b = bl_off b + 36"
    "bl_counter b = bl_off b + 20 \<or> bl_counter b = bl_off b + 24" "bl_base b + x + 20 \<le> length m"
    using l slot_le [OF x] by (auto simp: list_layout_def)
  then have c: "bl_off b + 20 \<le> bl_counter b" "bl_counter b + 4 \<le> bl_off b + 28" by auto
  show "length m' = length m" using f c by (simp add: m'_def pop_list_mem_def Let_def)
  show "unchanged_off ({bl_off b..<bl_off b + 4} \<union> {bl_off b + 8..<bl_off b + 12} \<union> {bl_off b + 20..<bl_off b + 28} \<union>
      {bl_base b + x + 16..<bl_base b + x + 17}) m m'"
    unfolding m'_def pop_list_mem_def Let_def
    by (intro unchanged_off_wrI unchanged_off_refl) (use f c in auto)
  show "rd m' (bl_size b) = (rd m (bl_size b) + (- 1) :: u32)" "rd m' (bl_head b) = (word_of_nat y :: u32)"
    "rd m' (bl_base b + x + 16) = (2 :: u8)"
    using f c by (simp_all add: m'_def pop_list_mem_def Let_def mem_simps)
qed

lemma pop_loop_hit:
  assumes l: "list_layout b N C (length m)" and x: "slot N C x" and "rd m (bl_head b) = (word_of_nat x :: u32)"
    and "link_at m (bl_base b + x) = Some (word_of_nat y)" and "rd m (bl_capPerBuffer b) = (word_of_nat C :: u32)"
    and "rd m (bl_base b + x) = (word_of_nat C :: u32)" and "rd m (bl_base b + x + 4) = (0 :: u32)"
    and "rd m (bl_base b + x + 8) = (0 :: u32)"
  defines "m3 \<equiv> wr (wr (wr m (bl_head b) (word_of_nat y :: u32)) (bl_base b + x + 16) (0 :: u8)) (bl_base b + x + 16) (2 :: u8)"
  shows "pop_loop b (Suc i) (word_of_nat x) m =
    Some (Inr (slot_slice b C x), wr m3 (bl_counter b) (rd m3 (bl_counter b) + 1 :: u32))"
proof -
  let ?m1 = "wr m (bl_head b) (word_of_nat y :: u32)"
  let ?m2 = "wr ?m1 (bl_base b + x + 16) (0 :: u8)"
  let ?m4 = "wr m3 (bl_counter b) (rd m3 (bl_counter b) + 1 :: u32)"
  have f: "bl_capPerBuffer b = bl_off b + 16" "bl_head b = bl_off b + 8" "bl_base b = bl_off b + 36"
    "bl_counter b = bl_off b + 20 \<or> bl_counter b = bl_off b + 24" "bl_base b + x + 20 \<le> length m"
    using l slot_le [OF x] by (auto simp: list_layout_def)
  then have c: "bl_off b + 20 \<le> bl_counter b" "bl_counter b + 4 \<le> bl_off b + 28" by auto
  have len: "length ?m1 = length m" "length ?m2 = length m" "length m3 = length m" "length ?m4 = length m"
    using f c by (simp_all add: m3_def)
  have h: "hdr_ok (length m) (slot_hdr b x)" "sl_base (slot_hdr b x) = bl_base b + x"
    using slot_hdr_ok [OF l x] by (simp_all add: slot_hdr_def)
  have r: "rd ?m4 (bl_base b + x) = (word_of_nat C :: u32)" "rd ?m4 (bl_base b + x + 4) = (0 :: u32)"
    "rd ?m4 (bl_base b + x + 8) = (0 :: u32)" "rd ?m4 (bl_capPerBuffer b) = (word_of_nat C :: u32)"
    using f c assms(5-8) by (simp_all add: m3_def mem_simps)
  have nx: "hasNext m (slot_hdr b x) = Some True" "nextBufferOffset m (slot_hdr b x) = Some (word_of_nat y)"
    using assms(4) h hasNext_ok [OF h(1)] nextBufferOffset_ok [OF h(1)] by (auto simp: link_at_def split: if_splits)
  have cl: "clearFlag ?m1 (slot_hdr b x) = Some ?m2" "setInUsed ?m2 (slot_hdr b x) = Some m3"
    using clearFlag_ok [of ?m1 "slot_hdr b x"] setInUsed_ok [of ?m2 "slot_hdr b x"] h len f
    by (simp_all add: m3_def mem_simps)
  have ca: "atomic_cas m (bl_head b) (word_of_nat x) (word_of_nat y :: u32) = Some (True, ?m1)"
    using f assms(3) by simp
  have ad: "atomic_add m3 (bl_counter b) (1 :: u32) = Some (rd m3 (bl_counter b) + 1, ?m4)"
    using f c len by simp
  have ld: "mload ?m4 (bl_capPerBuffer b) = Some (word_of_nat C :: u32)" using f len r by (simp add: mload_def)
  have ns: "newBufferSlice ?m4 (Some (slot_hdr b x))
      (ShmData \<lparr>sl_base = bl_base b + x + 20, sl_len = C, sl_cap = sl_cap (bufferRegion b) - (x + 20)\<rparr>)
      (word_of_nat x + bufferRegionOffsetInShm b) True = Some (slot_slice b C x)"
    using newBufferSlice_slot [of b N C ?m4 x] l x r len by simp
  show ?thesis
    by (simp only: pop_loop.simps slot_sub [OF l x] nx ca cl ad ld ns Option.bind.bind_lunit if_True case_prod_conv)
qed

lemma bufferList_pop_some:
  assumes f: "free_list b N C m (x # y # r)"
  shows "bufferList_pop b m = Some (Inr (slot_slice b C x), pop_list_mem b x y m)"
    and "free_list b N C (pop_list_mem b x y m) (y # r)"
proof -
  have l: "list_layout b N C (length m)" and x: "slot N C x" using f by (auto simp: free_list_def list_wf_def)
  note pf = pop_list_mem_facts [OF l x, of y]
  have d: "x \<notin> set (y # r)" "distinct (y # r)" "\<forall>z \<in> set (y # r). slot N C z" using f by (auto simp: free_list_def)
  have off: "bl_base b = bl_off b + 36" "bl_tail b = bl_off b + 12" using l by (simp_all add: list_layout_def)
  have far: "z + 20 < x \<or> x + 20 < z" if "slot N C z" "z \<noteq> x" for z
    using slots_apart [OF that(1) x that(2)] l by (auto simp: list_layout_def)
  have "list_wf b N C (pop_list_mem b x y m)"
  proof (rule list_wf_frame [OF _ pf(2)])
    show "list_wf b N C m" using f by (simp add: free_list_def)
    have "bl_base b + x + 16 < bl_base b + z \<or> bl_base b + z + 4 \<le> bl_base b + x + 16" if "slot N C z" for z
      using far [OF that] by (cases "z = x") auto
    then show "wf_foot b N C \<inter> ({bl_off b..<bl_off b + 4} \<union> {bl_off b + 8..<bl_off b + 12} \<union> {bl_off b + 20..<bl_off b + 28} \<union>
      {bl_base b + x + 16..<bl_base b + x + 17}) = {}"
      using off by (fastforce simp: wf_foot_def)
  qed
  moreover have "free_hdrs b (pop_list_mem b x y m) (y # r)"
  proof (rule free_hdrs_frame [OF _ pf(2) _ l d(3)])
    show "free_hdrs b m (y # r)" using f by (simp add: free_list_def free_hdrs_def)
    have "bl_base b + x + 16 < bl_base b + z + 4 \<or> bl_base b + z + 20 \<le> bl_base b + x + 16" if "z \<in> set (y # r)" for z
      using far [of z] d(1,3) that by fastforce
    then show "hdrs_foot b (y # r) \<inter> ({bl_off b..<bl_off b + 4} \<union> {bl_off b + 8..<bl_off b + 12} \<union> {bl_off b + 20..<bl_off b + 28} \<union>
      {bl_base b + x + 16..<bl_base b + x + 17}) = {}"
      using off by (fastforce simp: hdrs_foot_def)
  qed
  moreover have "(rd (pop_list_mem b x y m) (bl_tail b) :: u32) = rd m (bl_tail b)"
    using off slot_le [OF x] l by (intro rd_unchanged [OF pf(2)]) (auto simp: list_layout_def)
  ultimately show "free_list b N C (pop_list_mem b x y m) (y # r)"
    using f d pf(3,4) by (simp add: free_list_def)
  let ?m1 = "wr m (bl_size b) (rd m (bl_size b) + (- 1) :: u32)"
  have fl: "bl_size b = bl_off b" "bl_head b = bl_off b + 8" "bl_capPerBuffer b = bl_off b + 16" "bl_base b + x + 20 \<le> length m"
    using l slot_le [OF x] by (auto simp: list_layout_def)
  have u: "unchanged_off {bl_off b..<bl_off b + 4} m ?m1"
    by (rule unchanged_off_wrI [OF unchanged_off_refl]) (use fl off in auto)
  have sz: "rd m (bl_size b) + (- 1) = (word_of_nat (Suc (length r)) :: u32)" using f by (simp add: free_list_def)
  have "length (x # y # r) \<le> N" "N < 2 ^ 31" using size_bound [OF l] f unfolding free_list_def by blast+
  then have "unat (word_of_nat (Suc (length r)) :: u32) = Suc (length r)" by (intro unat_of_nat32) simp
  then have pos: "\<not> sint (rd m (bl_size b) + (- 1) :: u32) \<le> 0"
    using sint_eq_unat [of "word_of_nat (Suc (length r)) :: u32"] \<open>N < 2 ^ 31\<close> \<open>length (x # y # r) \<le> N\<close> unfolding sz by simp
  have lk: "link_at ?m1 (bl_base b + x) = link_at m (bl_base b + x)"
    using off fl by (intro link_at_frame [OF u]) auto
  have "pop_loop b (Suc 199) (word_of_nat x) ?m1 = Some (Inr (slot_slice b C x), pop_list_mem b x y m)"
    unfolding pop_list_mem_def Let_def using f off fl l x lk
    by (intro pop_loop_hit) (simp_all add: free_list_def free_hdrs_def list_wf_def mem_simps)
  then show "bufferList_pop b m = Some (Inr (slot_slice b C x), pop_list_mem b x y m)"
    using fl off f pos by (simp add: bufferList_pop_def free_list_def)
qed

lemma bufferList_pop_none:
  assumes f: "free_list b N C m [x]"
  shows "bufferList_pop b m = Some (Inl ErrNoMoreBuffer, m)"
proof -
  have "list_layout b N C (length m)" and x: "slot N C x" using f by (auto simp: free_list_def list_wf_def)
  then have fl: "bl_size b = bl_off b" "bl_head b = bl_off b + 8" "bl_off b + 12 \<le> length m"
    using slot_le [OF x] by (auto simp: list_layout_def)
  have one: "rd m (bl_off b) = (1 :: u32)" using f fl by (simp add: free_list_def)
  have "wr m (bl_off b) (rd m (bl_off b) :: u32) = m" using fl by (intro wr_rd_same) simp_all
  with fl one show ?thesis by (simp add: bufferList_pop_def mem_simps)
qed

subsection \<open>Returning a buffer\<close>

definition reset_mem :: "nat \<Rightarrow> bytes \<Rightarrow> bytes" where
  "reset_mem a m = wr (wr (wr m (a + 4) (0 :: u32)) (a + 8) (0 :: u32)) (a + 16) (0 :: u8)"

lemma slice_reset_ok:
  assumes "bufferHeader s = Some h" and "hdr_ok (length m) h"
  shows "slice_reset m s = Some (reset_mem (sl_base h) m, s\<lparr>writeIndex := 0, readIndex := 0\<rparr>)"
proof -
  have "slice_store m h 4 (0 :: u32) = Some (wr m (sl_base h + 4) (0 :: u32))" by (simp add: hdr_access [OF assms(2)])
  moreover have "hdr_ok (length (wr m (sl_base h + 4) (0 :: u32))) h" using assms(2) by (simp add: hdr_ok_def)
  moreover have "hdr_ok (length (wr (wr m (sl_base h + 4) (0 :: u32)) (sl_base h + 8) (0 :: u32))) h"
    using assms(2) by (simp add: hdr_ok_def)
  ultimately show ?thesis
    using assms by (simp add: slice_reset_def consts_defs hdr_access clearFlag_ok reset_mem_def)
qed

lemma is_chain_snoc:
  assumes "is_chain m b (gs @ [t])" and "\<And>z. z \<in> set gs \<Longrightarrow> link_at m' (b + z) = link_at m (b + z)"
    and "link_at m' (b + t) = Some (word_of_nat x)" and "link_at m' (b + x) = None"
  shows "is_chain m' b (gs @ [t, x])"
  using assms(1,2)
proof (induction gs)
  case Nil
  then show ?case using assms(3,4) by simp
next
  case (Cons z gs)
  then show ?case by (cases gs) auto
qed

definition push_list_mem :: "bufferList \<Rightarrow> nat \<Rightarrow> nat \<Rightarrow> bytes \<Rightarrow> bytes" where
  "push_list_mem b t x m =
     (let m1 = wr m (bl_tail b) (word_of_nat x :: u32);
          m2 = wr (wr m1 (bl_base b + t + 12) (word_of_nat x :: u32)) (bl_base b + t + 16) ((rd m1 (bl_base b + t + 16) :: u8) OR 1);
          m3 = wr m2 (bl_size b) (rd m2 (bl_size b) + 1 :: u32)
      in wr m3 (bl_counter b) (rd m3 (bl_counter b) + (- 1) :: u32))"

lemma push_list_mem_facts:
  fixes x :: nat
  assumes l: "list_layout b N C (length m)" and t: "slot N C t"
  defines "m' \<equiv> push_list_mem b t x m"
  shows "length m' = length m"
    and "unchanged_off ({bl_off b..<bl_off b + 4} \<union> {bl_off b + 12..<bl_off b + 16} \<union> {bl_off b + 20..<bl_off b + 28} \<union>
      {bl_base b + t + 12..<bl_base b + t + 17}) m m'"
    and "rd m' (bl_size b) = (rd m (bl_size b) + 1 :: u32)" and "rd m' (bl_tail b) = (word_of_nat x :: u32)"
    and "link_at m' (bl_base b + t) = Some (word_of_nat x)"
proof -
  have f: "bl_size b = bl_off b" "bl_tail b = bl_off b + 12" "bl_base b = bl_off b + 36"
    "bl_counter b = bl_off b + 20 \<or> bl_counter b = bl_off b + 24" "bl_base b + t + 20 \<le> length m"
    using l slot_le [OF t] by (auto simp: list_layout_def)
  then have c: "bl_off b + 20 \<le> bl_counter b" "bl_counter b + 4 \<le> bl_off b + 28" by auto
  show "length m' = length m" using f c by (simp add: m'_def push_list_mem_def Let_def)
  show "unchanged_off ({bl_off b..<bl_off b + 4} \<union> {bl_off b + 12..<bl_off b + 16} \<union> {bl_off b + 20..<bl_off b + 28} \<union>
      {bl_base b + t + 12..<bl_base b + t + 17}) m m'"
    unfolding m'_def push_list_mem_def Let_def
    by (intro unchanged_off_wrI unchanged_off_refl) (use f c in auto)
  show "rd m' (bl_size b) = (rd m (bl_size b) + 1 :: u32)" "rd m' (bl_tail b) = (word_of_nat x :: u32)"
    "link_at m' (bl_base b + t) = Some (word_of_nat x)"
    using f c by (simp_all add: m'_def push_list_mem_def Let_def mem_simps link_at_def or_one_and_one)
qed

lemma far_apart:
  assumes "list_layout b N C n" and "slot N C x" and "slot N C z" and "z \<noteq> x"
  shows "z + 20 < x \<or> x + 20 < z"
  using slots_apart [OF assms(3,2,4)] assms(1) by (auto simp: list_layout_def)

text \<open>A buffer that is not free may be written, its capacity field excepted.\<close>

lemma free_list_slot_frame:
  assumes f: "free_list b N C m fs" and x: "slot N C x" "x \<notin> set fs"
    and u: "unchanged_off {bl_base b + x + 4..<bl_base b + x + (C + 20)} m m'"
  shows "free_list b N C m' fs"
proof (rule free_list_frame [OF f u])
  have l: "list_layout b N C (length m)" using f by (simp add: free_list_def list_wf_def)
  have 1: "bl_base b + z + 4 \<le> bl_base b + x + 4 \<or> bl_base b + x + (C + 20) \<le> bl_base b + z" if "slot N C z" for z
    using slots_apart [OF x(1) that] by (cases "z = x") auto
  have 2: "bl_base b + z + 20 \<le> bl_base b + x + 4 \<or> bl_base b + x + (C + 20) \<le> bl_base b + z + 4" if "z \<in> set fs" for z
    using slots_apart [OF x(1), of z] that f x(2) by (fastforce simp: free_list_def)
  have "bl_base b = bl_off b + 36" using l by (simp add: list_layout_def)
  with 1 2 show "free_foot b N C fs \<inter> {bl_base b + x + 4..<bl_base b + x + (C + 20)} = {}"
    by (fastforce simp: free_foot_def wf_foot_def hdrs_foot_def)
qed

lemma free_list_push_mem:
  assumes f: "free_list b N C m fs" and x: "slot N C x" "x \<notin> set fs"
    and z: "rd m (bl_base b + x + 4) = (0 :: u32)" "rd m (bl_base b + x + 8) = (0 :: u32)" "link_at m (bl_base b + x) = None"
  shows "free_list b N C (push_list_mem b (last fs) x m) (fs @ [x])"
proof -
  let ?m' = "push_list_mem b (last fs) x m"
  have l: "list_layout b N C (length m)" and ne: "fs \<noteq> []" and sl: "\<forall>x \<in> set fs. slot N C x"
    and d: "distinct fs" using f by (auto simp: free_list_def list_wf_def)
  obtain gs t where gs: "fs = gs @ [t]" using ne by (metis append_butlast_last_id)
  have t: "slot N C t" "t \<noteq> x" using sl x(2) gs by auto
  note pf = push_list_mem_facts [OF l t(1), of x]
  have off: "bl_base b = bl_off b + 36" "bl_head b = bl_off b + 8" using l by (simp_all add: list_layout_def)
  have bd: "bl_base b + y + 20 \<le> length m" if "slot N C y" for y
    using slot_le [OF that] l by (simp add: list_layout_def)
  have fr: "(rd (push_list_mem b t x m) (bl_base b + y + k) :: u32) = rd m (bl_base b + y + k)" if "slot N C y" "k \<le> 8" for y k
    using far_apart [OF l t(1) that(1)] bd [OF that(1)] that(2) off
    by (cases "y = t") (auto intro!: rd_unchanged [OF pf(2)])
  have lk: "link_at (push_list_mem b t x m) (bl_base b + y) = link_at m (bl_base b + y)" if "slot N C y" "y \<noteq> t" for y
    using far_apart [OF l t(1) that] bd [OF that(1)] off by (intro link_at_frame [OF pf(2)]) auto
  have "list_wf b N C (push_list_mem b t x m)"
  proof (rule list_wf_frame [OF _ pf(2)])
    show "list_wf b N C m" using f by (simp add: free_list_def)
    have "bl_base b + t + 17 \<le> bl_base b + y \<or> bl_base b + y + 4 \<le> bl_base b + t + 12" if "slot N C y" for y
      using far_apart [OF l t(1) that] by (cases "y = t") auto
    then show "wf_foot b N C \<inter> ({bl_off b..<bl_off b + 4} \<union> {bl_off b + 12..<bl_off b + 16} \<union> {bl_off b + 20..<bl_off b + 28} \<union>
      {bl_base b + t + 12..<bl_base b + t + 17}) = {}"
      using off by (fastforce simp: wf_foot_def)
  qed
  moreover have "is_chain (push_list_mem b t x m) (bl_base b) (gs @ [t, x])"
  proof (rule is_chain_snoc)
    show "is_chain m (bl_base b) (gs @ [t])" using f gs by (simp add: free_list_def free_hdrs_def)
    show "link_at (push_list_mem b t x m) (bl_base b + t) = Some (word_of_nat x)" by (rule pf(5))
    show "link_at (push_list_mem b t x m) (bl_base b + x) = None" using lk [OF x(1)] t(2) z(3) by simp
    show "link_at (push_list_mem b t x m) (bl_base b + y) = link_at m (bl_base b + y)" if "y \<in> set gs" for y
      using lk [of y] that sl d gs by auto
  qed
  moreover have "(rd (push_list_mem b t x m) (bl_head b) :: u32) = rd m (bl_head b)"
    using off bd [OF t(1)] by (intro rd_unchanged [OF pf(2)]) auto
  ultimately show ?thesis
    using f gs x z sl d fr [of _ 4] fr [of _ 8] pf(3,4) by (auto simp: free_list_def free_hdrs_def hd_append)
qed

lemma reset_mem_facts:
  assumes "a + 20 \<le> length m"
  shows "length (reset_mem a m) = length m" "unchanged_off {a + 4..<a + 17} m (reset_mem a m)"
    "rd (reset_mem a m) (a + 4) = (0 :: u32)" "rd (reset_mem a m) (a + 8) = (0 :: u32)" "link_at (reset_mem a m) a = None"
proof -
  show "unchanged_off {a + 4..<a + 17} m (reset_mem a m)"
    unfolding reset_mem_def by (intro unchanged_off_wrI unchanged_off_refl) (use assms in auto)
qed (use assms in \<open>simp_all add: reset_mem_def mem_simps link_at_def\<close>)

text \<open>The loop of \<^verbatim>\<open>push\<close> ends: without interference the first compare-and-swap succeeds.\<close>

lemma push_loop_ok:
  assumes l: "list_layout b N C (length m)" and t: "slot N C t" and x: "slot N C x"
    and tl: "rd m (bl_tail b) = (word_of_nat t :: u32)"
  shows "push_loop b (word_of_nat (bl_base b + x)) m = Some (push_list_mem b t x m)"
proof -
  have f: "bl_size b = bl_off b" "bl_tail b = bl_off b + 12" "bl_base b = bl_off b + 36"
    "bl_counter b = bl_off b + 20 \<or> bl_counter b = bl_off b + 24" "bl_base b + t + 20 \<le> length m"
    using l slot_le [OF t] by (auto simp: list_layout_def)
  then have c: "bl_counter b + 4 \<le> length m" by auto
  let ?m1 = "wr m (bl_tail b) (word_of_nat x :: u32)"
  let ?m2 = "wr (wr ?m1 (bl_base b + t + 12) (word_of_nat x :: u32)) (bl_base b + t + 16) ((rd ?m1 (bl_base b + t + 16) :: u8) OR 1)"
  have len: "length ?m1 = length m" "length ?m2 = length m" using f by simp_all
  have "bufferRegionOffsetInShm b = word_of_nat (bl_base b)" using l by (metis list_layout_def word_of_nat_unat)
  then have nt: "word_of_nat (bl_base b + x) - bufferRegionOffsetInShm b = (word_of_nat x :: u32)" by simp
  have h: "hdr_ok (length ?m1) (slot_hdr b t)" "sl_base (slot_hdr b t) = bl_base b + t"
    using slot_hdr_ok [OF l t] len by (simp_all add: slot_hdr_def)
  have lk: "linkNext ?m1 (slot_hdr b t) (word_of_nat x) = Some ?m2" using linkNext_ok [OF h(1)] h(2) by simp
  have ca: "atomic_cas m (bl_tail b) (word_of_nat t) (word_of_nat x :: u32) = Some (True, ?m1)" using f tl by simp
  have ld: "mload m (bl_tail b) = Some (word_of_nat t :: u32)" using f tl by simp
  have "push_loop b (word_of_nat (bl_base b + x)) m = do {
      (_, m3) \<leftarrow> atomic_add ?m2 (bl_size b) (1 :: u32); (_, m4) \<leftarrow> atomic_add m3 (bl_counter b) (- 1 :: u32); Some m4 }"
    by (subst push_loop.simps)
      (simp only: ld nt ca Let_def Option.bind.bind_lunit case_prod_conv if_True slot_sub [OF l t] lk)
  with f c len show ?thesis by (simp add: push_list_mem_def Let_def)
qed

lemma bufferList_push_ok:
  assumes f: "free_list b N C m fs" and x: "slot N C x" "x \<notin> set fs"
    and s: "bufferHeader s = Some h" "sl_base h = bl_base b + x" "sl_len h = 20" "offsetInShm s = word_of_nat (bl_base b + x)"
  obtains m' where "bufferList_push b s m = Some (m', s\<lparr>writeIndex := 0, readIndex := 0\<rparr>)"
    and "free_list b N C m' (fs @ [x])"
    and "unchanged_off ({bl_off b..<bl_off b + 28} \<union> {bl_base b + last fs + 12..<bl_base b + last fs + 17} \<union>
      {bl_base b + x + 4..<bl_base b + x + 17}) m m'"
proof -
  have l: "list_layout b N C (length m)" and t: "slot N C (last fs)" using f by (auto simp: free_list_def list_wf_def)
  have bd: "bl_base b + x + 20 \<le> length m" using slot_le [OF x(1)] l by (simp add: list_layout_def)
  let ?r = "reset_mem (bl_base b + x) m"
  let ?m' = "push_list_mem b (last fs) x ?r"
  note rf = reset_mem_facts [OF bd]
  have "unchanged_off {bl_base b + x + 4..<bl_base b + x + (C + 20)} m ?r"
    by (rule unchanged_off_mono [OF rf(2)]) auto
  note fr = free_list_slot_frame [OF f x this]
  have lr: "list_layout b N C (length ?r)" using l rf(1) by simp
  have rs: "slice_reset m s = Some (?r, s\<lparr>writeIndex := 0, readIndex := 0\<rparr>)"
    using slice_reset_ok [of s h m] s bd by (simp add: hdr_ok_def)
  have pl: "push_loop b (word_of_nat (bl_base b + x)) ?r = Some ?m'"
    by (rule push_loop_ok [OF lr t x(1)]) (use fr in \<open>simp add: free_list_def\<close>)
  have 1: "bufferList_push b s m = Some (?m', s\<lparr>writeIndex := 0, readIndex := 0\<rparr>)"
    using s(4) rs pl by (simp add: bufferList_push_def)
  have 2: "free_list b N C ?m' (fs @ [x])" using free_list_push_mem [OF fr x] rf by simp
  have 3: "unchanged_off ({bl_off b..<bl_off b + 28} \<union> {bl_base b + last fs + 12..<bl_base b + last fs + 17} \<union>
      {bl_base b + x + 4..<bl_base b + x + 17}) m ?m'"
    by (rule unchanged_off_seq [OF unchanged_off_mono [OF rf(2)] unchanged_off_mono [OF push_list_mem_facts(2) [OF lr t]]])
      auto
  from that [OF 1 2 3] show thesis .
qed

subsection \<open>The list a fresh region is made into\<close>

lemma region_access:
  assumes "a < sl_len r" and "sl_len r < 2 ^ 32" and "sl_base r + a + LENGTH('a::len) div 8 \<le> length m"
  shows "slice_load m r (uint (word_of_nat a :: u32)) = Some (rd m (sl_base r + a) :: 'a word)"
    and "slice_store m r (uint (word_of_nat a :: u32)) (v :: 'a word) = Some (wr m (sl_base r + a) v)"
  using assms slice_load_Some [of a r m, where 'a = 'a] slice_store_Some [of a r m v] uint_of_nat32 [of a] by simp_all

definition slot_init :: "nat \<Rightarrow> nat \<Rightarrow> nat \<Rightarrow> bytes \<Rightarrow> nat \<Rightarrow> bool" where
  "slot_init B N C m j \<longleftrightarrow> rd m (B + j * (C + 20)) = (word_of_nat C :: u32) \<and>
     rd m (B + j * (C + 20) + 4) = (0 :: u32) \<and> rd m (B + j * (C + 20) + 8) = (0 :: u32) \<and>
     (j + 1 < N \<longrightarrow> link_at m (B + j * (C + 20)) = Some (word_of_nat ((j + 1) * (C + 20))))"

definition init_mem :: "nat \<Rightarrow> nat \<Rightarrow> nat \<Rightarrow> nat \<Rightarrow> bytes \<Rightarrow> bytes" where
  "init_mem B N C j m =
     (let a = B + j * (C + 20);
          m3 = wr (wr (wr m a (word_of_nat C :: u32)) (a + 4) (0 :: u32)) (a + 8) (0 :: u32)
      in if j + 1 < N
         then let m4 = wr m3 (a + 12) (word_of_nat ((j + 1) * (C + 20)) :: u32)
              in wr m4 (a + 16) ((rd m4 (a + 16) :: u8) OR 1)
         else m3)"

lemma init_mem_facts:
  assumes "B + j * (C + 20) + 20 \<le> length m"
  shows "length (init_mem B N C j m) = length m"
    and "unchanged_off {B + j * (C + 20)..<B + j * (C + 20) + 20} m (init_mem B N C j m)"
    and "slot_init B N C (init_mem B N C j m) j"
proof -
  obtain a where a: "a = B + j * (C + 20)" by simp
  have b: "a + 20 \<le> length m" using assms a by simp
  show "length (init_mem B N C j m) = length m"
    unfolding init_mem_def Let_def a [symmetric] using b by simp
  show "unchanged_off {B + j * (C + 20)..<B + j * (C + 20) + 20} m (init_mem B N C j m)"
    unfolding init_mem_def Let_def a [symmetric]
    by (cases "j + 1 < N") (use b in \<open>auto intro!: unchanged_off_wrI unchanged_off_refl\<close>)
  show "slot_init B N C (init_mem B N C j m) j"
    unfolding slot_init_def init_mem_def Let_def a [symmetric] link_at_def
    using b by (simp add: mem_simps or_one_and_one)
qed

lemma init_slots_step:
  assumes k: "Suc k \<le> N" and L: "sl_len r = N * (C + 20)" "N * (C + 20) < 2 ^ 32" "sl_base r + N * (C + 20) \<le> length m"
    and C: "0 < C"
  defines "j \<equiv> N - Suc k"
  shows "init_slots r (word_of_nat N) (word_of_nat C) (Suc k) (word_of_nat (j * (C + 20))) m =
    init_slots r (word_of_nat N) (word_of_nat C) k (word_of_nat ((j + 1) * (C + 20))) (init_mem (sl_base r) N C j m)"
proof -
  have jN: "j < N" using k by (simp add: j_def)
  then have "(j + 1) * (C + 20) \<le> N * (C + 20)" by (intro mult_le_mono1) simp
  then have e: "j * (C + 20) + 20 < sl_len r" using L(1) C by simp
  obtain o' where o': "o' = j * (C + 20)" by simp
  have NN: "N \<le> N * (C + 20)" by simp
  then have "unat (word_of_nat N :: u32) = N" using L(2) by (intro unat_of_nat32) linarith
  moreover have "(word_of_nat N - 1 :: u32) = word_of_nat (N - 1)" using jN by (simp add: of_nat_diff)
  moreover have "unat (word_of_nat (N - 1) :: u32) = N - 1" using L(2) NN by (intro unat_of_nat32) linarith
  ultimately have i: "unat (word_of_nat N :: u32) - Suc k < unat (word_of_nat N - 1 :: u32) \<longleftrightarrow> j + 1 < N"
    using k by (auto simp: j_def)
  have nx: "word_of_nat o' + word_of_nat C + word_of_nat bufferHeaderSize = (word_of_nat ((j + 1) * (C + 20)) :: u32)"
    by (simp add: o' consts_defs algebra_simps)
  have p: "word_of_nat o' + word_of_nat bufferSizeOffset = (word_of_nat (o' + 4) :: u32)"
    "word_of_nat o' + word_of_nat bufferDataStartOffset = (word_of_nat (o' + 8) :: u32)"
    "word_of_nat o' + word_of_nat nextBufferOffset_pos = (word_of_nat (o' + 12) :: u32)"
    "word_of_nat o' + word_of_nat bufferFlagOffset = (word_of_nat (o' + 16) :: u32)"
    by (simp_all add: consts_defs)
  have b: "o' + 20 < sl_len r" "sl_len r < 2 ^ 32" "sl_base r + o' + 20 \<le> length m" using e L by (simp_all add: o')
  show ?thesis
    unfolding init_slots.simps Let_def o' [symmetric] i nx p init_mem_def hasNextBufferFlag_def
    using b by (simp add: region_access add.assoc del: of_nat_add)
qed

lemma slot_init_frame:
  assumes i: "slot_init B N C m j" and u: "unchanged_off A m m'" and A: "{B + j * (C + 20)..<B + j * (C + 20) + 20} \<inter> A = {}"
    and bd: "B + j * (C + 20) + 20 \<le> length m"
  shows "slot_init B N C m' j"
proof -
  have r: "(rd m' (B + j * (C + 20) + d) :: u32) = rd m (B + j * (C + 20) + d)" if "d \<le> 8" for d
    using that A bd by (intro rd_unchanged [OF u]) (auto simp: disjoint_iff)
  have "link_at m' (B + j * (C + 20)) = link_at m (B + j * (C + 20))"
    using A bd by (intro link_at_frame [OF u]) (auto simp: disjoint_iff)
  with i r [of 0] r [of 4] r [of 8] show ?thesis by (simp add: slot_init_def)
qed

lemma init_slots_ok:
  assumes L: "sl_len r = N * (C + 20)" "N * (C + 20) < 2 ^ 32" and C: "0 < C"
    and "k \<le> N" and "sl_base r + N * (C + 20) \<le> length m"
  shows "\<exists>m'. init_slots r (word_of_nat N) (word_of_nat C) k (word_of_nat ((N - k) * (C + 20))) m = Some m' \<and>
    unchanged_off {sl_base r + (N - k) * (C + 20)..<sl_base r + N * (C + 20)} m m' \<and>
    (\<forall>j. N - k \<le> j \<longrightarrow> j < N \<longrightarrow> slot_init (sl_base r) N C m' j)"
  using assms(4,5)
proof (induction k arbitrary: m)
  case 0
  then show ?case by simp
next
  case (Suc k)
  obtain j where j: "j = N - Suc k" by simp
  let ?m1 = "init_mem (sl_base r) N C j m"
  have jN: "j < N" "N - k = j + 1" using Suc.prems(1) j by simp_all
  have lt: "(j + 1) * (C + 20) \<le> N * (C + 20)" using jN(1) by (intro mult_le_mono1) simp
  have bd: "sl_base r + j * (C + 20) + 20 \<le> length m" using lt Suc.prems(2) by simp
  note mf = init_mem_facts [OF bd, of N]
  from Suc.IH [of ?m1] Suc.prems mf(1) obtain m' where
    1: "init_slots r (word_of_nat N) (word_of_nat C) k (word_of_nat ((j + 1) * (C + 20))) ?m1 = Some m'" and
    2: "unchanged_off {sl_base r + (j + 1) * (C + 20)..<sl_base r + N * (C + 20)} ?m1 m'" and
    3: "\<forall>i. j + 1 \<le> i \<longrightarrow> i < N \<longrightarrow> slot_init (sl_base r) N C m' i"
    unfolding jN(2) by auto
  have "init_slots r (word_of_nat N) (word_of_nat C) (Suc k) (word_of_nat (j * (C + 20))) m = Some m'"
    using init_slots_step [OF Suc.prems(1) L Suc.prems(2) C] 1 j by simp
  moreover have "unchanged_off {sl_base r + j * (C + 20)..<sl_base r + N * (C + 20)} m m'"
    by (rule unchanged_off_seq [OF unchanged_off_mono [OF mf(2)] unchanged_off_mono [OF 2]]) (use lt in auto)
  moreover have "slot_init (sl_base r) N C m' j"
    by (rule slot_init_frame [OF mf(3) 2]) (use bd mf(1) in auto)
  moreover from this 3 have "\<forall>i. j \<le> i \<longrightarrow> i < N \<longrightarrow> slot_init (sl_base r) N C m' i"
    by (metis Suc_eq_plus1 Suc_leI le_neq_implies_less)
  ultimately show ?case unfolding j [symmetric] by blast
qed

definition list_at :: "nat \<Rightarrow> nat \<Rightarrow> nat \<Rightarrow> nat \<Rightarrow> nat \<Rightarrow> bufferList" where
  "list_at ct off N C n = \<lparr>bl_size = off, bl_cap = off + 4, bl_head = off + 8, bl_tail = off + 12,
     bl_capPerBuffer = off + 16, bl_counter = off + ct,
     bufferRegion = \<lparr>sl_base = off + 36, sl_len = N * (C + 20), sl_cap = n - (off + 36)\<rparr>,
     bufferRegionOffsetInShm = word_of_nat (off + 36), bl_offsetInShm = word_of_nat off\<rparr>"

lemma list_at_layout:
  assumes "off + 36 + N * (C + 20) \<le> n" and "n < 2 ^ 32" and "0 < C" and "ct = 20 \<or> ct = 24"
  shows "list_layout (list_at ct off N C n) N C n" and "bl_off (list_at ct off N C n) = off"
proof -
  have "unat (word_of_nat off :: u32) = off" "unat (word_of_nat (off + 36) :: u32) = off + 36"
    using assms by (simp_all add: unat_of_nat32 del: of_nat_add)
  then show "list_layout (list_at ct off N C n) N C n" "bl_off (list_at ct off N C n) = off"
    using assms by (simp_all add: list_layout_def list_at_def del: of_nat_add)
qed

text \<open>The free list of a new region: every buffer, in the order of the region.\<close>

definition all_slots :: "nat \<Rightarrow> nat \<Rightarrow> nat list" where
  "all_slots N C = map (\<lambda>k. k * (C + 20)) [0..<N]"

lemma all_slots_props:
  assumes "0 < N"
  shows "all_slots N C \<noteq> []" "distinct (all_slots N C)" "\<forall>x \<in> set (all_slots N C). slot N C x"
    "hd (all_slots N C) = 0" "last (all_slots N C) = (N - 1) * (C + 20)" "length (all_slots N C) = N"
proof -
  have "inj_on (\<lambda>k. k * (C + 20)) {0..<N}" by (rule inj_onI) simp
  then show "distinct (all_slots N C)" by (simp add: all_slots_def distinct_map)
  show "hd (all_slots N C) = 0" "last (all_slots N C) = (N - 1) * (C + 20)"
    using assms by (simp_all add: all_slots_def hd_map last_map)
qed (use assms in \<open>auto simp: all_slots_def slot_def\<close>)

lemma is_chain_slots:
  assumes "\<And>k. j \<le> k \<Longrightarrow> k + 1 < N \<Longrightarrow> link_at m (B + k * (C + 20)) = Some (word_of_nat ((k + 1) * (C + 20)))"
    and "link_at m (B + (N - 1) * (C + 20)) = None" and "j < N"
  shows "is_chain m B (map (\<lambda>k. k * (C + 20)) [j..<N])"
  using assms(1,3)
proof (induction "N - j" arbitrary: j)
  case 0
  then show ?case by simp
next
  case (Suc d)
  show ?case
  proof (cases "j + 1 < N")
    case True
    then have "[j..<N] = j # (j + 1) # [j + 2..<N]" "[j + 1..<N] = (j + 1) # [j + 2..<N]"
      by (simp_all add: upt_conv_Cons)
    with Suc.hyps(1) [of "j + 1"] Suc.prems Suc.hyps(2) True show ?thesis by auto
  next
    case False
    then have "[j..<N] = [j]" "N - 1 = j" using Suc.prems(2) by (auto simp: upt_conv_Cons)
    with assms(2) show ?thesis by simp
  qed
qed

lemma clear_tail_chain:
  assumes i: "\<forall>j < N. slot_init B N C m j" and N: "0 < N" and bd: "B + N * (C + 20) \<le> length m"
  defines "m' \<equiv> wr m (B + (N - 1) * (C + 20) + 16) (0 :: u8)"
  shows "is_chain m' B (all_slots N C)"
    and "x \<in> set (all_slots N C) \<Longrightarrow> rd m' (B + x) = (word_of_nat C :: u32) \<and>
      rd m' (B + x + 4) = (0 :: u32) \<and> rd m' (B + x + 8) = (0 :: u32)"
    and "unchanged_off {B + (N - 1) * (C + 20) + 16..<B + (N - 1) * (C + 20) + 17} m m'"
proof -
  obtain t where t: "t = (N - 1) * (C + 20)" by simp
  have tl: "N * (C + 20) = t + (C + 20)" using N t by (cases N) simp_all
  have m': "m' = wr m (B + t + 16) (0 :: u8)" by (simp add: m'_def t)
  have u: "unchanged_off {B + t + 16..<B + t + 17} m m'"
    unfolding m' by (rule unchanged_off_wrI [OF unchanged_off_refl]) (use bd tl in auto)
  then show "unchanged_off {B + (N - 1) * (C + 20) + 16..<B + (N - 1) * (C + 20) + 17} m m'" by (simp add: t)
  have lt: "k * (C + 20) + (C + 20) \<le> t" if "k + 1 < N" for k
  proof -
    have "(k + 1) * (C + 20) \<le> t" unfolding t using that by (intro mult_le_mono1) simp
    then show ?thesis by (simp add: algebra_simps)
  qed
  have "is_chain m' B (map (\<lambda>k. k * (C + 20)) [0..<N])"
  proof (rule is_chain_slots [OF _ _ N])
    fix k assume k: "k + 1 < N"
    have "link_at m' (B + k * (C + 20)) = link_at m (B + k * (C + 20))"
      using lt [OF k] bd tl by (intro link_at_frame [OF u]) auto
    with i k show "link_at m' (B + k * (C + 20)) = Some (word_of_nat ((k + 1) * (C + 20)))"
      by (simp add: slot_init_def)
  next
    show "link_at m' (B + (N - 1) * (C + 20)) = None"
      unfolding t [symmetric] m' using bd tl by (simp add: link_at_def mem_simps)
  qed
  then show "is_chain m' B (all_slots N C)" by (simp add: all_slots_def)
  assume "x \<in> set (all_slots N C)"
  then obtain j where j: "j < N" "x = j * (C + 20)" by (auto simp: all_slots_def)
  have xt: "x = t \<or> x + (C + 20) \<le> t"
  proof (cases "j + 1 < N")
    case True
    then show ?thesis using lt j(2) by simp
  next
    case False
    then have "j = N - 1" using j(1) by simp
    then show ?thesis using j(2) t by simp
  qed
  have r: "(rd m' (B + x + d) :: u32) = rd m (B + x + d)" if "d \<le> 8" for d
    by (rule rd_unchanged [OF u]) (use xt that bd tl in auto)
  show "rd m' (B + x) = (word_of_nat C :: u32) \<and> rd m' (B + x + 4) = (0 :: u32) \<and> rd m' (B + x + 8) = (0 :: u32)"
    using r [of 0] r [of 4] r [of 8] i j by (simp add: slot_init_def)
qed

lemma count_word: "countBufferListMemSize (word_of_nat N) (word_of_nat C) = word_of_nat (36 + N * (C + 20))"
  by (simp add: countBufferListMemSize_def consts_defs)

lemma mem_addr:
  assumes "a < length mem" and "length mem < 2 ^ 32"
  shows "elem_addr (whole_slice mem) (uint (word_of_nat a :: u32)) = Some a"
  using assms by (simp add: elem_addr_def whole_slice_def uint_of_nat32)

lemma mem_sub:
  assumes "a \<le> e" and "e \<le> length mem" and "length mem < 2 ^ 32"
  shows "sub_slice (whole_slice mem) (uint (word_of_nat a :: u32)) (uint (word_of_nat e :: u32)) =
    Some \<lparr>sl_base = a, sl_len = e - a, sl_cap = length mem - a\<rparr>"
  using assms by (simp add: sub_slice_def whole_slice_def uint_of_nat32 nat_diff_distrib)

text \<open>The guards of \<^verbatim>\<open>createFreeBufferList\<close> pass when the list fits, and it writes the list
  header, runs the loop and clears the flag of the last buffer.\<close>

definition list_header_mem :: "nat \<Rightarrow> nat \<Rightarrow> nat \<Rightarrow> bytes \<Rightarrow> bytes" where
  "list_header_mem off N C m = wr (wr (wr (wr (wr (wr m off (word_of_nat N :: u32)) (off + 4) (word_of_nat N :: u32))
     (off + 8) (0 :: u32)) (off + 12) (word_of_nat ((N - 1) * (C + 20)) :: u32))
     (off + 16) (word_of_nat C :: u32)) (off + 20) (0 :: u32)"

lemma list_header_mem_facts:
  fixes N C :: nat
  assumes "off + 36 \<le> length m"
  defines "m' \<equiv> list_header_mem off N C m"
  shows "length m' = length m" and "unchanged_off {off..<off + 24} m m'"
    and "rd m' off = (word_of_nat N :: u32)" and "rd m' (off + 4) = (word_of_nat N :: u32)"
    and "rd m' (off + 8) = (0 :: u32)" and "rd m' (off + 12) = (word_of_nat ((N - 1) * (C + 20)) :: u32)"
    and "rd m' (off + 16) = (word_of_nat C :: u32)" and "rd m' (off + 20) = (0 :: u32)"
proof -
  obtain T :: u32 where T: "T = word_of_nat ((N - 1) * (C + 20))" by simp
  show "unchanged_off {off..<off + 24} m m'"
    unfolding m'_def list_header_mem_def by (intro unchanged_off_wrI unchanged_off_refl) (use assms(1) in auto)
  show "length m' = length m" "rd m' off = (word_of_nat N :: u32)" "rd m' (off + 4) = (word_of_nat N :: u32)"
    "rd m' (off + 8) = (0 :: u32)" "rd m' (off + 12) = (word_of_nat ((N - 1) * (C + 20)) :: u32)"
    "rd m' (off + 16) = (word_of_nat C :: u32)" "rd m' (off + 20) = (0 :: u32)"
    unfolding m'_def list_header_mem_def T [symmetric] using assms(1) by (simp_all add: mem_simps)
qed

lemma createFreeBufferList_steps:
  assumes N: "0 < N" and C: "0 < C" and fit: "off + (36 + N * (C + 20)) \<le> length mem" and n: "length mem < 2 ^ 32"
    and i: "init_slots (bufferRegion (list_at 20 off N C (length mem))) (word_of_nat N) (word_of_nat C) N 0
      (list_header_mem off N C mem) = Some m7"
    and t: "rd m7 (off + 12) = (word_of_nat ((N - 1) * (C + 20)) :: u32)" and l: "length m7 = length mem"
  shows "createFreeBufferList (word_of_nat N) (word_of_nat C) mem (word_of_nat off) =
    Some (Inr (list_at 20 off N C (length mem), wr m7 (off + 36 + (N - 1) * (C + 20) + 16) (0 :: u8)))"
proof -
  obtain S where S: "S = 36 + N * (C + 20)" by simp
  obtain T where T: "T = (N - 1) * (C + 20)" by simp
  have ST: "S = 36 + (T + (C + 20))" using N by (cases N) (simp_all add: S T)
  have "N \<le> N * (C + 20)" by simp
  then have NS: "N < S" unfolding S by linarith
  have lt: "N < 2 ^ 32" "C < 2 ^ 32" "off + S < 2 ^ 32" "off < 2 ^ 32" "S < 2 ^ 32" "T + 16 < 2 ^ 32"
    using fit n NS ST unfolding S [symmetric] by linarith+
  have nz: "(word_of_nat N :: u32) \<noteq> 0" "(word_of_nat C :: u32) \<noteq> 0"
    using N C unat_of_nat32 [OF lt(1)] unat_of_nat32 [OF lt(2)] by (metis neq0_conv unat_0)+
  have un: "unat (word_of_nat N :: u32) = N" by (rule unat_of_nat32 [OF lt(1)])
  have addS: "word_of_nat off + word_of_nat S = (word_of_nat (off + S) :: u32)" by simp
  have u: "unat (word_of_nat (off + S) :: u32) = off + S" "unat (word_of_nat off :: u32) = off" "unat (word_of_nat S :: u32) = S"
    "unat (word_of_nat (length mem) :: u32) = length mem" "unat (word_of_nat (off + 36) :: u32) = off + 36"
    using lt n ST by (auto intro!: unat_of_nat32 simp del: of_nat_add)
  have ok: "\<not> (length mem < unat (word_of_nat off + word_of_nat S :: u32) \<or>
      (word_of_nat off :: u32) > word_of_nat (length mem) \<or> (word_of_nat S :: u32) > word_of_nat (length mem))"
    unfolding addS word_less_nat_alt u using fit S by simp
  have ok2: "\<not> (word_of_nat off + word_of_nat S :: u32) \<le> word_of_nat off + word_of_nat bufferListHeaderSize"
  proof -
    have "word_of_nat off + word_of_nat bufferListHeaderSize = (word_of_nat (off + 36) :: u32)" by (simp add: consts_defs)
    then show ?thesis unfolding addS word_le_nat_alt by (simp only: u) (use ST in simp)
  qed
  have ad: "word_of_nat off + (0 :: u32) = word_of_nat off" "word_of_nat off + (4 :: u32) = word_of_nat (off + 4)"
    "word_of_nat off + (8 :: u32) = word_of_nat (off + 8)" "word_of_nat off + (12 :: u32) = word_of_nat (off + 12)"
    "word_of_nat off + (16 :: u32) = word_of_nat (off + 16)" "word_of_nat off + (20 :: u32) = word_of_nat (off + 20)"
    "word_of_nat off + (word_of_nat bufferListHeaderSize :: u32) = word_of_nat (off + 36)" by (simp_all add: consts_defs)
  have tw: "(word_of_nat N - 1) * (word_of_nat C + word_of_nat bufferHeaderSize) = (word_of_nat T :: u32)"
    using N by (simp add: T consts_defs of_nat_diff)
  have rg: "bufferRegion (list_at 20 off N C (length mem)) =
      \<lparr>sl_base = off + 36, sl_len = off + S - (off + 36), sl_cap = length mem - (off + 36)\<rparr>"
    by (simp add: list_at_def S)
  let ?r = "\<lparr>sl_base = off + 36, sl_len = off + S - (off + 36), sl_cap = length mem - (off + 36)\<rparr>"
  have fit': "off + S \<le> length mem" using fit S by simp
  have bd: "off + 36 \<le> length mem" "off + 36 + T + 20 \<le> length mem" using fit S ST by simp_all
  have hs: "sub_slice ?r (uint (word_of_nat T :: u32)) (int (sl_len ?r)) =
      Some \<lparr>sl_base = off + 36 + T, sl_len = C + 20, sl_cap = length mem - (off + 36) - T\<rparr>"
    using uint_of_nat32 [of T] lt(6) fit' ST by (simp add: sub_slice_def)
  have cl: "clearFlag m7 \<lparr>sl_base = off + 36 + T, sl_len = C + 20, sl_cap = length mem - (off + 36) - T\<rparr> =
      Some (wr m7 (off + 36 + T + 16) (0 :: u8))"
    using bd l by (simp add: clearFlag_def consts_defs slice_store_def elem_addr_def)
  have A: "elem_addr (whole_slice mem) (uint (word_of_nat off :: u32)) = Some off"
    "elem_addr (whole_slice mem) (uint (word_of_nat (off + 4) :: u32)) = Some (off + 4)"
    "elem_addr (whole_slice mem) (uint (word_of_nat (off + 8) :: u32)) = Some (off + 8)"
    "elem_addr (whole_slice mem) (uint (word_of_nat (off + 12) :: u32)) = Some (off + 12)"
    "elem_addr (whole_slice mem) (uint (word_of_nat (off + 16) :: u32)) = Some (off + 16)"
    "elem_addr (whole_slice mem) (uint (word_of_nat (off + 20) :: u32)) = Some (off + 20)"
    using bd by (intro mem_addr [OF _ n]; simp)+
  have R: "sub_slice (whole_slice mem) (uint (word_of_nat (off + 36) :: u32)) (uint (word_of_nat (off + S) :: u32)) = Some ?r"
    using bd fit S by (intro mem_sub [OF _ _ n]) simp_all
  have st: "mload m7 (off + 12) = Some (word_of_nat T :: u32)" using t l bd T by simp
  have hd: "list_header_mem off N C mem = wr (wr (wr (wr (wr (wr mem off (word_of_nat N :: u32)) (off + 4) (word_of_nat N :: u32))
     (off + 8) (0 :: u32)) (off + 12) (word_of_nat T :: u32)) (off + 16) (word_of_nat C :: u32)) (off + 20) (0 :: u32)"
    by (simp add: list_header_mem_def T)
  have b: "list_at 20 off N C (length mem) = \<lparr>bl_size = off, bl_cap = off + 4, bl_head = off + 8, bl_tail = off + 12,
     bl_capPerBuffer = off + 16, bl_counter = off + 20, bufferRegion = ?r,
     bufferRegionOffsetInShm = word_of_nat (off + 36), bl_offsetInShm = word_of_nat off\<rparr>"
    by (simp add: list_at_def S)
  show ?thesis
    unfolding createFreeBufferList_def count_word S [symmetric] T [symmetric] Let_def
    unfolding ad tw addS
    using nz ok [unfolded addS] ok2 [unfolded addS ad] bd i [unfolded hd rg] st hs cl un
    by (simp del: of_nat_add add: A R b)
qed

lemma createFreeBufferList_ok:
  assumes N: "0 < N" and C: "0 < C" and fit: "off + (36 + N * (C + 20)) \<le> length mem" and n: "length mem < 2 ^ 32"
  obtains m' where "createFreeBufferList (word_of_nat N) (word_of_nat C) mem (word_of_nat off) =
      Some (Inr (list_at 20 off N C (length mem), m'))"
    and "free_list (list_at 20 off N C (length mem)) N C m' (all_slots N C)"
    and "unchanged_off {off..<off + (36 + N * (C + 20))} mem m'" and "rd m' (off + 20) = (0 :: u32)"
proof -
  let ?b = "list_at 20 off N C (length mem)"
  obtain T where T: "T = (N - 1) * (C + 20)" by simp
  have ST: "N * (C + 20) = T + (C + 20)" using N by (cases N) (simp_all add: T)
  have rg: "bufferRegion ?b = \<lparr>sl_base = off + 36, sl_len = N * (C + 20), sl_cap = length mem - (off + 36)\<rparr>"
    by (simp add: list_at_def)
  have lay: "list_layout ?b N C (length mem)" and bo: "bl_off ?b = off"
    using list_at_layout [of off N C "length mem" 20] fit n C by simp_all
  note hf = list_header_mem_facts [of off mem N C]
  have "off + 36 \<le> length mem" using fit by simp
  note hf = hf [OF this]
  from init_slots_ok [of "bufferRegion ?b" N C N "list_header_mem off N C mem"] fit n C hf(1) rg
  obtain m7 where i: "init_slots (bufferRegion ?b) (word_of_nat N) (word_of_nat C) N 0 (list_header_mem off N C mem) = Some m7"
    and u7: "unchanged_off {off + 36..<off + 36 + N * (C + 20)} (list_header_mem off N C mem) m7"
    and s7: "\<forall>j < N. slot_init (off + 36) N C m7 j"
    by auto
  have r7: "(rd m7 (off + d) :: u32) = rd (list_header_mem off N C mem) (off + d)" if "d \<le> 20" for d
    by (rule rd_unchanged [OF u7]) (use that fit hf(1) in auto)
  have l7: "length m7 = length mem" using unchanged_off_length [OF u7] hf(1) by simp
  let ?m' = "wr m7 (off + 36 + (N - 1) * (C + 20) + 16) (0 :: u8)"
  have c: "createFreeBufferList (word_of_nat N) (word_of_nat C) mem (word_of_nat off) = Some (Inr (?b, ?m'))"
    by (rule createFreeBufferList_steps [OF N C fit n i _ l7]) (use r7 [of 12] hf(6) in simp)
  note ch = clear_tail_chain [OF s7 N, unfolded T [symmetric]]
  have u8: "unchanged_off {off + 36 + T + 16..<off + 36 + T + 17} m7 ?m'"
    using ch(3) fit l7 by (simp add: T)
  have r8: "(rd ?m' (off + d) :: u32) = rd (list_header_mem off N C mem) (off + d)" if "d \<le> 20" for d
    using r7 [OF that] rd_unchanged [OF u8, of "off + d", where 'a = 32] that fit l7 by auto
  have bd: "off + 36 + N * (C + 20) \<le> length m7" using fit l7 by simp
  have fa: "bl_size ?b = off" "bl_cap ?b = off + 4" "bl_head ?b = off + 8" "bl_tail ?b = off + 12"
    "bl_capPerBuffer ?b = off + 16" "bl_base ?b = off + 36" by (simp_all add: list_at_def)
  have l8: "length ?m' = length mem" using unchanged_off_length [OF u8] l7 by simp
  have sl: "slot N C x \<longleftrightarrow> x \<in> set (all_slots N C)" for x by (auto simp: slot_def all_slots_def)
  have "list_wf ?b N C ?m'"
    using lay l8 r8 [of 4] r8 [of 16] hf ch(2) [OF bd] by (simp add: list_wf_def fa sl T)
  moreover have "free_hdrs ?b ?m' (all_slots N C)"
    using ch(1,2) [OF bd] by (simp add: free_hdrs_def fa T)
  ultimately have f: "free_list ?b N C ?m' (all_slots N C)"
    using r8 [of 0] r8 [of 8] r8 [of 12] hf all_slots_props [OF N, of C] by (simp add: free_list_def fa)
  have "unchanged_off {off..<off + (36 + N * (C + 20))} mem ?m'"
    by (rule unchanged_off_seq [OF unchanged_off_mono [OF hf(2)]
        unchanged_off_seq [OF unchanged_off_mono [OF u7] unchanged_off_mono [OF u8]]])
      (use ST in auto)
  moreover have "rd ?m' (off + 20) = (0 :: u32)" using r8 [of 20] hf(8) by simp
  ultimately show thesis using that [OF c f] by blast
qed

lemma mappingFreeBufferList_ok:
  assumes "0 < N" and "0 < C" and fit: "off + (36 + N * (C + 20)) \<le> length mem" and n: "length mem < 2 ^ 32"
    and "rd mem (off + 4) = (word_of_nat N :: u32)" and "rd mem (off + 16) = (word_of_nat C :: u32)"
  shows "mappingFreeBufferList mem (word_of_nat off) = Some (Inr (list_at 24 off N C (length mem)))"
proof -
  obtain S where S: "S = 36 + N * (C + 20)" by simp
  have fit': "off + S \<le> length mem" "36 < S" using fit S assms(1) by simp_all
  have u: "unat (word_of_nat (off + S) :: u32) = off + S" "unat (word_of_nat off :: u32) = off"
    "unat (word_of_nat (length mem) :: u32) = length mem" "unat (word_of_nat (off + 36) :: u32) = off + 36"
    using fit' n by (auto intro!: unat_of_nat32 simp del: of_nat_add)
  have ad: "word_of_nat off + (0 :: u32) = word_of_nat off" "word_of_nat off + (4 :: u32) = word_of_nat (off + 4)"
    "word_of_nat off + (8 :: u32) = word_of_nat (off + 8)" "word_of_nat off + (12 :: u32) = word_of_nat (off + 12)"
    "word_of_nat off + (16 :: u32) = word_of_nat (off + 16)" "word_of_nat off + (24 :: u32) = word_of_nat (off + 24)"
    "word_of_nat off + (word_of_nat bufferListHeaderSize :: u32) = word_of_nat (off + 36)"
    "word_of_nat off + word_of_nat S = (word_of_nat (off + S) :: u32)" by (simp_all add: consts_defs)
  have A: "elem_addr (whole_slice mem) (uint (word_of_nat off :: u32)) = Some off"
    "elem_addr (whole_slice mem) (uint (word_of_nat (off + 4) :: u32)) = Some (off + 4)"
    "elem_addr (whole_slice mem) (uint (word_of_nat (off + 8) :: u32)) = Some (off + 8)"
    "elem_addr (whole_slice mem) (uint (word_of_nat (off + 12) :: u32)) = Some (off + 12)"
    "elem_addr (whole_slice mem) (uint (word_of_nat (off + 16) :: u32)) = Some (off + 16)"
    "elem_addr (whole_slice mem) (uint (word_of_nat (off + 24) :: u32)) = Some (off + 24)"
    using fit' by (intro mem_addr [OF _ n]; simp)+
  have R: "sub_slice (whole_slice mem) (uint (word_of_nat (off + 36) :: u32)) (uint (word_of_nat (off + S) :: u32)) =
      Some \<lparr>sl_base = off + 36, sl_len = off + S - (off + 36), sl_cap = length mem - (off + 36)\<rparr>"
    using fit' by (intro mem_sub [OF _ _ n]) simp_all
  have g: "\<not> ((word_of_nat (off + S) :: u32) > word_of_nat (length mem) \<or> (word_of_nat (off + S) :: u32) < word_of_nat (off + 36))"
    unfolding word_less_nat_alt u using fit' by simp
  have g0: "\<not> length mem < bufferListHeaderSize + unat (word_of_nat off :: u32)" unfolding u using fit' by (simp add: consts_defs)
  have m: "mload mem (off + 4) = Some (word_of_nat N :: u32)" "mload mem (off + 16) = Some (word_of_nat C :: u32)"
    using assms(5,6) fit' by simp_all
  have b: "list_at 24 off N C (length mem) = \<lparr>bl_size = off, bl_cap = off + 4, bl_head = off + 8, bl_tail = off + 12,
     bl_capPerBuffer = off + 16, bl_counter = off + 24,
     bufferRegion = \<lparr>sl_base = off + 36, sl_len = off + S - (off + 36), sl_cap = length mem - (off + 36)\<rparr>,
     bufferRegionOffsetInShm = word_of_nat (off + 36), bl_offsetInShm = word_of_nat off\<rparr>"
    by (simp add: list_at_def S)
  show ?thesis
    unfolding mappingFreeBufferList_def Let_def ad
    by (simp only: g0 if_False A m Option.bind.bind_lunit count_word S [symmetric] ad g R b)
qed

subsection \<open>The list as a pool of buffers\<close>

fun walk :: "bytes \<Rightarrow> nat \<Rightarrow> nat \<Rightarrow> nat \<Rightarrow> nat list" where
  "walk m b 0 off = []"
| "walk m b (Suc k) off = off # (case link_at m (b + off) of None \<Rightarrow> [] | Some nx \<Rightarrow> walk m b k (unat nx))"

definition free_offs :: "bufferList \<Rightarrow> bytes \<Rightarrow> nat list" where
  "free_offs b m = walk m (bl_base b) (unat (rd m (bl_cap b) :: u32)) (unat (rd m (bl_head b) :: u32))"

lemma walk_chain:
  assumes "is_chain m b fs" and "fs \<noteq> []" and "length fs \<le> k" and "\<forall>x \<in> set fs. x < 2 ^ 32"
  shows "walk m b k (hd fs) = fs"
  using assms
proof (induction m b fs arbitrary: k rule: is_chain.induct)
  case (2 m b x)
  then show ?case by (cases k) auto
next
  case (3 m b x y r)
  then obtain k' where "k = Suc k'" by (cases k) auto
  with 3 show ?case by (auto simp: unat_of_nat32)
qed simp

lemma slot_lt: "list_layout b N C n \<Longrightarrow> slot N C x \<Longrightarrow> x < 2 ^ 32"
  using slot_le [of N C x] by (simp add: list_layout_def)

lemma free_offs_eq:
  assumes f: "free_list b N C m fs"
  shows "free_offs b m = fs"
proof -
  have l: "list_layout b N C (length m)" and sl: "\<forall>x \<in> set fs. slot N C x" and d: "distinct fs" and ne: "fs \<noteq> []"
    using f by (auto simp: free_list_def list_wf_def)
  have N: "length fs \<le> N" "N < 2 ^ 31" using size_bound [OF l d sl] by simp_all
  have lt: "\<forall>x \<in> set fs. x < 2 ^ 32" using slot_lt [OF l] sl by blast
  have "unat (rd m (bl_head b) :: u32) = hd fs" using f lt ne by (simp add: free_list_def unat_of_nat32)
  moreover have "unat (rd m (bl_cap b) :: u32) = N" using f N by (simp add: free_list_def list_wf_def unat_of_nat32)
  ultimately show ?thesis
    using walk_chain [OF _ ne N(1) lt] f by (simp add: free_offs_def free_list_def free_hdrs_def)
qed

definition pool_invar :: "bufferList \<Rightarrow> nat \<Rightarrow> nat \<Rightarrow> bytes \<Rightarrow> bool" where
  "pool_invar b N C m = free_list b N C m (free_offs b m)"

definition slot_of :: "bufferList \<Rightarrow> bufferSlice \<Rightarrow> nat" where
  "slot_of b s = unat (offsetInShm s) - bl_base b"

definition pool_acquire :: "bufferList \<Rightarrow> bytes \<Rightarrow> (nat option \<times> bytes) option" where
  "pool_acquire b m = do {
     (r, m') \<leftarrow> bufferList_pop b m;
     Some (case r of Inl _ \<Rightarrow> None | Inr s \<Rightarrow> Some (slot_of b s), m')
   }"

definition pool_release :: "bufferList \<Rightarrow> nat \<Rightarrow> nat \<Rightarrow> bytes \<Rightarrow> bytes option" where
  "pool_release b C x m = do { (m', _) \<leftarrow> bufferList_push b (slot_slice b C x) m; Some m' }"

lemma slot_of_slice:
  assumes "list_layout b N C n" and "slot N C x"
  shows "slot_of b (slot_slice b C x) = x"
proof -
  have "bl_base b + x < 2 ^ 32" using slot_le [OF assms(2)] assms(1) by (simp add: list_layout_def)
  then show ?thesis by (simp add: slot_of_def slot_slice_def unat_of_nat32 del: of_nat_add)
qed

lemma pool_invar_iff: "pool_invar b N C m \<longleftrightarrow> (\<exists>fs. free_list b N C m fs)"
  using free_offs_eq by (fastforce simp: pool_invar_def)

lemma push_slot_slice:
  assumes f: "free_list b N C m fs" and x: "slot N C x" "x \<notin> set fs"
  obtains m' where "bufferList_push b (slot_slice b C x) m = Some (m', slot_slice b C x)" and "free_list b N C m' (fs @ [x])"
proof -
  have "bufferHeader (slot_slice b C x) = Some (slot_hdr b x)" "sl_base (slot_hdr b x) = bl_base b + x"
    "sl_len (slot_hdr b x) = 20" "offsetInShm (slot_slice b C x) = word_of_nat (bl_base b + x)"
    "slot_slice b C x\<lparr>writeIndex := 0, readIndex := 0\<rparr> = slot_slice b C x"
    by (simp_all add: slot_slice_def slot_hdr_def)
  with bufferList_push_ok [OF f x, of "slot_slice b C x" "slot_hdr b x"] that show thesis by metis
qed

interpretation lp: slot_pool "pool_invar b N C" "free_offs b" "slot N C" "pool_acquire b" "pool_release b C"
  for b N C
proof unfold_locales
  fix m
  assume "pool_invar b N C m" "length (free_offs b m) = 1"
  then show "pool_acquire b m = Some (None, m)"
    using bufferList_pop_none by (auto simp: pool_invar_def pool_acquire_def length_Suc_conv)
next
  fix m x y r
  assume i: "pool_invar b N C m" and e: "free_offs b m = x # y # r"
  then have f: "free_list b N C m (x # y # r)" by (simp add: pool_invar_def)
  then have l: "list_layout b N C (length m)" "slot N C x" by (auto simp: free_list_def list_wf_def)
  note p = bufferList_pop_some [OF f]
  show "\<exists>m'. pool_acquire b m = Some (Some x, m') \<and> pool_invar b N C m' \<and> free_offs b m' = y # r"
    using p free_offs_eq [OF p(2)] slot_of_slice [OF l] by (auto simp: pool_acquire_def pool_invar_iff)
next
  fix m x
  assume i: "pool_invar b N C m" and x: "slot N C x" "x \<notin> set (free_offs b m)"
  from push_slot_slice [OF i [unfolded pool_invar_def] x] obtain m'
    where "bufferList_push b (slot_slice b C x) m = Some (m', slot_slice b C x)" "free_list b N C m' (free_offs b m @ [x])" .
  then show "\<exists>m'. pool_release b C x m = Some m' \<and> pool_invar b N C m' \<and> free_offs b m' = free_offs b m @ [x]"
    using free_offs_eq by (auto simp: pool_release_def pool_invar_iff)
next
  fix m
  assume "pool_invar b N C m"
  then show "free_offs b m \<noteq> [] \<and> (\<forall>x \<in> set (free_offs b m). slot N C x)"
    by (simp add: pool_invar_def free_list_def)
qed

text \<open>A client of the list: it pops, keeps the slices it got and pushes some of them back.\<close>

fun list_run :: "bufferList \<Rightarrow> pool_op list \<Rightarrow> bytes \<times> bufferSlice list \<Rightarrow> (bytes \<times> bufferSlice list) option" where
  "list_run b [] st = Some st"
| "list_run b (Acquire # ops) (m, held) = do {
     (r, m') \<leftarrow> bufferList_pop b m;
     list_run b ops (m', case r of Inl _ \<Rightarrow> held | Inr s \<Rightarrow> s # held)
   }"
| "list_run b (Release i # ops) (m, held) =
     (if i < length held then do { (m', _) \<leftarrow> bufferList_push b (held ! i) m; list_run b ops (m', remove_nth i held) }
      else list_run b ops (m, held))"

lemma remove_nth_map: "remove_nth i (map f xs) = map f (remove_nth i xs)"
  by (simp add: remove_nth_def take_map drop_map)

lemma list_run_pool:
  assumes "lp.ledger b N C m out"
  shows "list_run b ops (m, map (slot_slice b C) out) =
    map_option (\<lambda>(m', out'). (m', map (slot_slice b C) out')) (lp.run_pool b C ops (m, out))"
  using assms
proof (induction ops arbitrary: m out)
  case (Cons op ops)
  have i: "pool_invar b N C m" using Cons.prems by (simp add: lp.ledger_def)
  then have f: "free_list b N C m (free_offs b m)" by (simp add: pool_invar_def)
  show ?case
  proof (cases op)
    case Acquire
    from Cons.prems obtain r m' where a: "pool_acquire b m = Some (r, m')"
      and l: "lp.ledger b N C m' (case r of None \<Rightarrow> out | Some x \<Rightarrow> x # out)"
      by (rule lp.acquire_step)
    obtain r' where p: "bufferList_pop b m = Some (r', m')"
      and r: "map (slot_slice b C) (case r of None \<Rightarrow> out | Some x \<Rightarrow> x # out) =
        (case r' of Inl _ \<Rightarrow> map (slot_slice b C) out | Inr s \<Rightarrow> s # map (slot_slice b C) out)"
    proof (cases "free_offs b m" rule: remdups_adj.cases)
      case 1
      then show thesis using f by (simp add: free_list_def)
    next
      case (2 x)
      with f a bufferList_pop_none [of b N C m x] that [of "Inl ErrNoMoreBuffer"] show thesis
        by (auto simp: pool_acquire_def)
    next
      case (3 x y z)
      have "list_layout b N C (length m)" "slot N C x" using f 3 by (auto simp: free_list_def list_wf_def)
      with 3 f a bufferList_pop_some [of b N C m x y z] slot_of_slice that [of "Inr (slot_slice b C x)"] show thesis
        by (auto simp: pool_acquire_def)
    qed
    from Cons.IH [OF l] p a r Acquire show ?thesis by (cases r) (auto simp: option.map_comp split: sum.splits)
  next
    case (Release k)
    show ?thesis
    proof (cases "k < length out")
      case True
      from lp.release_step [OF Cons.prems True] obtain m' where m': "pool_release b C (out ! k) m = Some m'"
        and l: "lp.ledger b N C m' (remove_nth k out)" .
      from m' obtain s' where "bufferList_push b (slot_slice b C (out ! k)) m = Some (m', s')"
        by (auto simp: pool_release_def bind_eq_Some_conv)
      with m' Cons.IH [OF l] True Release show ?thesis by (simp add: remove_nth_map)
    next
      case False
      with Release Cons show ?thesis by simp
    qed
  qed
qed simp

lemma created_ledger:
  assumes "free_list b N C m (all_slots N C)" and "0 < N"
  shows "lp.ledger b N C m []"
  using assms all_slots_props [of N C] free_offs_eq [OF assms(1)] by (simp add: lp.ledger_def pool_invar_iff) blast

text \<open>
  A free list never hands out a buffer twice and never loses one. Create a list of \<open>N\<close>
  buffers of \<open>C\<close> bytes anywhere in a mapping in which it fits, then run any sequence of pops
  and pushes of buffers previously popped: nothing panics, the buffers held at any time
  together with those in the list are exactly the \<open>N\<close> buffers of the region, each once, and
  at least one of them stays in the list.
\<close>

theorem buffer_list_conserves:
  assumes "0 < N" and "0 < C" and "off + (36 + N * (C + 20)) \<le> length mem" and "length mem < 2 ^ 32"
  shows "\<exists>b m m' held. createFreeBufferList (word_of_nat N) (word_of_nat C) mem (word_of_nat off) = Some (Inr (b, m)) \<and>
    list_run b ops (m, []) = Some (m', held) \<and>
    mset (map (slot_of b) held @ free_offs b m') = mset (map (\<lambda>k. k * (C + 20)) [0..<N]) \<and>
    distinct (map (slot_of b) held @ free_offs b m') \<and> free_offs b m' \<noteq> []"
proof -
  from createFreeBufferList_ok [OF assms] obtain b m
    where c: "createFreeBufferList (word_of_nat N) (word_of_nat C) mem (word_of_nat off) = Some (Inr (b, m))"
      and f: "free_list b N C m (all_slots N C)" by metis
  note lg = created_ledger [OF f assms(1)]
  from lp.run_pool_ledger [OF lg, of ops] obtain m' out where
    r: "lp.run_pool b C ops (m, []) = Some (m', out)" and l: "lp.ledger b N C m' out"
    and ms: "mset (out @ free_offs b m') = mset ([] @ free_offs b m)" by blast
  have run: "list_run b ops (m, []) = Some (m', map (slot_slice b C) out)"
    using list_run_pool [OF lg, of ops] r by simp
  have lay: "list_layout b N C (length m')" and ne: "free_offs b m' \<noteq> []"
    using l by (auto simp: lp.ledger_def pool_invar_def free_list_def list_wf_def)
  have "map (slot_of b \<circ> slot_slice b C) out = out"
    using l slot_of_slice [OF lay] by (intro map_idI) (auto simp: lp.ledger_def)
  then have o': "map (slot_of b) (map (slot_slice b C) out) = out" by simp
  show ?thesis
    using c run ms l ne free_offs_eq [OF f]
    by (intro exI conjI) (assumption | simp add: o' lp.ledger_def all_slots_def del: map_map)+
qed

theorem buffer_list_conserves_witness:
  "\<exists>b m m' held. createFreeBufferList 3 8 (replicate 200 0) 16 = Some (Inr (b, m)) \<and>
    list_run b [Acquire, Acquire, Acquire, Release 0, Acquire] (m, []) = Some (m', held) \<and>
    mset (map (slot_of b) held @ free_offs b m') = mset (map (\<lambda>k. k * (8 + 20)) [0..<3]) \<and>
    distinct (map (slot_of b) held @ free_offs b m') \<and> free_offs b m' \<noteq> []"
  using buffer_list_conserves [of 3 8 16 "replicate 200 0" "[Acquire, Acquire, Acquire, Release 0, Acquire]"] by simp

text \<open>
  C31. The peer sees the same free list: mapping the memory in which a list was created yields
  the same region, the same counters and the same free buffers, every buffer of the region in
  order. The one difference is the address of the counter of buffers in use, which
  \<^verbatim>\<open>createFreeBufferList\<close> puts at offset 20 of the list header and
  \<^verbatim>\<open>mappingFreeBufferList\<close> at offset 24, so the two processes count separately.
\<close>

theorem mapping_matches_create:
  assumes "0 < N" and "0 < C" and "off + (36 + N * (C + 20)) \<le> length mem" and "length mem < 2 ^ 32"
  shows "\<exists>b m. createFreeBufferList (word_of_nat N) (word_of_nat C) mem (word_of_nat off) = Some (Inr (b, m)) \<and>
    mappingFreeBufferList m (word_of_nat off) = Some (Inr (b\<lparr>bl_counter := bl_counter b + 4\<rparr>)) \<and>
    free_offs b m = map (\<lambda>k. k * (C + 20)) [0..<N] \<and>
    free_offs (b\<lparr>bl_counter := bl_counter b + 4\<rparr>) m = map (\<lambda>k. k * (C + 20)) [0..<N]"
proof -
  let ?b = "list_at 20 off N C (length mem)"
  from createFreeBufferList_ok [OF assms] obtain m
    where c: "createFreeBufferList (word_of_nat N) (word_of_nat C) mem (word_of_nat off) = Some (Inr (?b, m))"
      and f: "free_list ?b N C m (all_slots N C)"
      and u: "unchanged_off {off..<off + (36 + N * (C + 20))} mem m" by metis
  have len: "length m = length mem" by (rule unchanged_off_length [OF u])
  have b': "?b\<lparr>bl_counter := bl_counter ?b + 4\<rparr> = list_at 24 off N C (length m)" by (simp add: list_at_def len)
  have "rd m (off + 4) = (word_of_nat N :: u32)" "rd m (off + 16) = (word_of_nat C :: u32)"
    using f by (simp_all add: free_list_def list_wf_def) (simp_all add: list_at_def)
  from mappingFreeBufferList_ok [OF assms(1,2) _ _ this] assms len
  have "mappingFreeBufferList m (word_of_nat off) = Some (Inr (list_at 24 off N C (length m)))" by simp
  moreover have "free_offs (list_at 24 off N C (length m)) m = free_offs ?b m"
    by (simp add: free_offs_def list_at_def)
  ultimately show ?thesis
    using c free_offs_eq [OF f] b' by (auto simp: all_slots_def)
qed

theorem mapping_matches_create_witness:
  "\<exists>b m. createFreeBufferList 3 8 (replicate 200 0) 16 = Some (Inr (b, m)) \<and>
    mappingFreeBufferList m 16 = Some (Inr (b\<lparr>bl_counter := bl_counter b + 4\<rparr>)) \<and>
    free_offs b m = map (\<lambda>k. k * (8 + 20)) [0..<3] \<and>
    free_offs (b\<lparr>bl_counter := bl_counter b + 4\<rparr>) m = map (\<lambda>k. k * (8 + 20)) [0..<3]"
  using mapping_matches_create [of 3 8 16 "replicate 200 0"] by simp

end
