(* ===== verification/Buffer_Manager.thy ===== *)
theory Buffer_Manager
  imports Buffer_List Os_Interface
begin

text \<open>
  The buffer manager of \<^verbatim>\<open>buffer_manager.go\<close>: a shared memory cut into free lists of
  ascending capacity behind an eight byte header, with the operations that take buffers for a
  writer, give them back, and turn the offset received from the peer into a slice again. The
  mapped memory is passed through the operations; the table of the managers of the process
  (\<^verbatim>\<open>bufferManagers\<close>) keeps it with the manager.
\<close>

subsection \<open>Data\<close>

definition bufferManagerHeaderSize :: nat where [consts_defs]: "bufferManagerHeaderSize = 8"
definition bmCapOffset :: nat where [consts_defs]: "bmCapOffset = 4"

record sizePercentPair =
  sp_Size :: u32
  sp_Percent :: u32

record bufferManager =
  bm_lists :: "bufferList list"
  bm_minSliceSize :: u32
  bm_maxSliceSize :: u32
  bm_path :: string
  bm_refCount :: u32
  bm_mmapMapType :: memMapType
  bm_memFd :: int

subsection \<open>Construction\<close>

fun create_lists :: "sizePercentPair list \<Rightarrow> u64 \<Rightarrow> u32 \<Rightarrow> u32 \<Rightarrow> bytes \<Rightarrow>
    (go_error + (bufferList list \<times> u32 \<times> bytes)) option" where
  "create_lists [] bufferRegionCap sumPercent hadUsedOffset mem = Some (Inr ([], hadUsedOffset, mem))"
| "create_lists (pair # pairs) bufferRegionCap sumPercent hadUsedOffset mem =
     (let sumPercent' = sumPercent + sp_Percent pair in
      if sumPercent' > 100
      then Some (Inl (ErrMsg ''the sum of all SizePercentPair's percent must be equals 100''))
      else if sp_Size pair + word_of_nat bufferHeaderSize = 0 then None
      else
        let bufferNum = (ucast (bufferRegionCap * ucast (sp_Percent pair) div 100) :: u32)
              div (sp_Size pair + word_of_nat bufferHeaderSize);
            needSize = countBufferListMemSize bufferNum (sp_Size pair) in do {
        r \<leftarrow> createFreeBufferList bufferNum (sp_Size pair) mem hadUsedOffset;
        case r of
          Inl err \<Rightarrow> Some (Inl err)
        | Inr (freeList, mem1) \<Rightarrow> do {
            r' \<leftarrow> create_lists pairs bufferRegionCap sumPercent' (hadUsedOffset + needSize) mem1;
            Some (case r' of
              Inl err \<Rightarrow> Inl err
            | Inr (ls, used, mem2) \<Rightarrow> Inr (freeList # ls, used, mem2))
          }
      })"

definition createBufferManager :: "sizePercentPair list \<Rightarrow> string \<Rightarrow> bytes \<Rightarrow> u32 \<Rightarrow>
    (go_error + (bufferManager \<times> bytes)) option" where
  "createBufferManager listSizePercent path mem offset =
     (if length mem \<le> unat offset then Some (Inl (ErrMsg ''mem's size is at least''))
      else
        let bufferRegionCap = (word_of_int (int (length mem) - int (unat offset) -
              int bufferListHeaderSize * int (length listSizePercent) - int bufferManagerHeaderSize) :: u64) in do {
        m1 \<leftarrow> slice_store mem (whole_slice mem) (uint offset) (word_of_nat (length listSizePercent) :: u16);
        r \<leftarrow> create_lists listSizePercent bufferRegionCap 0 (word_of_nat bufferManagerHeaderSize + offset) m1;
        case r of
          Inl err \<Rightarrow> Some (Inl err)
        | Inr (ls, hadUsedOffset, m2) \<Rightarrow>
            if listSizePercent = [] then None
            else do {
              m3 \<leftarrow> slice_store m2 (whole_slice mem) (uint (offset + word_of_nat bmCapOffset))
                (hadUsedOffset - word_of_nat bufferManagerHeaderSize);
              Some (Inr (\<lparr>bm_lists = ls, bm_minSliceSize = sp_Size (hd listSizePercent),
                          bm_maxSliceSize = sp_Size (last listSizePercent), bm_path = path, bm_refCount = 1,
                          bm_mmapMapType = MemMapTypeDevShmFile, bm_memFd = 0\<rparr>, m3))
            }
      })"

fun mapping_lists :: "nat \<Rightarrow> bytes \<Rightarrow> u32 \<Rightarrow> u32 \<Rightarrow> (go_error + bufferList list) option" where
  "mapping_lists 0 mem start hadUsedOffset = Some (Inr [])"
| "mapping_lists (Suc k) mem start hadUsedOffset = do {
     r \<leftarrow> mappingFreeBufferList mem (start + hadUsedOffset);
     case r of
       Inl err \<Rightarrow> Some (Inl err)
     | Inr l \<Rightarrow> do {
         c \<leftarrow> mload mem (bl_cap l);
         p \<leftarrow> mload mem (bl_capPerBuffer l);
         r' \<leftarrow> mapping_lists k mem start (hadUsedOffset + countBufferListMemSize c p);
         Some (case r' of Inl err \<Rightarrow> Inl err | Inr ls \<Rightarrow> Inr (l # ls))
       }
   }"

definition mappingBufferManager :: "string \<Rightarrow> bytes \<Rightarrow> u32 \<Rightarrow> (go_error + bufferManager) option" where
  "mappingBufferManager path mem start =
     (if length mem \<le> unat (start + word_of_nat bmCapOffset) \<or> length mem \<le> unat start
      then Some (Inl (ErrMsg ''mem's size is at least''))
      else do {
        n \<leftarrow> (slice_load mem (whole_slice mem) (uint start) :: u16 option);
        len \<leftarrow> (slice_load mem (whole_slice mem) (uint (start + word_of_nat bmCapOffset)) :: u32 option);
        if length mem < bufferManagerHeaderSize + unat len \<or> n = 0
        then Some (Inl (ErrMsg ''could not mappingBufferManager''))
        else do {
          r \<leftarrow> mapping_lists (unat n) mem start (word_of_nat bufferManagerHeaderSize);
          case r of
            Inl err \<Rightarrow> Some (Inl err)
          | Inr ls \<Rightarrow> do {
              lo \<leftarrow> mload mem (bl_capPerBuffer (hd ls));
              hi \<leftarrow> mload mem (bl_capPerBuffer (last ls));
              Some (Inr \<lparr>bm_lists = ls, bm_minSliceSize = lo, bm_maxSliceSize = hi, bm_path = path, bm_refCount = 1,
                         bm_mmapMapType = MemMapTypeDevShmFile, bm_memFd = 0\<rparr>)
            }
        }
      })"

subsection \<open>Taking buffers and giving them back\<close>

fun remain_lists :: "bufferList list \<Rightarrow> u32 \<Rightarrow> bytes \<Rightarrow> u32 option" where
  "remain_lists [] result m = Some result"
| "remain_lists (l # ls) result m = do {
     sz \<leftarrow> (mload m (bl_size l) :: u32 option);
     c \<leftarrow> (mload m (bl_capPerBuffer l) :: u32 option);
     let remain = sint sz * uint c;
     remain_lists ls (if remain > 0 then result + word_of_int remain else result) m
   }"

definition remainSize :: "bufferManager \<Rightarrow> bytes \<Rightarrow> u32 option" where
  "remainSize b m = remain_lists (bm_lists b) 0 m"

fun alloc_from :: "bufferList list \<Rightarrow> u32 \<Rightarrow> bytes \<Rightarrow> ((go_error + bufferSlice) \<times> bytes) option" where
  "alloc_from [] sz m = Some (Inl ErrNoMoreBuffer, m)"
| "alloc_from (l # ls) sz m = do {
     c \<leftarrow> (mload m (bl_capPerBuffer l) :: u32 option);
     if sz \<le> c then do {
       (r, m1) \<leftarrow> bufferList_pop l m;
       case r of Inl _ \<Rightarrow> alloc_from ls sz m1 | Inr buf \<Rightarrow> Some (Inr buf, m1)
     } else alloc_from ls sz m
   }"

definition allocShmBuffer :: "bufferManager \<Rightarrow> u32 \<Rightarrow> bytes \<Rightarrow> ((go_error + bufferSlice) \<times> bytes) option" where
  "allocShmBuffer b sz m =
     (if sz \<le> bm_maxSliceSize b then alloc_from (bm_lists b) sz m else Some (Inl ErrNoMoreBuffer, m))"

text \<open>The inner loop of \<^verbatim>\<open>allocShmBuffers\<close> pops from one list until the demand is met or the
  list refuses; the slices got so far, the allocated size and the demand left are returned.\<close>

partial_function (option) alloc_list ::
  "bufferList \<Rightarrow> int \<Rightarrow> int \<Rightarrow> bufferSlice list \<Rightarrow> bytes \<Rightarrow> (int \<times> int \<times> bufferSlice list \<times> bytes) option" where
  "alloc_list l remain allocSize got m =
     (if remain > 0 then do {
        (r, m1) \<leftarrow> bufferList_pop l m;
        case r of
          Inl _ \<Rightarrow> Some (remain, allocSize, got, m1)
        | Inr buf \<Rightarrow> alloc_list l (remain - uint (bs_cap buf)) (allocSize + uint (bs_cap buf)) (got @ [buf]) m1
      } else Some (remain, allocSize, got, m))"

text \<open>\<open>ls\<close> is the list of free lists from the last one down.\<close>

fun alloc_lists :: "bufferList list \<Rightarrow> int \<Rightarrow> int \<Rightarrow> bufferSlice list \<Rightarrow> bytes \<Rightarrow> (int \<times> bufferSlice list \<times> bytes) option" where
  "alloc_lists [] remain allocSize got m = Some (allocSize, got, m)"
| "alloc_lists (l # ls) remain allocSize got m =
     (if remain > 0 then do {
        (remain', allocSize', got', m') \<leftarrow> alloc_list l remain allocSize got m;
        alloc_lists ls remain' allocSize' got' m'
      } else Some (allocSize, got, m))"

definition allocShmBuffers :: "bufferManager \<Rightarrow> u32 \<Rightarrow> bytes \<Rightarrow> (int \<times> bufferSlice list \<times> bytes) option" where
  "allocShmBuffers b sz m = alloc_lists (rev (bm_lists b)) (uint sz) 0 [] m"

fun push_matching :: "bufferList list \<Rightarrow> bufferSlice \<Rightarrow> bytes \<Rightarrow> bytes option" where
  "push_matching [] s m = Some m"
| "push_matching (l # ls) s m = do {
     c \<leftarrow> (mload m (bl_capPerBuffer l) :: u32 option);
     if bs_cap s = c then do { (m1, _) \<leftarrow> bufferList_push l s m; Some m1 }
     else push_matching ls s m
   }"

definition recycleBuffer :: "bufferManager \<Rightarrow> bufferSlice \<Rightarrow> bytes \<Rightarrow> bytes option" where
  "recycleBuffer b s m = (if isFromShm s then push_matching (bm_lists b) s m else Some m)"

definition readBufferSlice :: "bytes \<Rightarrow> u32 \<Rightarrow> (go_error + bufferSlice) option" where
  "readBufferSlice mem offset =
     (if unat offset + bufferHeaderSize \<ge> length mem
      then Some (Inl (ErrMsg ''broken share memory. readBufferSlice unexpected offset''))
      else do {
        bufCap \<leftarrow> slice_load mem (whole_slice mem) (uint (offset + word_of_nat bufferCapOffset));
        let bufEndOffset = offset + word_of_nat bufferHeaderSize + bufCap;
        if bufEndOffset > word_of_nat (length mem)
        then Some (Inl (ErrMsg ''broken share memory. readBufferSlice unexpected bufferEndOffset''))
        else do {
          h \<leftarrow> sub_slice (whole_slice mem) (uint offset) (uint (offset + word_of_nat bufferHeaderSize));
          d \<leftarrow> sub_slice (whole_slice mem) (uint (offset + word_of_nat bufferHeaderSize)) (uint bufEndOffset);
          s \<leftarrow> newBufferSlice mem (Some h) (ShmData d) offset True;
          Some (Inr s)
        }
      })"

text \<open>The loop of \<^verbatim>\<open>recycleBuffers\<close> follows the chain of the headers. The methods of the
  header panic on a slice that has none.\<close>

partial_function (option) recycle_chain :: "bufferManager \<Rightarrow> bufferSlice \<Rightarrow> bytes \<Rightarrow> bytes option" where
  "recycle_chain b s m = do {
     h \<leftarrow> bufferHeader s;
     hn \<leftarrow> hasNext m h;
     if \<not> hn then recycleBuffer b s m
     else do {
       nextSliceOffset \<leftarrow> nextBufferOffset m h;
       m1 \<leftarrow> recycleBuffer b s m;
       r \<leftarrow> readBufferSlice m1 nextSliceOffset;
       case r of Inl _ \<Rightarrow> Some m1 | Inr s' \<Rightarrow> recycle_chain b s' m1
     }
   }"

definition recycleBuffers :: "bufferManager \<Rightarrow> bufferSlice \<Rightarrow> bytes \<Rightarrow> bytes option" where
  "recycleBuffers b s m = (if isFromShm s then recycle_chain b s m else Some m)"

fun sum_sizes :: "bufferList list \<Rightarrow> bytes \<Rightarrow> int option" where
  "sum_sizes [] m = Some 0"
| "sum_sizes (l # ls) m = do {
     sz \<leftarrow> (mload m (bl_size l) :: u32 option);
     n \<leftarrow> sum_sizes ls m;
     Some (sint sz + n)
   }"

definition sliceSize :: "bufferManager \<Rightarrow> bytes \<Rightarrow> int option" where
  "sliceSize b m = sum_sizes (bm_lists b) m"

fun lists_returned :: "bufferList list \<Rightarrow> bytes \<Rightarrow> bool option" where
  "lists_returned [] m = Some True"
| "lists_returned (l # ls) m = do {
     sz \<leftarrow> (mload m (bl_size l) :: u32 option);
     c \<leftarrow> (mload m (bl_cap l) :: u32 option);
     if sz \<noteq> c then Some False
     else do {
       ct \<leftarrow> (mload m (bl_counter l) :: u32 option);
       if ct \<noteq> 0 then Some False else lists_returned ls m
     }
   }"

definition checkBufferReturned :: "bufferManager \<Rightarrow> bytes \<Rightarrow> bool option" where
  "checkBufferReturned b m = lists_returned (bm_lists b) m"

subsection \<open>The representation of a manager\<close>

text \<open>\<open>ds\<close> gives the number of buffers and the capacity of each list; the lists follow one
  another from the address \<open>off\<close>. \<open>ct\<close> is 20 for the lists of the creator and 24 for
  those of the peer.\<close>

abbreviation list_bytes :: "nat \<times> nat \<Rightarrow> nat" where
  "list_bytes d \<equiv> 36 + fst d * (snd d + 20)"

fun lists_at :: "nat \<Rightarrow> nat \<Rightarrow> (nat \<times> nat) list \<Rightarrow> nat \<Rightarrow> bufferList list" where
  "lists_at ct off [] n = []"
| "lists_at ct off (d # ds) n = list_at ct off (fst d) (snd d) n # lists_at ct (off + list_bytes d) ds n"

fun lists_inv :: "nat \<Rightarrow> nat \<Rightarrow> (nat \<times> nat) list \<Rightarrow> nat list list \<Rightarrow> bytes \<Rightarrow> bool" where
  "lists_inv ct off [] fss m = (fss = [])"
| "lists_inv ct off (d # ds) fss m = (case fss of
     [] \<Rightarrow> False
   | fs # fss' \<Rightarrow> free_list (list_at ct off (fst d) (snd d) (length m)) (fst d) (snd d) m fs \<and>
       lists_inv ct (off + list_bytes d) ds fss' m)"

abbreviation total_bytes :: "(nat \<times> nat) list \<Rightarrow> nat" where
  "total_bytes ds \<equiv> sum_list (map list_bytes ds)"

lemma length_lists_at [simp]: "length (lists_at ct off ds n) = length ds"
  by (induction ds arbitrary: off) auto

lemma lists_inv_length: "lists_inv ct off ds fss m \<Longrightarrow> length fss = length ds"
  by (induction ds arbitrary: off fss) (auto split: list.splits)

lemma free_list_fits:
  assumes "free_list (list_at ct off N C n) N C m fs" and "off < 2 ^ 32"
  shows "bl_off (list_at ct off N C n) = off" and "off + (36 + N * (C + 20)) \<le> length m" and "length m < 2 ^ 32"
proof -
  have o: "unat (word_of_nat off :: u32) = off" by (rule unat_of_nat32 [OF assms(2)])
  show "bl_off (list_at ct off N C n) = off" by (simp add: list_at_def o)
  then show "off + (36 + N * (C + 20)) \<le> length m" "length m < 2 ^ 32"
    using assms(1) by (auto simp: free_list_def list_wf_def list_layout_def)
qed

lemma free_foot_extent:
  assumes "bl_off b = off" and "bl_base b = off + 36" and "\<forall>x \<in> set fs. slot N C x"
  shows "free_foot b N C fs \<subseteq> {off..<off + (36 + N * (C + 20))}"
proof -
  have "a < off + (36 + N * (C + 20))" if "slot N C x" "a < off + 36 + x + 20" for a x
    using slot_le [OF that(1)] that(2) by simp
  with assms show ?thesis by (fastforce simp: free_foot_def wf_foot_def hdrs_foot_def)
qed

lemma list_at_base [simp]: "bl_base (list_at ct off N C n) = off + 36"
  by (simp add: list_at_def)

lemma free_list_at_frame:
  assumes f: "free_list (list_at ct off N C (length m)) N C m fs" and o: "off < 2 ^ 32"
    and u: "unchanged_off A m m'" and A: "{off..<off + (36 + N * (C + 20))} \<inter> A = {}"
  shows "free_list (list_at ct off N C (length m')) N C m' fs"
proof -
  let ?b = "list_at ct off N C (length m)"
  have "\<forall>x \<in> set fs. slot N C x" using f by (simp add: free_list_def)
  note e = free_foot_extent [OF free_list_fits(1) [OF f o] _ this]
  have "free_foot ?b N C fs \<inter> A = {}" using e A by auto
  from free_list_frame [OF f u this] show ?thesis by (simp add: unchanged_off_length [OF u])
qed

lemma lists_inv_frame:
  assumes "lists_inv ct off ds fss m" and "off < 2 ^ 32" and u: "unchanged_off A m m'"
    and A: "{off..<off + total_bytes ds} \<inter> A = {}"
  shows "lists_inv ct off ds fss m'"
  using assms(1,2,4)
proof (induction ds arbitrary: off fss)
  case (Cons d ds)
  then obtain fs fss' where fss: "fss = fs # fss'"
    and f: "free_list (list_at ct off (fst d) (snd d) (length m)) (fst d) (snd d) m fs"
    and l: "lists_inv ct (off + list_bytes d) ds fss' m" by (auto split: list.splits)
  have "free_list (list_at ct off (fst d) (snd d) (length m')) (fst d) (snd d) m' fs"
    by (rule free_list_at_frame [OF f Cons.prems(2) u]) (use Cons.prems(3) in \<open>auto simp: disjoint_iff\<close>)
  moreover have "lists_inv ct (off + list_bytes d) ds fss' m'"
  proof (rule Cons.IH [OF l])
    show "off + list_bytes d < 2 ^ 32" using free_list_fits(2,3) [OF f Cons.prems(2)] by linarith
    show "{off + list_bytes d..<off + list_bytes d + total_bytes ds} \<inter> A = {}"
      using Cons.prems(3) by (auto simp: disjoint_iff)
  qed
  ultimately show ?case by (simp add: fss)
qed simp

text \<open>The parts of a list's extent that taking or returning a buffer may write: the list header
  and the headers of buffers that are free before or after.\<close>

definition ctl_foot :: "nat \<Rightarrow> nat set \<Rightarrow> nat set" where
  "ctl_foot off xs = {off..<off + 36} \<union> {a. \<exists>x \<in> xs. off + 36 + x \<le> a \<and> a < off + 36 + x + 20}"

lemma ctl_foot_mono: "xs \<subseteq> ys \<Longrightarrow> ctl_foot off xs \<subseteq> ctl_foot off ys"
  by (auto simp: ctl_foot_def)

lemma ctl_foot_extent:
  assumes "\<forall>x \<in> xs. slot N C x"
  shows "ctl_foot off xs \<subseteq> {off..<off + (36 + N * (C + 20))}"
proof -
  have "a < off + (36 + N * (C + 20))" if "slot N C x" "a < off + 36 + x + 20" for a x
    using slot_le [OF that(1)] that(2) by simp
  with assms show ?thesis by (fastforce simp: ctl_foot_def)
qed

lemma pop_at:
  assumes f: "free_list (list_at ct off N C (length m)) N C m (x # y # r)" and o: "off < 2 ^ 32"
  obtains m' where "bufferList_pop (list_at ct off N C (length m)) m = Some (Inr (slot_slice (list_at ct off N C (length m)) C x), m')"
    and "free_list (list_at ct off N C (length m')) N C m' (y # r)"
    and "unchanged_off (ctl_foot off {x}) m m'" and "rd m' (off + 36 + x + 16) = (2 :: u8)"
proof -
  let ?b = "list_at ct off N C (length m)"
  have l: "list_layout ?b N C (length m)" "slot N C x" using f by (auto simp: free_list_def list_wf_def)
  note pf = pop_list_mem_facts [OF l, of y] and bo = free_list_fits(1) [OF f o]
  have "unchanged_off (ctl_foot off {x}) m (pop_list_mem ?b x y m)"
    by (rule unchanged_off_mono [OF pf(2)]) (auto simp: ctl_foot_def bo)
  with that [of "pop_list_mem ?b x y m"] bufferList_pop_some [OF f] pf(1,5) show thesis by simp
qed

lemma push_at:
  assumes f: "free_list (list_at ct off N C (length m)) N C m fs" and o: "off < 2 ^ 32"
    and x: "slot N C x" "x \<notin> set fs" and s: "bufferHeader s = Some h" "sl_base h = off + 36 + x" "sl_len h = 20"
      "offsetInShm s = word_of_nat (off + 36 + x)"
  obtains m' where "bufferList_push (list_at ct off N C (length m)) s m = Some (m', s\<lparr>writeIndex := 0, readIndex := 0\<rparr>)"
    and "free_list (list_at ct off N C (length m')) N C m' (fs @ [x])"
    and "unchanged_off (ctl_foot off (insert x (set fs))) m m'"
proof -
  let ?b = "list_at ct off N C (length m)"
  note bo = free_list_fits(1) [OF f o]
  from bufferList_push_ok [OF f x s(1) _ s(3)] s(2,4) obtain m' where
    1: "bufferList_push ?b s m = Some (m', s\<lparr>writeIndex := 0, readIndex := 0\<rparr>)"
    and 2: "free_list ?b N C m' (fs @ [x])"
    and 3: "unchanged_off ({bl_off ?b..<bl_off ?b + 28} \<union> {bl_base ?b + last fs + 12..<bl_base ?b + last fs + 17} \<union>
      {bl_base ?b + x + 4..<bl_base ?b + x + 17}) m m'"
    by auto
  have "last fs \<in> set fs" using f by (simp add: free_list_def)
  then have "unchanged_off (ctl_foot off (insert x (set fs))) m m'"
    by (intro unchanged_off_mono [OF 3]) (fastforce simp: ctl_foot_def bo)
  with that 1 2 unchanged_off_length [OF 3] show thesis by simp
qed

subsection \<open>Allocation\<close>

text \<open>The list an allocation of \<open>sz\<close> bytes is served from: the first one, in ascending
  order of capacity, whose buffers are large enough and that has a buffer to spare.\<close>

fun pick :: "nat \<Rightarrow> (nat \<times> nat) list \<Rightarrow> nat list list \<Rightarrow> nat option" where
  "pick sz (d # ds) (fs # fss) = (if sz \<le> snd d \<and> 2 \<le> length fs then Some 0 else map_option Suc (pick sz ds fss))"
| "pick sz _ _ = None"

definition list_off :: "nat \<Rightarrow> (nat \<times> nat) list \<Rightarrow> nat \<Rightarrow> nat" where
  "list_off off ds i = off + total_bytes (take i ds)"

lemma list_off_simps [simp]:
  "list_off off ds 0 = off" "list_off off (d # ds) (Suc i) = list_off (off + list_bytes d) ds i"
  by (simp_all add: list_off_def)

lemma pick_bound: "pick sz ds fss = Some i \<Longrightarrow> i < length ds \<and> i < length fss \<and> sz \<le> snd (ds ! i) \<and> 2 \<le> length (fss ! i)"
  by (induction sz ds fss arbitrary: i rule: pick.induct) (auto split: if_splits)

lemma lists_inv_Cons:
  assumes "lists_inv ct off (d # ds) fss m"
  obtains fs fss' where "fss = fs # fss'" and "free_list (list_at ct off (fst d) (snd d) (length m)) (fst d) (snd d) m fs"
    and "lists_inv ct (off + list_bytes d) ds fss' m"
  using assms by (auto split: list.splits)

lemma cpb_at:
  assumes "free_list (list_at ct off N C (length m)) N C m fs" and "off < 2 ^ 32"
  shows "mload m (bl_capPerBuffer (list_at ct off N C (length m))) = Some (word_of_nat C :: u32)" and "C < 2 ^ 32" and "fs \<noteq> []"
proof -
  have "0 < N" "list_layout (list_at ct off N C (length m)) N C (length m)"
    using assms(1) by (auto simp: free_list_def list_wf_def slot_def neq_Nil_conv)
  then have "C + 20 \<le> N * (C + 20)" by simp
  with free_list_fits [OF assms] show "C < 2 ^ 32" by linarith
  show "mload m (bl_capPerBuffer (list_at ct off N C (length m))) = Some (word_of_nat C :: u32)"
    using assms free_list_fits(2) [OF assms] by (simp add: free_list_def list_wf_def mload_def) (simp add: list_at_def)
  show "fs \<noteq> []" using assms(1) by (simp add: free_list_def)
qed

lemma pop_refused:
  assumes f: "free_list b N C m fs" and "\<not> 2 \<le> length fs"
  shows "bufferList_pop b m = Some (Inl ErrNoMoreBuffer, m)"
  using assms bufferList_pop_none
  by (cases fs rule: remdups_adj.cases) (auto simp: free_list_def)

lemma alloc_from_none:
  assumes "lists_inv ct off ds fss m" and "off < 2 ^ 32" and "pick (unat sz) ds fss = None"
  shows "alloc_from (lists_at ct off ds (length m)) sz m = Some (Inl ErrNoMoreBuffer, m)"
  using assms
proof (induction ds arbitrary: off fss)
  case (Cons d ds)
  from Cons.prems(1) obtain fs fss' where fss: "fss = fs # fss'"
    and f: "free_list (list_at ct off (fst d) (snd d) (length m)) (fst d) (snd d) m fs"
    and l: "lists_inv ct (off + list_bytes d) ds fss' m" by (rule lists_inv_Cons)
  note c = cpb_at [OF f Cons.prems(2)]
  have o: "off + list_bytes d < 2 ^ 32" using free_list_fits(2,3) [OF f Cons.prems(2)] by linarith
  have no: "\<not> (unat sz \<le> snd d \<and> 2 \<le> length fs)" and pk: "pick (unat sz) ds fss' = None"
    using Cons.prems(3) fss by (auto split: if_splits)
  have "sz \<le> word_of_nat (snd d) \<longleftrightarrow> unat sz \<le> snd d" using c(2) by (simp add: word_le_nat_alt unat_of_nat32)
  moreover have "bufferList_pop (list_at ct off (fst d) (snd d) (length m)) m = Some (Inl ErrNoMoreBuffer, m)"
    if "unat sz \<le> snd d"
    using pop_refused [OF f] that no by simp
  ultimately show ?case using Cons.IH [OF l o pk] c(1) by simp
qed simp

lemma alloc_from_some:
  assumes "lists_inv ct off ds fss m" and "off < 2 ^ 32" and "pick (unat sz) ds fss = Some i"
  shows "\<exists>m'. alloc_from (lists_at ct off ds (length m)) sz m =
      Some (Inr (slot_slice (list_at ct (list_off off ds i) (fst (ds ! i)) (snd (ds ! i)) (length m)) (snd (ds ! i)) (hd (fss ! i))), m') \<and>
    lists_inv ct off ds (fss[i := tl (fss ! i)]) m' \<and> unchanged_off (ctl_foot (list_off off ds i) {hd (fss ! i)}) m m' \<and>
    rd m' (list_off off ds i + 36 + hd (fss ! i) + 16) = (2 :: u8)"
  using assms
proof (induction ds arbitrary: off fss i)
  case (Cons d ds)
  from Cons.prems(1) obtain fs fss' where fss: "fss = fs # fss'"
    and f: "free_list (list_at ct off (fst d) (snd d) (length m)) (fst d) (snd d) m fs"
    and l: "lists_inv ct (off + list_bytes d) ds fss' m" by (rule lists_inv_Cons)
  note c = cpb_at [OF f Cons.prems(2)] and ft = free_list_fits [OF f Cons.prems(2)]
  have o: "off + list_bytes d < 2 ^ 32" using ft(2,3) by linarith
  have sz: "sz \<le> word_of_nat (snd d) \<longleftrightarrow> unat sz \<le> snd d" using c(2) by (simp add: word_le_nat_alt unat_of_nat32)
  show ?case
  proof (cases "unat sz \<le> snd d \<and> 2 \<le> length fs")
    case True
    then obtain x y r where fs: "fs = x # y # r" by (cases fs rule: remdups_adj.cases) auto
    with f Cons.prems(2) obtain m' where p: "bufferList_pop (list_at ct off (fst d) (snd d) (length m)) m =
        Some (Inr (slot_slice (list_at ct off (fst d) (snd d) (length m)) (snd d) x), m')"
      and f': "free_list (list_at ct off (fst d) (snd d) (length m')) (fst d) (snd d) m' (y # r)"
      and u: "unchanged_off (ctl_foot off {x}) m m'" and fl: "rd m' (off + 36 + x + 16) = (2 :: u8)"
      by (metis pop_at)
    have "slot (fst d) (snd d) x" using f fs by (simp add: free_list_def)
    then have "ctl_foot off {x} \<subseteq> {off..<off + list_bytes d}" by (intro ctl_foot_extent) simp
    then have "lists_inv ct (off + list_bytes d) ds fss' m'"
      by (intro lists_inv_frame [OF l o u]) (auto simp: disjoint_iff)
    moreover have "i = 0" using Cons.prems(3) True fss by simp
    ultimately show ?thesis using True c(1) sz p f' u fl fss fs by simp
  next
    case False
    with Cons.prems(3) fss obtain i' where i': "i = Suc i'" "pick (unat sz) ds fss' = Some i'" by auto
    have "bufferList_pop (list_at ct off (fst d) (snd d) (length m)) m = Some (Inl ErrNoMoreBuffer, m)"
      if "unat sz \<le> snd d"
      using pop_refused [OF f] that False by simp
    then have a: "alloc_from (lists_at ct off (d # ds) (length m)) sz m =
        alloc_from (lists_at ct (off + list_bytes d) ds (length m)) sz m" using c(1) sz by simp
    from Cons.IH [OF l o i'(2)] obtain m' where
      1: "alloc_from (lists_at ct (off + list_bytes d) ds (length m)) sz m =
        Some (Inr (slot_slice (list_at ct (list_off (off + list_bytes d) ds i') (fst (ds ! i')) (snd (ds ! i')) (length m))
          (snd (ds ! i')) (hd (fss' ! i'))), m')"
      and 2: "lists_inv ct (off + list_bytes d) ds (fss'[i' := tl (fss' ! i')]) m'"
      and 3: "unchanged_off (ctl_foot (list_off (off + list_bytes d) ds i') {hd (fss' ! i')}) m m'"
      and 4: "rd m' (list_off (off + list_bytes d) ds i' + 36 + hd (fss' ! i') + 16) = (2 :: u8)" by blast
    have "free_list (list_at ct off (fst d) (snd d) (length m')) (fst d) (snd d) m' fs"
    proof (rule free_list_at_frame [OF f Cons.prems(2) 3])
      have "off + list_bytes d \<le> list_off (off + list_bytes d) ds i'" by (simp add: list_off_def)
      then show "{off..<off + list_bytes d} \<inter> ctl_foot (list_off (off + list_bytes d) ds i') {hd (fss' ! i')} = {}"
        by (auto simp: ctl_foot_def disjoint_iff)
    qed
    with 1 2 3 4 a i'(1) fss show ?thesis by simp
  qed
qed simp

subsection \<open>Recycling\<close>

text \<open>The slice \<open>s\<close> is a view of the buffer at offset \<open>x\<close> of the \<open>i\<close>-th list.\<close>

definition holds :: "nat \<Rightarrow> (nat \<times> nat) list \<Rightarrow> bufferSlice \<Rightarrow> nat \<Rightarrow> nat \<Rightarrow> bool" where
  "holds off ds s i x \<longleftrightarrow> i < length ds \<and> slot (fst (ds ! i)) (snd (ds ! i)) x \<and> isFromShm s \<and>
     bs_cap s = word_of_nat (snd (ds ! i)) \<and> offsetInShm s = word_of_nat (list_off off ds i + 36 + x) \<and>
     (\<exists>h. bufferHeader s = Some h \<and> sl_base h = list_off off ds i + 36 + x \<and> sl_len h = 20) \<and>
     (\<exists>g. bs_data s = ShmData g \<and> sl_base g = list_off off ds i + 36 + x + 20 \<and> sl_len g = snd (ds ! i) \<and>
       snd (ds ! i) \<le> sl_cap g)"

lemma holds_Suc: "holds off (d # ds) s (Suc i) x \<longleftrightarrow> holds (off + list_bytes d) ds s i x"
  by (simp add: holds_def)

lemma lists_inv_caps:
  assumes "lists_inv ct off ds fss m" and "off < 2 ^ 32" and "i < length ds"
  shows "snd (ds ! i) < 2 ^ 32" and "list_off off ds i + list_bytes (ds ! i) \<le> length m" and "length m < 2 ^ 32"
    and "\<forall>x \<in> set (fss ! i). slot (fst (ds ! i)) (snd (ds ! i)) x" and "fss ! i \<noteq> []" and "distinct (fss ! i)" and "0 < snd (ds ! i)"
proof -
  have "snd (ds ! i) < 2 ^ 32 \<and> list_off off ds i + list_bytes (ds ! i) \<le> length m \<and> length m < 2 ^ 32 \<and>
    (\<forall>x \<in> set (fss ! i). slot (fst (ds ! i)) (snd (ds ! i)) x) \<and> fss ! i \<noteq> [] \<and> distinct (fss ! i) \<and> 0 < snd (ds ! i)"
    using assms
  proof (induction ds arbitrary: off fss i)
    case (Cons d ds)
    from Cons.prems(1) obtain fs fss' where fss: "fss = fs # fss'"
      and f: "free_list (list_at ct off (fst d) (snd d) (length m)) (fst d) (snd d) m fs"
      and l: "lists_inv ct (off + list_bytes d) ds fss' m" by (rule lists_inv_Cons)
    note ft = free_list_fits [OF f Cons.prems(2)]
    have o: "off + list_bytes d < 2 ^ 32" using ft(2,3) by linarith
    show ?case
    proof (cases i)
      case 0
      with cpb_at [OF f Cons.prems(2)] ft f fss show ?thesis
        by (simp add: free_list_def list_wf_def list_layout_def)
    next
      case (Suc j)
      with Cons.IH [OF l o] Cons.prems(3) fss show ?thesis by simp
    qed
  qed simp
  then show "snd (ds ! i) < 2 ^ 32" "list_off off ds i + list_bytes (ds ! i) \<le> length m" "length m < 2 ^ 32"
    "\<forall>x \<in> set (fss ! i). slot (fst (ds ! i)) (snd (ds ! i)) x" "fss ! i \<noteq> []" "distinct (fss ! i)" "0 < snd (ds ! i)"
    by blast+
qed

lemma push_matching_ok:
  assumes "lists_inv ct off ds fss m" and "off < 2 ^ 32" and "distinct (map snd ds)"
    and "holds off ds s i x" and "x \<notin> set (fss ! i)"
  shows "\<exists>m'. push_matching (lists_at ct off ds (length m)) s m = Some m' \<and>
    lists_inv ct off ds (fss[i := fss ! i @ [x]]) m' \<and>
    unchanged_off (ctl_foot (list_off off ds i) (insert x (set (fss ! i)))) m m'"
  using assms
proof (induction ds arbitrary: off fss i)
  case Nil
  then show ?case by (simp add: holds_def)
next
  case (Cons d ds)
  from Cons.prems(1) obtain fs fss' where fss: "fss = fs # fss'"
    and f: "free_list (list_at ct off (fst d) (snd d) (length m)) (fst d) (snd d) m fs"
    and l: "lists_inv ct (off + list_bytes d) ds fss' m" by (rule lists_inv_Cons)
  note c = cpb_at [OF f Cons.prems(2)] and ft = free_list_fits [OF f Cons.prems(2)]
  have o: "off + list_bytes d < 2 ^ 32" using ft(2,3) by linarith
  show ?case
  proof (cases i)
    case 0
    with Cons.prems(4,5) fss obtain h where x: "slot (fst d) (snd d) x" "x \<notin> set fs"
      and s: "bufferHeader s = Some h" "sl_base h = off + 36 + x" "sl_len h = 20" "offsetInShm s = word_of_nat (off + 36 + x)"
      and cap: "bs_cap s = word_of_nat (snd d)"
      by (auto simp: holds_def)
    from push_at [OF f Cons.prems(2) x s] obtain m' where
      p: "bufferList_push (list_at ct off (fst d) (snd d) (length m)) s m = Some (m', s\<lparr>writeIndex := 0, readIndex := 0\<rparr>)"
      and f': "free_list (list_at ct off (fst d) (snd d) (length m')) (fst d) (snd d) m' (fs @ [x])"
      and u: "unchanged_off (ctl_foot off (insert x (set fs))) m m'" .
    have "\<forall>y \<in> insert x (set fs). slot (fst d) (snd d) y" using f x(1) by (simp add: free_list_def)
    from ctl_foot_extent [OF this, of off] have "lists_inv ct (off + list_bytes d) ds fss' m'"
      by (intro lists_inv_frame [OF l o u]) (auto simp: disjoint_iff)
    with 0 p f' u fss c(1) cap show ?thesis by simp
  next
    case (Suc j)
    have h: "holds (off + list_bytes d) ds s j x" using Cons.prems(4) Suc by (simp add: holds_Suc)
    then have j: "j < length ds" "bs_cap s = word_of_nat (snd (ds ! j))" by (simp_all add: holds_def)
    have "snd (ds ! j) \<in> snd ` set ds" using j(1) by simp
    then have "snd (ds ! j) \<noteq> snd d" using Cons.prems(3) by (metis distinct.simps(2) list.map(2) list.set_map)
    moreover have "snd (ds ! j) < 2 ^ 32" by (rule lists_inv_caps(1) [OF l o j(1)])
    ultimately have ne: "bs_cap s \<noteq> word_of_nat (snd d)" using c(2) j(2) by (metis unat_of_nat32)
    have "distinct (map snd ds)" "x \<notin> set (fss' ! j)" using Cons.prems(3,5) fss Suc by simp_all
    from Cons.IH [OF l o this(1) h this(2)] obtain m' where
      1: "push_matching (lists_at ct (off + list_bytes d) ds (length m)) s m = Some m'"
      and 2: "lists_inv ct (off + list_bytes d) ds (fss'[j := fss' ! j @ [x]]) m'"
      and 3: "unchanged_off (ctl_foot (list_off (off + list_bytes d) ds j) (insert x (set (fss' ! j)))) m m'" by blast
    have "free_list (list_at ct off (fst d) (snd d) (length m')) (fst d) (snd d) m' fs"
    proof (rule free_list_at_frame [OF f Cons.prems(2) 3])
      have "off + list_bytes d \<le> list_off (off + list_bytes d) ds j" by (simp add: list_off_def)
      then show "{off..<off + list_bytes d} \<inter> ctl_foot (list_off (off + list_bytes d) ds j) (insert x (set (fss' ! j))) = {}"
        by (auto simp: ctl_foot_def disjoint_iff)
    qed
    with 1 2 3 Suc fss c(1) ne show ?thesis by simp
  qed
qed

subsection \<open>What construction establishes\<close>

definition pair_num :: "nat \<Rightarrow> sizePercentPair \<Rightarrow> nat" where
  "pair_num R p = R * unat (sp_Percent p) div 100 div (unat (sp_Size p) + 20)"

definition pair_dim :: "nat \<Rightarrow> sizePercentPair \<Rightarrow> nat \<times> nat" where
  "pair_dim R p = (pair_num R p, unat (sp_Size p))"

lemma pair_dim_sel [simp]: "fst (pair_dim R p) = pair_num R p" "snd (pair_dim R p) = unat (sp_Size p)"
  by (simp_all add: pair_dim_def)

text \<open>Every list of the configuration gets at least one buffer.\<close>

definition pairs_ok :: "nat \<Rightarrow> sizePercentPair list \<Rightarrow> bool" where
  "pairs_ok R ps \<longleftrightarrow> (\<forall>p \<in> set ps. 0 < sp_Size p \<and> 0 < pair_num R p) \<and> (\<Sum>p\<leftarrow>ps. unat (sp_Percent p)) \<le> 100"

lemma total_bytes_bound:
  "total_bytes (map (pair_dim R) ps) \<le> 36 * length ps + R * (\<Sum>p\<leftarrow>ps. unat (sp_Percent p)) div 100"
proof (induction ps)
  case (Cons p ps)
  have "pair_num R p * (unat (sp_Size p) + 20) \<le> R * unat (sp_Percent p) div 100"
    by (simp add: pair_num_def)
  moreover have "R * unat (sp_Percent p) div 100 + R * (\<Sum>p\<leftarrow>ps. unat (sp_Percent p)) div 100
      \<le> R * (unat (sp_Percent p) + (\<Sum>p\<leftarrow>ps. unat (sp_Percent p))) div 100"
    by (simp add: distrib_left)
  ultimately show ?case using Cons by simp
qed simp

lemma buffer_num_word:
  assumes "R < 2 ^ 32" and "unat (sp_Percent p) \<le> 100" and "unat (sp_Size p) + 20 < 2 ^ 32"
  shows "(ucast ((word_of_nat R :: u64) * ucast (sp_Percent p) div 100) :: u32) div (sp_Size p + word_of_nat bufferHeaderSize) =
    word_of_nat (pair_num R p)"
proof -
  have pb: "R * unat (sp_Percent p) < 2 ^ 64"
  proof -
    have "R * unat (sp_Percent p) \<le> 2 ^ 32 * 100" using assms by (intro mult_le_mono) simp_all
    then show ?thesis by simp
  qed
  have up: "unat (ucast (sp_Percent p) :: u64) = unat (sp_Percent p)"
    using assms(2) by (simp add: unsigned_ucast_eq take_bit_nat_eq_self)
  have "unat ((word_of_nat R :: u64) * ucast (sp_Percent p)) = R * unat (sp_Percent p)"
    using pb assms(1) by (simp add: unat_word_ariths up unat_of_nat)
  then have q: "unat ((word_of_nat R :: u64) * ucast (sp_Percent p) div 100) = R * unat (sp_Percent p) div 100"
    by (simp add: unat_div)
  have "R * unat (sp_Percent p) div 100 \<le> R"
    using div_le_mono [of "R * unat (sp_Percent p)" "R * 100" 100] assms(2) by simp
  then have "unat (ucast ((word_of_nat R :: u64) * ucast (sp_Percent p) div 100) :: u32) = R * unat (sp_Percent p) div 100"
    using q assms(1) by (simp add: unsigned_ucast_eq take_bit_nat_eq_self)
  moreover have "unat (sp_Size p + word_of_nat bufferHeaderSize) = unat (sp_Size p) + 20"
    using assms(3) by (simp add: consts_defs unat_word_ariths)
  ultimately have "unat ((ucast ((word_of_nat R :: u64) * ucast (sp_Percent p) div 100) :: u32) div (sp_Size p + word_of_nat bufferHeaderSize))
      = pair_num R p" by (simp add: unat_div pair_num_def)
  then show ?thesis by (metis word_of_nat_unat)
qed

lemma create_lists_ok:
  assumes "R < 2 ^ 32" and "off + total_bytes (map (pair_dim R) ps) \<le> length m" and "length m < 2 ^ 32"
    and "\<forall>p \<in> set ps. 0 < sp_Size p \<and> 0 < pair_num R p" and "su + (\<Sum>p\<leftarrow>ps. unat (sp_Percent p)) \<le> 100"
  shows "\<exists>m'. create_lists ps (word_of_nat R) (word_of_nat su) (word_of_nat off) m =
      Some (Inr (lists_at 20 off (map (pair_dim R) ps) (length m), word_of_nat (off + total_bytes (map (pair_dim R) ps)), m')) \<and>
    lists_inv 20 off (map (pair_dim R) ps) (map (\<lambda>d. all_slots (fst d) (snd d)) (map (pair_dim R) ps)) m' \<and>
    unchanged_off {off..<off + total_bytes (map (pair_dim R) ps)} m m'"
  using assms
proof (induction ps arbitrary: off m su)
  case (Cons p ps)
  let ?N = "pair_num R p" and ?C = "unat (sp_Size p)"
  let ?off' = "off + (36 + ?N * (?C + 20))"
  have NC: "0 < ?N" "0 < ?C" using Cons.prems(4) by (simp_all add: word_less_nat_alt)
  have fit: "?off' \<le> length m" "?off' + total_bytes (map (pair_dim R) ps) \<le> length m"
    using Cons.prems(2) by simp_all
  have "?C + 20 \<le> ?N * (?C + 20)" using NC(1) by simp
  then have C20: "?C + 20 < 2 ^ 32" using fit(1) Cons.prems(3) by linarith
  have pc: "unat (sp_Percent p) \<le> 100" "su + unat (sp_Percent p) + (\<Sum>p\<leftarrow>ps. unat (sp_Percent p)) \<le> 100"
    using Cons.prems(5) by simp_all
  have su: "word_of_nat su + sp_Percent p = (word_of_nat (su + unat (sp_Percent p)) :: u32)" by simp
  have g1: "\<not> (word_of_nat su + sp_Percent p :: u32) > 100"
    unfolding su word_less_nat_alt using pc(2) by (simp add: unat_of_nat32 del: of_nat_add word_of_nat_unat)
  have g2: "sp_Size p + word_of_nat bufferHeaderSize \<noteq> 0"
  proof
    assume "sp_Size p + word_of_nat bufferHeaderSize = 0"
    then have "unat (sp_Size p + 20) = 0" by (simp add: consts_defs)
    with C20 show False by (simp add: unat_word_ariths)
  qed
  have bn: "(ucast ((word_of_nat R :: u64) * ucast (sp_Percent p) div 100) :: u32) div (sp_Size p + word_of_nat bufferHeaderSize) =
    word_of_nat ?N" by (rule buffer_num_word [OF Cons.prems(1) pc(1) C20])
  obtain m1 where c: "createFreeBufferList (word_of_nat ?N) (sp_Size p) m (word_of_nat off) = Some (Inr (list_at 20 off ?N ?C (length m), m1))"
    and f: "free_list (list_at 20 off ?N ?C (length m)) ?N ?C m1 (all_slots ?N ?C)"
    and u: "unchanged_off {off..<?off'} m m1"
    using createFreeBufferList_ok [OF NC fit(1) Cons.prems(3)] by (metis word_of_nat_unat)
  have len: "length m1 = length m" by (rule unchanged_off_length [OF u])
  have cw: "word_of_nat off + countBufferListMemSize (word_of_nat ?N) (sp_Size p) = (word_of_nat ?off' :: u32)"
    using count_word [of ?N ?C] by simp
  from Cons.IH [of ?off' m1 "su + unat (sp_Percent p)"] Cons.prems fit(2) len pc(2) obtain m' where
    1: "create_lists ps (word_of_nat R) (word_of_nat su + sp_Percent p) (word_of_nat ?off') m1 =
      Some (Inr (lists_at 20 ?off' (map (pair_dim R) ps) (length m), word_of_nat (?off' + total_bytes (map (pair_dim R) ps)), m'))"
    and 2: "lists_inv 20 ?off' (map (pair_dim R) ps) (map (\<lambda>d. all_slots (fst d) (snd d)) (map (pair_dim R) ps)) m'"
    and 3: "unchanged_off {?off'..<?off' + total_bytes (map (pair_dim R) ps)} m1 m'"
    unfolding su by (auto simp: ac_simps)
  have o: "off < 2 ^ 32" using fit(1) Cons.prems(3) by linarith
  have "free_list (list_at 20 off ?N ?C (length m')) ?N ?C m' (all_slots ?N ?C)"
    by (rule free_list_at_frame [OF _ o 3]) (use f len in auto)
  moreover have "unchanged_off {off..<off + total_bytes (map (pair_dim R) (p # ps))} m m'"
    by (rule unchanged_off_seq [OF unchanged_off_mono [OF u] unchanged_off_mono [OF 3]]) auto
  ultimately show ?case
    using g1 g2 c 1 2 by (simp add: bn cw Let_def add.assoc)
qed simp

lemma mapping_lists_ok:
  assumes "lists_inv ct off ds fss m" and "off < 2 ^ 32"
  shows "mapping_lists (length ds) m 0 (word_of_nat off) = Some (Inr (lists_at 24 off ds (length m)))"
  using assms
proof (induction ds arbitrary: off fss)
  case (Cons d ds)
  from Cons.prems(1) obtain fs fss' where fss: "fss = fs # fss'"
    and f: "free_list (list_at ct off (fst d) (snd d) (length m)) (fst d) (snd d) m fs"
    and l: "lists_inv ct (off + list_bytes d) ds fss' m" by (rule lists_inv_Cons)
  note ft = free_list_fits [OF f Cons.prems(2)]
  have o: "off + list_bytes d < 2 ^ 32" using ft(2,3) by linarith
  have NC: "0 < fst d" "0 < snd d" using f
    by (auto simp: free_list_def list_wf_def list_layout_def slot_def neq_Nil_conv)
  have r: "rd m (off + 4) = (word_of_nat (fst d) :: u32)" "rd m (off + 16) = (word_of_nat (snd d) :: u32)"
    using f by (simp_all add: free_list_def list_wf_def) (simp_all add: list_at_def)
  have "mappingFreeBufferList m (word_of_nat off) = Some (Inr (list_at 24 off (fst d) (snd d) (length m)))"
    by (rule mappingFreeBufferList_ok [OF NC ft(2,3) r])
  moreover have "mload m (bl_cap (list_at 24 off (fst d) (snd d) (length m))) = Some (word_of_nat (fst d) :: u32)"
    "mload m (bl_capPerBuffer (list_at 24 off (fst d) (snd d) (length m))) = Some (word_of_nat (snd d) :: u32)"
    using r ft(2) by (simp_all add: list_at_def)
  moreover have "word_of_nat off + countBufferListMemSize (word_of_nat (fst d)) (word_of_nat (snd d)) =
      (word_of_nat (off + list_bytes d) :: u32)" using count_word [of "fst d" "snd d"] by simp
  ultimately show ?case using Cons.IH [OF l o] by (simp del: of_nat_add)
qed simp

lemma createBufferManager_ok:
  fixes ps :: "sizePercentPair list"
  assumes ps: "ps \<noteq> []" "length ps < 2 ^ 16" and n: "8 + 36 * length ps \<le> length mem" "length mem < 2 ^ 32"
    and ok: "pairs_ok (length mem - 8 - 36 * length ps) ps"
  defines "ds \<equiv> map (pair_dim (length mem - 8 - 36 * length ps)) ps"
  obtains m where "createBufferManager ps path mem 0 = Some (Inr (\<lparr>bm_lists = lists_at 20 8 ds (length mem),
      bm_minSliceSize = sp_Size (hd ps), bm_maxSliceSize = sp_Size (last ps), bm_path = path, bm_refCount = 1,
      bm_mmapMapType = MemMapTypeDevShmFile, bm_memFd = 0\<rparr>, m))"
    and "lists_inv 20 8 ds (map (\<lambda>d. all_slots (fst d) (snd d)) ds) m" and "length m = length mem"
    and "rd m 0 = (word_of_nat (length ps) :: u16)" and "rd m 4 = (word_of_nat (total_bytes ds) :: u32)"
    and "8 + total_bytes ds \<le> length mem"
proof -
  obtain R where R: "R = length mem - 8 - 36 * length ps" by simp
  have ds: "ds = map (pair_dim R) ps" by (simp add: ds_def R)
  have Rlt: "R < 2 ^ 32" using n by (simp add: R)
  have su: "(\<Sum>p\<leftarrow>ps. unat (sp_Percent p)) \<le> 100" using ok by (simp add: pairs_ok_def)
  have "R * (\<Sum>p\<leftarrow>ps. unat (sp_Percent p)) div 100 \<le> R"
    using div_le_mono [of "R * (\<Sum>p\<leftarrow>ps. unat (sp_Percent p))" "R * 100" 100] su by simp
  then have tot: "8 + total_bytes ds \<le> length mem" using total_bytes_bound [of R ps] n ds by (simp add: R)
  have cap: "(word_of_int (int (length mem) - int (unat (0 :: u32)) - int bufferListHeaderSize * int (length ps) -
      int bufferManagerHeaderSize) :: u64) = word_of_nat R"
  proof -
    have "int (length mem) - int (unat (0 :: u32)) - int bufferListHeaderSize * int (length ps) - int bufferManagerHeaderSize = int R"
      using n(1) by (simp add: R consts_defs of_nat_diff)
    then show ?thesis by (simp only: of_int_of_nat_eq)
  qed
  let ?m1 = "wr mem 0 (word_of_nat (length ps) :: u16)"
  have l1: "length ?m1 = length mem" using n(1) by simp
  from create_lists_ok [OF Rlt, of 8 ps ?m1 0] tot l1 n ok su R ds obtain m2 where
    1: "create_lists ps (word_of_nat R) 0 8 ?m1 = Some (Inr (lists_at 20 8 ds (length mem), word_of_nat (8 + total_bytes ds), m2))"
    and 2: "lists_inv 20 8 ds (map (\<lambda>d. all_slots (fst d) (snd d)) ds) m2"
    and 3: "unchanged_off {8..<8 + total_bytes ds} ?m1 m2"
    by (auto simp: pairs_ok_def)
  let ?m3 = "wr m2 4 (word_of_nat (total_bytes ds) :: u32)"
  have l2: "length m2 = length mem" using unchanged_off_length [OF 3] l1 by simp
  have u: "unchanged_off {4..<8} m2 ?m3" by (rule unchanged_off_wrI [OF unchanged_off_refl]) (use l2 n in auto)
  have 4: "lists_inv 20 8 ds (map (\<lambda>d. all_slots (fst d) (snd d)) ds) ?m3"
    by (rule lists_inv_frame [OF 2 _ u]) auto
  have "mem \<noteq> []" using n(1) by auto
  have st: "slice_store mem (whole_slice mem) 0 (word_of_nat (length ps) :: u16) = Some ?m1"
    "slice_store m2 (whole_slice mem) 4 (word_of_nat (total_bytes ds) :: u32) = Some ?m3"
    using n l2 \<open>mem \<noteq> []\<close> by (simp_all add: slice_store_def elem_addr_def whole_slice_def mstore_def)
  have 5: "createBufferManager ps path mem 0 = Some (Inr (\<lparr>bm_lists = lists_at 20 8 ds (length mem),
      bm_minSliceSize = sp_Size (hd ps), bm_maxSliceSize = sp_Size (last ps), bm_path = path, bm_refCount = 1,
      bm_mmapMapType = MemMapTypeDevShmFile, bm_memFd = 0\<rparr>, ?m3))"
    unfolding createBufferManager_def cap Let_def using n(1) ps(1) 1 st \<open>mem \<noteq> []\<close> by (simp add: consts_defs)
  have "(rd m2 0 :: u16) = rd ?m1 0" by (rule rd_unchanged [OF 3]) (use n l1 in auto)
  then have 6: "rd ?m3 0 = (word_of_nat (length ps) :: u16)" "rd ?m3 4 = (word_of_nat (total_bytes ds) :: u32)"
    using n l2 by (simp_all add: mem_simps)
  from that [OF 5 4 _ 6 tot] l2 n show thesis by simp
qed

lemma lists_at_ends:
  assumes "lists_inv ct 8 ds fss m" and "ds \<noteq> []"
  shows "mload m (bl_capPerBuffer (hd (lists_at ct' 8 ds (length m)))) = Some (word_of_nat (snd (hd ds)) :: u32)"
    and "mload m (bl_capPerBuffer (last (lists_at ct' 8 ds (length m)))) = Some (word_of_nat (snd (last ds)) :: u32)"
proof -
  have g: "mload m (bl_capPerBuffer (last (lists_at ct' off ds (length m)))) = Some (word_of_nat (snd (last ds)) :: u32) \<and>
      mload m (bl_capPerBuffer (hd (lists_at ct' off ds (length m)))) = Some (word_of_nat (snd (hd ds)) :: u32)"
    if "lists_inv ct off ds fss m" "off < 2 ^ 32" for off
    using that assms(2)
  proof (induction ds arbitrary: off fss)
    case (Cons d ds)
    from Cons.prems(1) obtain fs fss' where fss: "fss = fs # fss'"
      and f: "free_list (list_at ct off (fst d) (snd d) (length m)) (fst d) (snd d) m fs"
      and l: "lists_inv ct (off + list_bytes d) ds fss' m" by (rule lists_inv_Cons)
    have o: "off + list_bytes d < 2 ^ 32" using free_list_fits(2,3) [OF f Cons.prems(2)] by linarith
    have "mload m (bl_capPerBuffer (list_at ct' off (fst d) (snd d) (length m))) = Some (word_of_nat (snd d) :: u32)"
      using cpb_at(1) [OF f Cons.prems(2)] by (simp add: list_at_def)
    moreover have "lists_at ct' (off + list_bytes d) ds (length m) = [] \<longleftrightarrow> ds = []" by (cases ds) auto
    ultimately show ?case using Cons.IH [OF l o] by (cases "ds = []") auto
  qed simp
  from g [OF assms(1)] show "mload m (bl_capPerBuffer (hd (lists_at ct' 8 ds (length m)))) = Some (word_of_nat (snd (hd ds)) :: u32)"
    "mload m (bl_capPerBuffer (last (lists_at ct' 8 ds (length m)))) = Some (word_of_nat (snd (last ds)) :: u32)" by auto
qed

lemma mappingBufferManager_ok:
  assumes l: "lists_inv ct 8 ds fss m" and n: "ds \<noteq> []" "length ds < 2 ^ 16"
    and r: "rd m 0 = (word_of_nat (length ds) :: u16)" "rd m 4 = (word_of_nat (total_bytes ds) :: u32)"
    and tot: "8 + total_bytes ds \<le> length m" "length m < 2 ^ 32"
  shows "mappingBufferManager path m 0 = Some (Inr \<lparr>bm_lists = lists_at 24 8 ds (length m),
    bm_minSliceSize = word_of_nat (snd (hd ds)), bm_maxSliceSize = word_of_nat (snd (last ds)), bm_path = path,
    bm_refCount = 1, bm_mmapMapType = MemMapTypeDevShmFile, bm_memFd = 0\<rparr>)"
proof -
  have un: "unat (word_of_nat (length ds) :: u16) = length ds" using n(2) by (simp add: unat_of_nat)
  have ut: "unat (word_of_nat (total_bytes ds) :: u32) = total_bytes ds"
    by (rule unat_of_nat32) (use tot in linarith)
  have nz: "(word_of_nat (length ds) :: u16) \<noteq> 0" using un n(1) by (metis length_0_conv unat_0)
  have ml: "mapping_lists (length ds) m 0 8 = Some (Inr (lists_at 24 8 ds (length m)))"
    using mapping_lists_ok [OF l] by simp
  have t8: "8 < length m" using tot(1) n(1) by (cases ds) auto
  then have ld: "slice_load m (whole_slice m) 0 = Some (word_of_nat (length ds) :: u16)"
    "slice_load m (whole_slice m) 4 = Some (word_of_nat (total_bytes ds) :: u32)"
    using r by (auto simp: slice_load_def elem_addr_def whole_slice_def mload_def)
  note le = lists_at_ends [OF l n(1), of 24]
  show ?thesis
    unfolding mappingBufferManager_def using t8 nz ld ml le un ut tot by (auto simp: consts_defs)
qed

text \<open>
  The two processes agree on the buffers. For a configuration whose percentages sum to at
  most 100 and give every list at least one buffer, \<^verbatim>\<open>createBufferManager\<close> succeeds; every
  list is complete and all lists fit into the mapping one behind the other. The peer's
  \<^verbatim>\<open>mappingBufferManager\<close> over the same bytes yields a manager with the same lists, the same
  free buffers and the same smallest and largest capacity; only the addresses of the use
  counters differ (by four).
\<close>

theorem managers_agree:
  assumes "ps \<noteq> []" and "length ps < 2 ^ 16" and "8 + 36 * length ps \<le> length mem" and "length mem < 2 ^ 32"
    and "pairs_ok (length mem - 8 - 36 * length ps) ps"
  shows "\<exists>bm m. createBufferManager ps path mem 0 = Some (Inr (bm, m)) \<and> length m = length mem \<and>
    map (\<lambda>b. free_offs b m) (bm_lists bm) =
      map (\<lambda>p. map (\<lambda>k. k * (unat (sp_Size p) + 20)) [0..<pair_num (length mem - 8 - 36 * length ps) p]) ps \<and>
    mappingBufferManager path m 0 =
      Some (Inr (bm\<lparr>bm_lists := map (\<lambda>b. b\<lparr>bl_counter := bl_counter b + 4\<rparr>) (bm_lists bm)\<rparr>))"
proof -
  obtain R where R: "R = length mem - 8 - 36 * length ps" by simp
  let ?ds = "map (pair_dim R) ps"
  let ?bm = "\<lparr>bm_lists = lists_at 20 8 ?ds (length mem),
      bm_minSliceSize = sp_Size (hd ps), bm_maxSliceSize = sp_Size (last ps), bm_path = path, bm_refCount = 1,
      bm_mmapMapType = MemMapTypeDevShmFile, bm_memFd = 0\<rparr>"
  from createBufferManager_ok [OF assms, of path, folded R] obtain m where
    c: "createBufferManager ps path mem 0 = Some (Inr (?bm, m))"
    and l: "lists_inv 20 8 ?ds (map (\<lambda>d. all_slots (fst d) (snd d)) ?ds) m" and len: "length m = length mem"
    and r: "rd m 0 = (word_of_nat (length ps) :: u16)" "rd m 4 = (word_of_nat (total_bytes ?ds) :: u32)"
    and tot: "8 + total_bytes ?ds \<le> length mem" .
  have fo: "map (\<lambda>b. free_offs b m) (lists_at 20 off ds (length m)) = fss" if "lists_inv 20 off ds fss m" for off ds fss
    using that by (induction ds arbitrary: off fss) (auto simp: free_offs_eq split: list.splits)
  have at: "map (\<lambda>b. b\<lparr>bl_counter := bl_counter b + 4\<rparr>) (lists_at 20 off ds n) = lists_at 24 off ds n" for off ds n
    by (induction ds arbitrary: off) (auto simp: list_at_def)
  have "mappingBufferManager path m 0 = Some (Inr (?bm\<lparr>bm_lists := lists_at 24 8 ?ds (length m)\<rparr>))"
    using mappingBufferManager_ok [OF l, of path] assms(1,2,4) r tot len by (simp add: hd_map last_map)
  with c len fo [OF l] at [of 8 ?ds "length m"] show ?thesis
    unfolding R [symmetric] by (auto simp: all_slots_def)
qed

definition demo_pairs :: "sizePercentPair list" where
  "demo_pairs = [\<lparr>sp_Size = 8, sp_Percent = 50\<rparr>, \<lparr>sp_Size = 16, sp_Percent = 50\<rparr>]"

theorem managers_agree_witness:
  "\<exists>bm m. createBufferManager demo_pairs ''b'' (replicate 400 0) 0 = Some (Inr (bm, m)) \<and> length m = 400 \<and>
    map (\<lambda>b. free_offs b m) (bm_lists bm) = [[0, 28, 56, 84, 112], [0, 36, 72, 108]] \<and>
    mappingBufferManager ''b'' m 0 =
      Some (Inr (bm\<lparr>bm_lists := map (\<lambda>b. b\<lparr>bl_counter := bl_counter b + 4\<rparr>) (bm_lists bm)\<rparr>))"
proof -
  have "pairs_ok (400 - 8 - 36 * length demo_pairs) demo_pairs"
    by (simp add: demo_pairs_def pairs_ok_def pair_num_def)
  from managers_agree [of demo_pairs "replicate 400 0" "''b''"] this show ?thesis
    by (simp add: demo_pairs_def pair_num_def upt_rec)
qed

end
