(* ===== verification/Manager_Contract.thy ===== *)
theory Manager_Contract
  imports Buffer_Manager
begin

text \<open>
  What the buffer manager promises as a whole: the invariant \<open>mgr_inv\<close> of the lists of a
  manager, kept by \<^verbatim>\<open>allocShmBuffer\<close>, \<^verbatim>\<open>recycleBuffer\<close> and \<^verbatim>\<open>recycleBuffers\<close> and by writing
  to a buffer in use; the agreement of the two processes on a buffer handed over by its offset;
  and the conservation of the buffers under any sequence of operations of the two processes.
\<close>

subsection \<open>The manager as a whole\<close>

definition mgr_inv :: "nat \<Rightarrow> bufferManager \<Rightarrow> (nat \<times> nat) list \<Rightarrow> nat list list \<Rightarrow> bytes \<Rightarrow> bool" where
  "mgr_inv ct bm ds fss m \<longleftrightarrow> lists_inv ct 8 ds fss m \<and> bm_lists bm = lists_at ct 8 ds (length m) \<and> ds \<noteq> [] \<and>
     sorted_wrt (<) (map snd ds) \<and> unat (bm_maxSliceSize bm) = snd (last ds) \<and> (ct = 20 \<or> ct = 24)"

lemma list_off_disjoint:
  assumes "i < j" and "j < length ds"
  shows "list_off off ds i + list_bytes (ds ! i) \<le> list_off off ds j"
proof -
  have "take j ds = take i ds @ ds ! i # take (j - Suc i) (drop (Suc i) ds)"
    using assms by (metis Cons_nth_drop_Suc add_diff_inverse_nat append_take_drop_id less_imp_le_nat not_less_eq
        order_less_trans take_Suc_Cons take_add Suc_diff_Suc plus_nat.simps(2) add_Suc_right le_add_diff_inverse)
  then show ?thesis by (simp add: list_off_def)
qed

abbreviation slot_addr_of :: "(nat \<times> nat) list \<Rightarrow> nat \<times> nat \<Rightarrow> nat" where
  "slot_addr_of ds h \<equiv> list_off 8 ds (fst h) + 36 + snd h"

text \<open>A buffer that is not among the slots \<open>xs\<close> of the \<open>j\<close>-th list is untouched by an
  operation on that list.\<close>

lemma slot_off_ctl:
  assumes i: "i < length ds" and x: "slot (fst (ds ! i)) (snd (ds ! i)) x" and j: "j < length ds"
    and xs: "\<forall>y \<in> xs. slot (fst (ds ! j)) (snd (ds ! j)) y" and ne: "i = j \<longrightarrow> x \<notin> xs"
  shows "{list_off off ds i + 36 + x..<list_off off ds i + 36 + x + (snd (ds ! i) + 20)} \<inter> ctl_foot (list_off off ds j) xs = {}"
proof (cases "i = j")
  case True
  have "list_off off ds i + 36 + y + 20 \<le> list_off off ds i + 36 + x \<or>
      list_off off ds i + 36 + x + (snd (ds ! i) + 20) \<le> list_off off ds i + 36 + y" if "y \<in> xs" for y
  proof -
    have "x \<noteq> y" "slot (fst (ds ! i)) (snd (ds ! i)) y" using that ne True xs by auto
    from slots_apart [OF x this(2,1)] show ?thesis by auto
  qed
  then show ?thesis using True by (fastforce simp: ctl_foot_def)
next
  case False
  have "ctl_foot (list_off off ds j) xs \<subseteq> {list_off off ds j..<list_off off ds j + list_bytes (ds ! j)}"
    by (rule ctl_foot_extent [OF xs])
  moreover have "list_off off ds i + 36 + x + (snd (ds ! i) + 20) \<le> list_off off ds i + list_bytes (ds ! i)"
    using slot_le [OF x] by simp
  moreover have "list_off off ds i + list_bytes (ds ! i) \<le> list_off off ds j \<or> list_off off ds j + list_bytes (ds ! j) \<le> list_off off ds i"
    using False i j list_off_disjoint [of i j ds] list_off_disjoint [of j i ds] by (cases "i < j") auto
  ultimately show ?thesis by fastforce
qed

lemma sorted_le_last: "sorted_wrt (<) (map snd ds) \<Longrightarrow> d \<in> set ds \<Longrightarrow> snd d \<le> snd (last (ds :: (nat \<times> nat) list))"
  by (induction ds) (auto simp: less_imp_le)

lemma pick_None_large:
  assumes "\<forall>d \<in> set ds. snd d < sz"
  shows "pick sz ds fss = None"
  using assms by (induction sz ds fss rule: pick.induct) auto

lemma holds_slot_slice:
  assumes l: "lists_inv ct 8 ds fss m" and i: "i < length ds" and x: "slot (fst (ds ! i)) (snd (ds ! i)) x"
  shows "holds 8 ds (slot_slice (list_at ct (list_off 8 ds i) (fst (ds ! i)) (snd (ds ! i)) (length m)) (snd (ds ! i)) x) i x"
proof -
  have "list_off 8 ds i + list_bytes (ds ! i) \<le> length m" using lists_inv_caps(2) [OF l _ i] by simp
  with slot_le [OF x] i x show ?thesis by (simp add: holds_def slot_slice_def slot_hdr_def) (simp add: list_at_def)
qed

lemma allocShmBuffer_ok:
  assumes inv: "mgr_inv ct bm ds fss m"
  shows "pick (unat sz) ds fss = None \<Longrightarrow> allocShmBuffer bm sz m = Some (Inl ErrNoMoreBuffer, m)"
    and "pick (unat sz) ds fss = Some i \<Longrightarrow> \<exists>s m'. allocShmBuffer bm sz m = Some (Inr s, m') \<and>
      mgr_inv ct bm ds (fss[i := tl (fss ! i)]) m' \<and> holds 8 ds s i (hd (fss ! i)) \<and>
      readIndex s = 0 \<and> writeIndex s = 0 \<and> bs_start s = 0 \<and>
      unchanged_off (ctl_foot (list_off 8 ds i) {hd (fss ! i)}) m m' \<and>
      link_at m' (slot_addr_of ds (i, hd (fss ! i))) = None"
proof -
  have l: "lists_inv ct 8 ds fss m" and bl: "bm_lists bm = lists_at ct 8 ds (length m)" using inv by (simp_all add: mgr_inv_def)
  have sm: "sz \<le> bm_maxSliceSize bm \<longleftrightarrow> unat sz \<le> snd (last ds)" using inv by (simp add: mgr_inv_def word_le_nat_alt)
  {
    assume "pick (unat sz) ds fss = None"
    then show "allocShmBuffer bm sz m = Some (Inl ErrNoMoreBuffer, m)"
      using alloc_from_none [OF l] bl by (simp add: allocShmBuffer_def)
  next
    assume p: "pick (unat sz) ds fss = Some i"
    note pb = pick_bound [OF p]
    have "unat sz \<le> snd (last ds)"
      using pb sorted_le_last [of ds "ds ! i"] inv nth_mem [of i ds] by (auto simp: mgr_inv_def)
    moreover from alloc_from_some [OF l _ p] obtain m' where
      a: "alloc_from (lists_at ct 8 ds (length m)) sz m =
        Some (Inr (slot_slice (list_at ct (list_off 8 ds i) (fst (ds ! i)) (snd (ds ! i)) (length m)) (snd (ds ! i)) (hd (fss ! i))), m')"
      and l': "lists_inv ct 8 ds (fss[i := tl (fss ! i)]) m'"
      and u: "unchanged_off (ctl_foot (list_off 8 ds i) {hd (fss ! i)}) m m'"
      and fl: "rd m' (list_off 8 ds i + 36 + hd (fss ! i) + 16) = (2 :: u8)" by auto
    moreover have "mgr_inv ct bm ds (fss[i := tl (fss ! i)]) m'"
      using inv l' unchanged_off_length [OF u] by (simp add: mgr_inv_def)
    moreover have "slot (fst (ds ! i)) (snd (ds ! i)) (hd (fss ! i))"
      using lists_inv_caps(4,5) [OF l, of i] pb by simp
    moreover have "link_at m' (slot_addr_of ds (i, hd (fss ! i))) = None" using fl by (simp add: link_at_def)
    ultimately show "\<exists>s m'. allocShmBuffer bm sz m = Some (Inr s, m') \<and>
      mgr_inv ct bm ds (fss[i := tl (fss ! i)]) m' \<and> holds 8 ds s i (hd (fss ! i)) \<and>
      readIndex s = 0 \<and> writeIndex s = 0 \<and> bs_start s = 0 \<and>
      unchanged_off (ctl_foot (list_off 8 ds i) {hd (fss ! i)}) m m' \<and>
      link_at m' (slot_addr_of ds (i, hd (fss ! i))) = None"
      using sm bl holds_slot_slice [OF l] pb by (fastforce simp: allocShmBuffer_def slot_slice_def)
  }
qed

lemma mgr_invD:
  assumes "mgr_inv ct bm ds fss m" and "i < length ds"
  shows "snd (ds ! i) < 2 ^ 32" "list_off 8 ds i + list_bytes (ds ! i) \<le> length m" "length m < 2 ^ 32"
    "\<forall>x \<in> set (fss ! i). slot (fst (ds ! i)) (snd (ds ! i)) x" "fss ! i \<noteq> []" "distinct (fss ! i)"
    "0 < snd (ds ! i)" "length fss = length ds"
  using assms lists_inv_caps [of ct 8 ds fss m i] lists_inv_length [of ct 8 ds fss m]
  unfolding mgr_inv_def by auto

lemma recycleBuffer_ok:
  assumes inv: "mgr_inv ct bm ds fss m" and h: "holds 8 ds s i x" and x: "x \<notin> set (fss ! i)"
  shows "\<exists>m'. recycleBuffer bm s m = Some m' \<and> mgr_inv ct bm ds (fss[i := fss ! i @ [x]]) m' \<and>
    unchanged_off (ctl_foot (list_off 8 ds i) (insert x (set (fss ! i)))) m m'"
proof -
  have l: "lists_inv ct 8 ds fss m" and bl: "bm_lists bm = lists_at ct 8 ds (length m)" using inv by (simp_all add: mgr_inv_def)
  have "distinct (map snd ds)" using inv strict_sorted_iff [of "map snd ds"] by (auto simp: mgr_inv_def)
  from push_matching_ok [OF l _ this h x] obtain m' where
    "push_matching (lists_at ct 8 ds (length m)) s m = Some m'" "lists_inv ct 8 ds (fss[i := fss ! i @ [x]]) m'"
    and u: "unchanged_off (ctl_foot (list_off 8 ds i) (insert x (set (fss ! i)))) m m'" by auto
  then show ?thesis
    using inv h bl unchanged_off_length [OF u] by (auto simp: recycleBuffer_def mgr_inv_def holds_def)
qed

lemma cap_field:
  assumes "lists_inv ct off ds fss m" and "i < length ds" and "slot (fst (ds ! i)) (snd (ds ! i)) x"
  shows "rd m (list_off off ds i + 36 + x) = (word_of_nat (snd (ds ! i)) :: u32)"
  using assms
proof (induction ds arbitrary: off fss i)
  case (Cons d ds)
  from Cons.prems(1) obtain fs fss' where fss: "fss = fs # fss'"
    and f: "free_list (list_at ct off (fst d) (snd d) (length m)) (fst d) (snd d) m fs"
    and l: "lists_inv ct (off + list_bytes d) ds fss' m" by (rule lists_inv_Cons)
  show ?case
  proof (cases i)
    case 0
    with f Cons.prems(3) show ?thesis by (simp add: free_list_def list_wf_def)
  next
    case (Suc j)
    with Cons.IH [OF l] Cons.prems(2,3) show ?thesis by simp
  qed
qed simp

lemma readBufferSlice_ok:
  assumes inv: "mgr_inv ct bm ds fss m" and i: "i < length ds" and x: "slot (fst (ds ! i)) (snd (ds ! i)) x"
  defines "a \<equiv> list_off 8 ds i + 36 + x"
  obtains s where "readBufferSlice m (word_of_nat a) = Some (Inr s)" and "holds 8 ds s i x"
    and "bs_start s = rd m (a + 8)" and "readIndex s = uint (rd m (a + 8) :: u32)"
    and "writeIndex s = uint (rd m (a + 8) + rd m (a + 4) :: u32)"
proof -
  note d = mgr_invD [OF inv i]
  let ?C = "snd (ds ! i)"
  have b: "a + 20 + ?C \<le> length m" "a + 20 < length m" using slot_le [OF x] d(2,7) by (simp_all add: a_def)
  have c: "rd m a = (word_of_nat ?C :: u32)" using cap_field [of ct 8 ds fss m i x] i x inv by (simp add: mgr_inv_def a_def)
  have un: "unat (word_of_nat a :: u32) = a" by (rule unat_of_nat32) (use b d(3) in linarith)
  have w: "word_of_nat a + word_of_nat bufferCapOffset = (word_of_nat a :: u32)"
    "word_of_nat a + word_of_nat bufferHeaderSize = (word_of_nat (a + 20) :: u32)"
    "word_of_nat (a + 20) + word_of_nat ?C = (word_of_nat (a + 20 + ?C) :: u32)" by (simp_all add: consts_defs)
  have g1: "\<not> unat (word_of_nat a :: u32) + bufferHeaderSize \<ge> length m" using b by (simp add: un consts_defs)
  have g2: "\<not> (word_of_nat (a + 20 + ?C) :: u32) > word_of_nat (length m)"
    unfolding word_less_nat_alt using b d(3) by (simp add: unat_of_nat32 del: of_nat_add)
  have ld: "slice_load m (whole_slice m) (uint (word_of_nat a :: u32)) = Some (word_of_nat ?C :: u32)"
    using mem_addr [of a m] b d(3) c by (simp add: slice_load_def)
  let ?h = "\<lparr>sl_base = a, sl_len = 20, sl_cap = length m - a\<rparr>"
  let ?g = "\<lparr>sl_base = a + 20, sl_len = ?C, sl_cap = length m - (a + 20)\<rparr>"
  have s1: "sub_slice (whole_slice m) (uint (word_of_nat a :: u32)) (uint (word_of_nat (a + 20) :: u32)) = Some ?h"
    using mem_sub [of a "a + 20" m] b d(3) by simp
  have s2: "sub_slice (whole_slice m) (uint (word_of_nat (a + 20) :: u32)) (uint (word_of_nat (a + 20 + ?C) :: u32)) = Some ?g"
    using mem_sub [of "a + 20" "a + 20 + ?C" m] b d(3) by simp
  have "hdr_ok (length m) ?h" using b by (simp add: hdr_ok_def)
  note ha = hdr_access [OF this]
  define s where "s = zero_slice\<lparr>bs_cap := word_of_nat ?C, bs_start := rd m (a + 8), readIndex := uint (rd m (a + 8) :: u32),
    writeIndex := uint (rd m (a + 8) + rd m (a + 4) :: u32), bufferHeader := Some ?h, bs_data := ShmData ?g,
    offsetInShm := word_of_nat a, isFromShm := True\<rparr>"
  have ns: "newBufferSlice m (Some ?h) (ShmData ?g) (word_of_nat a) True = Some s"
    using ha c by (simp add: newBufferSlice_def consts_defs s_def)
  have "readBufferSlice m (word_of_nat a) = Some (Inr s)"
    unfolding readBufferSlice_def Let_def w by (simp only: g1 if_False ld Option.bind.bind_lunit w g2 s1 s2 ns)
  moreover have "holds 8 ds s i x" using i x b by (simp add: holds_def s_def a_def)
  ultimately show thesis using that by (simp add: s_def)
qed

text \<open>\<open>give fss hs\<close> is the state of the lists after the buffers \<open>hs\<close> went back, in order.\<close>

fun give :: "nat list list \<Rightarrow> (nat \<times> nat) list \<Rightarrow> nat list list" where
  "give fss [] = fss"
| "give fss (h # hs) = give (fss[fst h := fss ! fst h @ [snd h]]) hs"

definition out_ok :: "(nat \<times> nat) list \<Rightarrow> nat list list \<Rightarrow> (nat \<times> nat) list \<Rightarrow> bool" where
  "out_ok ds fss hs \<longleftrightarrow> distinct hs \<and> (\<forall>h \<in> set hs. fst h < length ds \<and>
     slot (fst (ds ! fst h)) (snd (ds ! fst h)) (snd h) \<and> snd h \<notin> set (fss ! fst h))"

lemma out_ok_give:
  assumes "out_ok ds fss (h # hs)" and "length fss = length ds"
  shows "out_ok ds (fss[fst h := fss ! fst h @ [snd h]]) hs"
  unfolding out_ok_def
proof (intro conjI ballI)
  show "distinct hs" using assms(1) by (simp add: out_ok_def)
  fix g assume g: "g \<in> set hs"
  then have "g \<noteq> h" using assms(1) by (auto simp: out_ok_def)
  then show "snd g \<notin> set (fss[fst h := fss ! fst h @ [snd h]] ! fst g)"
    using g assms by (cases "fst g = fst h") (auto simp: out_ok_def prod_eq_iff)
qed (use assms in \<open>auto simp: out_ok_def\<close>)

lemma slot_addr_of_lt:
  assumes "mgr_inv ct bm ds fss m" and "fst h < length ds" and "slot (fst (ds ! fst h)) (snd (ds ! fst h)) (snd h)"
  shows "slot_addr_of ds h + (snd (ds ! fst h) + 20) \<le> length m" and "slot_addr_of ds h < 2 ^ 32"
  using slot_le [OF assms(3)] mgr_invD(2,3) [OF assms(1,2)] by simp_all

lemma recycle_frame:
  assumes inv: "mgr_inv ct bm ds fss m" and o: "out_ok ds fss (h # hs)" and g: "g \<in> set hs"
    and u: "unchanged_off (ctl_foot (list_off 8 ds (fst h)) (insert (snd h) (set (fss ! fst h)))) m m'"
  shows "link_at m' (slot_addr_of ds g) = link_at m (slot_addr_of ds g)"
proof (rule link_at_frame [OF u])
  have hg: "fst h < length ds" "fst g < length ds" "slot (fst (ds ! fst h)) (snd (ds ! fst h)) (snd h)"
    "slot (fst (ds ! fst g)) (snd (ds ! fst g)) (snd g)" "snd g \<notin> set (fss ! fst g)" "g \<noteq> h"
    using o g by (auto simp: out_ok_def)
  have "\<forall>y \<in> insert (snd h) (set (fss ! fst h)). slot (fst (ds ! fst h)) (snd (ds ! fst h)) y"
    using mgr_invD(4) [OF inv hg(1)] hg(3) by simp
  moreover have "fst g = fst h \<longrightarrow> snd g \<notin> insert (snd h) (set (fss ! fst h))" using hg(5,6) by (auto simp: prod_eq_iff)
  ultimately have d: "{slot_addr_of ds g..<slot_addr_of ds g + (snd (ds ! fst g) + 20)} \<inter>
      ctl_foot (list_off 8 ds (fst h)) (insert (snd h) (set (fss ! fst h))) = {}"
    using slot_off_ctl [OF hg(2,4,1), where off = 8] by blast
  moreover have "{slot_addr_of ds g + 12..<slot_addr_of ds g + 17} \<subseteq> {slot_addr_of ds g..<slot_addr_of ds g + (snd (ds ! fst g) + 20)}"
    by auto
  ultimately show "{slot_addr_of ds g + 12..<slot_addr_of ds g + 17} \<inter>
      ctl_foot (list_off 8 ds (fst h)) (insert (snd h) (set (fss ! fst h))) = {}" by blast
  show "slot_addr_of ds g + 20 \<le> length m" using slot_addr_of_lt(1) [OF inv hg(2,4)] by simp
qed

lemma recycle_chain_ok:
  assumes "mgr_inv ct bm ds fss m" and "out_ok ds fss (h # hs)" and "holds 8 ds s (fst h) (snd h)"
    and "is_chain m 0 (map (slot_addr_of ds) (h # hs))"
  shows "\<exists>m'. recycle_chain bm s m = Some m' \<and> mgr_inv ct bm ds (give fss (h # hs)) m'"
  using assms
proof (induction hs arbitrary: h s fss m)
  case Nil
  then obtain hd where hd: "bufferHeader s = Some hd" "sl_base hd = slot_addr_of ds h" "sl_len hd = 20" by (auto simp: holds_def)
  have hh: "fst h < length ds" "slot (fst (ds ! fst h)) (snd (ds ! fst h)) (snd h)" "snd h \<notin> set (fss ! fst h)"
    using Nil.prems(2) by (auto simp: out_ok_def)
  have "hdr_ok (length m) hd" using hd slot_addr_of_lt(1) [OF Nil.prems(1) hh(1,2)] by (simp add: hdr_ok_def)
  then have "hasNext m hd = Some False" using hasNext_ok [of m hd] hd Nil.prems(4) by simp
  with recycleBuffer_ok [OF Nil.prems(1,3) hh(3)] hd show ?case by (subst recycle_chain.simps) auto
next
  case (Cons h2 hs)
  then obtain hd where hd: "bufferHeader s = Some hd" "sl_base hd = slot_addr_of ds h" "sl_len hd = 20" by (auto simp: holds_def)
  have hh: "fst h < length ds" "slot (fst (ds ! fst h)) (snd (ds ! fst h)) (snd h)" "snd h \<notin> set (fss ! fst h)"
    "fst h2 < length ds" "slot (fst (ds ! fst h2)) (snd (ds ! fst h2)) (snd h2)"
    using Cons.prems(2) by (auto simp: out_ok_def)
  have ho: "hdr_ok (length m) hd" using hd slot_addr_of_lt(1) [OF Cons.prems(1) hh(1,2)] by (simp add: hdr_ok_def)
  have lk: "link_at m (slot_addr_of ds h) = Some (word_of_nat (slot_addr_of ds h2))" using Cons.prems(4) by simp
  have nx: "hasNext m hd = Some True" "nextBufferOffset m hd = Some (word_of_nat (slot_addr_of ds h2))"
    using hasNext_ok [OF ho] nextBufferOffset_ok [OF ho] lk hd(2) by (auto simp: link_at_def split: if_splits)
  let ?fss = "fss[fst h := fss ! fst h @ [snd h]]"
  from recycleBuffer_ok [OF Cons.prems(1,3) hh(3)] obtain m1 where
    r: "recycleBuffer bm s m = Some m1" and inv1: "mgr_inv ct bm ds ?fss m1"
    and u: "unchanged_off (ctl_foot (list_off 8 ds (fst h)) (insert (snd h) (set (fss ! fst h)))) m m1" by blast
  have o1: "out_ok ds ?fss (h2 # hs)"
    using out_ok_give [OF Cons.prems(2)] mgr_invD(8) [OF Cons.prems(1) hh(1)] by simp
  have fr: "link_at m1 (slot_addr_of ds g) = link_at m (slot_addr_of ds g)" if "g \<in> set (h2 # hs)" for g
    by (rule recycle_frame [OF Cons.prems(1,2) that u])
  have "is_chain m1 0 (map (slot_addr_of ds) (h2 # hs)) = is_chain m 0 (map (slot_addr_of ds) (h2 # hs))"
    using fr
  proof (induction hs arbitrary: h2)
    case Nil
    then show ?case by simp
  next
    case (Cons h3 hs)
    then show ?case by simp
  qed
  then have ch: "is_chain m1 0 (map (slot_addr_of ds) (h2 # hs))" using Cons.prems(4) by simp
  from readBufferSlice_ok [OF inv1 hh(4,5)] obtain s2 where
    rs: "readBufferSlice m1 (word_of_nat (slot_addr_of ds h2)) = Some (Inr s2)" and h2: "holds 8 ds s2 (fst h2) (snd h2)" .
  from Cons.IH [OF inv1 o1 h2 ch] obtain m' where "recycle_chain bm s2 m1 = Some m'"
    "mgr_inv ct bm ds (give ?fss (h2 # hs)) m'" by blast
  with hd nx r rs show ?case by (subst recycle_chain.simps) (auto simp del: of_nat_add)
qed

subsection \<open>A buffer in use may be written\<close>

lemma lists_inv_slot_frame:
  assumes "lists_inv ct off ds fss m" and "off < 2 ^ 32" and "i < length ds" and "slot (fst (ds ! i)) (snd (ds ! i)) x"
    and "x \<notin> set (fss ! i)"
    and "unchanged_off {list_off off ds i + 36 + x + 4..<list_off off ds i + 36 + x + (snd (ds ! i) + 20)} m m'"
  shows "lists_inv ct off ds fss m'"
  using assms
proof (induction ds arbitrary: off fss i)
  case (Cons d ds)
  from Cons.prems(1) obtain fs fss' where fss: "fss = fs # fss'"
    and f: "free_list (list_at ct off (fst d) (snd d) (length m)) (fst d) (snd d) m fs"
    and l: "lists_inv ct (off + list_bytes d) ds fss' m" by (rule lists_inv_Cons)
  note u = Cons.prems(6) and ft = free_list_fits [OF f Cons.prems(2)]
  have o: "off + list_bytes d < 2 ^ 32" using ft(2,3) by linarith
  show ?case
  proof (cases i)
    case 0
    have x: "slot (fst d) (snd d) x" "x \<notin> set fs" using Cons.prems(4,5) 0 fss by simp_all
    have "free_list (list_at ct off (fst d) (snd d) (length m)) (fst d) (snd d) m' fs"
      by (rule free_list_slot_frame [OF f x]) (use u 0 in simp)
    moreover have "off + 36 + x + (snd d + 20) \<le> off + list_bytes d" using slot_le [OF x(1)] by simp
    then have "lists_inv ct (off + list_bytes d) ds fss' m'"
      by (intro lists_inv_frame [OF l o u]) (use 0 in \<open>auto simp: disjoint_iff\<close>)
    ultimately show ?thesis using fss unchanged_off_length [OF u] by simp
  next
    case (Suc j)
    have "lists_inv ct (off + list_bytes d) ds fss' m'"
      using Cons.IH [OF l o, of j] Cons.prems(3-6) Suc fss by simp
    moreover have "free_list (list_at ct off (fst d) (snd d) (length m')) (fst d) (snd d) m' fs"
    proof (rule free_list_at_frame [OF f Cons.prems(2) u])
      have "off + list_bytes d \<le> list_off off (d # ds) i" using Suc by (simp add: list_off_def)
      then show "{off..<off + list_bytes d} \<inter>
        {list_off off (d # ds) i + 36 + x + 4..<list_off off (d # ds) i + 36 + x + (snd ((d # ds) ! i) + 20)} = {}"
        by (auto simp: disjoint_iff)
    qed
    ultimately show ?thesis using fss by simp
  qed
qed simp

lemma mgr_inv_slot_frame:
  assumes inv: "mgr_inv ct bm ds fss m" and "i < length ds" and "slot (fst (ds ! i)) (snd (ds ! i)) x"
    and "x \<notin> set (fss ! i)"
    and u: "unchanged_off {list_off 8 ds i + 36 + x + 4..<list_off 8 ds i + 36 + x + (snd (ds ! i) + 20)} m m'"
  shows "mgr_inv ct bm ds fss m'"
  using lists_inv_slot_frame [of ct 8 ds fss m i x m'] assms unchanged_off_length [OF u] by (simp add: mgr_inv_def)

definition update_mem :: "bytes \<Rightarrow> nat \<Rightarrow> u32 \<Rightarrow> u32 \<Rightarrow> u32 option \<Rightarrow> bytes" where
  "update_mem m a sz st nxt =
     (let m2 = wr (wr m (a + 4) sz) (a + 8) st
      in case nxt of None \<Rightarrow> m2 | Some off \<Rightarrow> wr (wr m2 (a + 12) off) (a + 16) ((rd m2 (a + 16) :: u8) OR 1))"

lemma update_ok:
  assumes "bufferHeader s = Some h" and "hdr_ok (length m) h"
  shows "update m s nxt = Some (update_mem m (sl_base h) (word_of_int (slice_size s)) (bs_start s) nxt)"
proof -
  have l: "hdr_ok (length (wr m (sl_base h + 4) (v :: u32))) h"
    "hdr_ok (length (wr (wr m (sl_base h + 4) (v :: u32)) (sl_base h + 8) (w :: u32))) h" for v w
    using assms(2) by (simp_all add: hdr_ok_def)
  show ?thesis
    using assms by (simp add: update_def consts_defs hdr_access l linkNext_ok update_mem_def Let_def split: option.split)
qed

lemma update_mem_facts:
  assumes "a + 20 \<le> length m"
  shows "unchanged_off {a + 4..<a + 17} m (update_mem m a sz st nxt)"
    and "rd (update_mem m a sz st nxt) (a + 4) = sz" and "rd (update_mem m a sz st nxt) (a + 8) = st"
    and "link_at (update_mem m a sz st nxt) a = (case nxt of None \<Rightarrow> link_at m a | Some off \<Rightarrow> Some off)"
proof -
  show "unchanged_off {a + 4..<a + 17} m (update_mem m a sz st nxt)"
    unfolding update_mem_def Let_def
    by (cases nxt) (use assms in \<open>auto intro!: unchanged_off_wrI unchanged_off_refl\<close>)
qed (use assms in \<open>auto simp: update_mem_def Let_def mem_simps link_at_def or_one_and_one split: option.split\<close>)

lemma holds_hdr:
  assumes "mgr_inv ct bm ds fss m" and "holds 8 ds s i x"
  obtains h where "bufferHeader s = Some h" and "sl_base h = list_off 8 ds i + 36 + x" and "hdr_ok (length m) h"
proof -
  from assms(2) obtain h where h: "bufferHeader s = Some h" "sl_base h = list_off 8 ds i + 36 + x" "sl_len h = 20"
    by (auto simp: holds_def)
  have "list_off 8 ds i + 36 + x + 20 \<le> length m"
    using slot_addr_of_lt(1) [OF assms(1), of "(i, x)"] assms(2) by (simp add: holds_def)
  with that h show thesis by (simp add: hdr_ok_def)
qed

subsection \<open>Both processes at work\<close>

lemma lists_inv_ct:
  assumes "lists_inv ct off ds fss m" and "ct' = 20 \<or> ct' = 24"
  shows "lists_inv ct' off ds fss m"
  using assms
  by (induction ds arbitrary: off fss)
    (auto simp: free_list_def list_wf_def list_layout_def free_hdrs_def list_at_def split: list.splits)

lemma mgr_inv_peer:
  assumes "mgr_inv ct bm ds fss m" and "bm_lists bm' = lists_at ct' 8 ds (length m)"
    and "bm_maxSliceSize bm' = bm_maxSliceSize bm" and "ct' = 20 \<or> ct' = 24"
  shows "mgr_inv ct' bm' ds fss m"
  using assms lists_inv_ct [of ct 8 ds fss m ct'] by (auto simp: mgr_inv_def)

lemma nth_lists_at: "i < length ds \<Longrightarrow> lists_at ct off ds n ! i = list_at ct (list_off off ds i) (fst (ds ! i)) (snd (ds ! i)) n"
  by (induction ds arbitrary: off i) (auto simp: nth_Cons' gr0_conv_Suc split: nat.splits)

lemma lists_inv_nth:
  assumes "lists_inv ct off ds fss m" and "i < length ds"
  shows "free_list (list_at ct (list_off off ds i) (fst (ds ! i)) (snd (ds ! i)) (length m)) (fst (ds ! i)) (snd (ds ! i)) m (fss ! i)"
  using assms
proof (induction ds arbitrary: off fss i)
  case (Cons d ds)
  from Cons.prems(1) show ?case
    by (rule lists_inv_Cons) (use Cons in \<open>auto simp: nth_Cons' gr0_conv_Suc\<close>)
qed simp


text \<open>The state a correctly configured creation leaves, seen from the creator and from the peer.\<close>

lemma created_managers:
  fixes ps :: "sizePercentPair list"
  assumes "ps \<noteq> []" and "length ps < 2 ^ 16" and "8 + 36 * length ps \<le> length mem" and "length mem < 2 ^ 32"
    and "pairs_ok (length mem - 8 - 36 * length ps) ps" and "sorted_wrt (<) (map sp_Size ps)"
  defines "ds \<equiv> map (pair_dim (length mem - 8 - 36 * length ps)) ps"
  obtains bm m bm' where "createBufferManager ps path mem 0 = Some (Inr (bm, m))"
    and "mappingBufferManager path m 0 = Some (Inr bm')" and "length m = length mem"
    and "mgr_inv 20 bm ds (map (\<lambda>d. all_slots (fst d) (snd d)) ds) m"
    and "mgr_inv 24 bm' ds (map (\<lambda>d. all_slots (fst d) (snd d)) ds) m"
proof -
  obtain R where R: "R = length mem - 8 - 36 * length ps" by simp
  have ds: "ds = map (pair_dim R) ps" by (simp add: ds_def R)
  let ?bm = "\<lparr>bm_lists = lists_at 20 8 ds (length mem),
      bm_minSliceSize = sp_Size (hd ps), bm_maxSliceSize = sp_Size (last ps), bm_path = path, bm_refCount = 1,
      bm_mmapMapType = MemMapTypeDevShmFile, bm_memFd = 0\<rparr>"
  from createBufferManager_ok [OF assms(1-5), of path, folded R] obtain m where
    c: "createBufferManager ps path mem 0 = Some (Inr (?bm, m))"
    and l: "lists_inv 20 8 ds (map (\<lambda>d. all_slots (fst d) (snd d)) ds) m" and len: "length m = length mem"
    and r: "rd m 0 = (word_of_nat (length ps) :: u16)" "rd m 4 = (word_of_nat (total_bytes ds) :: u32)"
    and tot: "8 + total_bytes ds \<le> length mem"
    unfolding ds .
  have "sorted_wrt (<) (map snd ds)"
    using assms(6) by (simp add: ds sorted_wrt_map word_less_nat_alt)
  moreover have "unat (sp_Size (last ps)) = snd (last ds)" using assms(1) by (simp add: ds last_map)
  ultimately have i: "mgr_inv 20 ?bm ds (map (\<lambda>d. all_slots (fst d) (snd d)) ds) m"
    using l len assms(1) by (simp add: mgr_inv_def ds)
  let ?bm' = "?bm\<lparr>bm_lists := lists_at 24 8 ds (length mem)\<rparr>"
  have "mappingBufferManager path m 0 = Some (Inr ?bm')"
    using mappingBufferManager_ok [OF l, of path] assms(1,2,4) r tot len by (simp add: ds hd_map last_map)
  moreover have "mgr_inv 24 ?bm' ds (map (\<lambda>d. all_slots (fst d) (snd d)) ds) m"
    using mgr_inv_peer [OF i, of ?bm' 24] len by simp
  ultimately show thesis using that [OF c _ len i] by blast
qed


text \<open>A sequence of allocations and recyclings by the two processes: \<open>True\<close> marks the creator,
  a recycling names the position of the slice among those held.\<close>

datatype mgr_op = MAlloc bool u32 | MRecycle bool nat

fun mgr_run :: "bufferManager \<Rightarrow> bufferManager \<Rightarrow> mgr_op list \<Rightarrow> bytes \<times> bufferSlice list \<Rightarrow> (bytes \<times> bufferSlice list) option" where
  "mgr_run a b [] st = Some st"
| "mgr_run a b (MAlloc p sz # ops) (m, held) = do {
     (r, m') \<leftarrow> allocShmBuffer (if p then a else b) sz m;
     mgr_run a b ops (m', case r of Inl _ \<Rightarrow> held | Inr s \<Rightarrow> s # held)
   }"
| "mgr_run a b (MRecycle p k # ops) (m, held) =
     (if k < length held then do {
        m' \<leftarrow> recycleBuffer (if p then a else b) (held ! k) m;
        mgr_run a b ops (m', remove_nth k held)
      } else mgr_run a b ops (m, held))"

text \<open>The offsets of the slices held that belong to the list of capacity \<open>C\<close> at \<open>off\<close>.\<close>

definition held_offs :: "nat \<Rightarrow> nat \<Rightarrow> bufferSlice list \<Rightarrow> nat list" where
  "held_offs base C held = map (\<lambda>s. unat (offsetInShm s) - base) (filter (\<lambda>s. unat (bs_cap s) = C) held)"

lemma held_offs_simps [simp]:
  "held_offs base C [] = []"
  "held_offs base C (s # held) = (if unat (bs_cap s) = C then (unat (offsetInShm s) - base) # held_offs base C held else held_offs base C held)"
  by (simp_all add: held_offs_def)

lemma held_offs_remove:
  assumes "k < length held"
  shows "mset (held_offs base C held) = (if unat (bs_cap (held ! k)) = C then {#unat (offsetInShm (held ! k)) - base#} else {#}) +
    mset (held_offs base C (remove_nth k held))"
  unfolding held_offs_def remove_nth_def
  by (subst id_take_nth_drop [OF assms]) simp

definition mgr_ledger :: "(nat \<times> nat) list \<Rightarrow> nat list list \<Rightarrow> bufferSlice list \<Rightarrow> bool" where
  "mgr_ledger ds fss held \<longleftrightarrow> (\<forall>s \<in> set held. \<exists>i x. holds 8 ds s i x) \<and>
     (\<forall>i < length ds. mset (held_offs (list_off 8 ds i + 36) (snd (ds ! i)) held @ fss ! i) = mset (all_slots (fst (ds ! i)) (snd (ds ! i))))"

lemma holds_view:
  assumes inv: "mgr_inv ct bm ds fss m" and h: "holds 8 ds s i x" and j: "j < length ds"
  shows "unat (bs_cap s) = snd (ds ! j) \<longleftrightarrow> i = j" and "unat (offsetInShm s) - (list_off 8 ds i + 36) = x"
proof -
  have i: "i < length ds" "slot (fst (ds ! i)) (snd (ds ! i)) x" "bs_cap s = word_of_nat (snd (ds ! i))"
    "offsetInShm s = word_of_nat (list_off 8 ds i + 36 + x)"
    using h by (simp_all add: holds_def)
  have "unat (bs_cap s) = snd (ds ! i)" using i(3) mgr_invD(1) [OF inv i(1)] by (simp add: unat_of_nat32)
  moreover have "distinct (map snd ds)" using inv strict_sorted_iff [of "map snd ds"] by (auto simp: mgr_inv_def)
  ultimately show "unat (bs_cap s) = snd (ds ! j) \<longleftrightarrow> i = j"
    using i(1) j nth_eq_iff_index_eq [of "map snd ds" i j] by simp
  show "unat (offsetInShm s) - (list_off 8 ds i + 36) = x"
    using slot_addr_of_lt(2) [OF inv, of "(i, x)"] i by (simp add: unat_of_nat32 del: of_nat_add)
qed

lemma ledger_alloc:
  assumes inv: "mgr_inv ct bm ds fss m" and l: "mgr_ledger ds fss held" and h: "holds 8 ds s i (hd (fss ! i))" and "i < length ds"
  shows "mgr_ledger ds (fss[i := tl (fss ! i)]) (s # held)"
  unfolding mgr_ledger_def
proof (intro conjI allI impI)
  fix j assume j: "j < length ds"
  note v = holds_view [OF inv h j] and d = mgr_invD(5,8) [OF inv assms(4)]
  show "mset (held_offs (list_off 8 ds j + 36) (snd (ds ! j)) (s # held) @ fss[i := tl (fss ! i)] ! j) =
    mset (all_slots (fst (ds ! j)) (snd (ds ! j)))"
  proof (cases "i = j")
    case True
    have "mset (fss ! i) = add_mset (hd (fss ! i)) (mset (tl (fss ! i)))" using d(1) by (metis list.collapse mset.simps(2))
    moreover have "mset (held_offs (list_off 8 ds j + 36) (snd (ds ! j)) held) + mset (fss ! j) = mset (all_slots (fst (ds ! j)) (snd (ds ! j)))"
      using l j by (simp add: mgr_ledger_def)
    ultimately show ?thesis using True v j d by simp
  next
    case False
    with v(1) l j show ?thesis by (simp add: mgr_ledger_def)
  qed
qed (use l h in \<open>auto simp: mgr_ledger_def\<close>)

lemma ledger_recycle:
  assumes inv: "mgr_inv ct bm ds fss m" and l: "mgr_ledger ds fss held" and k: "k < length held" and h: "holds 8 ds (held ! k) i x"
  shows "x \<notin> set (fss ! i)" and "mgr_ledger ds (fss[i := fss ! i @ [x]]) (remove_nth k held)"
proof -
  have i: "i < length ds" using h by (simp add: holds_def)
  note v = holds_view [OF inv h]
  have e: "mset (held_offs (list_off 8 ds j + 36) (snd (ds ! j)) held) =
      (if i = j then {#x#} else {#}) + mset (held_offs (list_off 8 ds j + 36) (snd (ds ! j)) (remove_nth k held))"
    if "j < length ds" for j
    using held_offs_remove [OF k, of "list_off 8 ds j + 36" "snd (ds ! j)"] v(1) [OF that] v(2) [OF i] by auto
  have m: "mset (held_offs (list_off 8 ds j + 36) (snd (ds ! j)) held @ fss ! j) = mset (all_slots (fst (ds ! j)) (snd (ds ! j)))"
    if "j < length ds" for j using l that by (simp add: mgr_ledger_def)
  have "0 < fst (ds ! i)" using h by (auto simp: holds_def slot_def)
  from all_slots_props(2) [OF this] have "distinct (held_offs (list_off 8 ds i + 36) (snd (ds ! i)) held @ fss ! i)"
    using mset_eq_imp_distinct_iff [OF m [OF i]] by simp
  moreover have "x \<in># mset (held_offs (list_off 8 ds i + 36) (snd (ds ! i)) held)" unfolding e [OF i] by simp
  ultimately show "x \<notin> set (fss ! i)" by auto
  show "mgr_ledger ds (fss[i := fss ! i @ [x]]) (remove_nth k held)"
    unfolding mgr_ledger_def
  proof (intro conjI allI impI ballI)
    fix j assume j: "j < length ds"
    show "mset (held_offs (list_off 8 ds j + 36) (snd (ds ! j)) (remove_nth k held) @ fss[i := fss ! i @ [x]] ! j) =
      mset (all_slots (fst (ds ! j)) (snd (ds ! j)))"
      using m [OF j] j mgr_invD(8) [OF inv i] unfolding mset_append e [OF j] by (cases "i = j") simp_all
  next
    fix s assume "s \<in> set (remove_nth k held)"
    then have "s \<in> set held" unfolding remove_nth_def by (auto dest: in_set_takeD in_set_dropD)
    then show "\<exists>i x. holds 8 ds s i x" using l by (simp add: mgr_ledger_def)
  qed
qed

lemma mgr_run_ledger:
  assumes "mgr_inv 20 a ds fss m" and "mgr_inv 24 b ds fss m" and "mgr_ledger ds fss held"
  shows "\<exists>m' held' fss'. mgr_run a b ops (m, held) = Some (m', held') \<and> mgr_inv 20 a ds fss' m' \<and> mgr_ledger ds fss' held' \<and>
    length m' = length m"
  using assms
proof (induction ops arbitrary: m held fss)
  case Nil
  then show ?case by auto
next
  case (Cons op ops)
  have lab: "bm_lists a = lists_at 20 8 ds (length m)" "bm_lists b = lists_at 24 8 ds (length m)"
    "bm_maxSliceSize b = bm_maxSliceSize a"
    using Cons.prems(1,2) by (simp_all add: mgr_inv_def word_unat_eq_iff)
  define c where "c p = (if p then a else b)" for p
  define ct where "ct p = (if p then 20 else 24 :: nat)" for p
  have ic: "mgr_inv (ct p) (c p) ds fss m" for p using Cons.prems by (simp add: c_def ct_def)
  have both: "mgr_inv 20 a ds fss' m' \<and> mgr_inv 24 b ds fss' m'" if "mgr_inv (ct p) (c p) ds fss' m'" "length m' = length m" for p fss' m'
    using that mgr_inv_peer [of 20 a ds fss' m' b 24] mgr_inv_peer [of 24 b ds fss' m' a 20] lab
    by (cases p) (auto simp: c_def ct_def)
  show ?case
  proof (cases op)
    case (MAlloc p sz)
    show ?thesis
    proof (cases "pick (unat sz) ds fss")
      case None
      with allocShmBuffer_ok(1) [OF ic [of p]] Cons MAlloc show ?thesis by (simp add: c_def)
    next
      case (Some i)
      from allocShmBuffer_ok(2) [OF ic [of p] this] obtain s m1 where
        r: "allocShmBuffer (c p) sz m = Some (Inr s, m1)" "mgr_inv (ct p) (c p) ds (fss[i := tl (fss ! i)]) m1"
        "holds 8 ds s i (hd (fss ! i))" and u: "unchanged_off (ctl_foot (list_off 8 ds i) {hd (fss ! i)}) m m1" by blast
      have len: "length m1 = length m" by (rule unchanged_off_length [OF u])
      have "mgr_ledger ds (fss[i := tl (fss ! i)]) (s # held)"
        using ledger_alloc [OF Cons.prems(1,3) r(3)] r(3) by (simp add: holds_def)
      from Cons.IH [OF _ _ this, of m1] both [OF r(2) len] r(1) MAlloc len show ?thesis by (auto simp: c_def)
    qed
  next
    case (MRecycle p k)
    show ?thesis
    proof (cases "k < length held")
      case True
      then have "held ! k \<in> set held" by simp
      then obtain i x where h: "holds 8 ds (held ! k) i x" using Cons.prems(3) unfolding mgr_ledger_def by blast
      note lr = ledger_recycle [OF Cons.prems(1,3) True h]
      from recycleBuffer_ok [OF ic [of p] h lr(1)] obtain m1 where
        r: "recycleBuffer (c p) (held ! k) m = Some m1" "mgr_inv (ct p) (c p) ds (fss[i := fss ! i @ [x]]) m1"
        and u: "unchanged_off (ctl_foot (list_off 8 ds i) (insert x (set (fss ! i)))) m m1" by blast
      have len: "length m1 = length m" by (rule unchanged_off_length [OF u])
      from Cons.IH [OF _ _ lr(2), of m1] both [OF r(2) len] r(1) MRecycle True len show ?thesis by (auto simp: c_def)
    next
      case False
      with Cons MRecycle show ?thesis by simp
    qed
  qed
qed

text \<open>
  C6. Over the whole shared memory no buffer is handed out twice and none is lost, whichever of
  the two processes takes or returns it. Create a manager for a configuration in ascending
  order, map it in the peer, and let the two allocate and recycle in any order: nothing
  panics, and for every list the buffers of its capacity that are held together with those
  free in it are exactly the buffers of the list, each once.
\<close>

theorem managers_conserve:
  assumes "ps \<noteq> []" and "length ps < 2 ^ 16" and "8 + 36 * length ps \<le> length mem" and "length mem < 2 ^ 32"
    and "pairs_ok (length mem - 8 - 36 * length ps) ps" and "sorted_wrt (<) (map sp_Size ps)"
  shows "\<exists>a b m m' held. createBufferManager ps path mem 0 = Some (Inr (a, m)) \<and>
    mappingBufferManager path m 0 = Some (Inr b) \<and> mgr_run a b ops (m, []) = Some (m', held) \<and>
    (\<forall>i < length ps. mset (held_offs (bl_base (bm_lists a ! i)) (unat (sp_Size (ps ! i))) held @ free_offs (bm_lists a ! i) m') =
      mset (map (\<lambda>k. k * (unat (sp_Size (ps ! i)) + 20)) [0..<pair_num (length mem - 8 - 36 * length ps) (ps ! i)]))"
proof -
  obtain R where R: "R = length mem - 8 - 36 * length ps" by simp
  let ?ds = "map (pair_dim R) ps"
  let ?fss = "map (\<lambda>d. all_slots (fst d) (snd d)) ?ds"
  from created_managers [OF assms, of path, folded R] obtain a m b where
    c: "createBufferManager ps path mem 0 = Some (Inr (a, m))" "mappingBufferManager path m 0 = Some (Inr b)"
    and i: "mgr_inv 20 a ?ds ?fss m" "mgr_inv 24 b ?ds ?fss m" .
  have "mgr_ledger ?ds ?fss []" by (simp add: mgr_ledger_def)
  from mgr_run_ledger [OF i this, of ops] obtain m' held fss' where
    r: "mgr_run a b ops (m, []) = Some (m', held)" and i': "mgr_inv 20 a ?ds fss' m'" and l: "mgr_ledger ?ds fss' held" by blast
  have "mset (held_offs (bl_base (bm_lists a ! k)) (unat (sp_Size (ps ! k))) held @ free_offs (bm_lists a ! k) m') =
      mset (map (\<lambda>j. j * (unat (sp_Size (ps ! k)) + 20)) [0..<pair_num R (ps ! k)])" if k: "k < length ps" for k
  proof -
    have "bm_lists a ! k = list_at 20 (list_off 8 ?ds k) (fst (?ds ! k)) (snd (?ds ! k)) (length m')"
      using i' k by (simp add: mgr_inv_def nth_lists_at)
    moreover from this have "free_offs (bm_lists a ! k) m' = fss' ! k"
      using free_offs_eq [OF lists_inv_nth [of 20 8 ?ds fss' m' k]] i' k by (simp add: mgr_inv_def)
    moreover have "mset (held_offs (list_off 8 ?ds k + 36) (snd (?ds ! k)) held @ fss' ! k) = mset (all_slots (fst (?ds ! k)) (snd (?ds ! k)))"
      using l k by (simp add: mgr_ledger_def)
    ultimately show ?thesis using k by (simp add: all_slots_def)
  qed
  with c r show ?thesis unfolding R [symmetric] by blast
qed


theorem managers_conserve_witness:
  "\<exists>a b m m' held. createBufferManager demo_pairs ''b'' (replicate 400 0) 0 = Some (Inr (a, m)) \<and>
    mappingBufferManager ''b'' m 0 = Some (Inr b) \<and>
    mgr_run a b [MAlloc True 5, MAlloc False 9, MRecycle False 1, MAlloc True 12, MRecycle True 0] (m, []) = Some (m', held) \<and>
    (\<forall>i < 2. mset (held_offs (bl_base (bm_lists a ! i)) (unat (sp_Size (demo_pairs ! i))) held @ free_offs (bm_lists a ! i) m') =
      mset (map (\<lambda>k. k * (unat (sp_Size (demo_pairs ! i)) + 20)) [0..<pair_num 320 (demo_pairs ! i)]))"
proof -
  have d: "length demo_pairs = 2" "pairs_ok 320 demo_pairs" "sorted_wrt (<) (map sp_Size demo_pairs)" "demo_pairs \<noteq> []"
    by (simp_all add: demo_pairs_def pairs_ok_def pair_num_def)
  then show ?thesis
    using managers_conserve [of demo_pairs "replicate 400 0" "''b''"
      "[MAlloc True 5, MAlloc False 9, MRecycle False 1, MAlloc True 12, MRecycle True 0]"]
    by (simp del: mgr_run.simps)
qed

lemma demo_buffers:
  obtains bm m where "createBufferManager demo_pairs ''b'' (replicate 400 0) 0 = Some (Inr (bm, m))"
    and "mgr_inv 20 bm [(5, 8), (4, 16)] [[0, 28, 56, 84, 112], [0, 36, 72, 108]] m" and "length m = 400"
proof -
  have d: "pairs_ok (length (replicate 400 (0 :: u8)) - 8 - 36 * length demo_pairs) demo_pairs"
    "sorted_wrt (<) (map sp_Size demo_pairs)" "demo_pairs \<noteq> []"
    "length demo_pairs < 2 ^ 16" "8 + 36 * length demo_pairs \<le> length (replicate 400 (0 :: u8))" "length (replicate 400 (0 :: u8)) < 2 ^ 32"
    by (simp_all add: demo_pairs_def pairs_ok_def pair_num_def)
  have e: "map (pair_dim (length (replicate 400 (0 :: u8)) - 8 - 36 * length demo_pairs)) demo_pairs = [(5, 8), (4, 16)]"
    by (simp add: demo_pairs_def pair_dim_def pair_num_def)
  have f: "map (\<lambda>d. all_slots (fst d) (snd d)) [(5, 8), (4, 16)] = [[0, 28, 56, 84, 112], [0, 36, 72, 108]]"
    by code_simp
  note cm = created_managers [OF d(3-6,1,2), of "''b''"]
  note cm2 = cm [unfolded e]
  note cm3 = cm2 [unfolded f]
  from cm3 obtain bm m bm' where "createBufferManager demo_pairs ''b'' (replicate 400 0) 0 = Some (Inr (bm, m))"
    "length m = length (replicate 400 (0 :: u8))" "mgr_inv 20 bm [(5, 8), (4, 16)] [[0, 28, 56, 84, 112], [0, 36, 72, 108]] m" .
  from that [OF this(1,3)] this(2) show thesis by simp
qed

subsection \<open>The contract of allocation and recycling\<close>

lemma pick_None_iff: "length fss = length ds \<Longrightarrow>
    pick sz ds fss = None \<longleftrightarrow> (\<forall>i < length ds. sz \<le> snd (ds ! i) \<longrightarrow> length (fss ! i) < 2)"
proof (induction sz ds fss rule: pick.induct)
  case (1 sz d ds fs fss)
  then show ?case by (auto simp: All_less_Suc2)
qed simp_all

lemma pick_least: "pick sz ds fss = Some i \<Longrightarrow> j < i \<Longrightarrow> sz \<le> snd (ds ! j) \<Longrightarrow> length (fss ! j) < 2"
  by (induction sz ds fss arbitrary: i j rule: pick.induct) (fastforce simp: nth_Cons' gr0_conv_Suc split: if_splits)+

text \<open>
  C29. Allocation is best fit. \<^verbatim>\<open>allocShmBuffer\<close> fails with \<^verbatim>\<open>ErrNoMoreBuffer\<close>, the memory
  unchanged, exactly when every list whose buffers are large enough is down to its last
  buffer. Otherwise it takes the first buffer of the smallest such list, empty and unlinked,
  and takes nothing else out of any list.
\<close>

theorem alloc_best_fit:
  assumes "mgr_inv ct bm ds fss m"
  shows "if \<exists>i < length ds. unat sz \<le> snd (ds ! i) \<and> 2 \<le> length (fss ! i)
    then \<exists>i s m'. i < length ds \<and> unat sz \<le> snd (ds ! i) \<and> 2 \<le> length (fss ! i) \<and>
      \<not> (\<exists>j < i. unat sz \<le> snd (ds ! j) \<and> 2 \<le> length (fss ! j)) \<and>
      allocShmBuffer bm sz m = Some (Inr s, m') \<and> holds 8 ds s i (hd (fss ! i)) \<and> slice_size s = 0 \<and>
      slice_remain s = int (snd (ds ! i)) \<and> mgr_inv ct bm ds (fss[i := tl (fss ! i)]) m'
    else allocShmBuffer bm sz m = Some (Inl ErrNoMoreBuffer, m)"
proof -
  have len: "length fss = length ds" using assms lists_inv_length by (auto simp: mgr_inv_def)
  show ?thesis
  proof (cases "pick (unat sz) ds fss")
    case None
    then have no: "\<not> (\<exists>i < length ds. unat sz \<le> snd (ds ! i) \<and> 2 \<le> length (fss ! i))"
      unfolding pick_None_iff [OF len] by (meson not_le)
    show ?thesis unfolding if_not_P [OF no] by (rule allocShmBuffer_ok(1) [OF assms None])
  next
    case (Some i)
    from allocShmBuffer_ok(2) [OF assms this] obtain s m' where
      r: "allocShmBuffer bm sz m = Some (Inr s, m')" "mgr_inv ct bm ds (fss[i := tl (fss ! i)]) m'"
      "holds 8 ds s i (hd (fss ! i))" "readIndex s = 0" "writeIndex s = 0" by blast
    note pb = pick_bound [OF Some]
    have "unat (bs_cap s) = snd (ds ! i)" using r(3) mgr_invD(1) [OF assms] pb by (simp add: holds_def unat_of_nat32)
    then have "slice_size s = 0" "slice_remain s = int (snd (ds ! i))"
      using r(4,5) by (simp_all add: slice_size_def slice_remain_def uint_nat)
    moreover have "\<not> (\<exists>j < i. unat sz \<le> snd (ds ! j) \<and> 2 \<le> length (fss ! j))"
      using pick_least [OF Some] by (meson not_le)
    moreover have ex: "\<exists>i < length ds. unat sz \<le> snd (ds ! i) \<and> 2 \<le> length (fss ! i)" using pb by blast
    ultimately show ?thesis unfolding if_P [OF ex] using r(1-3) pb by blast
  qed
qed

text \<open>
  C30. Recycling a message returns every buffer of it. When a slice heads a chain of distinct
  buffers in use, linked through their headers, the loop of \<^verbatim>\<open>recycleBuffers\<close> ends without a
  panic, and exactly the buffers of the chain are added, in their order, to the lists they
  belong to.
\<close>

theorem recycle_chain_returns:
  assumes "mgr_inv ct bm ds fss m" and "out_ok ds fss (h # hs)" and "holds 8 ds s (fst h) (snd h)"
    and "is_chain m 0 (map (slot_addr_of ds) (h # hs))"
  shows "\<exists>m'. recycleBuffers bm s m = Some m' \<and> mgr_inv ct bm ds (give fss (h # hs)) m'"
proof -
  have "isFromShm s" using assms(3) by (simp add: holds_def)
  with recycle_chain_ok [OF assms] show ?thesis by (simp add: recycleBuffers_def)
qed


text \<open>Two buffers taken from the demonstration manager and linked.\<close>

lemma demo_chain:
  obtains bm m s1 s2 m1 m2 m3 where "createBufferManager demo_pairs ''b'' (replicate 400 0) 0 = Some (Inr (bm, m))"
    and "allocShmBuffer bm 5 m = Some (Inr s1, m1)" and "allocShmBuffer bm 9 m1 = Some (Inr s2, m2)"
    and "update m2 s1 (Some (offsetInShm s2)) = Some m3"
    and "mgr_inv 20 bm [(5, 8), (4, 16)] [[28, 56, 84, 112], [36, 72, 108]] m3"
    and "holds 8 [(5, 8), (4, 16)] s1 0 0" and "is_chain m3 0 [44, 220]"
proof -
  let ?ds = "[(5, 8), (4, 16)] :: (nat \<times> nat) list"
  obtain bm m where c: "createBufferManager demo_pairs ''b'' (replicate 400 0) 0 = Some (Inr (bm, m))"
    and i: "mgr_inv 20 bm ?ds [[0, 28, 56, 84, 112], [0, 36, 72, 108]] m" and len: "length m = 400" by (rule demo_buffers)
  from allocShmBuffer_ok(2) [OF i, of 5 0] obtain s1 m1 where
    1: "allocShmBuffer bm 5 m = Some (Inr s1, m1)" "mgr_inv 20 bm ?ds [[28, 56, 84, 112], [0, 36, 72, 108]] m1" "holds 8 ?ds s1 0 0"
    and u1: "unchanged_off (ctl_foot 8 {0}) m m1" by auto
  from allocShmBuffer_ok(2) [OF 1(2), of 9 1] obtain s2 m2 where
    2: "allocShmBuffer bm 9 m1 = Some (Inr s2, m2)" "mgr_inv 20 bm ?ds [[28, 56, 84, 112], [36, 72, 108]] m2" "holds 8 ?ds s2 1 0"
    and lk: "link_at m2 220 = None" and u2: "unchanged_off (ctl_foot (list_off 8 ?ds 1) {0}) m1 m2"
    by (auto simp: list_off_def)
  have len2: "length m2 = 400" using unchanged_off_length [OF u1] unchanged_off_length [OF u2] len by simp
  from holds_hdr [OF 2(2) 1(3)] obtain h where h: "bufferHeader s1 = Some h" "sl_base h = 44" "hdr_ok (length m2) h" by auto
  have o2: "offsetInShm s2 = 220" using 2(3) by (simp add: holds_def list_off_def)
  let ?m3 = "update_mem m2 44 (word_of_int (slice_size s1)) (bs_start s1) (Some 220)"
  have u: "update m2 s1 (Some (offsetInShm s2)) = Some ?m3" using update_ok [OF h(1,3)] h(2) o2 by simp
  have b: "44 + 20 \<le> length m2" using len2 by simp
  note uf = update_mem_facts [OF b, of "word_of_int (slice_size s1)" "bs_start s1" "Some 220"]
  have "mgr_inv 20 bm ?ds [[28, 56, 84, 112], [36, 72, 108]] ?m3"
    by (rule mgr_inv_slot_frame [OF 2(2), of 0 0])
      (auto simp: slot_def list_off_def intro: unchanged_off_mono [OF uf(1)])
  note inv3 = this
  have "link_at ?m3 220 = None" using link_at_frame [OF uf(1), of 220] len2 lk by (simp add: disjoint_iff)
  then have "is_chain ?m3 0 [44, 220]" using uf(4) by simp
  from that [OF c 1(1) 2(1) u inv3 1(3) this] show thesis .
qed

theorem alloc_best_fit_witness:
  "\<exists>bm m s m'. createBufferManager demo_pairs ''b'' (replicate 400 0) 0 = Some (Inr (bm, m)) \<and>
    allocShmBuffer bm 9 m = Some (Inr s, m') \<and> holds 8 [(5, 8), (4, 16)] s 1 0 \<and> slice_remain s = 16 \<and>
    allocShmBuffer bm 17 m = Some (Inl ErrNoMoreBuffer, m)"
proof -
  obtain bm m where c: "createBufferManager demo_pairs ''b'' (replicate 400 0) 0 = Some (Inr (bm, m))"
    and i: "mgr_inv 20 bm [(5, 8), (4, 16)] [[0, 28, 56, 84, 112], [0, 36, 72, 108]] m" by (rule demo_buffers)
  let ?ds = "[(5, 8), (4, 16)] :: (nat \<times> nat) list" and ?fss = "[[0, 28, 56, 84, 112], [0, 36, 72, 108]] :: nat list list"
  have two: "k < length ?ds \<longleftrightarrow> k = 0 \<or> k = 1" for k by auto
  have ex: "\<exists>i < length ?ds. unat (9 :: u32) \<le> snd (?ds ! i) \<and> 2 \<le> length (?fss ! i)" by (rule exI [of _ 1]) simp
  from alloc_best_fit [OF i, of 9] obtain k s m' where k: "k < length ?ds" "unat (9 :: u32) \<le> snd (?ds ! k)"
    and r: "allocShmBuffer bm 9 m = Some (Inr s, m')" "holds 8 ?ds s k (hd (?fss ! k))" "slice_remain s = int (snd (?ds ! k))"
    unfolding if_P [OF ex] by blast
  have "k = 1" using k unfolding two by auto
  with r(2,3) have h: "holds 8 ?ds s 1 0" "slice_remain s = 16" by simp_all
  have no: "\<not> (\<exists>i < length ?ds. unat (17 :: u32) \<le> snd (?ds ! i) \<and> 2 \<le> length (?fss ! i))"
    unfolding two by (auto simp: nth_Cons')
  from alloc_best_fit [OF i, of 17] have "allocShmBuffer bm 17 m = Some (Inl ErrNoMoreBuffer, m)" unfolding if_not_P [OF no] .
  with c r(1) h show ?thesis by (intro exI conjI)
qed

theorem recycle_chain_returns_witness:
  "\<exists>bm m s1 s2 m1 m2 m3 m4. createBufferManager demo_pairs ''b'' (replicate 400 0) 0 = Some (Inr (bm, m)) \<and>
    allocShmBuffer bm 5 m = Some (Inr s1, m1) \<and> allocShmBuffer bm 9 m1 = Some (Inr s2, m2) \<and>
    update m2 s1 (Some (offsetInShm s2)) = Some m3 \<and> recycleBuffers bm s1 m3 = Some m4 \<and>
    mgr_inv 20 bm [(5, 8), (4, 16)] [[28, 56, 84, 112, 0], [36, 72, 108, 0]] m4"
proof -
  let ?ds = "[(5, 8), (4, 16)] :: (nat \<times> nat) list"
  obtain bm m s1 s2 m1 m2 m3 where d: "createBufferManager demo_pairs ''b'' (replicate 400 0) 0 = Some (Inr (bm, m))"
    "allocShmBuffer bm 5 m = Some (Inr s1, m1)" "allocShmBuffer bm 9 m1 = Some (Inr s2, m2)"
    "update m2 s1 (Some (offsetInShm s2)) = Some m3" and
    i: "mgr_inv 20 bm ?ds [[28, 56, 84, 112], [36, 72, 108]] m3" "holds 8 ?ds s1 0 0" "is_chain m3 0 [44, 220]"
    by (rule demo_chain)
  have o: "out_ok ?ds [[28, 56, 84, 112], [36, 72, 108]] [(0, 0), (1, 0)]" by (simp add: out_ok_def slot_def)
  have a: "map (slot_addr_of ?ds) [(0, 0), (1, 0)] = [44, 220]" by (simp add: list_off_def)
  have h: "holds 8 ?ds s1 (fst (0, 0)) (snd (0, 0))" using i(2) by simp
  obtain m4 where r: "recycleBuffers bm s1 m3 = Some m4"
    and "mgr_inv 20 bm ?ds (give [[28, 56, 84, 112], [36, 72, 108]] [(0, 0), (1, 0)]) m4"
    using recycle_chain_returns [OF i(1) o h] i(3) unfolding a by blast
  then have "mgr_inv 20 bm ?ds [[28, 56, 84, 112, 0], [36, 72, 108, 0]] m4" by simp
  with d r show ?thesis by (intro exI conjI)
qed


lemma data_copy_shm: "data_copy m (ShmData g) lo src = Some (n, m', d') \<Longrightarrow> d' = ShmData g"
  by (auto simp: data_copy_def Let_def split: if_splits)

lemma slice_append_shm:
  assumes "bs_data s = ShmData g" and "slice_append m s src = Some (n, m', s')"
  shows "bs_data s' = ShmData g"
  using assms data_copy_shm [of m g "writeIndex s" src]
  by (auto simp: slice_append_def split: if_splits bind_splits)

text \<open>Filling a buffer in use leaves the manager alone.\<close>

lemma holds_wf:
  assumes "mgr_inv ct bm ds fss m" and "holds 8 ds s i x" and "0 \<le> readIndex s" and "readIndex s \<le> writeIndex s"
    and "writeIndex s \<le> int (snd (ds ! i))"
  shows "slice_wf (length m) s"
proof -
  have i: "i < length ds" "slot (fst (ds ! i)) (snd (ds ! i)) x" "bs_cap s = word_of_nat (snd (ds ! i))"
    using assms(2) by (simp_all add: holds_def)
  have "unat (bs_cap s) = snd (ds ! i)" using i(3) mgr_invD(1) [OF assms(1) i(1)] by (simp add: unat_of_nat32)
  moreover have "slot_addr_of ds (i, x) + (snd (ds ! i) + 20) \<le> length m"
    using slot_addr_of_lt(1) [OF assms(1), of "(i, x)"] i by simp
  ultimately show ?thesis using assms(2-5) by (auto simp: slice_wf_def data_wf_def holds_def)
qed

lemma append_held:
  assumes inv: "mgr_inv ct bm ds fss m" and h: "holds 8 ds s i x" and x: "x \<notin> set (fss ! i)"
    and wf: "slice_wf (length m) s" and ne: "src \<noteq> []"
  obtains m' s' where "slice_append m s src = Some (min (nat (slice_remain s)) (length src), m', s')"
    and "slice_wf (length m) s'" and "content m' s' = content m s @ take (nat (slice_remain s)) src"
    and "mgr_inv ct bm ds fss m'" and "holds 8 ds s' i x"
    and "unchanged_off {slot_addr_of ds (i, x) + 20..<slot_addr_of ds (i, x) + (snd (ds ! i) + 20)} m m'"
    and "s' = s\<lparr>writeIndex := writeIndex s + int (min (nat (slice_remain s)) (length src))\<rparr>"
proof -
  have i: "i < length ds" "slot (fst (ds ! i)) (snd (ds ! i)) x" using h by (simp_all add: holds_def)
  obtain g where g: "bs_data s = ShmData g" "sl_base g = slot_addr_of ds (i, x) + 20" "sl_len g = snd (ds ! i)"
    using h by (auto simp: holds_def)
  from slice_append_ok [OF wf ne] obtain m' s' where
    a: "slice_append m s src = Some (min (nat (slice_remain s)) (length src), m', s')" "slice_wf (length m) s'"
      "content m' s' = content m s @ take (nat (slice_remain s)) src"
    and u: "unchanged_off (data_foot (bs_data s)) m m'"
    and s': "s' = s\<lparr>bs_data := bs_data s', writeIndex := writeIndex s + int (min (nat (slice_remain s)) (length src))\<rparr>" .
  have "bs_data s' = bs_data s" using slice_append_shm [OF g(1) a(1)] g(1) by simp
  with s' have e: "s' = s\<lparr>writeIndex := writeIndex s + int (min (nat (slice_remain s)) (length src))\<rparr>" by simp
  have u': "unchanged_off {slot_addr_of ds (i, x) + 20..<slot_addr_of ds (i, x) + (snd (ds ! i) + 20)} m m'"
    by (rule unchanged_off_mono [OF u]) (auto simp: data_foot_def g)
  have "mgr_inv ct bm ds fss m'"
    by (rule mgr_inv_slot_frame [OF inv i x]) (rule unchanged_off_mono [OF u'], simp)
  moreover have "holds 8 ds s' i x" using h by (simp add: e holds_def)
  ultimately show thesis using that [OF a] u' e by blast
qed

text \<open>
  C28. Handing a buffer to the peer keeps its content. A slice a writer has filled from its
  start is published with \<^verbatim>\<open>update\<close>; the slice that \<^verbatim>\<open>readBufferSlice\<close> makes of its offset
  then shows exactly the bytes written, its header links to the next buffer named by the
  writer, and the free lists are untouched.
\<close>

theorem handoff_content:
  assumes "mgr_inv ct bm ds fss m" and "holds 8 ds s i x" and "x \<notin> set (fss ! i)"
    and "slice_wf (length m) s" and "readIndex s = uint (bs_start s)"
  shows "\<exists>m' s'. update m s nxt = Some m' \<and> readBufferSlice m' (offsetInShm s) = Some (Inr s') \<and>
    content m' s' = content m s \<and> slice_wf (length m') s' \<and> holds 8 ds s' i x \<and>
    link_at m' (list_off 8 ds i + 36 + x) = (case nxt of None \<Rightarrow> link_at m (list_off 8 ds i + 36 + x) | Some off \<Rightarrow> Some off) \<and>
    mgr_inv ct bm ds fss m'"
proof -
  obtain a where a: "a = list_off 8 ds i + 36 + x" by simp
  let ?C = "snd (ds ! i)"
  have i: "i < length ds" "slot (fst (ds ! i)) ?C x" "offsetInShm s = word_of_nat a" "bs_cap s = word_of_nat ?C"
    using assms(2) by (simp_all add: holds_def a)
  obtain g where g: "bs_data s = ShmData g" "sl_base g = a + 20" "sl_len g = ?C" using assms(2) by (auto simp: holds_def a)
  from holds_hdr [OF assms(1,2)] obtain h where h: "bufferHeader s = Some h" "sl_base h = a" "hdr_ok (length m) h"
    unfolding a .
  note d = mgr_invD [OF assms(1) i(1)]
  have b: "a + (?C + 20) \<le> length m" using slot_addr_of_lt(1) [OF assms(1), of "(i, x)"] i a by simp
  let ?m = "update_mem m a (word_of_int (slice_size s)) (bs_start s) nxt"
  have ba: "a + 20 \<le> length m" using b by simp
  note uf = update_mem_facts [OF ba, of "word_of_int (slice_size s)" "bs_start s" nxt]
  have up: "update m s nxt = Some ?m" using update_ok [OF h(1,3), of nxt] h(2) by simp
  have u: "unchanged_off {a + 4..<a + (?C + 20)} m ?m" by (rule unchanged_off_mono [OF uf(1)]) auto
  have inv': "mgr_inv ct bm ds fss ?m"
    by (rule mgr_inv_slot_frame [OF assms(1) i(1,2) assms(3)]) (use u a in simp)
  from readBufferSlice_ok [OF inv' i(1,2)] obtain s' where
    r: "readBufferSlice ?m (word_of_nat a) = Some (Inr s')" and hs: "holds 8 ds s' i x" and st: "bs_start s' = bs_start s"
    and ri: "readIndex s' = uint (bs_start s)"
    and wi: "writeIndex s' = uint (bs_start s + word_of_int (slice_size s) :: u32)"
    unfolding a [symmetric] uf(2,3) .
  have "uint (bs_start s) + slice_size s = writeIndex s" using assms(5) by (simp add: slice_size_def)
  then have "bs_start s + word_of_int (slice_size s) = (word_of_int (writeIndex s) :: u32)"
    by (metis of_int_add word_of_int_uint)
  moreover have "unat (bs_cap s) < 2 ^ 32" using unsigned_less [of "bs_cap s"] by simp
  then have "0 \<le> writeIndex s" "writeIndex s < 2 ^ 32" using assms(4) unfolding slice_wf_def by auto
  ultimately have wi': "writeIndex s' = writeIndex s"
    using wi by (simp add: uint_word_of_int_eq take_bit_int_eq_self)
  have ri': "readIndex s' = readIndex s" using ri assms(5) by simp
  obtain g' where g': "bs_data s' = ShmData g'" "sl_base g' = a + 20" "sl_len g' = ?C" "?C \<le> sl_cap g'" "bs_cap s' = bs_cap s"
    using hs i(4) by (auto simp: holds_def a)
  have cf: "content ?m s = content m s"
    by (rule content_frame [OF assms(4) uf(1)]) (auto simp: g data_foot_def)
  have "content ?m s' = content ?m s"
    using wi' ri' g g' by (simp add: content_def slice_size_def backing_def)
  moreover have "unat (bs_cap s) = ?C" using i(4) d(1) by (simp add: unat_of_nat32)
  then have "slice_wf (length ?m) s'"
    using assms(4) wi' ri' g' b unchanged_off_length [OF u] by (simp add: slice_wf_def data_wf_def)
  ultimately show ?thesis
    using up r i(3) cf hs inv' uf(4) unfolding a [symmetric] by auto
qed

theorem handoff_content_witness:
  "\<exists>bm m s m1 s1 m2 m3 s'. createBufferManager demo_pairs ''b'' (replicate 400 0) 0 = Some (Inr (bm, m)) \<and>
    allocShmBuffer bm 5 m = Some (Inr s, m1) \<and> slice_append m1 s [104, 105] = Some (2, m2, s1) \<and>
    update m2 s1 None = Some m3 \<and> readBufferSlice m3 (offsetInShm s1) = Some (Inr s') \<and> content m3 s' = [104, 105]"
proof -
  let ?ds = "[(5, 8), (4, 16)] :: (nat \<times> nat) list" and ?fss = "[[28, 56, 84, 112], [0, 36, 72, 108]] :: nat list list"
  obtain bm m where c: "createBufferManager demo_pairs ''b'' (replicate 400 0) 0 = Some (Inr (bm, m))"
    and i: "mgr_inv 20 bm ?ds [[0, 28, 56, 84, 112], [0, 36, 72, 108]] m" by (rule demo_buffers)
  from allocShmBuffer_ok(2) [OF i, of 5 0] obtain s m1 where
    1: "allocShmBuffer bm 5 m = Some (Inr s, m1)" "mgr_inv 20 bm ?ds ?fss m1" "holds 8 ?ds s 0 0"
    and z: "readIndex s = 0" "writeIndex s = 0" "bs_start s = 0" by auto
  have wf: "slice_wf (length m1) s" by (rule holds_wf [OF 1(2,3)]) (simp_all add: z)
  have cap: "bs_cap s = 8" using 1(3) by (simp add: holds_def)
  have rm: "slice_remain s = 8" by (simp add: slice_remain_def z cap)
  have x: "0 \<notin> set (?fss ! 0)" by simp
  have ne: "[104, 105 :: u8] \<noteq> []" by simp
  obtain m2 s1 where
    2: "slice_append m1 s [104, 105] = Some (2, m2, s1)" "slice_wf (length m1) s1" "content m2 s1 = content m1 s @ [104, 105]"
    "mgr_inv 20 bm ?ds ?fss m2" "holds 8 ?ds s1 0 0" "s1 = s\<lparr>writeIndex := writeIndex s + 2\<rparr>"
    and u: "unchanged_off {slot_addr_of ?ds (0, 0) + 20..<slot_addr_of ?ds (0, 0) + (snd (?ds ! 0) + 20)} m1 m2"
    by (rule append_held [OF 1(2,3) x wf ne]) (simp add: rm)
  have e: "content m1 s = []" using z by (simp add: content_def slice_size_def load_def)
  have "slice_wf (length m2) s1" using 2(2) unchanged_off_length [OF u] by simp
  moreover have "readIndex s1 = uint (bs_start s1)" by (simp add: 2(6) z)
  ultimately obtain m3 s' where 3: "update m2 s1 None = Some m3" "readBufferSlice m3 (offsetInShm s1) = Some (Inr s')"
    "content m3 s' = content m2 s1"
    using handoff_content [OF 2(4,5) x, of None] by blast
  then have "content m3 s' = [104, 105]" by (simp add: 2(3) e)
  with c 1(1) 2(1) 3(1,2) show ?thesis by (intro exI conjI)
qed

end
