(* ===== verification/Slice_List.thy ===== *)
theory Slice_List
  imports Buffer_Slice
begin

text \<open>
  The singly linked list of slices of \<^verbatim>\<open>buffer_slice.go\<close>, twice: over an explicit heap of
  nodes, statement by statement as in the source, and as a plain list with the position of the
  write slice. The second form is the one the linked buffer is modelled over; the refinement
  lemmas at the end justify it.
\<close>

subsection \<open>Nodes in a heap\<close>

record slice_node = bufferSlice +
  nextSlice :: "nat option"

type_synonym slice_heap = "nat \<rightharpoonup> slice_node"

record sliceList =
  frontSlice :: "nat option"
  writeSlice :: "nat option"
  backSlice :: "nat option"
  sl_count :: int

definition newSliceList :: sliceList where
  "newSliceList = \<lparr>frontSlice = None, writeSlice = None, backSlice = None, sl_count = 0\<rparr>"

definition pushBack :: "slice_heap \<Rightarrow> sliceList \<Rightarrow> nat option \<Rightarrow> (slice_heap \<times> sliceList) option" where
  "pushBack h l s = (case s of
     None \<Rightarrow> Some (h, l)
   | Some p \<Rightarrow> do {
       (h', l') \<leftarrow> (if sl_count l > 0
         then do { b \<leftarrow> backSlice l; n \<leftarrow> h b; Some (h(b \<mapsto> n\<lparr>nextSlice := Some p\<rparr>), l) }
         else Some (h, l\<lparr>frontSlice := Some p\<rparr>));
       Some (h', l'\<lparr>backSlice := Some p, sl_count := sl_count l' + 1\<rparr>)
     })"

definition popFront :: "slice_heap \<Rightarrow> sliceList \<Rightarrow> (nat option \<times> sliceList) option" where
  "popFront h l = do {
     let r = frontSlice l;
     l' \<leftarrow> (if sl_count l > 0
       then do { f \<leftarrow> frontSlice l; n \<leftarrow> h f; Some (l\<lparr>sl_count := sl_count l - 1, frontSlice := nextSlice n\<rparr>) }
       else Some l);
     Some (r, if sl_count l' = 0 then l'\<lparr>frontSlice := None, backSlice := None\<rparr> else l')
   }"

partial_function (option) count_nodes :: "slice_heap \<Rightarrow> nat option \<Rightarrow> int \<Rightarrow> int option" where
  "count_nodes h s k = (case s of None \<Rightarrow> Some k | Some p \<Rightarrow> do { n \<leftarrow> h p; count_nodes h (nextSlice n) (k + 1) })"

definition splitFromWrite :: "slice_heap \<Rightarrow> sliceList \<Rightarrow> (nat option \<times> slice_heap \<times> sliceList) option" where
  "splitFromWrite h l = do {
     w \<leftarrow> writeSlice l;
     n \<leftarrow> h w;
     let nextListHead = nextSlice n;
     let h' = h(w \<mapsto> n\<lparr>nextSlice := None\<rparr>);
     nextListSize \<leftarrow> count_nodes h' nextListHead 0;
     Some (nextListHead, h', l\<lparr>backSlice := Some w, sl_count := sl_count l - nextListSize\<rparr>)
   }"

subsection \<open>Lists with a write position\<close>

text \<open>\<open>WGone\<close> is a write pointer to a slice that has left the list: no operation of the model
  looks through it.\<close>

datatype wpos = WNil | WAt nat | WGone

record slist =
  items :: "bufferSlice list"
  wslice :: wpos

definition empty_slist :: slist where
  "empty_slist = \<lparr>items = [], wslice = WNil\<rparr>"

definition push_back :: "bufferSlice \<Rightarrow> slist \<Rightarrow> slist" where
  "push_back s l = l\<lparr>items := items l @ [s]\<rparr>"

definition shift_w :: "wpos \<Rightarrow> wpos" where
  "shift_w w = (case w of WAt 0 \<Rightarrow> WGone | WAt (Suc k) \<Rightarrow> WAt k | _ \<Rightarrow> w)"

definition pop_front :: "slist \<Rightarrow> bufferSlice option \<times> slist" where
  "pop_front l = (case items l of
     [] \<Rightarrow> (None, l)
   | s # ss \<Rightarrow> (Some s, l\<lparr>items := ss, wslice := shift_w (wslice l)\<rparr>))"

definition split_from_write :: "slist \<Rightarrow> (bufferSlice list \<times> slist) option" where
  "split_from_write l = (case wslice l of
     WAt k \<Rightarrow> Some (drop (Suc k) (items l), l\<lparr>items := take (Suc k) (items l)\<rparr>)
   | _ \<Rightarrow> None)"

subsection \<open>Refinement\<close>

fun path :: "slice_heap \<Rightarrow> nat option \<Rightarrow> nat list \<Rightarrow> nat option \<Rightarrow> bool" where
  "path h p [] q \<longleftrightarrow> p = q"
| "path h p (a # as) q \<longleftrightarrow> p = Some a \<and> (\<exists>n. h a = Some n \<and> path h (nextSlice n) as q)"

text \<open>The list \<open>l\<close> over the heap \<open>h\<close> consists of the nodes \<open>ps\<close>; \<open>q\<close> is what the last of them points to.\<close>

definition nodes_of :: "slice_heap \<Rightarrow> sliceList \<Rightarrow> nat list \<Rightarrow> nat option \<Rightarrow> bool" where
  "nodes_of h l ps q \<longleftrightarrow> distinct ps \<and> sl_count l = int (length ps) \<and>
     (if ps = [] then frontSlice l = None \<and> backSlice l = None \<and> q = None
      else path h (frontSlice l) ps q \<and> backSlice l = Some (last ps))"

definition slice_at :: "slice_heap \<Rightarrow> nat \<Rightarrow> bufferSlice" where
  "slice_at h p = bufferSlice.truncate (the (h p))"

fun pos :: "nat \<Rightarrow> nat list \<Rightarrow> nat option" where
  "pos p [] = None"
| "pos p (a # as) = (if p = a then Some 0 else map_option Suc (pos p as))"

definition abs_w :: "nat list \<Rightarrow> nat option \<Rightarrow> wpos" where
  "abs_w ps w = (case w of None \<Rightarrow> WNil | Some p \<Rightarrow> (case pos p ps of None \<Rightarrow> WGone | Some k \<Rightarrow> WAt k))"

definition abs_list :: "slice_heap \<Rightarrow> sliceList \<Rightarrow> nat list \<Rightarrow> slist" where
  "abs_list h l ps = \<lparr>items = map (slice_at h) ps, wslice = abs_w ps (writeSlice l)\<rparr>"

lemma path_append: "path h p (as @ bs) q \<longleftrightarrow> (\<exists>r. path h p as r \<and> path h r bs q)"
  by (induction as arbitrary: p) auto

lemma path_upd: "a \<notin> set as \<Longrightarrow> path (h(a \<mapsto> n)) p as q \<longleftrightarrow> path h p as q"
  by (induction as arbitrary: p) auto

lemma pos_None: "pos p ps = None \<longleftrightarrow> p \<notin> set ps"
  by (induction ps) auto

lemma pos_Some: "pos p ps = Some k \<Longrightarrow> k < length ps \<and> ps ! k = p"
  by (induction ps arbitrary: k) (auto split: if_splits)

lemma pos_append: "pos p (as @ bs) = (case pos p as of Some k \<Rightarrow> Some k | None \<Rightarrow> map_option (\<lambda>k. k + length as) (pos p bs))"
  by (induction as) (auto split: option.splits simp: option.map_comp comp_def option.map_ident)

lemma pos_take: "distinct ps \<Longrightarrow> k < length ps \<Longrightarrow> pos (ps ! k) (take (Suc k) ps) = Some k"
proof (induction ps arbitrary: k)
  case (Cons a ps)
  then show ?case by (cases k) auto
qed simp

lemma slice_at_link: "h b = Some n \<Longrightarrow> slice_at (h(b \<mapsto> n\<lparr>nextSlice := x\<rparr>)) p = slice_at h p"
  by (cases "p = b") (auto simp: slice_at_def bufferSlice.truncate_def)

lemma pushBack_refines:
  assumes "nodes_of h l ps q" and "h p = Some n" and "p \<notin> set ps" and "writeSlice l \<noteq> Some p"
  shows "\<exists>h' l'. pushBack h l (Some p) = Some (h', l') \<and> nodes_of h' l' (ps @ [p]) (nextSlice n) \<and>
    abs_list h' l' (ps @ [p]) = push_back (bufferSlice.truncate n) (abs_list h l ps)"
proof (cases "ps = []")
  case True
  with assms show ?thesis
    by (auto simp: pushBack_def nodes_of_def abs_list_def push_back_def slice_at_def abs_w_def split: option.splits)
next
  case False
  then obtain qs b where ps: "ps = qs @ [b]" by (metis rev_exhaust)
  from assms(1) ps obtain nb where nb: "h b = Some nb" and pt: "path h (frontSlice l) qs (Some b)"
    and bk: "backSlice l = Some b" and ct: "sl_count l = int (length ps)" and d: "distinct ps"
    by (auto simp: nodes_of_def path_append)
  let ?h = "h(b \<mapsto> nb\<lparr>nextSlice := Some p\<rparr>)"
  let ?l = "l\<lparr>backSlice := Some p, sl_count := sl_count l + 1\<rparr>"
  have pb: "pushBack h l (Some p) = Some (?h, ?l)" using ct ps nb bk by (simp add: pushBack_def)
  have "b \<notin> set qs" "p \<noteq> b" using d assms(3) ps by auto
  then have "path ?h (frontSlice l) (ps @ [p]) (nextSlice n)"
    using pt assms(2) by (auto simp: ps path_append path_upd)
  then have "nodes_of ?h ?l (ps @ [p]) (nextSlice n)"
    using d assms(3) ct by (simp add: nodes_of_def)
  moreover have "slice_at ?h p = bufferSlice.truncate n"
    using slice_at_link [of h b nb "Some p" p] nb assms(2) by (simp add: slice_at_def)
  then have "abs_list ?h ?l (ps @ [p]) = push_back (bufferSlice.truncate n) (abs_list h l ps)"
    using slice_at_link [of h b nb "Some p"] nb assms(4)
    by (auto simp: abs_list_def push_back_def abs_w_def pos_append split: option.splits)
  ultimately show ?thesis using pb by blast
qed

lemma popFront_refines:
  assumes "nodes_of h l (p # ps) q"
  shows "\<exists>l'. popFront h l = Some (Some p, l') \<and> nodes_of h l' ps (if ps = [] then None else q) \<and>
    pop_front (abs_list h l (p # ps)) = (Some (slice_at h p), abs_list h l' ps)"
proof -
  from assms obtain n where n: "frontSlice l = Some p" "h p = Some n" "path h (nextSlice n) ps q" "p \<notin> set ps" "distinct ps"
    and c: "sl_count l = 1 + int (length ps)" and b: "backSlice l = Some (last (p # ps))"
    by (auto simp: nodes_of_def)
  have w: "shift_w (abs_w (p # ps) x) = abs_w ps x" for x
    using n(4) pos_None [of p ps] by (auto simp: abs_w_def shift_w_def split: option.splits)
  show ?thesis
    using n c b w by (auto simp: popFront_def nodes_of_def pop_front_def abs_list_def)
qed

lemma popFront_empty_refines:
  assumes "nodes_of h l [] q"
  shows "popFront h l = Some (None, l) \<and> pop_front (abs_list h l []) = (None, abs_list h l [])"
  using assms by (simp add: popFront_def nodes_of_def pop_front_def abs_list_def)

lemma count_nodes_path: "path h p as None \<Longrightarrow> count_nodes h p k = Some (k + int (length as))"
proof (induction as arbitrary: p k)
  case Nil
  then show ?case by (subst count_nodes.simps) simp
next
  case (Cons a as)
  then show ?case by (subst count_nodes.simps) auto
qed

lemma splitFromWrite_refines:
  assumes r: "nodes_of h l ps None" and w: "writeSlice l = Some p" and k: "pos p ps = Some k"
  shows "\<exists>h' l'. splitFromWrite h l = Some (if Suc k < length ps then Some (ps ! Suc k) else None, h', l') \<and>
    nodes_of h' l' (take (Suc k) ps) None \<and> path h' (if Suc k < length ps then Some (ps ! Suc k) else None) (drop (Suc k) ps) None \<and>
    split_from_write (abs_list h l ps) = Some (map (slice_at h') (drop (Suc k) ps), abs_list h' l' (take (Suc k) ps))"
proof -
  note kb = pos_Some [OF k]
  have d: "distinct ps" "ps \<noteq> []" using r kb by (auto simp: nodes_of_def)
  let ?as = "take k ps" and ?bs = "drop (Suc k) ps"
  have ps: "ps = ?as @ p # ?bs" using kb id_take_nth_drop [of k ps] by simp
  have tk: "take (Suc k) ps = ?as @ [p]" using kb by (simp add: take_Suc_conv_app_nth)
  from r d ps have "path h (frontSlice l) (?as @ p # ?bs) None" by (simp add: nodes_of_def)
  then obtain n where n: "path h (frontSlice l) ?as (Some p)" "h p = Some n" "path h (nextSlice n) ?bs None"
    by (auto simp: path_append)
  have nin: "p \<notin> set ?as" "p \<notin> set ?bs" using d ps by (metis distinct_append distinct.simps(2) not_distinct_conv_prefix, metis distinct_append distinct.simps(2))
  have hd: "nextSlice n = (if Suc k < length ps then Some (ps ! Suc k) else None)"
    using n(3) by (cases "Suc k < length ps") (auto simp: Cons_nth_drop_Suc [symmetric])
  let ?h = "h(p \<mapsto> n\<lparr>nextSlice := None\<rparr>)"
  have pb: "path ?h (nextSlice n) ?bs None" using n(3) nin by (simp add: path_upd)
  let ?l = "l\<lparr>backSlice := Some p, sl_count := sl_count l - int (length ?bs)\<rparr>"
  have sp: "splitFromWrite h l = Some (nextSlice n, ?h, ?l)"
    using w n(2) count_nodes_path [OF pb, of 0] by (simp add: splitFromWrite_def)
  have "path ?h (frontSlice l) (?as @ [p]) None" using n(1,2) nin by (auto simp: path_append path_upd)
  moreover have "distinct (?as @ [p])" using distinct_take [OF d(1), of "Suc k"] tk by simp
  moreover have "sl_count l = int (length ps)" using r by (simp add: nodes_of_def)
  ultimately have "nodes_of ?h ?l (take (Suc k) ps) None"
    using kb by (simp add: nodes_of_def tk of_nat_diff)
  moreover have "split_from_write (abs_list h l ps) = Some (map (slice_at ?h) ?bs, abs_list ?h ?l (take (Suc k) ps))"
    using k w pos_take [OF d(1)] kb slice_at_link [of h p n None] n(2)
    by (auto simp: split_from_write_def abs_list_def abs_w_def drop_map take_map)
  ultimately show ?thesis using sp pb unfolding hd [symmetric] by blast
qed

text \<open>Sequences of operations, over the heap and over lists. A new slice gets a fresh node.\<close>

datatype sl_op = PushNew bufferSlice | PopNode | MarkBack | SplitAtWrite

type_synonym ptr_state = "slice_heap \<times> sliceList \<times> nat"

definition new_node :: "bufferSlice \<Rightarrow> slice_node" where
  "new_node s = bufferSlice.extend s (slice_node.fields None)"

fun ptr_step :: "sl_op \<Rightarrow> ptr_state \<Rightarrow> (bufferSlice list \<times> ptr_state) option" where
  "ptr_step (PushNew s) (h, l, a) = do {
     (h', l') \<leftarrow> pushBack (h(a \<mapsto> new_node s)) l (Some a);
     Some ([], h', l', Suc a)
   }"
| "ptr_step PopNode (h, l, a) = do {
     (r, l') \<leftarrow> popFront h l;
     Some (case r of None \<Rightarrow> [] | Some p \<Rightarrow> [slice_at h p], h, l', a)
   }"
| "ptr_step MarkBack (h, l, a) = Some ([], h, l\<lparr>writeSlice := backSlice l\<rparr>, a)"
| "ptr_step SplitAtWrite (h, l, a) = do { (_, h', l') \<leftarrow> splitFromWrite h l; Some ([], h', l', a) }"

fun list_step :: "sl_op \<Rightarrow> slist \<Rightarrow> (bufferSlice list \<times> slist) option" where
  "list_step (PushNew s) l = Some ([], push_back s l)"
| "list_step PopNode l = (let (r, l') = pop_front l in Some (case r of None \<Rightarrow> [] | Some s \<Rightarrow> [s], l'))"
| "list_step MarkBack l = Some ([], l\<lparr>wslice := if items l = [] then WNil else WAt (length (items l) - 1)\<rparr>)"
| "list_step SplitAtWrite l = do { (_, l') \<leftarrow> split_from_write l; Some ([], l') }"

fun run_steps :: "('o \<Rightarrow> 's \<Rightarrow> ('r list \<times> 's) option) \<Rightarrow> 'o list \<Rightarrow> 's \<Rightarrow> ('r list \<times> 's) option" where
  "run_steps f [] s = Some ([], s)"
| "run_steps f (x # xs) s = do { (r, s1) \<leftarrow> f x s; (rs, s2) \<leftarrow> run_steps f xs s1; Some (r @ rs, s2) }"

definition ptr_rel :: "ptr_state \<Rightarrow> slist \<Rightarrow> bool" where
  "ptr_rel st sl \<longleftrightarrow> (case st of (h, l, a) \<Rightarrow> \<exists>ps. nodes_of h l ps None \<and> sl = abs_list h l ps \<and>
     (\<forall>p \<in> set ps. p < a) \<and> (\<forall>p. writeSlice l = Some p \<longrightarrow> p < a))"

lemma new_node [simp]: "bufferSlice.truncate (new_node s) = s" "nextSlice (new_node s) = None"
  by (simp_all add: new_node_def bufferSlice.defs slice_node.defs)

lemma pop_nodes_w: "popFront h l = Some (r, l') \<Longrightarrow> writeSlice l' = writeSlice l"
  by (auto simp: popFront_def Let_def split: if_splits bind_splits)

lemma pos_last: "distinct ps \<Longrightarrow> ps \<noteq> [] \<Longrightarrow> pos (last ps) ps = Some (length ps - 1)"
  using pos_take [of ps "length ps - 1"] by (simp add: last_conv_nth)

lemma ptr_step_refines:
  assumes "ptr_rel st sl" and "list_step x sl = Some (r, sl')"
  shows "\<exists>st'. ptr_step x st = Some (r, st') \<and> ptr_rel st' sl'"
proof -
  obtain h l a where st: "st = (h, l, a)" by (cases st) auto
  from assms(1) st obtain ps where rp: "nodes_of h l ps None" "sl = abs_list h l ps" "\<forall>p \<in> set ps. p < a"
    "\<forall>p. writeSlice l = Some p \<longrightarrow> p < a" by (auto simp: ptr_rel_def)
  show ?thesis
  proof (cases x)
    case (PushNew s)
    let ?h = "h(a \<mapsto> new_node s)"
    have ps: "a \<notin> set ps" "writeSlice l \<noteq> Some a" using rp(3,4) by auto
    have n: "nodes_of ?h l ps None" using rp(1) ps(1) by (auto simp: nodes_of_def path_upd)
    have "abs_list ?h l ps = abs_list h l ps" using ps(1) by (auto simp: abs_list_def slice_at_def)
    with pushBack_refines [OF n _ ps, of "new_node s"] obtain h' l' where
      "pushBack ?h l (Some a) = Some (h', l')" "nodes_of h' l' (ps @ [a]) None" "abs_list h' l' (ps @ [a]) = push_back s (abs_list h l ps)"
      by auto
    moreover from this(1) have "writeSlice l' = writeSlice l"
      by (auto simp: pushBack_def split: if_splits bind_splits)
    ultimately show ?thesis
      using assms(2) rp PushNew st by (auto simp: ptr_rel_def less_Suc_eq intro!: exI [of _ "ps @ [a]"])
  next
    case PopNode
    show ?thesis
    proof (cases ps)
      case Nil
      with popFront_empty_refines [of h l None] rp assms(2) PopNode st show ?thesis
        by (auto simp: ptr_rel_def intro!: exI [of _ "[]"])
    next
      case (Cons p qs)
      from popFront_refines [of h l p qs None] rp(1) Cons obtain l' where
        "popFront h l = Some (Some p, l')" "nodes_of h l' qs None" "pop_front (abs_list h l (p # qs)) = (Some (slice_at h p), abs_list h l' qs)"
        by (auto split: if_splits)
      with pop_nodes_w [of h l "Some p" l'] rp assms(2) PopNode st Cons show ?thesis
        by (auto simp: ptr_rel_def intro!: exI [of _ qs])
    qed
  next
    case MarkBack
    have "abs_list h (l\<lparr>writeSlice := backSlice l\<rparr>) ps = sl'"
      using rp(1,2) assms(2) MarkBack pos_last [of ps] by (auto simp: abs_list_def abs_w_def nodes_of_def split: if_splits)
    then show ?thesis
      using rp(1,3) MarkBack st assms(2) by (auto simp: ptr_rel_def nodes_of_def intro!: exI [of _ ps] split: if_splits)
  next
    case SplitAtWrite
    with assms(2) rp(2) obtain p k where w: "writeSlice l = Some p" "pos p ps = Some k"
      by (auto simp: split_from_write_def abs_list_def abs_w_def split: wpos.splits option.splits bind_splits)
    from splitFromWrite_refines [OF rp(1) w] obtain h' l' where
      s: "splitFromWrite h l = Some (if Suc k < length ps then Some (ps ! Suc k) else None, h', l')"
      "nodes_of h' l' (take (Suc k) ps) None"
      "split_from_write (abs_list h l ps) = Some (map (slice_at h') (drop (Suc k) ps), abs_list h' l' (take (Suc k) ps))" by blast
    have "writeSlice l' = writeSlice l" using s(1) by (auto simp: splitFromWrite_def Let_def split: bind_splits)
    with s rp assms(2) SplitAtWrite st show ?thesis
      by (auto simp: ptr_rel_def intro!: exI [of _ "take (Suc k) ps"] dest: in_set_takeD)
  qed
qed



end
