(* ===== verification/Buffer_Ownership.thy ===== *)
theory Buffer_Ownership
  imports Manager_Contract
begin

text \<open>
  Who owns which buffer of the shared memory. The clients of a buffer manager hold lists of
  slices, of the shared memory or of the heap. \<open>owns\<close> says that the manager is intact, that the
  slices held are views of distinct buffers in use, and that those buffers and the free ones
  together are a fixed collection \<open>L\<close>: an operation that keeps \<open>owns\<close> with the same \<open>L\<close>
  neither loses a buffer nor hands one out twice. The lemmas follow the operations through it,
  with what they do to the content of the slices held.
\<close>

subsection \<open>Buffers and their regions\<close>

definition valid_handle :: "(nat \<times> nat) list \<Rightarrow> nat \<times> nat \<Rightarrow> bool" where
  "valid_handle ds h \<longleftrightarrow> fst h < length ds \<and> slot (fst (ds ! fst h)) (snd (ds ! fst h)) (snd h)"

abbreviation holds_h :: "(nat \<times> nat) list \<Rightarrow> bufferSlice \<Rightarrow> nat \<times> nat \<Rightarrow> bool" where
  "holds_h ds s h \<equiv> holds 8 ds s (fst h) (snd h)"

definition region :: "(nat \<times> nat) list \<Rightarrow> nat \<times> nat \<Rightarrow> nat set" where
  "region ds h = {slot_addr_of ds h..<slot_addr_of ds h + (snd (ds ! fst h) + 20)}"

definition free_handles :: "nat list list \<Rightarrow> (nat \<times> nat) list" where
  "free_handles fss = concat (map (\<lambda>i. map (Pair i) (fss ! i)) [0..<length fss])"

lemma holds_valid: "holds_h ds s h \<Longrightarrow> valid_handle ds h"
  by (simp add: holds_def valid_handle_def)

lemma region_disjoint:
  assumes "valid_handle ds h" and "valid_handle ds g" and "h \<noteq> g"
  shows "region ds h \<inter> region ds g = {}"
proof (cases "fst h = fst g")
  case True
  then have "snd h \<noteq> snd g" using assms(3) by (simp add: prod_eq_iff)
  with slots_apart [of "fst (ds ! fst h)" "snd (ds ! fst h)" "snd h" "snd g"] True assms(1,2) show ?thesis
    by (fastforce simp: region_def valid_handle_def)
next
  case False
  have e: "region ds k \<subseteq> {list_off 8 ds (fst k)..<list_off 8 ds (fst k) + list_bytes (ds ! fst k)}" if "valid_handle ds k" for k
    using slot_le [of "fst (ds ! fst k)" "snd (ds ! fst k)" "snd k"] that by (auto simp: region_def valid_handle_def)
  have "list_off 8 ds (fst h) + list_bytes (ds ! fst h) \<le> list_off 8 ds (fst g) \<or>
      list_off 8 ds (fst g) + list_bytes (ds ! fst g) \<le> list_off 8 ds (fst h)"
    using False assms(1,2) list_off_disjoint [of "fst h" "fst g" ds] list_off_disjoint [of "fst g" "fst h" ds]
    by (cases "fst h < fst g") (auto simp: valid_handle_def)
  with e [OF assms(1)] e [OF assms(2)] show ?thesis by fastforce
qed

lemma region_ctl:
  assumes "valid_handle ds h" and "j < length ds" and "\<forall>y \<in> xs. slot (fst (ds ! j)) (snd (ds ! j)) y" and "fst h = j \<longrightarrow> snd h \<notin> xs"
  shows "region ds h \<inter> ctl_foot (list_off 8 ds j) xs = {}"
  unfolding region_def using slot_off_ctl [of "fst h" ds "snd h" j xs 8] assms by (simp add: valid_handle_def)

lemma in_free_handles: "h \<in> set (free_handles fss) \<longleftrightarrow> fst h < length fss \<and> snd h \<in> set (fss ! fst h)"
  by (cases h) (auto simp: free_handles_def)

lemma mset_free_handles:
  assumes "i < length fss"
  shows "mset (free_handles (fss[i := ys])) + image_mset (Pair i) (mset (fss ! i)) =
    mset (free_handles fss) + image_mset (Pair i) (mset ys)"
proof -
  have sp: "[0..<length fss] = [0..<i] @ i # [Suc i..<length fss]"
    using assms by (metis le_add1 less_imp_add_positive upt_add_eq_append upt_conv_Cons add.left_neutral le0)
  have e: "map (\<lambda>k. map (Pair k) (fss[i := ys] ! k)) [0..<i] = map (\<lambda>k. map (Pair k) (fss ! k)) [0..<i]"
    "map (\<lambda>k. map (Pair k) (fss[i := ys] ! k)) [Suc i..<length fss] = map (\<lambda>k. map (Pair k) (fss ! k)) [Suc i..<length fss]"
    by auto
  show ?thesis using assms by (simp add: free_handles_def sp e)
qed

lemma free_handles_give:
  assumes "i < length fss"
  shows "mset (free_handles (fss[i := fss ! i @ [x]])) = add_mset (i, x) (mset (free_handles fss))"
  using mset_free_handles [OF assms, of "fss ! i @ [x]"] by simp

lemma free_handles_take:
  assumes "i < length fss" and "fss ! i \<noteq> []"
  shows "mset (free_handles fss) = add_mset (i, hd (fss ! i)) (mset (free_handles (fss[i := tl (fss ! i)])))"
proof -
  have "mset (fss ! i) = add_mset (hd (fss ! i)) (mset (tl (fss ! i)))" using assms(2) by (metis list.collapse mset.simps(2))
  with mset_free_handles [OF assms(1), of "tl (fss ! i)"] show ?thesis by simp
qed

subsection \<open>Views\<close>

definition slink :: "bytes \<Rightarrow> bufferSlice \<Rightarrow> u32 option" where
  "slink m s = link_at m (unat (offsetInShm s))"

definition sfields :: "bytes \<Rightarrow> bufferSlice \<Rightarrow> u32 \<times> u32" where
  "sfields m s = (rd m (unat (offsetInShm s) + 4), rd m (unat (offsetInShm s) + 8))"

lemma holds_addr:
  assumes "mgr_inv ct bm ds fss m" and "holds_h ds s h"
  shows "unat (offsetInShm s) = slot_addr_of ds h"
  using slot_addr_of_lt(2) [OF assms(1), of h] assms(2) by (simp add: holds_def unat_of_nat32 del: of_nat_add)

lemma view_frame:
  assumes inv: "mgr_inv ct bm ds fss m" and h: "holds_h ds s h" and wf: "slice_wf (length m) s"
    and u: "unchanged_off A m m'" and A: "region ds h \<inter> A = {}"
  shows "content m' s = content m s" and "slink m' s = slink m s" and "sfields m' s = sfields m s" and "slice_wf (length m') s"
proof -
  obtain g where g: "bs_data s = ShmData g" "sl_base g = slot_addr_of ds h + 20" "sl_len g = snd (ds ! fst h)"
    using h by (auto simp: holds_def)
  have "data_foot (bs_data s) \<subseteq> region ds h" by (auto simp: data_foot_def g region_def)
  with A show "content m' s = content m s" by (intro content_frame [OF wf u]) auto
  have b: "slot_addr_of ds h + (snd (ds ! fst h) + 20) \<le> length m"
    using slot_addr_of_lt(1) [OF inv, of h] h by (simp add: holds_def)
  have "{slot_addr_of ds h + 12..<slot_addr_of ds h + 17} \<subseteq> region ds h" by (auto simp: region_def)
  with A have "link_at m' (slot_addr_of ds h) = link_at m (slot_addr_of ds h)"
    by (intro link_at_frame [OF u]) (use b in auto)
  then show "slink m' s = slink m s" by (simp add: slink_def holds_addr [OF inv h])
  have "(rd m' (slot_addr_of ds h + k) :: u32) = rd m (slot_addr_of ds h + k)" if "k \<le> 16" for k
    by (rule rd_unchanged [OF u]) (use A b that in \<open>auto simp: region_def disjoint_iff\<close>)
  from this [of 4] this [of 8] show "sfields m' s = sfields m s" by (simp add: sfields_def holds_addr [OF inv h])
  show "slice_wf (length m') s" using wf unchanged_off_length [OF u] by simp
qed

definition heap_slice :: "bufferSlice \<Rightarrow> bool" where
  "heap_slice s \<longleftrightarrow> \<not> isFromShm s \<and> (\<exists>bs. bs_data s = HeapData bs)"

lemma heap_view: "heap_slice s \<Longrightarrow> content m' s = content m s"
  by (auto simp: heap_slice_def content_def backing_def)

text \<open>The slices \<open>ss\<close> look the same in the memories \<open>m\<close> and \<open>m'\<close>.\<close>

definition same_views :: "bytes \<Rightarrow> bytes \<Rightarrow> bufferSlice list \<Rightarrow> bool" where
  "same_views m m' ss \<longleftrightarrow> length m' = length m \<and>
     (\<forall>s \<in> set ss. content m' s = content m s \<and> (isFromShm s \<longrightarrow> slink m' s = slink m s \<and> sfields m' s = sfields m s))"

lemma same_views_refl [simp]: "same_views m m ss"
  by (simp add: same_views_def)

lemma same_views_trans: "same_views m1 m2 ss \<Longrightarrow> same_views m2 m3 ss \<Longrightarrow> same_views m1 m3 ss"
  by (simp add: same_views_def)

lemma same_views_subset: "same_views m m' ss \<Longrightarrow> set ts \<subseteq> set ss \<Longrightarrow> same_views m m' ts"
  by (auto simp: same_views_def)

lemma same_views_contents: "same_views m m' ss \<Longrightarrow> map (content m') ss = map (content m) ss"
  by (simp add: same_views_def)

subsection \<open>Ownership\<close>

definition owner :: "nat \<Rightarrow> bufferManager \<Rightarrow> (nat \<times> nat) list \<Rightarrow> (nat \<times> nat) multiset \<Rightarrow> nat list list \<Rightarrow> (nat \<times> nat) list \<Rightarrow>
    bytes \<Rightarrow> bufferSlice list \<Rightarrow> bool" where
  "owner ct bm ds L fss hs m ss \<longleftrightarrow> mgr_inv ct bm ds fss m \<and> list_all2 (holds_h ds) (filter isFromShm ss) hs \<and>
     distinct (hs @ free_handles fss) \<and> mset (hs @ free_handles fss) = L \<and>
     (\<forall>s \<in> set ss. slice_wf (length m) s \<and> (isFromShm s \<or> heap_slice s))"

definition owns :: "nat \<Rightarrow> bufferManager \<Rightarrow> (nat \<times> nat) list \<Rightarrow> (nat \<times> nat) multiset \<Rightarrow> bytes \<Rightarrow> bufferSlice list \<Rightarrow> bool" where
  "owns ct bm ds L m ss \<longleftrightarrow> (\<exists>fss hs. owner ct bm ds L fss hs m ss)"

lemma owner_handles:
  assumes "owner ct bm ds L fss hs m ss"
  shows "\<forall>h \<in> set hs. valid_handle ds h \<and> snd h \<notin> set (fss ! fst h)" and "length fss = length ds"
    and "\<forall>s \<in> set ss. isFromShm s \<longrightarrow> (\<exists>h \<in> set hs. holds_h ds s h)"
proof -
  have l2: "list_all2 (holds_h ds) (filter isFromShm ss) hs" and d: "distinct (hs @ free_handles fss)" and inv: "mgr_inv ct bm ds fss m"
    using assms by (simp_all add: owner_def)
  show len: "length fss = length ds" using inv lists_inv_length by (auto simp: mgr_inv_def)
  have v: "valid_handle ds h" if "h \<in> set hs" for h
    using l2 that by (auto simp: list_all2_conv_all_nth in_set_conv_nth intro: holds_valid)
  moreover have "snd h \<notin> set (fss ! fst h)" if "h \<in> set hs" for h
    using d that v [OF that] in_free_handles [of h fss] len by (auto simp: valid_handle_def)
  ultimately show "\<forall>h \<in> set hs. valid_handle ds h \<and> snd h \<notin> set (fss ! fst h)" by blast
  show "\<forall>s \<in> set ss. isFromShm s \<longrightarrow> (\<exists>h \<in> set hs. holds_h ds s h)"
  proof (intro ballI impI)
    fix s assume "s \<in> set ss" "isFromShm s"
    then have "s \<in> set (filter isFromShm ss)" by simp
    then obtain k where "k < length (filter isFromShm ss)" "filter isFromShm ss ! k = s" unfolding in_set_conv_nth by blast
    with l2 have "hs ! k \<in> set hs" "holds_h ds s (hs ! k)" by (auto simp: list_all2_conv_all_nth)
    then show "\<exists>h \<in> set hs. holds_h ds s h" by blast
  qed
qed

lemma owner_frame:
  assumes o: "owner ct bm ds L fss hs m ss" and u: "unchanged_off A m m'" and A: "\<forall>h \<in> set hs. region ds h \<inter> A = {}"
  shows "same_views m m' ss" and "\<forall>s \<in> set ss. slice_wf (length m') s \<and> (isFromShm s \<or> heap_slice s)"
proof -
  have inv: "mgr_inv ct bm ds fss m" and wf: "\<forall>s \<in> set ss. slice_wf (length m) s \<and> (isFromShm s \<or> heap_slice s)"
    using o by (simp_all add: owner_def)
  have "content m' s = content m s \<and> (isFromShm s \<longrightarrow> slink m' s = slink m s \<and> sfields m' s = sfields m s)" if s: "s \<in> set ss" for s
  proof (cases "isFromShm s")
    case True
    with owner_handles(3) [OF o] s obtain h where "h \<in> set hs" "holds_h ds s h" by blast
    with view_frame [OF inv _ _ u] wf s A show ?thesis by simp
  next
    case False
    with wf s heap_view show ?thesis by blast
  qed
  then show "same_views m m' ss" using unchanged_off_length [OF u] by (simp add: same_views_def)
  show "\<forall>s \<in> set ss. slice_wf (length m') s \<and> (isFromShm s \<or> heap_slice s)" using wf unchanged_off_length [OF u] by simp
qed

lemma owner_reorder:
  assumes "owner ct bm ds L fss hs m ss" and "mset ss = mset ts"
  shows "\<exists>hs'. owner ct bm ds L fss hs' m ts"
proof -
  have l2: "list_all2 (holds_h ds) (filter isFromShm ss) hs" using assms(1) by (simp add: owner_def)
  have "mset (filter isFromShm ts) = mset (filter isFromShm ss)" using assms(2) by simp
  from list_all2_reorder_left_invariance [OF l2 this] obtain hs' where
    "list_all2 (holds_h ds) (filter isFromShm ts) hs'" "mset hs' = mset hs" by blast
  moreover from this(2) have "distinct (hs' @ free_handles fss) = distinct (hs @ free_handles fss)"
    by (intro mset_eq_imp_distinct_iff) simp
  moreover have "set ts = set ss" using assms(2) by (metis set_mset_mset)
  ultimately show ?thesis using assms(1) unfolding owner_def by (intro exI [of _ hs']) simp
qed

lemma owns_reorder: "owns ct bm ds L m ss \<Longrightarrow> mset ss = mset ts \<Longrightarrow> owns ct bm ds L m ts"
  unfolding owns_def using owner_reorder by blast

subsection \<open>The operations\<close>

lemma owns_shm_first:
  assumes "owns ct bm ds L m (s # ss)" and "isFromShm s"
  obtains fss h hs where "owner ct bm ds L fss (h # hs) m (s # ss)" and "holds_h ds s h"
  using assms by (auto simp: owns_def owner_def list_all2_Cons1)

lemma owner_tl_frame:
  assumes "owner ct bm ds L fss (h # hs) m (s # ss)" and "isFromShm s" and u: "unchanged_off A m m'" and "A \<subseteq> region ds h"
  shows "same_views m m' ss" and "\<forall>t \<in> set ss. slice_wf (length m') t \<and> (isFromShm t \<or> heap_slice t)"
proof -
  let ?L = "mset (hs @ free_handles fss)"
  have o: "owner ct bm ds ?L fss hs m ss" using assms(1,2) by (simp add: owner_def)
  have "h \<notin> set hs" "valid_handle ds h" using assms(1) owner_handles(1) [OF assms(1)] by (simp_all add: owner_def)
  then have "\<forall>g \<in> set hs. region ds g \<inter> A = {}"
    using region_disjoint [of ds _ h] owner_handles(1) [OF o] assms(4) by blast
  from owner_frame [OF o u this] show "same_views m m' ss" "\<forall>t \<in> set ss. slice_wf (length m') t \<and> (isFromShm t \<or> heap_slice t)" .
qed

lemma owner_take:
  assumes o: "owner ct bm ds L fss hs m ss" and i: "i < length ds" "fss ! i \<noteq> []"
    and inv: "mgr_inv ct bm ds (fss[i := tl (fss ! i)]) m'" and h: "holds 8 ds s i (hd (fss ! i))"
    and u: "unchanged_off (ctl_foot (list_off 8 ds i) {hd (fss ! i)}) m m'" and z: "readIndex s = 0" "writeIndex s = 0"
  shows "owner ct bm ds L (fss[i := tl (fss ! i)]) ((i, hd (fss ! i)) # hs) m' (s # ss)" and "same_views m m' ss"
proof -
  note oh = owner_handles [OF o]
  have l: "i < length fss" using i oh(2) by simp
  have "hd (fss ! i) \<in> set (fss ! i)" using i by simp
  then have "\<forall>g \<in> set hs. region ds g \<inter> ctl_foot (list_off 8 ds i) {hd (fss ! i)} = {}"
    using oh(1) i(1) h by (intro ballI region_ctl) (auto simp: holds_def)
  note fr = owner_frame [OF o u this]
  from fr(1) show "same_views m m' ss" .
  have ms: "mset (((i, hd (fss ! i)) # hs) @ free_handles (fss[i := tl (fss ! i)])) = mset (hs @ free_handles fss)"
    using free_handles_take [OF l i(2)] by simp
  have "slice_wf (length m') s" by (rule holds_wf [OF inv h]) (simp_all add: z)
  moreover have "isFromShm s" using h by (simp add: holds_def)
  ultimately show "owner ct bm ds L (fss[i := tl (fss ! i)]) ((i, hd (fss ! i)) # hs) m' (s # ss)"
    using o inv h fr(2) ms mset_eq_imp_distinct_iff [OF ms] by (simp add: owner_def)
qed

text \<open>A slice as it comes out of a free list.\<close>

definition fresh :: "bytes \<Rightarrow> bufferSlice \<Rightarrow> bool" where
  "fresh m s \<longleftrightarrow> readIndex s = 0 \<and> writeIndex s = 0 \<and> bs_start s = 0 \<and> 0 < bs_cap s \<and> (isFromShm s \<longrightarrow> slink m s = None)"

lemma fresh_taken:
  assumes "mgr_inv ct bm ds fss m" and "holds_h ds s h" and "readIndex s = 0" "writeIndex s = 0" "bs_start s = 0"
    and "link_at m (slot_addr_of ds h) = None"
  shows "fresh m s" and "isFromShm s" and "unat (bs_cap s) = snd (ds ! fst h)"
proof -
  have h: "fst h < length ds" "bs_cap s = word_of_nat (snd (ds ! fst h))" "isFromShm s" using assms(2) by (simp_all add: holds_def)
  note d = mgr_invD(1,7) [OF assms(1) h(1)]
  show "unat (bs_cap s) = snd (ds ! fst h)" using h(2) d(1) by (simp add: unat_of_nat32)
  then have "0 < bs_cap s" using d(2) by (simp add: word_less_nat_alt)
  then show "fresh m s" using assms(3-6) holds_addr [OF assms(1,2)] by (simp add: fresh_def slink_def)
  show "isFromShm s" by (rule h(3))
qed

lemma owns_alloc:
  assumes "owns ct bm ds L m ss"
  obtains "allocShmBuffer bm sz m = Some (Inl ErrNoMoreBuffer, m)"
  | s m' where "allocShmBuffer bm sz m = Some (Inr s, m')" and "owns ct bm ds L m' (s # ss)" and "same_views m m' ss"
      and "fresh m' s" and "isFromShm s" and "unat sz \<le> unat (bs_cap s)"
proof -
  from assms obtain fss hs where o: "owner ct bm ds L fss hs m ss" by (auto simp: owns_def)
  then have inv: "mgr_inv ct bm ds fss m" by (simp add: owner_def)
  show thesis
  proof (cases "pick (unat sz) ds fss")
    case None
    from allocShmBuffer_ok(1) [OF inv None] that(1) show thesis by blast
  next
    case (Some i)
    note pb = pick_bound [OF Some]
    from allocShmBuffer_ok(2) [OF inv Some] obtain s m' where
      a: "allocShmBuffer bm sz m = Some (Inr s, m')" and inv': "mgr_inv ct bm ds (fss[i := tl (fss ! i)]) m'"
      and h: "holds 8 ds s i (hd (fss ! i))" and z: "readIndex s = 0" "writeIndex s = 0" "bs_start s = 0"
      and u: "unchanged_off (ctl_foot (list_off 8 ds i) {hd (fss ! i)}) m m'"
      and lk: "link_at m' (slot_addr_of ds (i, hd (fss ! i))) = None" by blast
    have ne: "fss ! i \<noteq> []" using pb by auto
    note ot = owner_take [OF o _ ne inv' h u z(1,2)] and fr = fresh_taken [OF inv', of s "(i, hd (fss ! i))"]
    have "owns ct bm ds L m' (s # ss)" "same_views m m' ss" using ot pb unfolding owns_def by blast+
    moreover have "fresh m' s" "isFromShm s" "unat (bs_cap s) = snd (ds ! i)" using fr h z lk by simp_all
    ultimately show thesis using that(2) [OF a] pb by simp
  qed
qed

lemma lists_inv_all:
  "lists_inv ct off ds fss m \<longleftrightarrow> length fss = length ds \<and>
    (\<forall>i < length ds. free_list (list_at ct (list_off off ds i) (fst (ds ! i)) (snd (ds ! i)) (length m)) (fst (ds ! i)) (snd (ds ! i)) m (fss ! i))"
proof (induction ds arbitrary: off fss)
  case (Cons d ds)
  then show ?case by (cases fss) (auto simp: All_less_Suc2)
qed simp

lemma lists_inv_upd:
  assumes l: "lists_inv ct 8 ds fss m" and i: "i < length ds"
    and f: "free_list (list_at ct (list_off 8 ds i) (fst (ds ! i)) (snd (ds ! i)) (length m')) (fst (ds ! i)) (snd (ds ! i)) m' ys"
    and u: "unchanged_off A m m'" and A: "A \<subseteq> {list_off 8 ds i..<list_off 8 ds i + list_bytes (ds ! i)}"
  shows "lists_inv ct 8 ds (fss[i := ys]) m'"
  unfolding lists_inv_all
proof (intro conjI allI impI)
  show "length (fss[i := ys]) = length ds" using lists_inv_length [OF l] by simp
  fix j assume j: "j < length ds"
  show "free_list (list_at ct (list_off 8 ds j) (fst (ds ! j)) (snd (ds ! j)) (length m')) (fst (ds ! j)) (snd (ds ! j)) m' (fss[i := ys] ! j)"
  proof (cases "i = j")
    case True
    then show ?thesis using f j lists_inv_length [OF l] by simp
  next
    case False
    have lt: "list_off 8 ds j < 2 ^ 32" using lists_inv_caps(2,3) [OF l _ j] by simp
    have "list_off 8 ds i + list_bytes (ds ! i) \<le> list_off 8 ds j \<or> list_off 8 ds j + list_bytes (ds ! j) \<le> list_off 8 ds i"
      using False i j list_off_disjoint [of i j ds] list_off_disjoint [of j i ds] by (cases "i < j") auto
    then have "{list_off 8 ds j..<list_off 8 ds j + list_bytes (ds ! j)} \<inter> A = {}" using A by fastforce
    from free_list_at_frame [OF _ lt u this] l j False show ?thesis by (simp add: lists_inv_all)
  qed
qed

lemma list_pop:
  assumes inv: "mgr_inv ct bm ds fss m" and i: "i < length ds"
  shows "\<not> 2 \<le> length (fss ! i) \<Longrightarrow> bufferList_pop (bm_lists bm ! i) m = Some (Inl ErrNoMoreBuffer, m)"
    and "2 \<le> length (fss ! i) \<Longrightarrow> \<exists>s m'. bufferList_pop (bm_lists bm ! i) m = Some (Inr s, m') \<and>
      mgr_inv ct bm ds (fss[i := tl (fss ! i)]) m' \<and> holds 8 ds s i (hd (fss ! i)) \<and>
      readIndex s = 0 \<and> writeIndex s = 0 \<and> bs_start s = 0 \<and>
      unchanged_off (ctl_foot (list_off 8 ds i) {hd (fss ! i)}) m m' \<and>
      link_at m' (slot_addr_of ds (i, hd (fss ! i))) = None"
proof -
  let ?N = "fst (ds ! i)" and ?C = "snd (ds ! i)" and ?off = "list_off 8 ds i"
  have l: "lists_inv ct 8 ds fss m" and bl: "bm_lists bm ! i = list_at ct ?off ?N ?C (length m)"
    using inv i by (simp_all add: mgr_inv_def nth_lists_at)
  have f: "free_list (list_at ct ?off ?N ?C (length m)) ?N ?C m (fss ! i)" using l i by (simp add: lists_inv_all)
  have off: "?off < 2 ^ 32" using lists_inv_caps(2,3) [OF l _ i] by simp
  {
    assume "\<not> 2 \<le> length (fss ! i)"
    then show "bufferList_pop (bm_lists bm ! i) m = Some (Inl ErrNoMoreBuffer, m)" using pop_refused [OF f] bl by simp
  next
    assume "2 \<le> length (fss ! i)"
    then obtain x y r where fs: "fss ! i = x # y # r" by (cases "fss ! i" rule: remdups_adj.cases) auto
    let ?s = "slot_slice (list_at ct ?off ?N ?C (length m)) ?C x"
    from f off fs obtain m' where p: "bufferList_pop (list_at ct ?off ?N ?C (length m)) m = Some (Inr ?s, m')"
      and f': "free_list (list_at ct ?off ?N ?C (length m')) ?N ?C m' (y # r)"
      and u: "unchanged_off (ctl_foot ?off {x}) m m'" and fl: "rd m' (?off + 36 + x + 16) = (2 :: u8)"
      by (metis pop_at)
    have x: "slot ?N ?C x" using f fs by (simp add: free_list_def)
    have "lists_inv ct 8 ds (fss[i := y # r]) m'"
      by (rule lists_inv_upd [OF l i f' u]) (rule ctl_foot_extent, use x in simp)
    then have "mgr_inv ct bm ds (fss[i := y # r]) m'" using inv unchanged_off_length [OF u] by (simp add: mgr_inv_def)
    moreover have "holds 8 ds ?s i x" by (rule holds_slot_slice [OF l i x])
    moreover have "link_at m' (?off + 36 + x) = None" using fl by (simp add: link_at_def)
    moreover have "readIndex ?s = 0" "writeIndex ?s = 0" "bs_start ?s = 0" by (simp_all add: slot_slice_def)
    ultimately show "\<exists>s m'. bufferList_pop (bm_lists bm ! i) m = Some (Inr s, m') \<and>
      mgr_inv ct bm ds (fss[i := tl (fss ! i)]) m' \<and> holds 8 ds s i (hd (fss ! i)) \<and>
      readIndex s = 0 \<and> writeIndex s = 0 \<and> bs_start s = 0 \<and>
      unchanged_off (ctl_foot (list_off 8 ds i) {hd (fss ! i)}) m m' \<and>
      link_at m' (slot_addr_of ds (i, hd (fss ! i))) = None"
      using p u fs bl by auto
  }
qed

text \<open>Emptying one list, and then the lists from the largest down, for a demand of \<open>sz\<close> bytes.\<close>

abbreviation total_cap :: "bufferSlice list \<Rightarrow> int" where
  "total_cap ss \<equiv> (\<Sum>s\<leftarrow>ss. uint (bs_cap s))"

lemma fresh_same: "same_views m m' ss \<Longrightarrow> s \<in> set ss \<Longrightarrow> fresh m s \<Longrightarrow> fresh m' s"
  by (auto simp: same_views_def fresh_def)

text \<open>The slices got for a demand of \<open>sz\<close> bytes: fresh ones, and none more than needed.\<close>

definition got_ok :: "bytes \<Rightarrow> int \<Rightarrow> int \<Rightarrow> bufferSlice list \<Rightarrow> bool" where
  "got_ok m sz remain got \<longleftrightarrow> remain + total_cap got = sz \<and> (\<forall>s \<in> set got. fresh m s) \<and>
     (0 < remain \<or> got \<noteq> [] \<and> total_cap (butlast got) < sz)"

lemma owner_alloc_list:
  assumes "owner ct bm ds L fss hs m (rev got @ ss)" and "i < length ds" and "got_ok m sz remain got" and "\<forall>s \<in> set got. isFromShm s"
  shows "\<exists>remain' got' m'. alloc_list (bm_lists bm ! i) remain (total_cap got) got m = Some (remain', total_cap got', got', m') \<and>
    owns ct bm ds L m' (rev got' @ ss) \<and> same_views m m' ss \<and> got_ok m' sz remain' got' \<and> (\<forall>s \<in> set got'. isFromShm s)"
  using assms
proof (induction "length (fss ! i)" arbitrary: fss hs m got remain rule: less_induct)
  case less
  have inv: "mgr_inv ct bm ds fss m" and own: "owns ct bm ds L m (rev got @ ss)"
    using less.prems(1) by (auto simp: owner_def owns_def)
  show ?case
  proof (cases "0 < remain \<and> 2 \<le> length (fss ! i)")
    case False
    have "alloc_list (bm_lists bm ! i) remain (total_cap got) got m = Some (remain, total_cap got, got, m)"
      using False list_pop(1) [OF inv less.prems(2)] by (subst alloc_list.simps) auto
    then show ?thesis using own less.prems(3,4) same_views_refl by blast
  next
    case True
    from list_pop(2) [OF inv less.prems(2)] True obtain s m1 where
      p: "bufferList_pop (bm_lists bm ! i) m = Some (Inr s, m1)" and inv1: "mgr_inv ct bm ds (fss[i := tl (fss ! i)]) m1"
      and h: "holds 8 ds s i (hd (fss ! i))" and z: "readIndex s = 0" "writeIndex s = 0" "bs_start s = 0"
      and u: "unchanged_off (ctl_foot (list_off 8 ds i) {hd (fss ! i)}) m m1"
      and lk: "link_at m1 (slot_addr_of ds (i, hd (fss ! i))) = None" by blast
    have ne: "fss ! i \<noteq> []" "i < length fss" using True owner_handles(2) [OF less.prems(1)] less.prems(2) by auto
    note ot = owner_take [OF less.prems(1,2) ne(1) inv1 h u z(1,2)]
    have fr: "fresh m1 s" "isFromShm s" using fresh_taken [OF inv1, of s "(i, hd (fss ! i))"] h z lk by simp_all
    have o1: "owner ct bm ds L (fss[i := tl (fss ! i)]) ((i, hd (fss ! i)) # hs) m1 (rev (got @ [s]) @ ss)" using ot(1) by simp
    have g1: "got_ok m1 sz (remain - uint (bs_cap s)) (got @ [s])"
      using less.prems(3) fr fresh_same [OF ot(2)] True by (auto simp: got_ok_def)
    have "length (fss[i := tl (fss ! i)] ! i) < length (fss ! i)" using ne by (cases "fss ! i") auto
    from less.hyps [OF this o1 less.prems(2) g1] less.prems(4) fr(2) obtain remain' got' m' where
      r: "alloc_list (bm_lists bm ! i) (remain - uint (bs_cap s)) (total_cap (got @ [s])) (got @ [s]) m1 = Some (remain', total_cap got', got', m')"
      and ok: "owns ct bm ds L m' (rev got' @ ss)" "same_views m1 m' ss" "got_ok m' sz remain' got'" "\<forall>s \<in> set got'. isFromShm s" by auto
    have "alloc_list (bm_lists bm ! i) remain (total_cap got) got m = Some (remain', total_cap got', got', m')"
      using True p r by (subst alloc_list.simps) simp
    moreover have "same_views m m' ss"
      by (rule same_views_trans [OF same_views_subset [OF ot(2)] ok(2)]) simp
    ultimately show ?thesis using ok(1,3,4) by blast
  qed
qed

lemma owns_alloc_lists:
  assumes "owns ct bm ds L m (rev got @ ss)" and "\<forall>i \<in> set is. i < length ds" and "got_ok m sz remain got" and "\<forall>s \<in> set got. isFromShm s"
  shows "\<exists>remain' got' m'. alloc_lists (map (\<lambda>i. bm_lists bm ! i) is) remain (total_cap got) got m = Some (total_cap got', got', m') \<and>
    owns ct bm ds L m' (rev got' @ ss) \<and> same_views m m' ss \<and> got_ok m' sz remain' got' \<and> (\<forall>s \<in> set got'. isFromShm s)"
  using assms
proof (induction "is" arbitrary: m got remain)
  case Nil
  then show ?case by auto
next
  case (Cons i "is")
  show ?case
  proof (cases "0 < remain")
    case False
    then show ?thesis using Cons.prems by auto
  next
    case True
    from Cons.prems(1) obtain fss hs where o: "owner ct bm ds L fss hs m (rev got @ ss)" by (auto simp: owns_def)
    have i: "i < length ds" using Cons.prems(2) by simp
    from owner_alloc_list [OF o i Cons.prems(3,4)] obtain r1 got1 m1 where
      1: "alloc_list (bm_lists bm ! i) remain (total_cap got) got m = Some (r1, total_cap got1, got1, m1)"
      "owns ct bm ds L m1 (rev got1 @ ss)" "same_views m m1 ss" "got_ok m1 sz r1 got1" "\<forall>s \<in> set got1. isFromShm s" by blast
    from Cons.IH [OF 1(2) _ 1(4,5)] Cons.prems(2) obtain r2 got2 m2 where
      2: "alloc_lists (map (\<lambda>i. bm_lists bm ! i) is) r1 (total_cap got1) got1 m1 = Some (total_cap got2, got2, m2)"
      "owns ct bm ds L m2 (rev got2 @ ss)" "same_views m1 m2 ss" "got_ok m2 sz r2 got2" "\<forall>s \<in> set got2. isFromShm s" by auto
    have "alloc_lists (map (\<lambda>i. bm_lists bm ! i) (i # is)) remain (total_cap got) got m = Some (total_cap got2, got2, m2)"
      using True 1(1) 2(1) by simp
    with 2(2,4,5) same_views_trans [OF 1(3) 2(3)] show ?thesis by blast
  qed
qed

lemma owns_allocs:
  assumes "owns ct bm ds L m ss" and "0 < sz"
  obtains remain got m' where "allocShmBuffers bm sz m = Some (total_cap got, got, m')" and "owns ct bm ds L m' (rev got @ ss)"
    and "same_views m m' ss" and "got_ok m' (uint sz) remain got" and "\<forall>s \<in> set got. isFromShm s"
proof -
  from assms obtain fss hs where "mgr_inv ct bm ds fss m" by (auto simp: owns_def owner_def)
  then have "length (bm_lists bm) = length ds" by (simp add: mgr_inv_def)
  then have e: "rev (bm_lists bm) = map (\<lambda>i. bm_lists bm ! i) (rev [0..<length ds])"
    by (metis map_nth rev_map)
  have "got_ok m (uint sz) (uint sz) []" using assms(2) by (simp add: got_ok_def word_less_def)
  with owns_alloc_lists [of ct bm ds L m "[]" ss "rev [0..<length ds]" "uint sz" "uint sz"] assms(1) that show thesis
    by (auto simp: allocShmBuffers_def e)
qed

text \<open>Reading, reserving and writing the slice that comes first.\<close>

lemma index_views [simp]:
  "holds off ds (s\<lparr>readIndex := r, writeIndex := w\<rparr>) i x = holds off ds s i x"
  "heap_slice (s\<lparr>readIndex := r, writeIndex := w\<rparr>) = heap_slice s"
  by (simp_all add: holds_def heap_slice_def)

lemma owns_index:
  assumes "owns ct bm ds L m (s # ss)" and "slice_wf (length m) (s\<lparr>readIndex := r, writeIndex := w\<rparr>)"
  shows "owns ct bm ds L m (s\<lparr>readIndex := r, writeIndex := w\<rparr> # ss)"
proof -
  from assms(1) obtain fss hs where "owner ct bm ds L fss hs m (s # ss)" by (auto simp: owns_def)
  with assms(2) have "owner ct bm ds L fss hs m (s\<lparr>readIndex := r, writeIndex := w\<rparr> # ss)"
    by (cases "isFromShm s") (auto simp: owner_def list_all2_Cons1)
  then show ?thesis unfolding owns_def by blast
qed

lemma owns_append:
  assumes o: "owns ct bm ds L m (s # ss)" and ne: "src \<noteq> []"
  obtains m' s' where "slice_append m s src = Some (min (nat (slice_remain s)) (length src), m', s')"
    and "owns ct bm ds L m' (s' # ss)" and "same_views m m' ss" and "content m' s' = content m s @ take (nat (slice_remain s)) src"
    and "isFromShm s \<longrightarrow> slink m' s' = slink m s"
    and "s' = s\<lparr>bs_data := bs_data s', writeIndex := writeIndex s + int (min (nat (slice_remain s)) (length src))\<rparr>"
proof (cases "isFromShm s")
  case True
  from owns_shm_first [OF o True] obtain fss h hs where w: "owner ct bm ds L fss (h # hs) m (s # ss)" and h: "holds_h ds s h" .
  have inv: "mgr_inv ct bm ds fss m" and wf: "slice_wf (length m) s" using w by (simp_all add: owner_def)
  have x: "snd h \<notin> set (fss ! fst h)" using owner_handles(1) [OF w] by simp
  from append_held [OF inv h x wf ne] obtain m' s' where
    a: "slice_append m s src = Some (min (nat (slice_remain s)) (length src), m', s')" "slice_wf (length m) s'"
      "content m' s' = content m s @ take (nat (slice_remain s)) src" and inv': "mgr_inv ct bm ds fss m'" and h': "holds_h ds s' h"
    and u: "unchanged_off {slot_addr_of ds (fst h, snd h) + 20..<slot_addr_of ds (fst h, snd h) + (snd (ds ! fst h) + 20)} m m'"
    and e: "s' = s\<lparr>writeIndex := writeIndex s + int (min (nat (slice_remain s)) (length src))\<rparr>" .
  note fr = owner_tl_frame [OF w True u]
  have "owner ct bm ds L fss (h # hs) m' (s' # ss)"
    using w fr inv' h' a(2) unchanged_off_length [OF u] True by (auto simp: owner_def region_def e)
  then have o': "owns ct bm ds L m' (s' # ss)" unfolding owns_def by blast
  have sv: "same_views m m' ss" using fr(1) by (simp add: region_def)
  have b: "slot_addr_of ds h + 20 \<le> length m" using slot_addr_of_lt(1) [OF inv, of h] h by (simp add: holds_def)
  have "link_at m' (slot_addr_of ds h) = link_at m (slot_addr_of ds h)"
    by (rule link_at_frame [OF u _ b]) (auto simp: disjoint_iff)
  then have "slink m' s' = slink m s" using holds_addr [OF inv h] by (simp add: slink_def e)
  with that [OF a(1) o' sv a(3)] e show thesis by simp
next
  case False
  from o obtain fss hs where w: "owner ct bm ds L fss hs m (s # ss)" by (auto simp: owns_def)
  with False obtain bs where wf: "slice_wf (length m) s" and d: "bs_data s = HeapData bs"
    by (auto simp: owner_def heap_slice_def)
  from slice_append_ok [OF wf ne] obtain m' s' where
    a: "slice_append m s src = Some (min (nat (slice_remain s)) (length src), m', s')" "slice_wf (length m) s'"
      "content m' s' = content m s @ take (nat (slice_remain s)) src"
    and e: "s' = s\<lparr>bs_data := bs_data s', writeIndex := writeIndex s + int (min (nat (slice_remain s)) (length src))\<rparr>" .
  have m: "m' = m" "\<exists>bs'. bs_data s' = HeapData bs'"
    using a(1) d ne by (auto simp: slice_append_def data_copy_def Let_def split: if_splits bind_splits)
  have "isFromShm s' = isFromShm s" by (subst e) simp
  then have "owner ct bm ds L fss hs m (s' # ss)" using w False a(2) m by (simp add: owner_def heap_slice_def)
  then have "owns ct bm ds L m' (s' # ss)" unfolding owns_def m(1) by blast
  from that [OF a(1) this _ a(3) _ e] m(1) False show thesis by simp
qed

lemma owns_recycle:
  assumes o: "owns ct bm ds L m (s # ss)"
  obtains m' where "recycleBuffer bm s m = Some m'" and "owns ct bm ds L m' ss" and "same_views m m' ss"
proof (cases "isFromShm s")
  case True
  from owns_shm_first [OF o True] obtain fss h hs where w: "owner ct bm ds L fss (h # hs) m (s # ss)" and h: "holds_h ds s h" .
  have inv: "mgr_inv ct bm ds fss m" using w by (simp add: owner_def)
  note oh = owner_handles [OF w]
  have hh: "snd h \<notin> set (fss ! fst h)" "fst h < length fss" "valid_handle ds h" "fst h < length ds"
    using oh by (simp_all add: valid_handle_def)
  from recycleBuffer_ok [OF inv h hh(1)] obtain m' where r: "recycleBuffer bm s m = Some m'"
    and inv': "mgr_inv ct bm ds (fss[fst h := fss ! fst h @ [snd h]]) m'"
    and u: "unchanged_off (ctl_foot (list_off 8 ds (fst h)) (insert (snd h) (set (fss ! fst h)))) m m'" by blast
  let ?L = "mset (hs @ free_handles fss)"
  have w2: "owner ct bm ds ?L fss hs m ss" using w True by (simp add: owner_def)
  have "\<forall>y \<in> insert (snd h) (set (fss ! fst h)). slot (fst (ds ! fst h)) (snd (ds ! fst h)) y"
    using mgr_invD(4) [OF inv hh(4)] hh(3) by (simp add: valid_handle_def)
  moreover have "fst g = fst h \<longrightarrow> snd g \<notin> insert (snd h) (set (fss ! fst h))" if "g \<in> set hs" for g
  proof -
    have "g \<noteq> h" using that w by (auto simp: owner_def)
    then show ?thesis using oh(1) that by (auto simp: prod_eq_iff)
  qed
  ultimately have "\<forall>g \<in> set hs. region ds g \<inter> ctl_foot (list_off 8 ds (fst h)) (insert (snd h) (set (fss ! fst h))) = {}"
    using oh(1) hh(4) by (intro ballI region_ctl) auto
  note fr = owner_frame [OF w2 u this]
  have ms: "mset (hs @ free_handles (fss[fst h := fss ! fst h @ [snd h]])) = mset ((h # hs) @ free_handles fss)"
    using free_handles_give [OF hh(2), of "snd h"] by simp
  have "owner ct bm ds L (fss[fst h := fss ! fst h @ [snd h]]) hs m' ss"
    using w w2 fr(2) inv' ms mset_eq_imp_distinct_iff [OF ms] by (simp add: owner_def)
  with that [OF r _ fr(1)] show thesis unfolding owns_def by blast
next
  case False
  then have "recycleBuffer bm s m = Some m" by (simp add: recycleBuffer_def)
  moreover have "owns ct bm ds L m ss" using o False by (auto simp: owns_def owner_def)
  ultimately show thesis using that by simp
qed

lemma owns_heap: "heap_slice s \<Longrightarrow> slice_wf (length m) s \<Longrightarrow> owns ct bm ds L m ss \<Longrightarrow> owns ct bm ds L m (s # ss)"
  by (auto simp: owns_def owner_def heap_slice_def)

lemma owns_wf: "owns ct bm ds L m ss \<Longrightarrow> s \<in> set ss \<Longrightarrow> slice_wf (length m) s"
  by (auto simp: owns_def owner_def)

text \<open>Writing the header of the slice that comes first, its capacity apart.\<close>

lemma owns_header:
  assumes o: "owns ct bm ds L m (s # ss)" and s: "isFromShm s"
    and u: "unchanged_off {unat (offsetInShm s) + 4..<unat (offsetInShm s) + 17} m m'"
  shows "owns ct bm ds L m' (s # ss)" and "same_views m m' ss" and "content m' s = content m s"
proof -
  from owns_shm_first [OF o s] obtain fss h hs where w: "owner ct bm ds L fss (h # hs) m (s # ss)" and h: "holds_h ds s h" .
  have inv: "mgr_inv ct bm ds fss m" and wf: "slice_wf (length m) s" using w by (simp_all add: owner_def)
  have x: "snd h \<notin> set (fss ! fst h)" "fst h < length ds" "slot (fst (ds ! fst h)) (snd (ds ! fst h)) (snd h)"
    using owner_handles(1) [OF w] by (simp_all add: valid_handle_def)
  obtain a where a: "a = slot_addr_of ds h" by simp
  have ad: "unat (offsetInShm s) = a" using holds_addr [OF inv h] a by simp
  have u': "unchanged_off {a + 4..<a + 17} m m'" using u ad by simp
  have inv': "mgr_inv ct bm ds fss m'"
    by (rule mgr_inv_slot_frame [OF inv x(2,3,1)]) (rule unchanged_off_mono [OF u'], auto simp: a)
  have sub: "{a + 4..<a + 17} \<subseteq> region ds h" by (auto simp: region_def a)
  note fr = owner_tl_frame [OF w s u' sub]
  have "owner ct bm ds L fss (h # hs) m' (s # ss)" using w fr inv' unchanged_off_length [OF u'] by (simp add: owner_def)
  then show "owns ct bm ds L m' (s # ss)" unfolding owns_def by blast
  show "same_views m m' ss" by (rule fr(1))
  obtain g where g: "bs_data s = ShmData g" "sl_base g = a + 20" using h by (auto simp: holds_def a)
  show "content m' s = content m s" by (rule content_frame [OF wf u']) (auto simp: g data_foot_def)
qed

lemma owns_hdr:
  assumes o: "owns ct bm ds L m (s # ss)" and s: "isFromShm s"
  obtains hd where "bufferHeader s = Some hd" and "sl_base hd = unat (offsetInShm s)" and "hdr_ok (length m) hd"
proof -
  from owns_shm_first [OF o s] obtain fss h hs where w: "owner ct bm ds L fss (h # hs) m (s # ss)" and h: "holds_h ds s h" .
  have inv: "mgr_inv ct bm ds fss m" using w by (simp add: owner_def)
  from holds_hdr [OF inv h] that show thesis unfolding holds_addr [OF inv h] by blast
qed

lemma owns_update:
  assumes o: "owns ct bm ds L m (s # ss)" and s: "isFromShm s"
  obtains m' where "update m s nxt = Some m'" and "owns ct bm ds L m' (s # ss)" and "same_views m m' ss"
    and "content m' s = content m s" and "slink m' s = (case nxt of None \<Rightarrow> slink m s | Some off \<Rightarrow> Some off)"
    and "sfields m' s = (word_of_int (slice_size s), bs_start s)"
proof -
  obtain a where a: "a = unat (offsetInShm s)" by simp
  from owns_hdr [OF o s] obtain hd where hd: "bufferHeader s = Some hd" "sl_base hd = a" "hdr_ok (length m) hd" unfolding a .
  let ?m = "update_mem m a (word_of_int (slice_size s)) (bs_start s) nxt"
  have ba: "a + 20 \<le> length m" using hd(2,3) by (simp add: hdr_ok_def)
  note uf = update_mem_facts [OF ba, of "word_of_int (slice_size s)" "bs_start s" nxt]
  have up: "update m s nxt = Some ?m" using update_ok [OF hd(1,3), of nxt] hd(2) by simp
  note oh = owns_header [OF o s uf(1) [unfolded a], folded a]
  have "slink ?m s = (case nxt of None \<Rightarrow> slink m s | Some off \<Rightarrow> Some off)"
    using uf(4) by (simp add: slink_def a split: option.split)
  from that [OF up oh this] uf(2,3) show thesis by (simp add: sfields_def a)
qed

text \<open>Reading a buffer back from its offset gives a slice of the same buffer.\<close>

lemma owns_read_back:
  assumes o: "owns ct bm ds L m (s # ss)" and s: "isFromShm s" and f: "sfields m s = (word_of_int (slice_size s), bs_start s)"
    and r: "readIndex s = uint (bs_start s)"
  obtains s' where "readBufferSlice m (offsetInShm s) = Some (Inr s')" and "owns ct bm ds L m (s' # ss)" and "isFromShm s'"
    and "offsetInShm s' = offsetInShm s" and "content m s' = content m s" and "slice_size s' = slice_size s" and "readIndex s' = readIndex s"
proof -
  from owns_shm_first [OF o s] obtain fss h hs where w: "owner ct bm ds L fss (h # hs) m (s # ss)" and h: "holds_h ds s h" .
  have inv: "mgr_inv ct bm ds fss m" and wf: "slice_wf (length m) s" using w by (simp_all add: owner_def)
  have x: "fst h < length ds" "slot (fst (ds ! fst h)) (snd (ds ! fst h)) (snd h)" "offsetInShm s = word_of_nat (slot_addr_of ds h)"
    using h by (simp_all add: holds_def)
  note ad = holds_addr [OF inv h]
  have st: "rd m (slot_addr_of ds h + 8) = bs_start s" "rd m (slot_addr_of ds h + 4) = (word_of_int (slice_size s) :: u32)"
    using f by (simp_all add: sfields_def ad)
  from readBufferSlice_ok [OF inv x(1,2)] obtain s' where
    rb: "readBufferSlice m (offsetInShm s) = Some (Inr s')" and h': "holds_h ds s' h" and "bs_start s' = bs_start s"
    and ri: "readIndex s' = uint (bs_start s)" and wi: "writeIndex s' = uint (bs_start s + word_of_int (slice_size s) :: u32)"
    unfolding x(3) st .
  have "bs_start s + word_of_int (slice_size s) = (word_of_int (writeIndex s) :: u32)"
    using r by (simp add: slice_size_def)
  moreover have "unat (bs_cap s) < 2 ^ 32" using unsigned_less [of "bs_cap s"] by simp
  then have "0 \<le> writeIndex s" "writeIndex s < 2 ^ 32" using wf unfolding slice_wf_def by auto
  ultimately have wi': "writeIndex s' = writeIndex s" using wi by (simp add: uint_word_of_int_eq take_bit_int_eq_self)
  have ri': "readIndex s' = readIndex s" using ri r by simp
  have hh: "isFromShm s'" "offsetInShm s' = offsetInShm s" using h' x(3) by (simp_all add: holds_def)
  have cap: "unat (bs_cap s) = snd (ds ! fst h)" using h mgr_invD(1) [OF inv x(1)] by (simp add: holds_def unat_of_nat32)
  have "slice_wf (length m) s'"
    by (rule holds_wf [OF inv h']) (use wf cap wi' ri' in \<open>auto simp: slice_wf_def\<close>)
  then have "owner ct bm ds L fss (h # hs) m (s' # ss)" using w s h' hh by (simp add: owner_def)
  then have o': "owns ct bm ds L m (s' # ss)" unfolding owns_def by blast
  have "backing m (bs_data s') = backing m (bs_data s)" using h h' by (auto simp: holds_def backing_def)
  then have "content m s' = content m s" "slice_size s' = slice_size s" using wi' ri' by (simp_all add: content_def slice_size_def)
  from that [OF rb o' hh this ri'] show thesis .
qed

text \<open>The manager of the peer over the same memory.\<close>

definition peers :: "(nat \<times> nat) list \<Rightarrow> nat \<Rightarrow> nat \<Rightarrow> bufferManager \<Rightarrow> nat \<Rightarrow> bufferManager \<Rightarrow> bool" where
  "peers ds n ct bm ct' bm' \<longleftrightarrow> bm_lists bm = lists_at ct 8 ds n \<and> bm_lists bm' = lists_at ct' 8 ds n \<and>
     bm_maxSliceSize bm' = bm_maxSliceSize bm \<and> (ct' = 20 \<or> ct' = 24)"

lemma owns_peer:
  assumes "owns ct bm ds L m ss" and "peers ds (length m) ct bm ct' bm'"
  shows "owns ct' bm' ds L m ss"
  using assms mgr_inv_peer [of ct bm ds _ m bm' ct'] unfolding owns_def owner_def peers_def by blast

end
