(* ===== verification/Linked_Buffer.thy ===== *)
theory Linked_Buffer
  imports Buffer_Ownership Slice_List
begin

text \<open>
  The linked buffer of \<^verbatim>\<open>buffer.go\<close>: the writer and the reader of a stream over a list of
  slices. The list of slices is the list form of \<^verbatim>\<open>Slice_List\<close>; the buffer manager is an
  argument and the shared memory is passed through. \<open>None\<close> is a panic (a nil dereference, an
  index out of range) or a use of a slice after it has left the list. The reader's wait for
  further data, \<^verbatim>\<open>stream.readMore\<close>, is an argument that may change a state \<open>'st\<close> of its own.
\<close>

definition defaultSingleBufferSize :: int where [consts_defs]: "defaultSingleBufferSize = 4096"

record linkedBuffer =
  lb_list :: slist
  pinnedList :: "bufferSlice list"
  currentPinned :: bool
  endStream :: bool
  lb_isFromShm :: bool
  lb_len :: int

definition newEmptyLinkedBuffer :: linkedBuffer where
  "newEmptyLinkedBuffer = \<lparr>lb_list = empty_slist, pinnedList = [], currentPinned = False, endStream = False,
     lb_isFromShm = True, lb_len = 0\<rparr>"

abbreviation slices :: "linkedBuffer \<Rightarrow> bufferSlice list" where
  "slices l \<equiv> items (lb_list l)"

definition lb_push :: "bufferSlice \<Rightarrow> linkedBuffer \<Rightarrow> linkedBuffer" where
  "lb_push s l = l\<lparr>lb_list := push_back s (lb_list l)\<rparr>"

definition set_items :: "bufferSlice list \<Rightarrow> linkedBuffer \<Rightarrow> linkedBuffer" where
  "set_items ss l = l\<lparr>lb_list := (lb_list l)\<lparr>items := ss\<rparr>\<rparr>"

definition set_write :: "wpos \<Rightarrow> linkedBuffer \<Rightarrow> linkedBuffer" where
  "set_write w l = l\<lparr>lb_list := (lb_list l)\<lparr>wslice := w\<rparr>\<rparr>"

text \<open>The slice at position \<open>k\<close>, or nil.\<close>

definition at_pos :: "nat \<Rightarrow> linkedBuffer \<Rightarrow> wpos" where
  "at_pos k l = (if k < length (slices l) then WAt k else WNil)"

definition write_at :: "linkedBuffer \<Rightarrow> nat option" where
  "write_at l = (case wslice (lb_list l) of WAt k \<Rightarrow> if k < length (slices l) then Some k else None | _ \<Rightarrow> None)"

definition front_of :: "linkedBuffer \<Rightarrow> bufferSlice option" where
  "front_of l = (case slices l of [] \<Rightarrow> None | s # _ \<Rightarrow> Some s)"

definition set_front :: "bufferSlice \<Rightarrow> linkedBuffer \<Rightarrow> linkedBuffer" where
  "set_front s l = set_items (s # tl (slices l)) l"

subsection \<open>Writing\<close>

definition lb_alloc :: "bufferManager \<Rightarrow> u32 \<Rightarrow> linkedBuffer \<Rightarrow> bytes \<Rightarrow> (linkedBuffer \<times> bytes) option" where
  "lb_alloc bm sz l m = do {
     (r, m1) \<leftarrow> allocShmBuffer bm sz m;
     case r of
       Inr buf \<Rightarrow> Some (lb_push buf l, m1)
     | Inl _ \<Rightarrow> do {
         (allocSize, got, m2) \<leftarrow> allocShmBuffers bm sz m1;
         let l1 = set_items (slices l @ got) l;
         let remain = uint sz - allocSize;
         if remain > 0 then do {
           let remain = (if remain < defaultSingleBufferSize then defaultSingleBufferSize else remain);
           buf \<leftarrow> newBufferSlice m2 None (HeapData (replicate (nat remain) 0)) 0 False;
           Some ((lb_push buf l1)\<lparr>lb_isFromShm := False\<rparr>, m2)
         } else Some (l1, m2)
       }
   }"

text \<open>The opening of every write: without a write slice, allocate and start at the front.\<close>

definition open_write :: "bufferManager \<Rightarrow> u32 \<Rightarrow> linkedBuffer \<Rightarrow> bytes \<Rightarrow> (linkedBuffer \<times> bytes) option" where
  "open_write bm sz l m =
     (if wslice (lb_list l) = WNil
      then do { (l1, m1) \<leftarrow> lb_alloc bm sz l m; Some (set_write (at_pos 0 l1) l1, m1) }
      else Some (l, m))"

definition WriteByte :: "bufferManager \<Rightarrow> u8 \<Rightarrow> linkedBuffer \<Rightarrow> bytes \<Rightarrow> (linkedBuffer \<times> bytes) option" where
  "WriteByte bm b l m = do {
     (l1, m1) \<leftarrow> open_write bm 1 l m;
     k \<leftarrow> write_at l1;
     (n, m2, s) \<leftarrow> slice_append m1 (slices l1 ! k) [b];
     let l2 = set_items ((slices l1)[k := s]) l1;
     if n = 1 then Some (l2\<lparr>lb_len := lb_len l2 + 1\<rparr>, m2)
     else do {
       (l3, m3) \<leftarrow> lb_alloc bm 1 l2 m2;
       let l4 = set_write (at_pos (Suc k) l3) l3;
       k' \<leftarrow> write_at l4;
       (_, m4, s') \<leftarrow> slice_append m3 (slices l4 ! k') [b];
       let l5 = set_items ((slices l4)[k' := s']) l4;
       Some (l5\<lparr>lb_len := lb_len l5 + 1\<rparr>, m4)
     }
   }"

partial_function (option) write_loop ::
  "bufferManager \<Rightarrow> bytes \<Rightarrow> nat \<Rightarrow> linkedBuffer \<Rightarrow> bytes \<Rightarrow> (nat \<times> linkedBuffer \<times> bytes) option" where
  "write_loop bm data n l m = do {
     k \<leftarrow> write_at l;
     (c, m1, s) \<leftarrow> slice_append m (slices l ! k) (drop n data);
     let l1 = set_items ((slices l)[k := s]) l;
     let n1 = n + c;
     if n1 < length data then do {
       (l2, m2) \<leftarrow> (if at_pos (Suc k) l1 = WNil then lb_alloc bm (word_of_nat (length data - n1)) l1 m1 else Some (l1, m1));
       write_loop bm data n1 (set_write (at_pos (Suc k) l2) l2) m2
     } else Some (n1, l1, m1)
   }"

definition WriteBytes :: "bufferManager \<Rightarrow> bytes \<Rightarrow> linkedBuffer \<Rightarrow> bytes \<Rightarrow> (nat \<times> linkedBuffer \<times> bytes) option" where
  "WriteBytes bm data l m =
     (if data = [] then Some (0, l, m)
      else do {
        (l1, m1) \<leftarrow> open_write bm (word_of_nat (length data)) l m;
        (n, l2, m2) \<leftarrow> write_loop bm data 0 l1 m1;
        Some (n, l2\<lparr>lb_len := lb_len l2 + int n\<rparr>, m2)
      })"

definition WriteString :: "bufferManager \<Rightarrow> bytes \<Rightarrow> linkedBuffer \<Rightarrow> bytes \<Rightarrow> (linkedBuffer \<times> bytes) option" where
  "WriteString bm str l m = do { (_, l', m') \<leftarrow> WriteBytes bm str l m; Some (l', m') }"

text \<open>\<^verbatim>\<open>Reserve\<close> hands out part of a slice for the caller to fill: the position of the slice and
  the range of its data. The last of its three branches takes a slice of its own.\<close>

definition reserve_new :: "bufferManager \<Rightarrow> int \<Rightarrow> linkedBuffer \<Rightarrow> bytes \<Rightarrow>
    ((go_error + (nat \<times> int \<times> int)) \<times> linkedBuffer \<times> bytes) option" where
  "reserve_new bm sz l1 m1 = do {
     (a, m2) \<leftarrow> allocShmBuffer bm (word_of_int sz) m1;
     l2 \<leftarrow> (case a of
       Inr buf \<Rightarrow> Some (lb_push buf l1)
     | Inl _ \<Rightarrow> do {
         let allocSize = (if sz < defaultSingleBufferSize then defaultSingleBufferSize else sz);
         buf \<leftarrow> newBufferSlice m2 None (HeapData (replicate (nat allocSize) 0)) 0 False;
         Some ((lb_push buf l1)\<lparr>lb_isFromShm := False\<rparr>)
       });
     let k2 = length (slices l2) - 1;
     (r3, s3) \<leftarrow> reserve (slices l2 ! k2) sz;
     let l3 = (set_write (WAt k2) (set_items ((slices l2)[k2 := s3]) l2))\<lparr>lb_len := lb_len l2 + sz\<rparr>;
     Some (map_sum id (\<lambda>(lo, hi). (k2, lo, hi)) r3, l3, m2)
   }"

definition Reserve :: "bufferManager \<Rightarrow> int \<Rightarrow> linkedBuffer \<Rightarrow> bytes \<Rightarrow>
    ((go_error + (nat \<times> int \<times> int)) \<times> linkedBuffer \<times> bytes) option" where
  "Reserve bm sz l m = do {
     (l1, m1) \<leftarrow> open_write bm (word_of_int sz) l m;
     k \<leftarrow> write_at l1;
     (r, s) \<leftarrow> reserve (slices l1 ! k) sz;
     case r of
       Inr (lo, hi) \<Rightarrow> Some (Inr (k, lo, hi), (set_items ((slices l1)[k := s]) l1)\<lparr>lb_len := lb_len l1 + sz\<rparr>, m1)
     | Inl _ \<Rightarrow> do {
         r2 \<leftarrow> (if Suc k < length (slices l1) then do { (r2, s2) \<leftarrow> reserve (slices l1 ! Suc k) sz; Some (Some (r2, s2)) } else Some None);
         case r2 of
           Some (Inr (lo, hi), s2) \<Rightarrow>
             Some (Inr (Suc k, lo, hi),
               (set_write (WAt (Suc k)) (set_items ((slices l1)[Suc k := s2]) l1))\<lparr>lb_len := lb_len l1 + sz\<rparr>, m1)
         | _ \<Rightarrow> reserve_new bm sz l1 m1
       }
   }"

subsection \<open>Handing over and giving back\<close>

fun recycle_items :: "bufferManager \<Rightarrow> bufferSlice list \<Rightarrow> bytes \<Rightarrow> bytes option" where
  "recycle_items bm [] m = Some m"
| "recycle_items bm (s # ss) m = do {
     m1 \<leftarrow> (if isFromShm s then recycleBuffer bm s m else Some m);
     recycle_items bm ss m1
   }"

definition lb_clean :: "linkedBuffer \<Rightarrow> linkedBuffer" where
  "lb_clean l = l\<lparr>lb_list := \<lparr>items = [], wslice = WNil\<rparr>, lb_isFromShm := True, endStream := False,
     currentPinned := False, lb_len := 0\<rparr>"

definition lb_recycle :: "bufferManager \<Rightarrow> linkedBuffer \<Rightarrow> bytes \<Rightarrow> (linkedBuffer \<times> bytes) option" where
  "lb_recycle bm l m = do { m1 \<leftarrow> recycle_items bm (slices l) m; Some (lb_clean l, m1) }"

definition rootBufOffset :: "linkedBuffer \<Rightarrow> u32 option" where
  "rootBufOffset l = map_option offsetInShm (front_of l)"

text \<open>The loop of \<^verbatim>\<open>done\<close> up to the write slice at position \<open>k\<close>.\<close>

fun update_items :: "nat \<Rightarrow> bufferSlice list \<Rightarrow> bytes \<Rightarrow> bytes option" where
  "update_items k [] m = Some m"
| "update_items k (s # ss) m = do {
     m1 \<leftarrow> update m s (case ss of [] \<Rightarrow> None | t # _ \<Rightarrow> Some (offsetInShm t));
     (case k of 0 \<Rightarrow> Some m1 | Suc k' \<Rightarrow> update_items k' ss m1)
   }"

fun recycle_each :: "bufferManager \<Rightarrow> bufferSlice list \<Rightarrow> bytes \<Rightarrow> bytes option" where
  "recycle_each bm [] m = Some m"
| "recycle_each bm (s # ss) m = do { m1 \<leftarrow> recycleBuffer bm s m; recycle_each bm ss m1 }"

definition lb_done :: "bufferManager \<Rightarrow> linkedBuffer \<Rightarrow> bytes \<Rightarrow> (linkedBuffer \<times> bytes) option" where
  "lb_done bm l m =
     (if lb_isFromShm l then do {
        k \<leftarrow> write_at l;
        m1 \<leftarrow> update_items k (slices l) m;
        if Suc k < length (slices l) then do {
          (rest, sl) \<leftarrow> split_from_write (lb_list l);
          m2 \<leftarrow> recycle_each bm rest m1;
          Some (l\<lparr>lb_list := sl\<rparr>, m2)
        } else Some (l, m1)
      } else Some (l, m))"

fun collect_data :: "nat option \<Rightarrow> bufferSlice list \<Rightarrow> bytes \<Rightarrow> bytes list option" where
  "collect_data k [] m = Some []"
| "collect_data k (s # ss) m = do {
     d \<leftarrow> data_range m (bs_data s) (readIndex s) (writeIndex s);
     ds \<leftarrow> (if k = Some 0 then Some [] else collect_data (map_option (\<lambda>j. j - 1) k) ss m);
     Some (d # ds)
   }"

definition underlyingData :: "linkedBuffer \<Rightarrow> bytes \<Rightarrow> bytes list option" where
  "underlyingData l m = (case wslice (lb_list l) of
     WNil \<Rightarrow> collect_data None (slices l) m
   | WAt k \<Rightarrow> collect_data (Some k) (slices l) m
   | WGone \<Rightarrow> None)"

subsection \<open>Reading\<close>

type_synonym 'st rstate = "'st \<times> linkedBuffer \<times> bytes"
type_synonym 'st read_more = "int \<Rightarrow> 'st rstate \<Rightarrow> (go_error option \<times> 'st rstate) option"

definition ensure :: "'st read_more \<Rightarrow> int \<Rightarrow> 'st rstate \<Rightarrow> (go_error option \<times> 'st rstate) option" where
  "ensure readMore n x = (case x of (st, l, m) \<Rightarrow> if lb_len l < n then readMore n x else Some (None, x))"

definition readNextSlice :: "bufferManager \<Rightarrow> linkedBuffer \<Rightarrow> bytes \<Rightarrow> (linkedBuffer \<times> bytes) option" where
  "readNextSlice bm l m = (case pop_front (lb_list l) of
     (None, _) \<Rightarrow> None
   | (Some s, sl) \<Rightarrow> do {
       (pinned, m1) \<leftarrow> (if isFromShm s
         then if currentPinned l then Some (pinnedList l @ [s], m)
              else do { m1 \<leftarrow> recycleBuffer bm s m; Some (pinnedList l, m1) }
         else Some (pinnedList l, m));
       Some (l\<lparr>lb_list := sl, pinnedList := pinned, currentPinned := False\<rparr>, m1)
     })"

partial_function (option) read_loop ::
  "bufferManager \<Rightarrow> int \<Rightarrow> bytes \<Rightarrow> linkedBuffer \<Rightarrow> bytes \<Rightarrow> (bytes \<times> linkedBuffer \<times> bytes) option" where
  "read_loop bm sz p l m =
     (if slices l \<noteq> [] \<and> sz > int (length p) then do {
        ((b, err), s) \<leftarrow> slice_read m (hd (slices l)) (sz - int (length p));
        let l1 = set_front s l;
        if err = None then Some (p @ b, l1, m)
        else if err = Some ErrNotEnoughData then do {
          (l2, m2) \<leftarrow> readNextSlice bm l1 m;
          read_loop bm sz (p @ b) l2 m2
        } else read_loop bm sz (p @ b) l1 m
      } else Some (p, l, m))"

text \<open>\<^verbatim>\<open>read\<close> fills a slice of \<open>sz\<close> bytes and returns the bytes filled in.\<close>

definition lb_read :: "bufferManager \<Rightarrow> 'st read_more \<Rightarrow> int \<Rightarrow> 'st rstate \<Rightarrow> ((go_error + bytes) \<times> 'st rstate) option" where
  "lb_read bm readMore sz x =
     (if sz \<le> 0 then Some (Inr [], x)
      else do {
        (err, st, l, m) \<leftarrow> ensure readMore 1 x;
        case err of
          Some e \<Rightarrow> Some (Inl e, st, l, m)
        | None \<Rightarrow> do {
            (p, l1, m1) \<leftarrow> read_loop bm sz [] l m;
            Some (Inr p, st, l1\<lparr>lb_len := lb_len l1 - int (length p)\<rparr>, m1)
          }
      })"

definition ReadByte :: "bufferManager \<Rightarrow> 'st read_more \<Rightarrow> 'st rstate \<Rightarrow> ((go_error + u8) \<times> 'st rstate) option" where
  "ReadByte bm readMore x = do {
     (err, st, l, m) \<leftarrow> ensure readMore 1 x;
     case err of
       Some e \<Rightarrow> Some (Inl e, st, l, m)
     | None \<Rightarrow> do {
         s \<leftarrow> front_of l;
         ((r, err1), s1) \<leftarrow> slice_read m s 1;
         let l1 = set_front s1 l;
         if err1 = None then
           (case r of [] \<Rightarrow> None | b # _ \<Rightarrow> Some (Inr b, st, l1\<lparr>lb_len := lb_len l1 - 1\<rparr>, m))
         else do {
           (l2, m2) \<leftarrow> readNextSlice bm l1 m;
           t \<leftarrow> front_of l2;
           ((r', _), t1) \<leftarrow> slice_read m2 t 1;
           let l3 = set_front t1 l2;
           (case r' of [] \<Rightarrow> None | b # _ \<Rightarrow> Some (Inr b, st, l3\<lparr>lb_len := lb_len l3 - 1\<rparr>, m2))
         }
       }
   }"

partial_function (option) read_bytes_loop ::
  "bufferManager \<Rightarrow> int \<Rightarrow> bytes \<Rightarrow> linkedBuffer \<Rightarrow> bytes \<Rightarrow> (bytes \<times> linkedBuffer \<times> bytes) option" where
  "read_bytes_loop bm sz result l m =
     (if sz > 0 then do {
        s \<leftarrow> front_of l;
        ((readData, _), s1) \<leftarrow> slice_read m s sz;
        (l2, m2) \<leftarrow> (if int (length readData) \<noteq> sz then readNextSlice bm (set_front s1 l) m else Some (set_front s1 l, m));
        read_bytes_loop bm (sz - int (length readData)) (result @ readData) l2 m2
      } else Some (result, l, m))"

definition ReadBytes :: "bufferManager \<Rightarrow> 'st read_more \<Rightarrow> int \<Rightarrow> 'st rstate \<Rightarrow> ((go_error + bytes) \<times> 'st rstate) option" where
  "ReadBytes bm readMore sz x =
     (if sz \<le> 0 then Some (Inr [], x)
      else do {
        (err, st, l, m) \<leftarrow> ensure readMore sz x;
        case err of
          Some e \<Rightarrow> Some (Inl e, st, l, m)
        | None \<Rightarrow> do {
            s \<leftarrow> front_of l;
            (l1, m1) \<leftarrow> (if slice_size s = 0 then readNextSlice bm l m else Some (l, m));
            s1 \<leftarrow> front_of l1;
            if slice_size s1 \<ge> sz then do {
              ((r, e), s2) \<leftarrow> slice_read m1 s1 sz;
              Some (case e of Some e \<Rightarrow> Inl e | None \<Rightarrow> Inr r, st,
                (set_front s2 l1)\<lparr>currentPinned := True, lb_len := lb_len l1 - sz\<rparr>, m1)
            } else do {
              (r, l2, m2) \<leftarrow> read_bytes_loop bm sz [] (l1\<lparr>lb_len := lb_len l1 - sz\<rparr>) m1;
              Some (Inr r, st, l2, m2)
            }
          }
      })"

partial_function (option) read_string_loop ::
  "bufferManager \<Rightarrow> int \<Rightarrow> bytes \<Rightarrow> linkedBuffer \<Rightarrow> bytes \<Rightarrow> (bytes \<times> linkedBuffer \<times> bytes) option" where
  "read_string_loop bm sz s l m =
     (if int (length s) < sz then do {
        f \<leftarrow> front_of l;
        (l1, m1) \<leftarrow> (if slice_size f = 0 then readNextSlice bm l m else Some (l, m));
        f1 \<leftarrow> front_of l1;
        ((readData, _), f2) \<leftarrow> slice_read m1 f1 (sz - int (length s));
        read_string_loop bm sz (s @ readData) (set_front f2 l1) m1
      } else Some (s, l, m))"

definition ReadString :: "bufferManager \<Rightarrow> 'st read_more \<Rightarrow> int \<Rightarrow> 'st rstate \<Rightarrow> ((go_error + bytes) \<times> 'st rstate) option" where
  "ReadString bm readMore sz x =
     (if sz \<le> 0 then Some (Inr [], x)
      else do {
        (err, st, l, m) \<leftarrow> ensure readMore sz x;
        case err of
          Some e \<Rightarrow> Some (Inl e, st, l, m)
        | None \<Rightarrow> do {
            s \<leftarrow> front_of l;
            if slice_size s \<ge> sz then do {
              ((data, _), s1) \<leftarrow> slice_read m s sz;
              Some (Inr data, st, (set_front s1 l)\<lparr>lb_len := lb_len l - sz\<rparr>, m)
            } else do {
              (r, l1, m1) \<leftarrow> read_string_loop bm sz [] l m;
              Some (Inr r, st, l1\<lparr>lb_len := lb_len l1 - sz\<rparr>, m1)
            }
          }
      })"

fun peek_rest :: "int \<Rightarrow> bytes \<Rightarrow> bufferSlice list \<Rightarrow> bytes \<Rightarrow> bytes option" where
  "peek_rest sz result [] m = Some result"
| "peek_rest sz result (e # es) m =
     (if sz > 0 then do {
        ((readBytes, _), _) \<leftarrow> slice_peek m e sz;
        peek_rest (sz - int (length readBytes)) (result @ readBytes) es m
      } else Some result)"

definition Peek :: "'st read_more \<Rightarrow> int \<Rightarrow> 'st rstate \<Rightarrow> ((go_error + bytes) \<times> 'st rstate) option" where
  "Peek readMore sz x =
     (if sz \<le> 0 then Some (Inr [], x)
      else do {
        (err, st, l, m) \<leftarrow> ensure readMore sz x;
        case err of
          Some e \<Rightarrow> Some (Inl e, st, l, m)
        | None \<Rightarrow> do {
            s \<leftarrow> front_of l;
            ((readBytes, _), s1) \<leftarrow> slice_peek m s sz;
            let l1 = set_front s1 l;
            if int (length readBytes) = sz then Some (Inr readBytes, st, l1\<lparr>currentPinned := True\<rparr>, m)
            else do {
              r \<leftarrow> peek_rest (sz - int (length readBytes)) readBytes (tl (slices l1)) m;
              Some (Inr r, st, l1, m)
            }
          }
      })"

partial_function (option) discard_loop ::
  "bufferManager \<Rightarrow> int \<Rightarrow> int \<Rightarrow> linkedBuffer \<Rightarrow> bytes \<Rightarrow> (int \<times> linkedBuffer \<times> bytes) option" where
  "discard_loop bm sz n l m = do {
     s \<leftarrow> front_of l;
     let (skip, s1) = slice_skip s sz;
     if sz - skip = 0 then Some (n + skip, set_front s1 l, m)
     else do {
       (l1, m1) \<leftarrow> readNextSlice bm (set_front s1 l) m;
       discard_loop bm (sz - skip) (n + skip) l1 m1
     }
   }"

definition Discard :: "bufferManager \<Rightarrow> 'st read_more \<Rightarrow> int \<Rightarrow> 'st rstate \<Rightarrow> ((go_error + int) \<times> 'st rstate) option" where
  "Discard bm readMore sz x = do {
     (err, st, l, m) \<leftarrow> ensure readMore sz x;
     case err of
       Some e \<Rightarrow> Some (Inl e, st, l, m)
     | None \<Rightarrow> do {
         (n, l1, m1) \<leftarrow> discard_loop bm sz 0 l m;
         Some (Inr n, st, l1\<lparr>lb_len := lb_len l1 - n\<rparr>, m1)
       }
   }"

definition cleanPinnedList :: "bufferManager \<Rightarrow> linkedBuffer \<Rightarrow> bytes \<Rightarrow> (linkedBuffer \<times> bytes) option" where
  "cleanPinnedList bm l m =
     (if pinnedList l = [] then Some (l, m)
      else do {
        m1 \<leftarrow> recycle_items bm (pinnedList l) m;
        Some (l\<lparr>currentPinned := False, pinnedList := []\<rparr>, m1)
      })"

definition ReleasePreviousRead :: "bufferManager \<Rightarrow> linkedBuffer \<Rightarrow> bytes \<Rightarrow> (linkedBuffer \<times> bytes) option" where
  "ReleasePreviousRead bm l m = do {
     (l1, m1) \<leftarrow> cleanPinnedList bm l m;
     case slices l1 of
       [] \<Rightarrow> Some (l1, m1)
     | s # ss \<Rightarrow>
         if slice_size s = 0 then
           (case wslice (lb_list l1) of
              WGone \<Rightarrow> None
            | WAt 0 \<Rightarrow> do { m2 \<leftarrow> recycleBuffer bm s m1; Some (l1\<lparr>lb_list := \<lparr>items = ss, wslice = WNil\<rparr>\<rparr>, m2) }
            | _ \<Rightarrow> Some (l1, m1))
         else Some (l1, m1)
   }"

definition releasePreviousReadAndReserve :: "bufferManager \<Rightarrow> linkedBuffer \<Rightarrow> bytes \<Rightarrow> (linkedBuffer \<times> bytes) option" where
  "releasePreviousReadAndReserve bm l m = do {
     (l1, m1) \<leftarrow> cleanPinnedList bm l m;
     if lb_len l1 = 0 \<and> length (slices l1) = 1 then
       (if isFromShm (hd (slices l1)) then do {
          (m2, s) \<leftarrow> slice_reset m1 (hd (slices l1));
          Some (set_front s l1, m2)
        } else Some (l1\<lparr>lb_list := snd (pop_front (lb_list l1))\<rparr>, m1))
     else Some (l1, m1)
   }"

definition appendBufferSlice :: "bufferSlice option \<Rightarrow> linkedBuffer \<Rightarrow> linkedBuffer" where
  "appendBufferSlice x l = (case x of
     None \<Rightarrow> l
   | Some s \<Rightarrow>
       let l1 = lb_push s l;
           l2 = (if isFromShm s then l1 else l1\<lparr>lb_isFromShm := False\<rparr>)
       in set_write (WAt (length (slices l))) (l2\<lparr>lb_len := lb_len l2 + slice_size s\<rparr>))"

end
