(* ===== verification/Linked_Write.thy ===== *)
theory Linked_Write
  imports Linked_Buffer
begin

text \<open>
  What the writing side of the linked buffer guarantees: the bytes written are appended to its
  content whatever the state of the shared memory, publishing leaves a chain of headers
  the peer can follow, and every buffer is accounted for.
\<close>

subsection \<open>The invariant of a buffer being written\<close>

definition lb_content :: "bytes \<Rightarrow> linkedBuffer \<Rightarrow> bytes" where
  "lb_content m l = concat (map (content m) (slices l))"

text \<open>Slices that have been written from their start and are not linked yet.\<close>

definition unsent :: "bytes \<Rightarrow> bufferSlice list \<Rightarrow> bool" where
  "unsent m ss \<longleftrightarrow> (\<forall>s \<in> set ss. readIndex s = uint (bs_start s) \<and> (isFromShm s \<longrightarrow> slink m s = None))"

definition wstate :: "nat \<Rightarrow> bufferManager \<Rightarrow> (nat \<times> nat) list \<Rightarrow> (nat \<times> nat) multiset \<Rightarrow> bytes \<Rightarrow> linkedBuffer \<Rightarrow> bool" where
  "wstate ct bm ds L m l \<longleftrightarrow> owns ct bm ds L m (slices l) \<and> pinnedList l = [] \<and> unsent m (slices l) \<and>
     wslice (lb_list l) = (if slices l = [] then WNil else WAt (length (slices l) - 1)) \<and>
     (lb_isFromShm l \<longleftrightarrow> (\<forall>s \<in> set (slices l). isFromShm s))"

definition wbuf :: "nat \<Rightarrow> bufferManager \<Rightarrow> (nat \<times> nat) list \<Rightarrow> (nat \<times> nat) multiset \<Rightarrow> bytes \<Rightarrow> linkedBuffer \<Rightarrow> bool" where
  "wbuf ct bm ds L m l \<longleftrightarrow> wstate ct bm ds L m l \<and> lb_len l = int (length (lb_content m l))"

lemma lb_sel [simp]:
  "slices (set_items ss l) = ss" "wslice (lb_list (set_items ss l)) = wslice (lb_list l)"
  "slices (set_write w l) = slices l" "wslice (lb_list (set_write w l)) = w"
  "slices (lb_push s l) = slices l @ [s]" "wslice (lb_list (lb_push s l)) = wslice (lb_list l)"
  "lb_len (set_items ss l) = lb_len l" "lb_len (set_write w l) = lb_len l" "lb_len (lb_push s l) = lb_len l"
  "pinnedList (set_items ss l) = pinnedList l" "pinnedList (set_write w l) = pinnedList l" "pinnedList (lb_push s l) = pinnedList l"
  "lb_isFromShm (set_items ss l) = lb_isFromShm l" "lb_isFromShm (set_write w l) = lb_isFromShm l" "lb_isFromShm (lb_push s l) = lb_isFromShm l"
  "currentPinned (set_items ss l) = currentPinned l" "currentPinned (set_write w l) = currentPinned l" "currentPinned (lb_push s l) = currentPinned l"
  by (simp_all add: set_items_def set_write_def lb_push_def push_back_def)

text \<open>No slice is empty.\<close>

definition full :: "bufferSlice list \<Rightarrow> bool" where
  "full ss \<longleftrightarrow> (\<forall>s \<in> set ss. 0 < slice_size s)"

lemma full_simps [simp]: "full []" "full (s # ss) \<longleftrightarrow> 0 < slice_size s \<and> full ss" "full (ss @ ts) \<longleftrightarrow> full ss \<and> full ts"
  by (auto simp: full_def)

lemma same_views_concat:
  assumes "same_views m m' ss" and "set ts \<subseteq> set ss"
  shows "concat (map (content m') ts) = concat (map (content m) ts)"
  by (rule arg_cong [OF same_views_contents [OF same_views_subset [OF assms]]])

lemma unsent_same: "same_views m m' ss \<Longrightarrow> unsent m ss \<Longrightarrow> unsent m' ss"
  by (auto simp: unsent_def same_views_def)

lemma unsent_simps [simp]: "unsent m []" "unsent m (s # ss) \<longleftrightarrow> readIndex s = uint (bs_start s) \<and> (isFromShm s \<longrightarrow> slink m s = None) \<and> unsent m ss"
  "unsent m (ss @ ts) \<longleftrightarrow> unsent m ss \<and> unsent m ts"
  by (auto simp: unsent_def)

lemma fresh_unsent: "\<forall>s \<in> set ss. fresh m s \<Longrightarrow> unsent m ss"
  by (auto simp: unsent_def fresh_def)

lemma fresh_content [simp]: "fresh m s \<Longrightarrow> content m' s = []"
  by (simp add: fresh_def content_def slice_size_def load_def)

lemma fresh_remain: "fresh m s \<Longrightarrow> slice_remain s = uint (bs_cap s)"
  by (simp add: fresh_def slice_remain_def)

lemma total_cap_nonneg: "0 \<le> total_cap ss"
  by (induction ss) auto

subsection \<open>Allocation\<close>

lemma heap_slice_new:
  assumes "0 < n" and "n < 2 ^ 32"
  obtains s where "newBufferSlice m None (HeapData (replicate (nat n) 0)) 0 False = Some s" and "heap_slice s"
    and "slice_wf k s" and "fresh m' s" and "uint (bs_cap s) = n"
proof -
  let ?s = "zero_slice\<lparr>bs_cap := word_of_nat (nat n), bufferHeader := None, bs_data := HeapData (replicate (nat n) 0), offsetInShm := 0, isFromShm := False\<rparr>"
  have "nat n < 2 ^ 32" using assms by (simp add: nat_less_iff)
  then have u: "unat (word_of_nat (nat n) :: u32) = nat n" by (rule unat_of_nat32)
  then have c: "uint (word_of_nat (nat n) :: u32) = n" using assms by (simp add: uint_nat)
  have p: "0 < (word_of_nat (nat n) :: u32)" using u assms(1) unfolding word_less_nat_alt by simp
  have "newBufferSlice m None (HeapData (replicate (nat n) 0)) 0 False = Some ?s" by (simp add: newBufferSlice_def data_cap_def)
  moreover have "heap_slice ?s" by (simp add: heap_slice_def)
  moreover have "slice_wf k ?s" using u by (simp add: slice_wf_def data_wf_def zero_slice_def)
  moreover have "fresh m' ?s" using p by (simp add: fresh_def zero_slice_def)
  moreover have "uint (bs_cap ?s) = n" using c by simp
  ultimately show thesis using that by blast
qed

lemma lb_alloc_ok:
  assumes o: "owns ct bm ds L m (slices l)" and sz: "0 < sz"
  obtains new m' where "lb_alloc bm sz l m = Some ((set_items (slices l @ new) l)\<lparr>lb_isFromShm := lb_isFromShm l \<and> (\<forall>s \<in> set new. isFromShm s)\<rparr>, m')"
    and "owns ct bm ds L m' (slices l @ new)" and "same_views m m' (slices l)" and "\<forall>s \<in> set new. fresh m' s"
    and "new \<noteq> []" and "uint sz \<le> total_cap new" and "total_cap (butlast new) < uint sz"
proof -
  have sz': "0 < uint sz" using sz by (simp add: word_less_def)
  have re: "owns ct bm ds L m' (slices l @ got)" if "owns ct bm ds L m' (rev got @ slices l)" for m' got
    by (rule owns_reorder [OF that]) simp
  from o show thesis
  proof (cases rule: owns_alloc [where sz = sz])
    case (2 s m')
    have "lb_alloc bm sz l m = Some ((set_items (slices l @ [s]) l)\<lparr>lb_isFromShm := lb_isFromShm l \<and> (\<forall>s \<in> set [s]. isFromShm s)\<rparr>, m')"
      using 2(1,5) by (simp add: lb_alloc_def lb_push_def set_items_def push_back_def)
    with that [of "[s]" m'] re [of m' "[s]"] 2 sz' show thesis by (simp add: uint_nat)
  next
    case 1
    from owns_allocs [OF o sz] obtain remain got m' where
      g: "allocShmBuffers bm sz m = Some (total_cap got, got, m')" "owns ct bm ds L m' (rev got @ slices l)" "same_views m m' (slices l)"
        "got_ok m' (uint sz) remain got" "\<forall>s \<in> set got. isFromShm s" .
    have rm: "uint sz - total_cap got = remain" and fr: "\<forall>s \<in> set got. fresh m' s" using g(4) by (auto simp: got_ok_def)
    show thesis
    proof (cases "0 < remain")
      case False
      then have gt: "got \<noteq> []" "total_cap (butlast got) < uint sz" "uint sz \<le> total_cap got" using g(4) rm by (auto simp: got_ok_def)
      have "lb_alloc bm sz l m = Some ((set_items (slices l @ got) l)\<lparr>lb_isFromShm := lb_isFromShm l \<and> (\<forall>s \<in> set got. isFromShm s)\<rparr>, m')"
        using 1 g(1,5) False rm by (simp add: lb_alloc_def set_items_def)
      from that [OF this re [OF g(2)] g(3) fr gt(1,3,2)] show thesis .
    next
      case True
      define n where "n = (if remain < defaultSingleBufferSize then defaultSingleBufferSize else remain)"
      have "remain \<le> uint sz" using rm total_cap_nonneg [of got] by simp
      moreover have "uint sz < 2 ^ 32" using uint_bounded [of sz] by simp
      ultimately have n: "0 < n" "n < 2 ^ 32" "remain \<le> n" using True by (auto simp: n_def consts_defs)
      from heap_slice_new [OF n(1,2)] obtain s where
        s: "newBufferSlice m' None (HeapData (replicate (nat n) 0)) 0 False = Some s" "heap_slice s" "slice_wf (length m') s" "fresh m' s"
          "uint (bs_cap s) = n" .
      have ns: "\<not> isFromShm s" using s(2) by (simp add: heap_slice_def)
      have "lb_alloc bm sz l m = Some ((lb_push s (set_items (slices l @ got) l))\<lparr>lb_isFromShm := False\<rparr>, m')"
        using 1 g(1) True rm s(1) by (auto simp: lb_alloc_def Let_def n_def)
      then have "lb_alloc bm sz l m = Some ((set_items (slices l @ (got @ [s])) l)\<lparr>lb_isFromShm := lb_isFromShm l \<and> (\<forall>s \<in> set (got @ [s]). isFromShm s)\<rparr>, m')"
        using ns by (simp add: lb_push_def set_items_def push_back_def)
      moreover have "owns ct bm ds L m' (rev (got @ [s]) @ slices l)" using owns_heap [OF s(2,3) g(2)] by simp
      ultimately show thesis using that [of "got @ [s]" m'] re [of m' "got @ [s]"] g(3) fr s(4,5) n(3) rm True by simp
    qed
  qed
qed

subsection \<open>The write loop\<close>

lemma append_at:
  assumes o: "owns ct bm ds L m (pre @ s # post)" and ne: "src \<noteq> []" and us: "unsent m (pre @ s # post)"
  obtains m' s' where "slice_append m s src = Some (min (nat (slice_remain s)) (length src), m', s')"
    and "owns ct bm ds L m' (pre @ s' # post)" and "same_views m m' (pre @ post)" and "unsent m' (pre @ s' # post)"
    and "content m' s' = content m s @ take (nat (slice_remain s)) src" and "isFromShm s' = isFromShm s"
proof -
  have "owns ct bm ds L m (s # pre @ post)" by (rule owns_reorder [OF o]) simp
  from owns_append [OF this ne] obtain m' s' where
    a: "slice_append m s src = Some (min (nat (slice_remain s)) (length src), m', s')"
    and o': "owns ct bm ds L m' (s' # pre @ post)" and sv: "same_views m m' (pre @ post)"
    and c: "content m' s' = content m s @ take (nat (slice_remain s)) src" and lk: "isFromShm s \<longrightarrow> slink m' s' = slink m s"
    and e: "s' = s\<lparr>bs_data := bs_data s', writeIndex := writeIndex s + int (min (nat (slice_remain s)) (length src))\<rparr>" .
  have f: "isFromShm s' = isFromShm s" "readIndex s' = readIndex s" "bs_start s' = bs_start s" by (subst e, simp)+
  have o2: "owns ct bm ds L m' (pre @ s' # post)" by (rule owns_reorder [OF o']) simp
  have "unsent m' (pre @ s' # post)"
    using us unsent_same [OF sv] f lk by simp
  from that [OF a o2 sv this c f(1)] show thesis .
qed

lemma size_grows:
  assumes "owns ct bm ds L m1 (pre @ s1 # post)" and "content m1 s1 = content m s @ take (nat (slice_remain s)) d"
    and "slice_wf (length m) s" and "d \<noteq> []"
  shows "0 < slice_size s \<or> 0 < slice_remain s \<longrightarrow> 0 < slice_size s1"
proof
  assume "0 < slice_size s \<or> 0 < slice_remain s"
  then have "content m1 s1 \<noteq> []" using assms(2,4) length_content [OF assms(3)] by auto
  moreover have "length (content m1 s1) = nat (slice_size s1)" by (rule length_content [OF owns_wf [OF assms(1)]]) simp
  ultimately show "0 < slice_size s1" by (cases "0 < slice_size s1") simp_all
qed

text \<open>The loop fills the write slice and the fresh slices behind it; enough of them have been
  allocated, and none too many.\<close>

lemma write_fill:
  assumes "slices l = pre @ s # post" and "wslice (lb_list l) = WAt (length pre)" and "owns ct bm ds L m (slices l)"
    and "unsent m (slices l)" and "\<forall>t \<in> set post. fresh m t" and "n < length data"
    and "int (length data - n) \<le> slice_remain s + total_cap post"
    and "post \<noteq> [] \<longrightarrow> slice_remain s + total_cap (butlast post) < int (length data - n)"
  shows "\<exists>ss m'. write_loop bm data n l m = Some (length data, set_write (WAt (length ss - 1)) (set_items ss l), m') \<and>
    ss \<noteq> [] \<and> owns ct bm ds L m' ss \<and> unsent m' ss \<and> map isFromShm ss = map isFromShm (slices l) \<and>
    concat (map (content m') ss) = concat (map (content m) (pre @ [s])) @ drop n data \<and>
    (full pre \<and> (0 < slice_size s \<or> 0 < slice_remain s) \<longrightarrow> full ss)"
  using assms
proof (induction post arbitrary: pre s l m n)
  case (Cons t post)
  have ne: "drop n data \<noteq> []" using Cons.prems(6) by simp
  have o: "owns ct bm ds L m (pre @ s # t # post)" and us: "unsent m (pre @ s # t # post)" using Cons.prems(1,3,4) by simp_all
  from append_at [OF o ne us] obtain m1 s1 where
    a: "slice_append m s (drop n data) = Some (min (nat (slice_remain s)) (length (drop n data)), m1, s1)"
    and o1: "owns ct bm ds L m1 (pre @ s1 # t # post)" and sv: "same_views m m1 (pre @ t # post)" and us1: "unsent m1 (pre @ s1 # t # post)"
    and c1: "content m1 s1 = content m s @ take (nat (slice_remain s)) (drop n data)" and f1: "isFromShm s1 = isFromShm s" .
  have wf: "slice_wf (length m) s" using owns_wf [OF o] by simp
  then have r0: "0 \<le> slice_remain s" by (simp add: slice_wf_def slice_remain_unat)
  have tn: "0 \<le> total_cap (butlast (t # post))" by (rule total_cap_nonneg)
  have p8: "slice_remain s + total_cap (butlast (t # post)) < int (length data - n)" using Cons.prems(8) by simp
  then have lt: "slice_remain s < int (length data - n)" using tn by linarith
  let ?c = "nat (slice_remain s)"
  have mn: "min ?c (length (drop n data)) = ?c" "n + ?c < length data" using lt r0 by auto
  let ?l1 = "set_write (WAt (length (pre @ [s1]))) (set_items (pre @ s1 # t # post) l)"
  have step: "write_loop bm data n l m = write_loop bm data (n + ?c) ?l1 m1"
    using Cons.prems(1,2) a mn by (subst write_loop.simps) (simp add: write_at_def at_pos_def)
  have tf: "fresh m1 t" "\<forall>u \<in> set post. fresh m1 u" using Cons.prems(5) fresh_same [OF sv] by auto
  have tr: "slice_remain t = uint (bs_cap t)" by (rule fresh_remain [OF tf(1)])
  have i7: "int (length data - (n + ?c)) \<le> slice_remain t + total_cap post" using Cons.prems(7) tr r0 mn(2) by simp
  have i8: "post \<noteq> [] \<longrightarrow> slice_remain t + total_cap (butlast post) < int (length data - (n + ?c))"
    using Cons.prems(8) tr r0 mn(2) by auto
  from Cons.IH [of ?l1 "pre @ [s1]" t m1 "n + ?c"] o1 us1 tf(2) mn(2) i7 i8 obtain ss m' where
    r: "write_loop bm data (n + ?c) ?l1 m1 = Some (length data, set_write (WAt (length ss - 1)) (set_items ss ?l1), m')"
    "ss \<noteq> []" "owns ct bm ds L m' ss" "unsent m' ss" "map isFromShm ss = map isFromShm (pre @ s1 # t # post)"
    "concat (map (content m') ss) = concat (map (content m1) ((pre @ [s1]) @ [t])) @ drop (n + ?c) data"
    "full (pre @ [s1]) \<and> (0 < slice_size t \<or> 0 < slice_remain t) \<longrightarrow> full ss" by auto
  have "0 < slice_remain t" using tf(1) tr by (simp add: fresh_def word_less_def)
  then have fl: "full pre \<and> (0 < slice_size s \<or> 0 < slice_remain s) \<longrightarrow> full ss"
    using r(7) size_grows [OF o1 c1 wf ne] by auto
  have "concat (map (content m1) pre) = concat (map (content m) pre)" by (rule same_views_concat [OF sv]) auto
  then have "concat (map (content m') ss) = concat (map (content m) (pre @ [s])) @ drop n data"
    using r(6) c1 tf(1) append_take_drop_id [of ?c "drop n data"] by (simp add: add.commute)
  moreover have "set_write (WAt (length ss - 1)) (set_items ss ?l1) = set_write (WAt (length ss - 1)) (set_items ss l)"
    by (simp add: set_write_def set_items_def)
  ultimately show ?case using step r(1-5) f1 fl Cons.prems(1) by auto
next
  case Nil
  have ne: "drop n data \<noteq> []" using Nil.prems(6) by simp
  have o: "owns ct bm ds L m (pre @ [s])" and us: "unsent m (pre @ [s])" using Nil.prems(1,3,4) by simp_all
  from append_at [OF o ne us] obtain m1 s1 where
    a: "slice_append m s (drop n data) = Some (min (nat (slice_remain s)) (length (drop n data)), m1, s1)"
    and o1: "owns ct bm ds L m1 (pre @ [s1])" and sv: "same_views m m1 pre" and us1: "unsent m1 (pre @ [s1])"
    and c1: "content m1 s1 = content m s @ take (nat (slice_remain s)) (drop n data)" and f1: "isFromShm s1 = isFromShm s"
    by auto
  have mn: "min (nat (slice_remain s)) (length (drop n data)) = length data - n" "length data - n \<le> nat (slice_remain s)"
    using Nil.prems(7) by auto
  have "write_loop bm data n l m = Some (length data, set_write (WAt (length (pre @ [s1]) - 1)) (set_items (pre @ [s1]) l), m1)"
    using Nil.prems(1,2,6) a mn by (subst write_loop.simps) (simp add: write_at_def set_write_def set_items_def)
  moreover have "concat (map (content m1) pre) = concat (map (content m) pre)" by (rule same_views_concat [OF sv]) auto
  then have "concat (map (content m1) (pre @ [s1])) = concat (map (content m) (pre @ [s])) @ drop n data"
    using c1 mn(2) by simp
  moreover have "0 < slice_size s \<or> 0 < slice_remain s \<longrightarrow> 0 < slice_size s1"
    using size_grows [OF o1 c1 owns_wf [OF o] ne] by simp
  ultimately show ?case using o1 us1 f1 Nil.prems(1) by (intro exI [of _ "pre @ [s1]"] exI [of _ m1]) auto
qed

lemma map_flags: "map f ss = map f ts \<Longrightarrow> (\<forall>s \<in> set ss. f s) \<longleftrightarrow> (\<forall>s \<in> set ts. f s)"
  by (metis (no_types, lifting) imageI in_set_conv_nth length_map nth_map)

text \<open>The loop entered at the first of the slices just allocated.\<close>

lemma write_from_new:
  assumes sl: "slices l = pre @ new" and "new \<noteq> []" and w: "wslice (lb_list l) = WAt (length pre)"
    and o: "owns ct bm ds L m (slices l)" and us: "unsent m pre" and fr: "\<forall>t \<in> set new. fresh m t" and n: "n < length data"
    and cap: "int (length data - n) \<le> total_cap new" "total_cap (butlast new) < int (length data - n)"
    and p: "pinnedList l = []" and f: "lb_isFromShm l \<longleftrightarrow> (\<forall>s \<in> set (slices l). isFromShm s)"
  shows "\<exists>l' m'. write_loop bm data n l m = Some (length data, l', m') \<and> wstate ct bm ds L m' l' \<and> slices l' \<noteq> [] \<and>
    lb_len l' = lb_len l \<and> lb_content m' l' = concat (map (content m) pre) @ drop n data \<and> (full pre \<longrightarrow> full (slices l'))"
proof -
  obtain s post where new: "new = s # post" using assms(2) by (cases new) auto
  have fs: "fresh m s" "\<forall>t \<in> set post. fresh m t" using fr new by simp_all
  have r: "slice_remain s = uint (bs_cap s)" by (rule fresh_remain [OF fs(1)])
  have us': "unsent m (slices l)" using us fresh_unsent [OF fr] sl by simp
  have sl': "slices l = pre @ s # post" using sl new by simp
  have c: "int (length data - n) \<le> slice_remain s + total_cap post"
    "post \<noteq> [] \<longrightarrow> slice_remain s + total_cap (butlast post) < int (length data - n)"
    using cap new r by auto
  from write_fill [OF sl' w o us' fs(2) n c] obtain ss m' where
    w': "write_loop bm data n l m = Some (length data, set_write (WAt (length ss - 1)) (set_items ss l), m')"
    "ss \<noteq> []" "owns ct bm ds L m' ss" "unsent m' ss" "map isFromShm ss = map isFromShm (slices l)"
    "concat (map (content m') ss) = concat (map (content m) (pre @ [s])) @ drop n data"
    "full pre \<and> (0 < slice_size s \<or> 0 < slice_remain s) \<longrightarrow> full ss" by blast
  have "0 < slice_remain s" using fs(1) r by (simp add: fresh_def word_less_def)
  then have fl: "full pre \<longrightarrow> full ss" using w'(7) by simp
  have "wstate ct bm ds L m' (set_write (WAt (length ss - 1)) (set_items ss l))"
    using w' p f map_flags [OF w'(5)] by (simp add: wstate_def)
  with w' fl fs(1) show ?thesis by (auto simp: lb_content_def)
qed

lemma write_loop_ok:
  assumes ws: "wstate ct bm ds L m l" and ne: "slices l \<noteq> []" and n: "n < length data" and len: "length data < 2 ^ 32"
  shows "\<exists>l' m'. write_loop bm data n l m = Some (length data, l', m') \<and> wstate ct bm ds L m' l' \<and> slices l' \<noteq> [] \<and>
    lb_len l' = lb_len l \<and> lb_content m' l' = lb_content m l @ drop n data \<and> (full (slices l) \<longrightarrow> full (slices l'))"
proof -
  obtain pre s where sl: "slices l = pre @ [s]" using ne by (metis rev_exhaust)
  have w: "wslice (lb_list l) = WAt (length pre)" and o: "owns ct bm ds L m (slices l)" and us: "unsent m (slices l)"
    and p: "pinnedList l = []" and f: "lb_isFromShm l \<longleftrightarrow> (\<forall>s \<in> set (slices l). isFromShm s)"
    using ws sl by (simp_all add: wstate_def)
  have wf: "slice_wf (length m) s" using owns_wf [OF o] sl by simp
  then have r0: "0 \<le> slice_remain s" by (simp add: slice_wf_def slice_remain_unat)
  show ?thesis
  proof (cases "int (length data - n) \<le> slice_remain s")
    case True
    with write_fill [of l pre s "[]" ct bm ds L m n data] sl w o us n obtain ss m' where
      w': "write_loop bm data n l m = Some (length data, set_write (WAt (length ss - 1)) (set_items ss l), m')"
      "ss \<noteq> []" "owns ct bm ds L m' ss" "unsent m' ss" "map isFromShm ss = map isFromShm (slices l)"
      "concat (map (content m') ss) = concat (map (content m) (pre @ [s])) @ drop n data"
      "full pre \<and> (0 < slice_size s \<or> 0 < slice_remain s) \<longrightarrow> full ss" by auto
    have "wstate ct bm ds L m' (set_write (WAt (length ss - 1)) (set_items ss l))"
      using w' p f map_flags [OF w'(5)] by (simp add: wstate_def)
    with w' sl show ?thesis by (auto simp: lb_content_def)
  next
    case False
    have nd: "drop n data \<noteq> []" using n by simp
    have o': "owns ct bm ds L m (pre @ [s])" and us': "unsent m (pre @ [s])" using o us sl by simp_all
    from append_at [OF o' nd us'] obtain m1 s1 where
      a: "slice_append m s (drop n data) = Some (min (nat (slice_remain s)) (length (drop n data)), m1, s1)"
      and o1: "owns ct bm ds L m1 (pre @ [s1])" and sv: "same_views m m1 pre" and us1: "unsent m1 (pre @ [s1])"
      and c1: "content m1 s1 = content m s @ take (nat (slice_remain s)) (drop n data)" and f1: "isFromShm s1 = isFromShm s"
      by auto
    let ?c = "nat (slice_remain s)"
    have mn: "min ?c (length (drop n data)) = ?c" "n + ?c < length data" using False r0 by auto
    let ?l1 = "set_items (pre @ [s1]) l"
    let ?sz = "word_of_nat (length data - (n + ?c)) :: u32"
    have usz: "unat ?sz = length data - (n + ?c)" by (rule unat_of_nat32) (use len in simp)
    then have sz: "0 < ?sz" "uint ?sz = int (length data - (n + ?c))" using mn(2) by (simp_all add: word_less_nat_alt uint_nat)
    have "owns ct bm ds L m1 (slices ?l1)" using o1 by simp
    from lb_alloc_ok [OF this sz(1)] obtain new m2 where
      al: "lb_alloc bm ?sz ?l1 m1 = Some ((set_items (slices ?l1 @ new) ?l1)\<lparr>lb_isFromShm := lb_isFromShm ?l1 \<and> (\<forall>s \<in> set new. isFromShm s)\<rparr>, m2)"
      and o2: "owns ct bm ds L m2 (slices ?l1 @ new)" and sv2: "same_views m1 m2 (slices ?l1)" and fr: "\<forall>s \<in> set new. fresh m2 s"
      and nw: "new \<noteq> []" "uint ?sz \<le> total_cap new" "total_cap (butlast new) < uint ?sz" .
    let ?l3 = "set_write (WAt (length (pre @ [s1]))) ((set_items (slices ?l1 @ new) ?l1)\<lparr>lb_isFromShm := lb_isFromShm ?l1 \<and> (\<forall>s \<in> set new. isFromShm s)\<rparr>)"
    have l3: "slices ?l3 = (pre @ [s1]) @ new" "pinnedList ?l3 = []" "lb_len ?l3 = lb_len l" "wslice (lb_list ?l3) = WAt (length (pre @ [s1]))"
      "lb_isFromShm ?l3 \<longleftrightarrow> (\<forall>s \<in> set (slices ?l3). isFromShm s)"
      using p f sl f1 by (auto simp: set_write_def set_items_def)
    have step: "write_loop bm data n l m = write_loop bm data (n + ?c) ?l3 m2"
      using sl w a mn al nw(1) by (subst write_loop.simps) (simp add: write_at_def at_pos_def set_items_def)
    have "unsent m2 (pre @ [s1])" using unsent_same [OF sv2] us1 by simp
    with write_from_new [OF l3(1) nw(1) l3(4), of ct bm ds L m2 "n + ?c" data] o2 fr mn(2) nw(2,3) sz(2) l3 obtain l' m' where
      r: "write_loop bm data (n + ?c) ?l3 m2 = Some (length data, l', m')" "wstate ct bm ds L m' l'" "slices l' \<noteq> []"
      "lb_len l' = lb_len ?l3" "lb_content m' l' = concat (map (content m2) (pre @ [s1])) @ drop (n + ?c) data"
      "full (pre @ [s1]) \<longrightarrow> full (slices l')" by auto
    have fl: "full (slices l) \<longrightarrow> full (slices l')" using r(6) sl size_grows [OF o1 c1 wf nd] by auto
    have "concat (map (content m2) (pre @ [s1])) = concat (map (content m1) (pre @ [s1]))" by (rule same_views_concat [OF sv2]) simp
    moreover have "concat (map (content m1) pre) = concat (map (content m) pre)" by (rule same_views_concat [OF sv]) simp
    ultimately have "lb_content m' l' = lb_content m l @ drop n data"
      using r(5) c1 sl append_take_drop_id [of ?c "drop n data"] by (simp add: lb_content_def add.commute)
    with step r l3(3) fl show ?thesis by auto
  qed
qed

text \<open>What \<open>open_write\<close> leaves: the buffer itself, or newly allocated slices with the first as
  the write slice.\<close>

definition opened :: "nat \<Rightarrow> bufferManager \<Rightarrow> (nat \<times> nat) list \<Rightarrow> (nat \<times> nat) multiset \<Rightarrow> int \<Rightarrow> bytes \<Rightarrow> linkedBuffer \<Rightarrow> bool" where
  "opened ct bm ds L sz m l \<longleftrightarrow> owns ct bm ds L m (slices l) \<and> pinnedList l = [] \<and> wslice (lb_list l) = WAt 0 \<and>
     (lb_isFromShm l \<longleftrightarrow> (\<forall>s \<in> set (slices l). isFromShm s)) \<and> (\<forall>s \<in> set (slices l). fresh m s) \<and> slices l \<noteq> [] \<and>
     sz \<le> total_cap (slices l) \<and> total_cap (butlast (slices l)) < sz"

lemma open_write_ok:
  assumes ws: "wstate ct bm ds L m l" and sz: "0 < sz"
  obtains "slices l \<noteq> []" and "open_write bm sz l m = Some (l, m)"
  | l1 m1 where "slices l = []" and "open_write bm sz l m = Some (l1, m1)" and "opened ct bm ds L (uint sz) m1 l1" and "lb_len l1 = lb_len l"
proof (cases "slices l = []")
  case False
  with that(1) ws show thesis by (simp add: open_write_def wstate_def)
next
  case True
  have o: "owns ct bm ds L m (slices l)" using ws by (simp add: wstate_def)
  from lb_alloc_ok [OF o sz] obtain new m2 where
    al: "lb_alloc bm sz l m = Some ((set_items (slices l @ new) l)\<lparr>lb_isFromShm := lb_isFromShm l \<and> (\<forall>s \<in> set new. isFromShm s)\<rparr>, m2)"
    and o2: "owns ct bm ds L m2 (slices l @ new)" and fr: "\<forall>s \<in> set new. fresh m2 s"
    and nw: "new \<noteq> []" "uint sz \<le> total_cap new" "total_cap (butlast new) < uint sz" .
  let ?l = "set_write (WAt 0) ((set_items (slices l @ new) l)\<lparr>lb_isFromShm := lb_isFromShm l \<and> (\<forall>s \<in> set new. isFromShm s)\<rparr>)"
  have "open_write bm sz l m = Some (?l, m2)"
    using ws True al nw(1) by (simp add: open_write_def wstate_def at_pos_def set_items_def)
  moreover have "slices ?l = new" "lb_len ?l = lb_len l" using True by (simp_all add: set_items_def)
  moreover have "opened ct bm ds L (uint sz) m2 ?l"
    using ws True o2 fr nw by (simp add: opened_def wstate_def set_items_def set_write_def)
  ultimately show thesis using that(2) True by blast
qed

lemma WriteBytes_ok:
  assumes wb: "wbuf ct bm ds L m l" and len: "length data < 2 ^ 32"
  obtains l' m' where "WriteBytes bm data l m = Some (length data, l', m')" and "wbuf ct bm ds L m' l'"
    and "lb_content m' l' = lb_content m l @ data" and "full (slices l) \<longrightarrow> full (slices l')"
proof (cases "data = []")
  case True
  with that [of l m] wb show thesis by (simp add: WriteBytes_def)
next
  case False
  have ws: "wstate ct bm ds L m l" and ln: "lb_len l = int (length (lb_content m l))" using wb by (simp_all add: wbuf_def)
  note main = that
  have fin: thesis if r: "WriteBytes bm data l m = Some (length data, l'\<lparr>lb_len := lb_len l' + int (length data)\<rparr>, m')"
      "wstate ct bm ds L m' l'" "lb_len l' = lb_len l" "lb_content m' l' = lb_content m l @ data" "full (slices l) \<longrightarrow> full (slices l')" for l' m'
    by (rule main [OF r(1)]) (use r(2-5) ln in \<open>simp_all add: wbuf_def wstate_def lb_content_def\<close>)
  let ?sz = "word_of_nat (length data) :: u32"
  have usz: "unat ?sz = length data" by (rule unat_of_nat32) (use len in simp)
  then have sz: "0 < ?sz" "uint ?sz = int (length data)" using False by (simp_all add: word_less_nat_alt uint_nat)
  from ws sz(1) show thesis
  proof (cases rule: open_write_ok)
    case (2 l1 m1)
    note od = 2(3) [unfolded opened_def]
    from write_from_new [of l1 "[]" "slices l1" ct bm ds L m1 0 data] od False sz(2) obtain l' m' where
      r: "write_loop bm data 0 l1 m1 = Some (length data, l', m')" "wstate ct bm ds L m' l'"
      "lb_len l' = lb_len l1" "lb_content m' l' = data" "full (slices l')" by auto
    then show thesis using fin [of l' m'] 2 False by (simp add: WriteBytes_def lb_content_def)
  next
    case 1
    from write_loop_ok [OF ws 1(1) _ len, of 0] False obtain l' m' where
      r: "write_loop bm data 0 l m = Some (length data, l', m')" "wstate ct bm ds L m' l'"
      "lb_len l' = lb_len l" "lb_content m' l' = lb_content m l @ data" "full (slices l) \<longrightarrow> full (slices l')" by auto
    then show thesis using fin [of l' m'] 1 False by (simp add: WriteBytes_def)
  qed
qed

lemma opened_one:
  assumes "opened ct bm ds L 1 m l"
  obtains s where "slices l = [s]"
proof -
  have fr: "\<forall>s \<in> set (slices l). fresh m s" and ne: "slices l \<noteq> []" and tc: "total_cap (butlast (slices l)) < 1"
    using assms by (simp_all add: opened_def)
  have "butlast (slices l) = []"
  proof (rule ccontr)
    assume "butlast (slices l) \<noteq> []"
    then obtain t ts where b: "butlast (slices l) = t # ts" by (cases "butlast (slices l)") auto
    then have "fresh m t" using fr in_set_butlastD [of t "slices l"] by simp
    then have "0 < uint (bs_cap t)" by (simp add: fresh_def word_less_def)
    with tc b total_cap_nonneg [of ts] show False by simp
  qed
  then show thesis using that ne by (metis append_butlast_last_id append_Nil)
qed

lemma append_one:
  assumes o: "owns ct bm ds L m (pre @ [s])" and us: "unsent m (pre @ [s])"
  obtains c m' s' where "slice_append m s [b] = Some (c, m', s')" and "c = (if slice_remain s = 0 then 0 else 1)"
    and "owns ct bm ds L m' (pre @ [s'])"
proof -
  have ne: "[b] \<noteq> []" by simp
  have "0 \<le> slice_remain s" using owns_wf [OF o, of s] by (simp add: slice_wf_def slice_remain_unat)
  then have "min (nat (slice_remain s)) (length [b]) = (if slice_remain s = 0 then 0 else 1)" by auto
  with append_at [OF o ne us] that show thesis by metis
qed

lemma WriteByte_eq:
  assumes wb: "wbuf ct bm ds L m l"
  shows "WriteByte bm b l m = map_option snd (WriteBytes bm [b] l m)"
proof -
  have ws: "wstate ct bm ds L m l" and one: "0 < (1 :: u32)" using wb by (simp_all add: wbuf_def)
  obtain l1 m1 pre s where op: "open_write bm 1 l m = Some (l1, m1)" and sl: "slices l1 = pre @ [s]"
    and w: "wslice (lb_list l1) = WAt (length pre)" and o: "owns ct bm ds L m1 (pre @ [s])" and us: "unsent m1 (pre @ [s])"
    using ws one
  proof (cases rule: open_write_ok)
    case 1
    from 1(1) obtain pre s where "slices l = pre @ [s]" by (metis rev_exhaust)
    with that [of l m pre s] 1 ws show thesis by (simp add: wstate_def)
  next
    case (2 l1 m1)
    then obtain s where s: "slices l1 = [s]" using opened_one [of ct bm ds L m1 l1] by auto
    with 2(3) have "unsent m1 [s]" using fresh_unsent [of "[s]" m1] by (simp add: opened_def)
    with that [of l1 m1 "[]" s] 2 s show thesis by (simp add: opened_def)
  qed
  from append_one [OF o us, of b] obtain c m2 s2 where
    a: "slice_append m1 s [b] = Some (c, m2, s2)" "c = (if slice_remain s = 0 then 0 else 1)" and o2: "owns ct bm ds L m2 (pre @ [s2])" .
  have k: "write_at l1 = Some (length pre)" using sl w by (simp add: write_at_def)
  show ?thesis
  proof (cases "slice_remain s = 0")
    case False
    then show ?thesis using op k sl a by (simp add: WriteByte_def WriteBytes_def write_loop.simps)
  next
    case True
    let ?l2 = "set_items (pre @ [s2]) l1"
    have "owns ct bm ds L m2 (slices ?l2)" using o2 by simp
    from lb_alloc_ok [OF this one] obtain new m3 where
      al: "lb_alloc bm 1 ?l2 m2 = Some ((set_items (slices ?l2 @ new) ?l2)\<lparr>lb_isFromShm := lb_isFromShm ?l2 \<and> (\<forall>s \<in> set new. isFromShm s)\<rparr>, m3)"
      and o3: "owns ct bm ds L m3 (slices ?l2 @ new)" and fr: "\<forall>s \<in> set new. fresh m3 s" and nw: "new \<noteq> []" .
    let ?l3 = "(set_items (slices ?l2 @ new) ?l2)\<lparr>lb_isFromShm := lb_isFromShm ?l2 \<and> (\<forall>s \<in> set new. isFromShm s)\<rparr>"
    obtain t ts where new: "new = t # ts" using nw by (cases new) auto
    have sl3: "slices ?l3 = pre @ s2 # t # ts" by (simp add: new set_items_def)
    have rt: "0 < slice_remain t" using fr new fresh_remain [of m3 t] by (simp add: fresh_def word_less_def)
    have "owns ct bm ds L m3 ((pre @ s2 # ts) @ [t])" by (rule owns_reorder [OF o3]) (simp add: new)
    then have "owns ct bm ds L m3 (t # pre @ s2 # ts)" by (rule owns_reorder) simp
    from owns_append [OF this, of "[b]"] obtain m4 t1 where
      "slice_append m3 t [b] = Some (min (nat (slice_remain t)) (length [b]), m4, t1)" by blast
    moreover have "min (nat (slice_remain t)) (length [b]) = 1" using rt by simp
    ultimately have ap: "slice_append m3 t [b] = Some (1, m4, t1)" by simp
    have n0: "(pre @ s2 # t # ts) ! Suc (length pre) = t" by (simp add: nth_append)
    have wl: "write_loop bm [b] 0 l1 m1 = write_loop bm [b] 0 (set_write (WAt (Suc (length pre))) ?l3) m3"
      using k sl a True al sl3 by (subst write_loop.simps) (simp add: at_pos_def)
    have wl2: "write_loop bm [b] 0 (set_write (WAt (Suc (length pre))) ?l3) m3 =
        Some (1, set_items ((pre @ s2 # t # ts)[Suc (length pre) := t1]) (set_write (WAt (Suc (length pre))) ?l3), m4)"
      using ap n0 sl3 by (subst write_loop.simps) (simp add: write_at_def)
    show ?thesis
      using op k sl a True al sl3 n0 ap wl wl2 by (simp add: WriteByte_def WriteBytes_def at_pos_def write_at_def)
  qed
qed

subsection \<open>Reserving\<close>

text \<open>The caller of \<^verbatim>\<open>Reserve\<close> copies its bytes into the range it was given.\<close>

definition fill_reserved :: "nat \<times> int \<times> int \<Rightarrow> bytes \<Rightarrow> linkedBuffer \<Rightarrow> bytes \<Rightarrow> (linkedBuffer \<times> bytes) option" where
  "fill_reserved r src l m = (case r of (k, lo, hi) \<Rightarrow> do {
     (n, m', d) \<leftarrow> data_copy m (bs_data (slices l ! k)) lo (take (nat (hi - lo)) src);
     Some (set_items ((slices l)[k := (slices l ! k)\<lparr>bs_data := d\<rparr>]) l, m')
   })"

definition reserved :: "nat \<Rightarrow> bufferManager \<Rightarrow> (nat \<times> nat) list \<Rightarrow> (nat \<times> nat) multiset \<Rightarrow> int \<Rightarrow> bytes \<Rightarrow>
    nat \<times> int \<times> int \<Rightarrow> linkedBuffer \<Rightarrow> bytes \<Rightarrow> bool" where
  "reserved ct bm ds L n old r l m \<longleftrightarrow> (\<forall>src. int (length src) = n \<longrightarrow>
     (\<exists>l' m'. fill_reserved r src l m = Some (l', m') \<and> wbuf ct bm ds L m' l' \<and> lb_content m' l' = old @ src))"

lemma reserve_last:
  assumes o: "owns ct bm ds L m (pre @ [s])" and us: "unsent m (pre @ [s])" and n: "0 < n" "n \<le> slice_remain s"
    and p: "pinnedList l = []" and f: "lb_isFromShm l \<longleftrightarrow> (\<forall>t \<in> set (pre @ [s]). isFromShm t)"
    and c: "concat (map (content m) (pre @ [s])) = old" "lb_len l = int (length old)"
  shows "reserved ct bm ds L n old (length pre, writeIndex s, writeIndex s + n)
    ((set_write (WAt (length pre)) (set_items (pre @ [s\<lparr>writeIndex := writeIndex s + n\<rparr>]) l))\<lparr>lb_len := lb_len l + n\<rparr>) m"
  unfolding reserved_def
proof (intro allI impI)
  fix src :: bytes
  assume len: "int (length src) = n"
  then have ne: "src \<noteq> []" using n(1) by auto
  from append_at [OF o ne us] obtain m1 s1 where
    a: "slice_append m s src = Some (min (nat (slice_remain s)) (length src), m1, s1)"
    and o1: "owns ct bm ds L m1 (pre @ [s1])" and sv: "same_views m m1 pre" and us1: "unsent m1 (pre @ [s1])"
    and c1: "content m1 s1 = content m s @ take (nat (slice_remain s)) src" and f1: "isFromShm s1 = isFromShm s"
    by auto
  have mn: "min (nat (slice_remain s)) (length src) = length src" "length src \<le> nat (slice_remain s)" using len n(2) by auto
  from a ne obtain d where dc: "data_copy m (bs_data s) (writeIndex s) src = Some (length src, m1, d)"
    and s1: "s1 = s\<lparr>bs_data := d, writeIndex := writeIndex s + int (length src)\<rparr>"
    unfolding mn(1) by (auto simp: slice_append_def split: bind_splits)
  have s1': "s1 = s\<lparr>writeIndex := writeIndex s + n, bs_data := d\<rparr>" using len by (cases s) (simp add: s1)
  let ?l = "(set_write (WAt (length pre)) (set_items (pre @ [s\<lparr>writeIndex := writeIndex s + n\<rparr>]) l))\<lparr>lb_len := lb_len l + n\<rparr>"
  let ?l' = "set_items (pre @ [s1]) ?l"
  have sl: "slices ?l = pre @ [s\<lparr>writeIndex := writeIndex s + n\<rparr>]" by (simp add: set_write_def)
  have fl: "fill_reserved (length pre, writeIndex s, writeIndex s + n) src ?l m = Some (?l', m1)"
    using dc len by (simp add: fill_reserved_def sl s1')
  have cc: "concat (map (content m1) pre) = concat (map (content m) pre)" by (rule same_views_concat [OF sv]) simp
  have ct: "lb_content m1 ?l' = old @ src" using c(1) c1 mn(2) cc by (simp add: lb_content_def)
  have "wbuf ct bm ds L m1 ?l'"
    using o1 us1 p f f1 ct c(2) len by (simp add: wbuf_def wstate_def set_write_def set_items_def lb_content_def)
  with fl ct show "\<exists>l' m'. fill_reserved (length pre, writeIndex s, writeIndex s + n) src ?l m = Some (l', m') \<and>
      wbuf ct bm ds L m' l' \<and> lb_content m' l' = old @ src" by blast
qed

lemma reserve_new_ok:
  assumes o: "owns ct bm ds L m (slices l)" and us: "unsent m (slices l)" and n: "0 < n" "n < 2 ^ 32"
    and p: "pinnedList l = []" and f: "lb_isFromShm l \<longleftrightarrow> (\<forall>t \<in> set (slices l). isFromShm t)"
    and c: "lb_content m l = old" "lb_len l = int (length old)"
  shows "\<exists>r l' m'. reserve_new bm n l m = Some (Inr r, l', m') \<and> reserved ct bm ds L n old r l' m'"
proof -
  have un: "int (unat (word_of_int n :: u32)) = n" using n by (simp add: unat_eq_nat_uint uint_word_of_int_eq take_bit_int_eq_self)
  have go: ?thesis if a: "allocShmBuffer bm (word_of_int n) m = Some (a, m2)"
      and l2: "(case a of Inr buf \<Rightarrow> Some (lb_push buf l) | Inl _ \<Rightarrow> do {
         let allocSize = (if n < defaultSingleBufferSize then defaultSingleBufferSize else n);
         buf \<leftarrow> newBufferSlice m2 None (HeapData (replicate (nat allocSize) 0)) 0 False;
         Some ((lb_push buf l)\<lparr>lb_isFromShm := False\<rparr>) }) = Some l2"
      and sl: "slices l2 = slices l @ [s]" "pinnedList l2 = []" "lb_len l2 = lb_len l" "lb_isFromShm l2 \<longleftrightarrow> (\<forall>t \<in> set (slices l @ [s]). isFromShm t)"
      and o2: "owns ct bm ds L m2 (s # slices l)" and sv: "same_views m m2 (slices l)" and fr: "fresh m2 s" and cap: "n \<le> uint (bs_cap s)"
    for a m2 l2 s
  proof -
    have o3: "owns ct bm ds L m2 (slices l @ [s])" by (rule owns_reorder [OF o2]) simp
    have u2: "unsent m2 (slices l @ [s])" using unsent_same [OF sv us] fresh_unsent [of "[s]" m2] fr by simp
    have r: "n \<le> slice_remain s" using cap fresh_remain [OF fr] by simp
    have cc: "concat (map (content m2) (slices l @ [s])) = old"
      using same_views_concat [OF sv, of "slices l"] c(1) fr by (simp add: lb_content_def)
    have rs: "reserve s n = Some (Inr (writeIndex s, writeIndex s + n), s\<lparr>writeIndex := writeIndex s + n\<rparr>)"
      using reserve_ok(1) [OF owns_wf [OF o2, of s]] n(1) r by simp
    let ?l3 = "(set_write (WAt (length (slices l))) (set_items (slices l @ [s\<lparr>writeIndex := writeIndex s + n\<rparr>]) l2))\<lparr>lb_len := lb_len l2 + n\<rparr>"
    have "reserve_new bm n l m = Some (Inr (length (slices l), writeIndex s, writeIndex s + n), ?l3, m2)"
      unfolding reserve_new_def a Option.bind.bind_lunit prod.case l2 by (simp add: sl(1) rs Let_def)
    moreover have "reserved ct bm ds L n old (length (slices l), writeIndex s, writeIndex s + n) ?l3 m2"
      by (rule reserve_last [OF o3 u2 n(1) r sl(2,4) cc]) (simp add: sl(3) c(2))
    ultimately show ?thesis by blast
  qed
  from o show ?thesis
  proof (cases rule: owns_alloc [where sz = "word_of_int n"])
    case (2 s m')
    have "int (unat (word_of_int n :: u32)) \<le> int (unat (bs_cap s))" using 2(6) by simp
    then have "n \<le> uint (bs_cap s)" unfolding un by (simp add: uint_nat)
    with go [OF 2(1), of "lb_push s l" s] 2 p f show ?thesis by simp
  next
    case 1
    define k where "k = (if n < defaultSingleBufferSize then defaultSingleBufferSize else n)"
    have k: "0 < k" "k < 2 ^ 32" "n \<le> k" using n by (auto simp: k_def consts_defs)
    from heap_slice_new [OF k(1,2)] obtain s where
      s: "newBufferSlice m None (HeapData (replicate (nat k) 0)) 0 False = Some s" "heap_slice s" "slice_wf (length m) s" "fresh m s"
        "uint (bs_cap s) = k" .
    have "\<not> isFromShm s" using s(2) by (simp add: heap_slice_def)
    with go [OF 1, of "(lb_push s l)\<lparr>lb_isFromShm := False\<rparr>" s] s k(3) owns_heap [OF s(2,3) o] p show ?thesis
      by (simp add: k_def [symmetric] Let_def lb_push_def push_back_def)
  qed
qed

lemma Reserve_held:
  assumes wb: "wbuf ct bm ds L m l" and n: "0 < n" "n < 2 ^ 32"
    and 1: "slices l \<noteq> []" "open_write bm (word_of_int n) l m = Some (l, m)"
  shows "\<exists>r l' m'. Reserve bm n l m = Some (Inr r, l', m') \<and> reserved ct bm ds L n (lb_content m l) r l' m'"
proof -
  have ws: "wstate ct bm ds L m l" and ln: "lb_len l = int (length (lb_content m l))" using wb by (simp_all add: wbuf_def)
  from 1(1) obtain pre s where sl: "slices l = pre @ [s]" by (metis rev_exhaust)
  have wsl: "owns ct bm ds L m (slices l)" "unsent m (slices l)" "pinnedList l = []" "wslice (lb_list l) = WAt (length pre)"
    "lb_isFromShm l \<longleftrightarrow> (\<forall>s \<in> set (slices l). isFromShm s)"
    using ws sl by (simp_all add: wstate_def)
  have k: "write_at l = Some (length pre)" using wsl(4) sl by (simp add: write_at_def)
  show ?thesis
  proof (cases "n \<le> slice_remain s")
    case True
    have rs: "reserve s n = Some (Inr (writeIndex s, writeIndex s + n), s\<lparr>writeIndex := writeIndex s + n\<rparr>)"
      using reserve_ok(1) [OF owns_wf [OF wsl(1), of s]] n(1) True sl by simp
    let ?l = "(set_write (WAt (length pre)) (set_items (pre @ [s\<lparr>writeIndex := writeIndex s + n\<rparr>]) l))\<lparr>lb_len := lb_len l + n\<rparr>"
    have "set_items (pre @ [s\<lparr>writeIndex := writeIndex s + n\<rparr>]) l = set_write (WAt (length pre)) (set_items (pre @ [s\<lparr>writeIndex := writeIndex s + n\<rparr>]) l)"
      using wsl(4) by (simp add: set_write_def set_items_def)
    then have "Reserve bm n l m = Some (Inr (length pre, writeIndex s, writeIndex s + n), ?l, m)"
      using 1(2) k rs sl by (simp add: Reserve_def)
    moreover have "reserved ct bm ds L n (lb_content m l) (length pre, writeIndex s, writeIndex s + n) ?l m"
      by (rule reserve_last) (use wsl sl n True ln in \<open>simp_all add: lb_content_def\<close>)
    ultimately show ?thesis by blast
  next
    case False
    then have "Reserve bm n l m = reserve_new bm n l m"
      using 1(2) k sl reserve_full [of s n] by (simp add: Reserve_def)
    with reserve_new_ok [OF wsl(1,2) n wsl(3,5) refl ln] show ?thesis by simp
  qed
qed

lemma Reserve_opened:
  assumes wb: "wbuf ct bm ds L m l" and n: "0 < n" "n < 2 ^ 32"
    and un: "uint (word_of_int n :: u32) = n"
    and 2: "slices l = []" "open_write bm (word_of_int n) l m = Some (l1, m1)" "opened ct bm ds L (uint (word_of_int n :: u32)) m1 l1" "lb_len l1 = lb_len l"
  shows "\<exists>r l' m'. Reserve bm n l m = Some (Inr r, l', m') \<and> reserved ct bm ds L n (lb_content m l) r l' m'"
proof -
  have ws: "wstate ct bm ds L m l" and ln: "lb_len l = int (length (lb_content m l))" using wb by (simp_all add: wbuf_def)
  from 2(3) have od: "owns ct bm ds L m1 (slices l1)" "pinnedList l1 = []" "wslice (lb_list l1) = WAt 0"
    "lb_isFromShm l1 \<longleftrightarrow> (\<forall>s \<in> set (slices l1). isFromShm s)" "\<forall>s \<in> set (slices l1). fresh m1 s" "slices l1 \<noteq> []"
    "n \<le> total_cap (slices l1)" "total_cap (butlast (slices l1)) < n" unfolding opened_def un by auto
  obtain s post where sl: "slices l1 = s # post" using od(6) by (cases "slices l1") auto
  have us: "unsent m1 (slices l1)" by (rule fresh_unsent [OF od(5)])
  have fs: "fresh m1 s" "slice_remain s = uint (bs_cap s)" using od(5) sl fresh_remain [of m1 s] by simp_all
  have k: "write_at l1 = Some 0" using od(3) sl by (simp add: write_at_def)
  have e: "lb_content m l = []" using 2(1) by (simp add: lb_content_def)
  have e1: "lb_content m1 l1 = []" using od(5) by (auto simp: lb_content_def intro: fresh_content)
  have len0: "lb_len l1 = 0" using 2(4) ln e by simp
  show ?thesis
  proof (cases "n \<le> slice_remain s")
    case True
    have "post = []"
      using od(8) True fs(2) sl total_cap_nonneg [of "butlast post"] by (cases post) auto
    then have sl1: "slices l1 = [] @ [s]" using sl by simp
    have rs: "reserve s n = Some (Inr (writeIndex s, writeIndex s + n), s\<lparr>writeIndex := writeIndex s + n\<rparr>)"
      using reserve_ok(1) [OF owns_wf [OF od(1), of s]] n(1) True sl by simp
    let ?l = "(set_write (WAt 0) (set_items [s\<lparr>writeIndex := writeIndex s + n\<rparr>] l1))\<lparr>lb_len := lb_len l1 + n\<rparr>"
    have "set_items [s\<lparr>writeIndex := writeIndex s + n\<rparr>] l1 = set_write (WAt 0) (set_items [s\<lparr>writeIndex := writeIndex s + n\<rparr>] l1)"
      using od(3) by (simp add: set_write_def set_items_def)
    then have "Reserve bm n l m = Some (Inr (0, writeIndex s, writeIndex s + n), ?l, m1)"
      using 2(2) k rs sl1 by (simp add: Reserve_def)
    moreover have "reserved ct bm ds L n [] (length ([] :: bufferSlice list), writeIndex s, writeIndex s + n)
      ((set_write (WAt (length ([] :: bufferSlice list))) (set_items ([] @ [s\<lparr>writeIndex := writeIndex s + n\<rparr>]) l1))\<lparr>lb_len := lb_len l1 + n\<rparr>) m1"
      by (rule reserve_last) (use od us sl1 n True len0 fs in simp_all)
    ultimately show ?thesis using e by auto
  next
    case False
    then have rf: "reserve s n = Some (Inl ErrNoMoreBuffer, s)" by (simp add: reserve_full)
    obtain t ts where post: "post = t # ts" using False od(7) fs(2) sl by (cases post) auto
    show ?thesis
    proof (cases "n \<le> slice_remain t")
      case True
      have ft: "fresh m1 t" "slice_remain t = uint (bs_cap t)" using od(5) sl post fresh_remain [of m1 t] by simp_all
      have "ts = []"
        using od(8) True ft(2) sl post total_cap_nonneg [of "butlast ts"] uint_ge_0 [of "bs_cap s"] by (cases ts) auto
      then have sl1: "slices l1 = [s] @ [t]" using sl post by simp
      have rs: "reserve t n = Some (Inr (writeIndex t, writeIndex t + n), t\<lparr>writeIndex := writeIndex t + n\<rparr>)"
        using reserve_ok(1) [OF owns_wf [OF od(1), of t]] n(1) True sl1 by simp
      let ?l = "(set_write (WAt 1) (set_items [s, t\<lparr>writeIndex := writeIndex t + n\<rparr>] l1))\<lparr>lb_len := lb_len l1 + n\<rparr>"
      have "Reserve bm n l m = Some (Inr (1, writeIndex t, writeIndex t + n), ?l, m1)"
        using 2(2) k rs rf sl1 by (simp add: Reserve_def)
      moreover have "reserved ct bm ds L n [] (length [s], writeIndex t, writeIndex t + n)
        ((set_write (WAt (length [s])) (set_items ([s] @ [t\<lparr>writeIndex := writeIndex t + n\<rparr>]) l1))\<lparr>lb_len := lb_len l1 + n\<rparr>) m1"
        by (rule reserve_last) (use od us sl1 n True len0 fs ft in simp_all)
      ultimately show ?thesis using e by auto
    next
      case False
      then have "Reserve bm n l m = reserve_new bm n l1 m1"
        using 2(2) k sl post rf reserve_full [of t n] by (simp add: Reserve_def)
      with reserve_new_ok [OF od(1) us n od(2,4) e1] len0 e show ?thesis by simp
    qed
  qed
qed

lemma Reserve_ok:
  assumes wb: "wbuf ct bm ds L m l" and n: "0 < n" "n < 2 ^ 32"
  shows "\<exists>r l' m'. Reserve bm n l m = Some (Inr r, l', m') \<and> reserved ct bm ds L n (lb_content m l) r l' m'"
proof -
  have ws: "wstate ct bm ds L m l" using wb by (simp add: wbuf_def)
  have un: "uint (word_of_int n :: u32) = n" using n by (simp add: uint_word_of_int_eq take_bit_int_eq_self)
  then have sz: "0 < (word_of_int n :: u32)" using n by (simp add: word_less_def)
  from ws sz show ?thesis
  proof (cases rule: open_write_ok)
    case 1
    from Reserve_held [OF wb n this] show ?thesis .
  next
    case (2 l1 m1)
    from Reserve_opened [OF wb n un this] show ?thesis .
  qed
qed

subsection \<open>Publishing and giving back\<close>

text \<open>The headers of the slices \<open>ss\<close> describe their content and link each to the next.\<close>

fun chain :: "bytes \<Rightarrow> bufferSlice list \<Rightarrow> bool" where
  "chain m [] \<longleftrightarrow> True"
| "chain m (s # ss) \<longleftrightarrow> sfields m s = (word_of_int (slice_size s), bs_start s) \<and>
     slink m s = (case ss of [] \<Rightarrow> None | t # _ \<Rightarrow> Some (offsetInShm t)) \<and> chain m ss"

lemma update_items_ok:
  assumes "owns ct bm ds L m (xs @ ss)" and "\<forall>s \<in> set ss. isFromShm s" and "unsent m ss" and "ss \<noteq> []"
  shows "\<exists>m'. update_items (length ss - 1) ss m = Some m' \<and> owns ct bm ds L m' (xs @ ss) \<and> chain m' ss \<and>
    same_views m m' xs \<and> concat (map (content m') ss) = concat (map (content m) ss)"
  using assms
proof (induction ss arbitrary: xs m)
  case (Cons s ss)
  let ?nxt = "case ss of [] \<Rightarrow> None | t # _ \<Rightarrow> Some (offsetInShm t)"
  have o: "owns ct bm ds L m (s # xs @ ss)" by (rule owns_reorder [OF Cons.prems(1)]) simp
  have s: "isFromShm s" "slink m s = None" using Cons.prems(2,3) by simp_all
  from owns_update [OF o s(1), of ?nxt] obtain m1 where u: "update m s ?nxt = Some m1" and o1: "owns ct bm ds L m1 (s # xs @ ss)"
    and sv: "same_views m m1 (xs @ ss)" and c: "content m1 s = content m s"
    and lk: "slink m1 s = (case ?nxt of None \<Rightarrow> slink m s | Some off \<Rightarrow> Some off)"
    and fd: "sfields m1 s = (word_of_int (slice_size s), bs_start s)" .
  have lk': "slink m1 s = ?nxt" using lk s(2) by (simp split: list.split)
  have cs: "concat (map (content m1) ss) = concat (map (content m) ss)" by (rule same_views_concat [OF sv]) simp
  have svx: "same_views m m1 xs" by (rule same_views_subset [OF sv]) simp
  show ?case
  proof (cases ss)
    case Nil
    have "owns ct bm ds L m1 (xs @ [s])" by (rule owns_reorder [OF o1]) (simp add: Nil)
    with Nil u fd lk' svx c show ?thesis by simp
  next
    case (Cons t ts)
    have o2: "owns ct bm ds L m1 ((xs @ [s]) @ ss)" by (rule owns_reorder [OF o1]) simp
    have "unsent m ss" using Cons.prems(3) by simp
    then have u1: "unsent m1 ss" using unsent_same [OF same_views_subset [OF sv]] by simp
    have ne: "ss \<noteq> []" using Cons by simp
    from Cons.IH [OF o2 _ u1 ne] Cons.prems(2) obtain m' where
      r: "update_items (length ss - 1) ss m1 = Some m'" "owns ct bm ds L m' ((xs @ [s]) @ ss)" "chain m' ss"
      "same_views m1 m' (xs @ [s])" "concat (map (content m') ss) = concat (map (content m1) ss)" by auto
    have s': "slink m' s = slink m1 s" "sfields m' s = sfields m1 s" "content m' s = content m1 s"
      using r(4) s(1) by (simp_all add: same_views_def)
    have "same_views m m' xs" by (rule same_views_trans [OF svx same_views_subset [OF r(4)]]) auto
    moreover have "update_items (length (s # ss) - 1) (s # ss) m = Some m'" using u r(1) Cons by simp
    moreover have "chain m' (s # ss)" using r(3) s' fd lk' by simp
    ultimately show ?thesis using r(2,5) s'(3) c cs by (intro exI [of _ m']) simp
  qed
qed simp

lemma lb_done_ok:
  assumes wb: "wbuf ct bm ds L m l" and "lb_isFromShm l" and ne: "slices l \<noteq> []"
  obtains m' where "lb_done bm l m = Some (l, m')" and "owns ct bm ds L m' (slices l)" and "chain m' (slices l)"
    and "lb_content m' l = lb_content m l"
proof -
  have ws: "owns ct bm ds L m ([] @ slices l)" "\<forall>s \<in> set (slices l). isFromShm s" "unsent m (slices l)"
    and w: "write_at l = Some (length (slices l) - 1)"
    using wb assms(2) ne by (auto simp: wbuf_def wstate_def write_at_def)
  from update_items_ok [OF ws ne] obtain m' where "update_items (length (slices l) - 1) (slices l) m = Some m'"
    "owns ct bm ds L m' (slices l)" "chain m' (slices l)" "concat (map (content m') (slices l)) = concat (map (content m) (slices l))" by auto
  with that [of m'] w assms(2) ne show thesis by (simp add: lb_done_def lb_content_def)
qed

lemma recycle_items_ok:
  assumes "owns ct bm ds L m (ss @ rest)"
  shows "\<exists>m'. recycle_items bm ss m = Some m' \<and> owns ct bm ds L m' rest \<and> same_views m m' rest"
  using assms
proof (induction ss arbitrary: m)
  case (Cons s ss)
  have "owns ct bm ds L m (s # ss @ rest)" using Cons.prems by simp
  from owns_recycle [OF this] obtain m1 where r: "recycleBuffer bm s m = Some m1" "owns ct bm ds L m1 (ss @ rest)" "same_views m m1 (ss @ rest)" .
  from Cons.IH [OF r(2)] obtain m' where "recycle_items bm ss m1 = Some m'" "owns ct bm ds L m' rest" "same_views m1 m' rest" by blast
  moreover have "same_views m m1 rest" by (rule same_views_subset [OF r(3)]) simp
  moreover have "\<not> isFromShm s \<Longrightarrow> m1 = m" using r(1) by (simp add: recycleBuffer_def)
  ultimately show ?case using r(1) same_views_trans [of m m1 rest m'] by auto
qed simp

lemma collect_data_ok:
  assumes "\<forall>s \<in> set ss. slice_wf (length m) s"
  shows "k = length ss - 1 \<Longrightarrow> collect_data (Some k) ss m = Some (map (content m) ss)" and "collect_data None ss m = Some (map (content m) ss)"
proof -
  have dr: "data_range m (bs_data s) (readIndex s) (writeIndex s) = Some (content m s)" if "s \<in> set ss" for s
    using data_range_ok [of m s] slice_wfD [of "length m" s] assms that by (auto simp: content_def slice_size_def)
  show "collect_data None ss m = Some (map (content m) ss)" using dr by (induction ss) auto
  show "k = length ss - 1 \<Longrightarrow> collect_data (Some k) ss m = Some (map (content m) ss)"
    using dr
  proof (induction ss arbitrary: k)
    case (Cons s ss)
    then show ?case by (cases ss) auto
  qed simp
qed

lemma underlyingData_ok:
  assumes "wbuf ct bm ds L m l"
  shows "underlyingData l m = Some (map (content m) (slices l))"
  using assms collect_data_ok [of "slices l" m] owns_wf [of ct bm ds L m "slices l"]
  by (auto simp: underlyingData_def wbuf_def wstate_def)

subsection \<open>Properties\<close>

definition owner_all_free :: "nat \<Rightarrow> bufferManager \<Rightarrow> (nat \<times> nat) list \<Rightarrow> (nat \<times> nat) multiset \<Rightarrow> bytes \<Rightarrow> bool" where
  "owner_all_free ct bm ds L m \<longleftrightarrow> (\<exists>fss. mgr_inv ct bm ds fss m \<and> distinct (free_handles fss) \<and> mset (free_handles fss) = L)"

lemma owns_empty: "owns ct bm ds L m [] \<longleftrightarrow> owner_all_free ct bm ds L m"
  by (auto simp: owns_def owner_def owner_all_free_def)

lemma wbuf_new: "owns ct bm ds L m [] \<Longrightarrow> wbuf ct bm ds L m newEmptyLinkedBuffer"
  by (simp add: wbuf_def wstate_def newEmptyLinkedBuffer_def lb_content_def empty_slist_def)

lemma content_new [simp]: "lb_content m newEmptyLinkedBuffer = []"
  by (simp add: newEmptyLinkedBuffer_def lb_content_def empty_slist_def)

definition demo_all :: "(nat \<times> nat) multiset" where
  "demo_all = mset (free_handles [[0, 28, 56, 84, 112], [0, 36, 72, 108]])"

lemma demo_wbuf:
  obtains bm m where "createBufferManager demo_pairs ''b'' (replicate 400 0) 0 = Some (Inr (bm, m))"
    and "wbuf 20 bm [(5, 8), (4, 16)] demo_all m newEmptyLinkedBuffer" and "length m = 400"
proof -
  obtain bm m where c: "createBufferManager demo_pairs ''b'' (replicate 400 0) 0 = Some (Inr (bm, m))"
    and i: "mgr_inv 20 bm [(5, 8), (4, 16)] [[0, 28, 56, 84, 112], [0, 36, 72, 108]] m" and len: "length m = 400" by (rule demo_buffers)
  have "distinct (free_handles [[0, 28, 56, 84, 112], [0, 36, 72, 108]])" by code_simp
  with i have o: "owns 20 bm [(5, 8), (4, 16)] demo_all m []"
    by (auto simp: owns_empty owner_all_free_def demo_all_def)
  from that [OF c wbuf_new [OF o] len] show thesis .
qed

text \<open>
  C18. Whatever is written is appended to the buffer, whatever the state of the shared memory.
  On a buffer being written, \<^verbatim>\<open>WriteBytes\<close> takes all of the data without a panic, from
  shared buffers as long as the manager has them and from heap memory otherwise, the content
  of the buffer is the old content followed by the data, and its length, write position and
  the accounting of all buffers stay right.
\<close>

theorem write_appends:
  assumes "wbuf ct bm ds L m l" and "length data < 2 ^ 32"
  shows "\<exists>l' m'. WriteBytes bm data l m = Some (length data, l', m') \<and> wbuf ct bm ds L m' l' \<and>
    lb_content m' l' = lb_content m l @ data"
  using WriteBytes_ok [OF assms] by metis

text \<open>
  Writing one byte with \<^verbatim>\<open>WriteByte\<close> is writing it with \<^verbatim>\<open>WriteBytes\<close>: the two routines
  leave the same buffer and the same memory.
\<close>

theorem writeByte_equiv:
  assumes "wbuf ct bm ds L m l"
  shows "WriteByte bm b l m = map_option snd (WriteBytes bm [b] l m)"
  by (rule WriteByte_eq [OF assms])

text \<open>
  \<^verbatim>\<open>Reserve\<close> gives room for exactly the bytes asked for: on every branch it returns a
  window of \<open>n\<close> bytes, and once the caller has filled the window with \<open>n\<close> bytes, the content
  of the buffer is the old content followed by these bytes.
\<close>

theorem reserve_appends:
  assumes "wbuf ct bm ds L m l" and "0 < n" and "n < 2 ^ 32"
  shows "\<exists>r l1 m1. Reserve bm n l m = Some (Inr r, l1, m1) \<and>
    (\<forall>src. int (length src) = n \<longrightarrow> (\<exists>l' m'. fill_reserved r src l1 m1 = Some (l', m') \<and> wbuf ct bm ds L m' l' \<and>
      lb_content m' l' = lb_content m l @ src))"
  using Reserve_ok [OF assms] by (simp add: reserved_def)

text \<open>
  Giving up a message returns every buffer. \<^verbatim>\<open>recycle\<close> on a buffer being written ends
  without a panic, leaves an empty buffer ready to be written again, and all buffers it held are
  free again, none lost and none twice.
\<close>

theorem recycle_returns_all:
  assumes "wbuf ct bm ds L m l"
  shows "\<exists>l' m'. lb_recycle bm l m = Some (l', m') \<and> wbuf ct bm ds L m' l' \<and> slices l' = [] \<and>
    owner_all_free ct bm ds L m'"
proof -
  have o: "owns ct bm ds L m (slices l @ [])" "pinnedList l = []" using assms by (simp_all add: wbuf_def wstate_def)
  from recycle_items_ok [OF o(1)] obtain m' where r: "recycle_items bm (slices l) m = Some m'" "owns ct bm ds L m' []" by blast
  then have "wbuf ct bm ds L m' (lb_clean l)" "slices (lb_clean l) = []"
    using o(2) by (simp_all add: wbuf_def wstate_def lb_clean_def lb_content_def)
  with r show ?thesis by (simp add: lb_recycle_def owns_empty)
qed

theorem write_appends_witness:
  "\<exists>bm m l' m'. createBufferManager demo_pairs ''b'' (replicate 400 0) 0 = Some (Inr (bm, m)) \<and>
    WriteBytes bm [1, 2, 3, 4, 5, 6, 7, 8, 9, 10, 11, 12] newEmptyLinkedBuffer m = Some (12, l', m') \<and>
    lb_content m' l' = [1, 2, 3, 4, 5, 6, 7, 8, 9, 10, 11, 12]"
proof -
  obtain bm m where c: "createBufferManager demo_pairs ''b'' (replicate 400 0) 0 = Some (Inr (bm, m))"
    and w: "wbuf 20 bm [(5, 8), (4, 16)] demo_all m newEmptyLinkedBuffer" by (rule demo_wbuf)
  from write_appends [OF w, of "[1, 2, 3, 4, 5, 6, 7, 8, 9, 10, 11, 12]"] c show ?thesis by auto
qed

theorem writeByte_equiv_witness:
  "\<exists>bm m. createBufferManager demo_pairs ''b'' (replicate 400 0) 0 = Some (Inr (bm, m)) \<and>
    WriteByte bm 7 newEmptyLinkedBuffer m = map_option snd (WriteBytes bm [7] newEmptyLinkedBuffer m)"
proof -
  obtain bm m where c: "createBufferManager demo_pairs ''b'' (replicate 400 0) 0 = Some (Inr (bm, m))"
    and w: "wbuf 20 bm [(5, 8), (4, 16)] demo_all m newEmptyLinkedBuffer" by (rule demo_wbuf)
  from writeByte_equiv [OF w, of 7] c show ?thesis by blast
qed

theorem reserve_appends_witness:
  "\<exists>bm m r l1 m1 l' m'. createBufferManager demo_pairs ''b'' (replicate 400 0) 0 = Some (Inr (bm, m)) \<and>
    Reserve bm 3 newEmptyLinkedBuffer m = Some (Inr r, l1, m1) \<and> fill_reserved r [1, 2, 3] l1 m1 = Some (l', m') \<and>
    lb_content m' l' = [1, 2, 3]"
proof -
  obtain bm m where c: "createBufferManager demo_pairs ''b'' (replicate 400 0) 0 = Some (Inr (bm, m))"
    and w: "wbuf 20 bm [(5, 8), (4, 16)] demo_all m newEmptyLinkedBuffer" by (rule demo_wbuf)
  from reserve_appends [OF w, of 3] obtain r l1 m1 where r: "Reserve bm 3 newEmptyLinkedBuffer m = Some (Inr r, l1, m1)"
    and f: "\<forall>src. int (length src) = 3 \<longrightarrow> (\<exists>l' m'. fill_reserved r src l1 m1 = Some (l', m') \<and>
      wbuf 20 bm [(5, 8), (4, 16)] demo_all m' l' \<and> lb_content m' l' = lb_content m newEmptyLinkedBuffer @ src)" by auto
  from f [rule_format, of "[1, 2, 3]"] obtain l' m' where "fill_reserved r [1, 2, 3] l1 m1 = Some (l', m')" "lb_content m' l' = [1, 2, 3]"
    by auto
  with c r show ?thesis by (intro exI conjI)
qed

theorem recycle_returns_all_witness:
  "\<exists>bm m l m1 l' m'. createBufferManager demo_pairs ''b'' (replicate 400 0) 0 = Some (Inr (bm, m)) \<and>
    WriteBytes bm [1, 2, 3, 4, 5, 6, 7, 8, 9] newEmptyLinkedBuffer m = Some (9, l, m1) \<and>
    lb_recycle bm l m1 = Some (l', m') \<and> slices l' = [] \<and> owner_all_free 20 bm [(5, 8), (4, 16)] demo_all m'"
proof -
  obtain bm m where c: "createBufferManager demo_pairs ''b'' (replicate 400 0) 0 = Some (Inr (bm, m))"
    and w: "wbuf 20 bm [(5, 8), (4, 16)] demo_all m newEmptyLinkedBuffer" by (rule demo_wbuf)
  have "length [1, 2, 3, 4, 5, 6, 7, 8, 9 :: u8] < 2 ^ 32" by simp
  from WriteBytes_ok [OF w this] obtain l m1 where
    r0: "WriteBytes bm [1, 2, 3, 4, 5, 6, 7, 8, 9] newEmptyLinkedBuffer m = Some (length [1, 2, 3, 4, 5, 6, 7, 8, 9 :: u8], l, m1)"
      "wbuf 20 bm [(5, 8), (4, 16)] demo_all m1 l" .
  have r: "WriteBytes bm [1, 2, 3, 4, 5, 6, 7, 8, 9] newEmptyLinkedBuffer m = Some (9, l, m1)" "wbuf 20 bm [(5, 8), (4, 16)] demo_all m1 l"
    using r0 by simp_all
  from recycle_returns_all [OF r(2)] obtain l' m' where "lb_recycle bm l m1 = Some (l', m')" "slices l' = []"
    "owner_all_free 20 bm [(5, 8), (4, 16)] demo_all m'" by blast
  with c r(1) show ?thesis by (intro exI conjI)
qed

end
