(* ===== verification/Linked_Read.thy ===== *)
theory Linked_Read
  imports Linked_Write
begin

text \<open>
  What the reading side of the linked buffer guarantees: reads return the content in
  order, the bytes handed out without copying stay untouched until they are released, and the
  buffers that have been read go back to their lists exactly once.
\<close>

subsection \<open>The invariant of a buffer being read\<close>

text \<open>
  The slices \<open>xs\<close> belong to the process too, but not to this buffer. The write pointer is at
  the last slice.
\<close>

definition rlist :: "nat \<Rightarrow> bufferManager \<Rightarrow> (nat \<times> nat) list \<Rightarrow> (nat \<times> nat) multiset \<Rightarrow> bufferSlice list \<Rightarrow> bytes \<Rightarrow> linkedBuffer \<Rightarrow> bool" where
  "rlist ct bm ds L xs m l \<longleftrightarrow> owns ct bm ds L m (slices l @ pinnedList l @ xs) \<and>
     (slices l \<noteq> [] \<longrightarrow> wslice (lb_list l) = WAt (length (slices l) - 1))"

text \<open>Only the first slice may be drained.\<close>

definition tight :: "linkedBuffer \<Rightarrow> bool" where
  "tight l \<longleftrightarrow> (\<forall>s \<in> set (tl (slices l)). 0 < slice_size s)"

definition rbuf :: "nat \<Rightarrow> bufferManager \<Rightarrow> (nat \<times> nat) list \<Rightarrow> (nat \<times> nat) multiset \<Rightarrow> bufferSlice list \<Rightarrow> bytes \<Rightarrow> linkedBuffer \<Rightarrow> bool" where
  "rbuf ct bm ds L xs m l \<longleftrightarrow> rlist ct bm ds L xs m l \<and> lb_len l = int (length (lb_content m l))"

text \<open>A slice with all the bytes written to it unread again: what a view handed out can see.\<close>

definition rewind :: "bufferSlice \<Rightarrow> bufferSlice" where
  "rewind s = s\<lparr>readIndex := 0, writeIndex := writeIndex s\<rparr>"

definition held_views :: "linkedBuffer \<Rightarrow> bufferSlice set" where
  "held_views l = rewind ` set (pinnedList l @ (if currentPinned l then filter isFromShm (take 1 (slices l)) else []))"

text \<open>\<open>k\<close> bytes have been consumed, and no view handed out has been touched.\<close>

definition adv :: "nat \<Rightarrow> bufferManager \<Rightarrow> (nat \<times> nat) list \<Rightarrow> (nat \<times> nat) multiset \<Rightarrow> bufferSlice list \<Rightarrow> nat \<Rightarrow>
    linkedBuffer \<Rightarrow> bytes \<Rightarrow> linkedBuffer \<Rightarrow> bytes \<Rightarrow> bool" where
  "adv ct bm ds L xs k l m l' m' \<longleftrightarrow> rlist ct bm ds L xs m' l' \<and> lb_content m' l' = drop k (lb_content m l) \<and>
     same_views m m' xs \<and> lb_len l' = lb_len l \<and> (tight l \<longrightarrow> tight l') \<and> held_views l \<subseteq> held_views l' \<and> (\<forall>s \<in> held_views l. content m' s = content m s)"

lemma adv_trans: "adv ct bm ds L xs j l m l1 m1 \<Longrightarrow> adv ct bm ds L xs k l1 m1 l2 m2 \<Longrightarrow> adv ct bm ds L xs (k + j) l m l2 m2"
  using same_views_trans by (fastforce simp: adv_def)

lemma adv_same: "adv ct bm ds L xs 0 l m l' m' \<Longrightarrow> lb_content m' l' = lb_content m l"
  by (simp add: adv_def)

lemma adv_rlist: "adv ct bm ds L xs k l m l' m' \<Longrightarrow> rlist ct bm ds L xs m' l'"
  by (simp add: adv_def)

lemma adv_refl: "rlist ct bm ds L xs m l \<Longrightarrow> adv ct bm ds L xs 0 l m l m"
  by (simp add: adv_def)

lemma set_front_sel [simp]:
  "slices l \<noteq> [] \<Longrightarrow> slices (set_front s l) = s # tl (slices l)" "pinnedList (set_front s l) = pinnedList l"
  "currentPinned (set_front s l) = currentPinned l" "lb_len (set_front s l) = lb_len l"
  "wslice (lb_list (set_front s l)) = wslice (lb_list l)" "lb_isFromShm (set_front s l) = lb_isFromShm l"
  by (simp_all add: set_front_def set_items_def list_update_def split: list.split)

lemma rewind_read [simp]: "rewind (s\<lparr>readIndex := r\<rparr>) = rewind s"
  by (simp add: rewind_def)

lemma rewind_shm [simp]: "isFromShm (rewind s) = isFromShm s"
  by (simp add: rewind_def)

lemma rewind_wf: "slice_wf n s \<Longrightarrow> slice_wf n (rewind s)"
  by (auto simp: rewind_def slice_wf_def)

lemma owns_rewind:
  assumes "owns ct bm ds L m (ss @ ts)"
  shows "owns ct bm ds L m (map rewind ss @ ts)"
  using assms
proof (induction ss arbitrary: ts)
  case (Cons s ss)
  have wf: "slice_wf (length m) (rewind s)" by (rule rewind_wf [OF owns_wf [OF Cons.prems]]) simp
  have "owns ct bm ds L m (rewind s # ss @ ts)"
    unfolding rewind_def by (rule owns_index) (use Cons.prems wf in \<open>simp_all add: rewind_def\<close>)
  then have "owns ct bm ds L m (ss @ rewind s # ts)" by (rule owns_reorder) simp
  then have "owns ct bm ds L m (map rewind ss @ rewind s # ts)" by (rule Cons.IH)
  then show ?case by (rule owns_reorder) simp
qed simp

subsection \<open>The steps every read is made of\<close>

lemma content_front: "slices l = s # ss \<Longrightarrow> lb_content m l = content m s @ concat (map (content m) ss)"
  by (simp add: lb_content_def)

lemma front_step:
  assumes r: "rlist ct bm ds L xs m l" and sl: "slices l = s # ss" and n: "0 \<le> n"
  defines "s1 \<equiv> s\<lparr>readIndex := readIndex s + min n (slice_size s)\<rparr>"
  shows "slice_read m s n = Some ((take (nat n) (content m s), if slice_size s < n then Some ErrNotEnoughData else None), s1)"
    and "slice_skip s n = (min n (slice_size s), s1)"
    and "adv ct bm ds L xs (nat (min n (slice_size s))) l m (set_front s1 l) m"
    and "length (content m s) = nat (slice_size s)" and "0 \<le> slice_size s" and "slice_size s1 = slice_size s - min n (slice_size s)"
    and "length (take (nat n) (content m s)) = nat (min n (slice_size s))"
    and "take (nat n) (content m s) @ lb_content m (set_front s1 l) = lb_content m l"
proof -
  have o: "owns ct bm ds L m (s # ss @ pinnedList l @ xs)" using r sl by (simp add: rlist_def)
  have wf: "slice_wf (length m) s" by (rule owns_wf [OF o]) simp
  note sr = slice_read_ok [OF wf n, folded s1_def]
  show "slice_read m s n = Some ((take (nat n) (content m s), if slice_size s < n then Some ErrNotEnoughData else None), s1)" by (rule sr(1))
  show "slice_skip s n = (min n (slice_size s), s1)" unfolding s1_def by (rule slice_skip_ok [OF wf n])
  show lc: "length (content m s) = nat (slice_size s)" and "0 \<le> slice_size s" using length_content [OF wf] slice_wfD [OF wf] by simp_all
  show "slice_size s1 = slice_size s - min n (slice_size s)" by (simp add: s1_def slice_size_def)
  show "length (take (nat n) (content m s)) = nat (min n (slice_size s))" using n by (auto simp: lc min_def)
  show "take (nat n) (content m s) @ lb_content m (set_front s1 l) = lb_content m l" using sl sr(3) by (simp add: lb_content_def)
  have "owns ct bm ds L m (s\<lparr>readIndex := readIndex s1, writeIndex := writeIndex s\<rparr> # ss @ pinnedList l @ xs)"
    by (rule owns_index [OF o]) (use sr(2) in \<open>simp add: s1_def\<close>)
  then have o1: "owns ct bm ds L m (s1 # ss @ pinnedList l @ xs)" by (simp add: s1_def)
  have "rewind s1 = rewind s" "isFromShm s1 = isFromShm s" by (simp_all add: s1_def)
  moreover have "lb_content m (set_front s1 l) = drop (nat (min n (slice_size s))) (lb_content m l)"
    using sl sr(3) lc by (auto simp: lb_content_def min_def nat_le_iff)
  ultimately show "adv ct bm ds L xs (nat (min n (slice_size s))) l m (set_front s1 l) m"
    using r sl o1 by (auto simp: adv_def rlist_def held_views_def tight_def)
qed

lemma next_step:
  assumes r: "rlist ct bm ds L xs m l" and sl: "slices l = s # ss" and z: "slice_size s = 0"
  shows "\<exists>l' m'. readNextSlice bm l m = Some (l', m') \<and> slices l' = ss \<and> adv ct bm ds L xs 0 l m l' m'"
proof -
  define w where "w = wslice (snd (pop_front (lb_list l)))"
  have pop: "pop_front (lb_list l) = (Some s, \<lparr>items = ss, wslice = w\<rparr>)"
    unfolding w_def using sl by (cases "lb_list l") (simp add: pop_front_def)
  have w: "ss \<noteq> [] \<Longrightarrow> w = WAt (length ss - 1)"
    using r sl unfolding w_def by (cases "lb_list l") (auto simp: rlist_def pop_front_def shift_w_def split: nat.split)
  have o: "owns ct bm ds L m (s # ss @ pinnedList l @ xs)"
    using r sl by (simp_all add: rlist_def)
  have wf: "slice_wf (length m) s" by (rule owns_wf [OF o]) simp
  then have e: "content m s = []" using length_content [OF wf] z by simp
  have pos': "tight l \<longrightarrow> (\<forall>t \<in> set (tl ss). 0 < slice_size t)" using sl by (cases ss) (auto simp: tight_def)
  define l' where "l' p = l\<lparr>lb_list := \<lparr>items = ss, wslice = w\<rparr>, pinnedList := p, currentPinned := False\<rparr>" for p
  show ?thesis
  proof (cases "isFromShm s \<and> \<not> currentPinned l")
    case False
    let ?p = "if isFromShm s then pinnedList l @ [s] else pinnedList l"
    have "owns ct bm ds L m (ss @ ?p @ xs)"
    proof (cases "isFromShm s")
      case True
      show ?thesis by (rule owns_reorder [OF o]) (simp add: True)
    next
      case False
      with o show ?thesis by (auto simp: owns_def owner_def)
    qed
    then have "adv ct bm ds L xs 0 l m (l' ?p) m"
      using False sl e w pos' by (auto simp: adv_def rlist_def lb_content_def held_views_def l'_def tight_def)
    moreover have "readNextSlice bm l m = Some (l' ?p, m)" using pop False by (simp add: readNextSlice_def l'_def)
    ultimately show ?thesis by (auto simp: l'_def)
  next
    case True
    have "owns ct bm ds L m (map rewind (pinnedList l) @ s # ss @ xs)"
      by (rule owns_rewind [OF owns_reorder [OF o]]) simp
    then have "owns ct bm ds L m (s # map rewind (pinnedList l) @ ss @ xs)" by (rule owns_reorder) simp
    from owns_recycle [OF this] obtain m1 where r1: "recycleBuffer bm s m = Some m1" "same_views m m1 (map rewind (pinnedList l) @ ss @ xs)" .
    from owns_recycle [OF o] r1(1) have o1: "owns ct bm ds L m1 (ss @ pinnedList l @ xs)" by auto
    have "concat (map (content m1) ss) = concat (map (content m) ss)" by (rule same_views_concat [OF r1(2)]) auto
    moreover have "same_views m m1 xs" by (rule same_views_subset [OF r1(2)]) auto
    ultimately have "adv ct bm ds L xs 0 l m (l' (pinnedList l)) m1"
      using True sl e w pos' o1 r1(2) by (auto simp: adv_def rlist_def lb_content_def held_views_def l'_def same_views_def tight_def)
    moreover have "readNextSlice bm l m = Some (l' (pinnedList l), m1)" using pop True r1(1) by (simp add: readNextSlice_def l'_def)
    ultimately show ?thesis by (auto simp: l'_def)
  qed
qed

lemma drain_step:
  assumes r: "rlist ct bm ds L xs m l" and sl: "slices l = s # ss" and n: "slice_size s < n"
  shows "\<exists>s1 l2 m2. slice_read m s n = Some ((content m s, Some ErrNotEnoughData), s1) \<and> slice_skip s n = (slice_size s, s1) \<and>
    readNextSlice bm (set_front s1 l) m = Some (l2, m2) \<and> slices l2 = ss \<and> adv ct bm ds L xs (length (content m s)) l m l2 m2 \<and>
    lb_content m2 l2 = concat (map (content m) ss)"
proof -
  define s1 where "s1 = s\<lparr>readIndex := readIndex s + min n (slice_size s)\<rparr>"
  have wf: "slice_wf (length m) s" using r sl owns_wf [of ct bm ds L m _ s] by (auto simp: rlist_def)
  have n0: "0 \<le> n" using slice_wfD(4) [OF wf] n by simp
  note fs = front_step [OF r sl n0, folded s1_def]
  have z: "slice_size s1 = 0" using fs(6) n by simp
  have sl1: "slices (set_front s1 l) = s1 # ss" using sl by simp
  from next_step [OF adv_rlist [OF fs(3)] sl1 z] obtain l2 m2 where
    r2: "readNextSlice bm (set_front s1 l) m = Some (l2, m2)" "slices l2 = ss" "adv ct bm ds L xs 0 (set_front s1 l) m l2 m2" by blast
  have a: "adv ct bm ds L xs (length (content m s)) l m l2 m2" using adv_trans [OF fs(3) r2(3)] fs(4) n by simp
  moreover have "lb_content m2 l2 = concat (map (content m) ss)" using a content_front [OF sl, of m] by (simp add: adv_def)
  ultimately show ?thesis using fs(1,2,4) n r2 by auto
qed

lemma front_of_Cons [simp]: "slices l = s # ss \<Longrightarrow> front_of l = Some s"
  by (simp add: front_of_def)

subsection \<open>The loops\<close>

lemma read_bytes_loop_0: "read_bytes_loop bm 0 res l m = Some (res, l, m)"
  by (simp add: read_bytes_loop.simps)

lemma read_bytes_loop_ok:
  assumes "rlist ct bm ds L xs m l" and "0 \<le> sz" and "sz \<le> int (length (lb_content m l))"
  shows "\<exists>l' m'. read_bytes_loop bm sz res l m = Some (res @ take (nat sz) (lb_content m l), l', m') \<and> adv ct bm ds L xs (nat sz) l m l' m'"
  using assms
proof (induction "slices l" arbitrary: l m sz res)
  case Nil
  then have "sz = 0" by (simp add: lb_content_def)
  with Nil(2) adv_refl [OF Nil(2)] show ?case by (simp add: read_bytes_loop.simps)
next
  case (Cons s ss)
  note sl = Cons.hyps(2) [symmetric] and r = Cons.prems(1)
  show ?case
  proof (cases "slice_size s < sz")
    case True
    from drain_step [OF r sl True] obtain s1 l2 m2 where d: "slice_read m s sz = Some ((content m s, Some ErrNotEnoughData), s1)"
      "readNextSlice bm (set_front s1 l) m = Some (l2, m2)" "ss = slices l2" "adv ct bm ds L xs (length (content m s)) l m l2 m2"
      "lb_content m2 l2 = concat (map (content m) ss)" by auto
    have lc: "int (length (content m s)) = slice_size s" "0 < sz" using front_step(4,5) [OF r sl, of sz] Cons.prems(2) True by auto
    have "sz - slice_size s \<le> int (length (lb_content m2 l2))" using Cons.prems(3) lc(1) d(5) content_front [OF sl, of m] by simp
    from Cons.hyps(1) [OF d(3) adv_rlist [OF d(4)] _ this, of "res @ content m s"] True obtain l' m' where
      i: "read_bytes_loop bm (sz - slice_size s) (res @ content m s) l2 m2 =
          Some ((res @ content m s) @ take (nat (sz - slice_size s)) (lb_content m2 l2), l', m')"
        "adv ct bm ds L xs (nat (sz - slice_size s)) l2 m2 l' m'" by auto
    have "read_bytes_loop bm sz res l m = Some (res @ take (nat sz) (lb_content m l), l', m')"
      using sl d(1,2) i(1) lc(2) True content_front [OF sl, of m] d(5)
      by (subst read_bytes_loop.simps) (simp add: nat_diff_distrib lc(1) [symmetric])
    moreover have "nat (sz - slice_size s) + length (content m s) = nat sz" using lc True by linarith
    ultimately show ?thesis using adv_trans [OF d(4) i(2)] by auto
  next
    case False
    note fs = front_step [OF r sl Cons.prems(2)]
    show ?thesis
    proof (cases "sz = 0")
      case True
      with adv_refl [OF r] show ?thesis by (simp add: read_bytes_loop.simps)
    next
      case nz: False
      have lt: "int (length (take (nat sz) (content m s))) = sz" "take (nat sz) (lb_content m l) = take (nat sz) (content m s)"
        using fs(4,5) False Cons.prems(2) content_front [OF sl, of m] by auto
      have "read_bytes_loop bm sz res l m = Some (res @ take (nat sz) (lb_content m l), set_front (s\<lparr>readIndex := readIndex s + min sz (slice_size s)\<rparr>) l, m)"
        unfolding lt(2) using fs(1) sl nz Cons.prems(2)
        by (subst read_bytes_loop.simps) (simp add: lt(1) read_bytes_loop_0 del: length_take)
      with fs(3) False show ?thesis by (simp add: min_def split: if_splits)
    qed
  qed
qed

lemma front_ready:
  assumes r: "rlist ct bm ds L xs m l" and ne: "lb_content m l \<noteq> []"
  obtains s ss l1 m1 t ts where "slices l = s # ss"
    and "(if slice_size s = 0 then readNextSlice bm l m else Some (l, m)) = Some (l1, m1)"
    and "slices l1 = t # ts" and "t # ts = (if slice_size s = 0 then ss else s # ss)" and "tight l \<longrightarrow> 0 < slice_size t" and "adv ct bm ds L xs 0 l m l1 m1" and "lb_content m1 l1 = lb_content m l"
proof -
  from ne obtain s ss where sl: "slices l = s # ss" by (cases "slices l") (auto simp: lb_content_def)
  have ge: "length (content m s) = nat (slice_size s)" "0 \<le> slice_size s" using front_step(4,5) [OF r sl, of 0] by simp_all
  show thesis
  proof (cases "slice_size s = 0")
    case True
    from next_step [OF r sl True] obtain l1 m1 where n: "readNextSlice bm l m = Some (l1, m1)" "slices l1 = ss"
      "adv ct bm ds L xs 0 l m l1 m1" by blast
    have "ss \<noteq> []" using ne ge True content_front [OF sl, of m] by auto
    then obtain t ts where ts: "ss = t # ts" by (cases ss) auto
    have p: "tight l \<longrightarrow> 0 < slice_size t" using sl ts by (simp add: tight_def)
    show thesis by (rule that [OF sl _ n(2) [unfolded ts] _ p n(3) adv_same [OF n(3)]]) (simp_all add: True n(1) ts)
  next
    case False
    show thesis by (rule that [OF sl _ sl _ _ adv_refl [OF r] refl]) (use False ge in simp_all)
  qed
qed

lemma read_string_loop_ok:
  assumes "rlist ct bm ds L xs m l" and "int (length acc) \<le> sz" and "sz - int (length acc) \<le> int (length (lb_content m l))"
  shows "\<exists>l' m'. read_string_loop bm sz acc l m = Some (acc @ take (nat (sz - int (length acc))) (lb_content m l), l', m') \<and>
    adv ct bm ds L xs (nat (sz - int (length acc))) l m l' m'"
  using assms
proof (induction "2 * length (slices l) + (if 0 < slice_size (hd (slices l)) then 1 else 0)" arbitrary: acc l m rule: less_induct)
  case less
  note r = less.prems(1)
  show ?case
  proof (cases "int (length acc) = sz")
    case True
    then show ?thesis using adv_refl [OF r] by (subst read_string_loop.simps) simp
  next
    case False
    let ?n = "sz - int (length acc)"
    have n: "0 < ?n" "0 \<le> ?n" using False less.prems(2) by simp_all
    from less.prems(3) n have ne: "lb_content m l \<noteq> []" by auto
    obtain s ss l1 m1 t ts where f: "slices l = s # ss"
      "(if slice_size s = 0 then readNextSlice bm l m else Some (l, m)) = Some (l1, m1)" "slices l1 = t # ts" "t # ts = (if slice_size s = 0 then ss else s # ss)"
      "adv ct bm ds L xs 0 l m l1 m1" "lb_content m1 l1 = lb_content m l" by (rule front_ready [OF r ne])
    define t1 where "t1 = t\<lparr>readIndex := readIndex t + min ?n (slice_size t)\<rparr>"
    note fs = front_step [OF adv_rlist [OF f(5)] f(3) n(2), folded t1_def]
    let ?l = "set_front t1 l1" and ?b = "take (nat ?n) (content m1 t)"
    have lb: "length ?b = nat (min ?n (slice_size t))" by (rule fs(7))
    have c: "?b @ lb_content m1 ?l = lb_content m l" using fs(8) f(6) by simp
    have d: "read_string_loop bm sz acc l m = read_string_loop bm sz (acc @ ?b) ?l m1"
      using f(1,2,3) fs(1) n by (subst read_string_loop.simps) simp
    have le: "int (length (acc @ ?b)) \<le> sz" "sz - int (length (acc @ ?b)) \<le> int (length (lb_content m1 ?l))"
      using lb n less.prems(3) arg_cong [OF c, of length] by auto
    have "\<exists>l' m'. read_string_loop bm sz (acc @ ?b) ?l m1 = Some ((acc @ ?b) @ take (nat (sz - int (length (acc @ ?b)))) (lb_content m1 ?l), l', m') \<and>
      adv ct bm ds L xs (nat (sz - int (length (acc @ ?b)))) ?l m1 l' m'"
    proof (cases "slice_size t < ?n")
      case True
      then have "slice_size t1 = 0" using fs(6) by simp
      moreover have "0 < slice_size s \<or> slice_size s = 0" using front_step(5) [OF r f(1), of 0] by auto
      ultimately have "2 * length (slices ?l) + (if 0 < slice_size (hd (slices ?l)) then 1 else 0) <
          2 * length (slices l) + (if 0 < slice_size (hd (slices l)) then 1 else 0)"
        using f(1,3,4) by (auto split: if_splits)
      then show ?thesis by (rule less.hyps [OF _ adv_rlist [OF fs(3)] le])
    next
      case False
      then have "int (length (acc @ ?b)) = sz" using lb n by simp
      then show ?thesis using adv_refl [OF adv_rlist [OF fs(3)]] by (subst read_string_loop.simps) simp
    qed
    then obtain l' m' where
      i: "read_string_loop bm sz (acc @ ?b) ?l m1 = Some ((acc @ ?b) @ take (nat (sz - int (length (acc @ ?b)))) (lb_content m1 ?l), l', m')"
      "adv ct bm ds L xs (nat (sz - int (length (acc @ ?b)))) ?l m1 l' m'" by blast
    define k where "k = length ?b"
    have k: "nat (sz - int (length (acc @ ?b))) = nat ?n - k" "k \<le> nat ?n" unfolding length_append k_def [symmetric] using n by (simp_all add: k_def)
    have "?b @ take (nat ?n - k) (lb_content m1 ?l) = take (nat ?n) (lb_content m l)"
      unfolding c [symmetric] using k(2) by (simp only: take_append k_def [symmetric]) (simp add: k_def)
    with d i(1) k(1) have "read_string_loop bm sz acc l m = Some (acc @ take (nat ?n) (lb_content m l), l', m')" by simp
    moreover have "adv ct bm ds L xs (nat ?n - k + (k + 0)) l m l' m'"
      using adv_trans [OF adv_trans [OF f(5) fs(3)] i(2)] unfolding k(1) unfolding k_def lb by simp
    ultimately show ?thesis using k(2) by auto
  qed
qed

lemma read_loop_ok:
  assumes "rlist ct bm ds L xs m l" and "int (length p) \<le> sz"
  shows "\<exists>l' m'. read_loop bm sz p l m = Some (p @ take (nat (sz - int (length p))) (lb_content m l), l', m') \<and>
    adv ct bm ds L xs (nat (sz - int (length p))) l m l' m'"
  using assms
proof (induction "slices l" arbitrary: l m p)
  case Nil
  have "lb_content m l = []" using Nil.hyps by (simp add: lb_content_def)
  with Nil adv_refl [OF Nil.prems(1)] show ?case by (subst read_loop.simps) (simp add: adv_def)
next
  case (Cons s ss)
  note sl = Cons.hyps(2) [symmetric] and r = Cons.prems(1)
  let ?n = "sz - int (length p)"
  have n0: "0 \<le> ?n" using Cons.prems(2) by simp
  note fs = front_step [OF r sl n0]
  show ?case
  proof (cases "slice_size s < ?n")
    case True
    from drain_step [OF r sl True] obtain s1 l2 m2 where d: "slice_read m s ?n = Some ((content m s, Some ErrNotEnoughData), s1)"
      "readNextSlice bm (set_front s1 l) m = Some (l2, m2)" "ss = slices l2" "adv ct bm ds L xs (length (content m s)) l m l2 m2"
      "lb_content m2 l2 = concat (map (content m) ss)" by auto
    have lc: "int (length (content m s)) = slice_size s" using fs(4,5) by simp
    have le: "int (length (p @ content m s)) \<le> sz" using True lc by simp
    from Cons.hyps(1) [OF d(3) adv_rlist [OF d(4)] le] obtain l' m' where
      i: "read_loop bm sz (p @ content m s) l2 m2 =
          Some ((p @ content m s) @ take (nat (sz - int (length (p @ content m s)))) (lb_content m2 l2), l', m')"
        "adv ct bm ds L xs (nat (sz - int (length (p @ content m s)))) l2 m2 l' m'" by auto
    have e: "nat (sz - int (length (p @ content m s))) = nat ?n - length (content m s)" by simp
    have "read_loop bm sz p l m = Some (p @ take (nat ?n) (lb_content m l), l', m')"
      using sl d(1,2) i(1) True content_front [OF sl, of m] d(5) e by (subst read_loop.simps) (simp add: lc [symmetric])
    moreover have "nat (sz - int (length (p @ content m s))) + length (content m s) = nat ?n" using lc True by simp
    ultimately show ?thesis using adv_trans [OF d(4) i(2)] by auto
  next
    case False
    show ?thesis
    proof (cases "?n = 0")
      case True
      with adv_refl [OF r] show ?thesis by (subst read_loop.simps) simp
    next
      case nz: False
      then have "read_loop bm sz p l m = Some (p @ take (nat ?n) (lb_content m l), set_front (s\<lparr>readIndex := readIndex s + min ?n (slice_size s)\<rparr>) l, m)"
        using fs(1,4,5) sl False n0 content_front [OF sl, of m] by (subst read_loop.simps) (simp add: min_def Let_def)
      with fs(3) False show ?thesis by (simp add: min_def split: if_splits)
    qed
  qed
qed

lemma discard_loop_ok:
  assumes "rlist ct bm ds L xs m l" and "0 \<le> sz" and "sz \<le> int (length (lb_content m l))" and "slices l \<noteq> []"
  shows "\<exists>l' m'. discard_loop bm sz n l m = Some (n + sz, l', m') \<and> adv ct bm ds L xs (nat sz) l m l' m'"
  using assms
proof (induction "slices l" arbitrary: l m sz n)
  case (Cons s ss)
  note sl = Cons.hyps(2) [symmetric] and r = Cons.prems(1)
  note fs = front_step [OF r sl Cons.prems(2)]
  show ?case
  proof (cases "slice_size s < sz")
    case True
    from drain_step [OF r sl True] obtain s1 l2 m2 where d: "slice_skip s sz = (slice_size s, s1)"
      "readNextSlice bm (set_front s1 l) m = Some (l2, m2)" "ss = slices l2" "adv ct bm ds L xs (length (content m s)) l m l2 m2"
      "lb_content m2 l2 = concat (map (content m) ss)" by auto
    have lc: "int (length (content m s)) = slice_size s" using fs(4,5) by simp
    have b: "0 \<le> sz - slice_size s" "sz - slice_size s \<le> int (length (lb_content m2 l2))"
      using Cons.prems(3) True lc d(5) content_front [OF sl, of m] by simp_all
    have "slices l2 \<noteq> []" using b True d(3,5) by auto
    from Cons.hyps(1) [OF d(3) adv_rlist [OF d(4)] b this, of "n + slice_size s"] obtain l' m' where
      i: "discard_loop bm (sz - slice_size s) (n + slice_size s) l2 m2 = Some (n + slice_size s + (sz - slice_size s), l', m')"
        "adv ct bm ds L xs (nat (sz - slice_size s)) l2 m2 l' m'" by auto
    have "discard_loop bm sz n l m = Some (n + sz, l', m')"
      using sl d(1,2) i(1) True by (subst discard_loop.simps) simp
    moreover have "nat (sz - slice_size s) + length (content m s) = nat sz" using lc True by linarith
    ultimately show ?thesis using adv_trans [OF d(4) i(2)] by auto
  next
    case False
    then have "discard_loop bm sz n l m = Some (n + sz, set_front (s\<lparr>readIndex := readIndex s + min sz (slice_size s)\<rparr>) l, m)"
      using sl fs(2) by (subst discard_loop.simps) (simp add: min_def)
    with fs(3) False show ?thesis by (simp add: min_def split: if_splits)
  qed
qed simp

subsection \<open>The reading operations\<close>

definition radv :: "nat \<Rightarrow> bufferManager \<Rightarrow> (nat \<times> nat) list \<Rightarrow> (nat \<times> nat) multiset \<Rightarrow> bufferSlice list \<Rightarrow> nat \<Rightarrow>
    linkedBuffer \<Rightarrow> bytes \<Rightarrow> linkedBuffer \<Rightarrow> bytes \<Rightarrow> bool" where
  "radv ct bm ds L xs k l m l' m' \<longleftrightarrow> rbuf ct bm ds L xs m' l' \<and> lb_content m' l' = drop k (lb_content m l) \<and>
     same_views m m' xs \<and> (tight l \<longrightarrow> tight l') \<and> held_views l \<subseteq> held_views l' \<and> (\<forall>s \<in> held_views l. content m' s = content m s)"

lemma radv_trans: "radv ct bm ds L xs j l m l1 m1 \<Longrightarrow> radv ct bm ds L xs k l1 m1 l2 m2 \<Longrightarrow> radv ct bm ds L xs (k + j) l m l2 m2"
  using same_views_trans by (fastforce simp: radv_def)

text \<open>Settling the length counter, and possibly pinning the first slice, after the bytes have been consumed.\<close>

lemma adv_radv:
  assumes "rbuf ct bm ds L xs m l" and "adv ct bm ds L xs k l m l' m'" and "k \<le> length (lb_content m l)"
    and "l'' = l'\<lparr>lb_len := lb_len l - int k\<rparr> \<or> l'' = l'\<lparr>currentPinned := True, lb_len := lb_len l - int k\<rparr>"
  shows "radv ct bm ds L xs k l m l'' m'"
proof -
  have "slices l'' = slices l'" "pinnedList l'' = pinnedList l'" "lb_list l'' = lb_list l'" "lb_len l'' = lb_len l - int k"
    "currentPinned l' \<longrightarrow> currentPinned l''" using assms(4) by auto
  then show ?thesis using assms(1,2,3) by (auto simp: radv_def rbuf_def adv_def rlist_def lb_content_def held_views_def tight_def)
qed

lemma adv_less: "adv ct bm ds L xs k l m l' m' \<Longrightarrow> lb_len l' = lb_len l"
  by (simp add: adv_def)

lemma adv_len:
  assumes "adv ct bm ds L xs k (l\<lparr>lb_len := n\<rparr>) m l' m'"
  shows "adv ct bm ds L xs k l m (l'\<lparr>lb_len := lb_len l\<rparr>) m'" and "lb_len l' = n"
  using assms by (simp_all add: adv_def rlist_def lb_content_def held_views_def tight_def)

lemma ensure_enough: "n \<le> lb_len l \<Longrightarrow> ensure readMore n (st, l, m) = Some (None, st, l, m)"
  by (simp add: ensure_def)

lemma ReadBytes_ok:
  assumes rb: "rbuf ct bm ds L xs m l" and n: "0 < n" "n \<le> lb_len l"
  shows "\<exists>l' m'. ReadBytes bm readMore n (st, l, m) = Some (Inr (take (nat n) (lb_content m l)), st, l', m') \<and>
    radv ct bm ds L xs (nat n) l m l' m'"
proof -
  have r: "rlist ct bm ds L xs m l" and len: "n \<le> int (length (lb_content m l))" using rb n by (simp_all add: rbuf_def)
  have ne: "lb_content m l \<noteq> []" using n len by auto
  obtain s ss l1 m1 t ts where f: "slices l = s # ss"
    "(if slice_size s = 0 then readNextSlice bm l m else Some (l, m)) = Some (l1, m1)" "slices l1 = t # ts" "tight l \<longrightarrow> 0 < slice_size t"
    "adv ct bm ds L xs 0 l m l1 m1" "lb_content m1 l1 = lb_content m l" by (rule front_ready [OF r ne])
  have k: "nat n \<le> length (lb_content m l)" using len by simp
  have ll: "lb_len l1 = lb_len l" by (rule adv_less [OF f(5)])
  show ?thesis
  proof (cases "n \<le> slice_size t")
    case True
    have n0: "0 \<le> n" using n by simp
    define t1 where "t1 = t\<lparr>readIndex := readIndex t + min n (slice_size t)\<rparr>"
    note fs = front_step [OF adv_rlist [OF f(5)] f(3) n0, folded t1_def]
    let ?l = "(set_front t1 l1)\<lparr>currentPinned := True, lb_len := lb_len l1 - n\<rparr>"
    have tk: "take (nat n) (lb_content m l) = take (nat n) (content m1 t)"
      using content_front [OF f(3), of m1] f(6) fs(4) True by simp
    have "ReadBytes bm readMore n (st, l, m) = Some (Inr (take (nat n) (lb_content m l)), st, ?l, m1)"
      unfolding tk ReadBytes_def using n f(1,2,3) fs(1) True by (simp add: ensure_enough)
    moreover have "adv ct bm ds L xs (nat n) l m (set_front t1 l1) m1" using adv_trans [OF f(5) fs(3)] True by (simp add: min_def)
    then have "radv ct bm ds L xs (nat n) l m ?l m1" by (rule adv_radv [OF rb _ k]) (use n ll in simp)
    ultimately show ?thesis by blast
  next
    case False
    let ?l1 = "l1\<lparr>lb_len := lb_len l1 - n\<rparr>"
    have r1: "rlist ct bm ds L xs m1 ?l1" using adv_rlist [OF f(5)] by (simp add: rlist_def)
    have c1: "lb_content m1 ?l1 = lb_content m l" using f(6) by (simp add: lb_content_def)
    from read_bytes_loop_ok [OF r1, of n "[]"] n len c1 obtain l' m' where
      p: "read_bytes_loop bm n [] ?l1 m1 = Some (take (nat n) (lb_content m l), l', m')" "adv ct bm ds L xs (nat n) ?l1 m1 l' m'" by auto
    have "ReadBytes bm readMore n (st, l, m) = Some (Inr (take (nat n) (lb_content m l)), st, l', m')"
      unfolding ReadBytes_def using n f(1,2,3) False p(1) by (simp add: ensure_enough)
    moreover have "adv ct bm ds L xs (nat n) l m (l'\<lparr>lb_len := lb_len l1\<rparr>) m'" using adv_trans [OF f(5) adv_len(1) [OF p(2)]] by simp
    then have "radv ct bm ds L xs (nat n) l m l' m'" by (rule adv_radv [OF rb _ k]) (use n ll adv_len(2) [OF p(2)] in simp)
    ultimately show ?thesis by blast
  qed
qed

lemma ReadString_ok:
  assumes rb: "rbuf ct bm ds L xs m l" and n: "0 < n" "n \<le> lb_len l"
  shows "\<exists>l' m'. ReadString bm readMore n (st, l, m) = Some (Inr (take (nat n) (lb_content m l)), st, l', m') \<and>
    radv ct bm ds L xs (nat n) l m l' m'"
proof -
  have r: "rlist ct bm ds L xs m l" and len: "n \<le> int (length (lb_content m l))" using rb n by (simp_all add: rbuf_def)
  have k: "nat n \<le> length (lb_content m l)" and n0: "0 \<le> n" using len n by simp_all
  obtain s ss where sl: "slices l = s # ss" using n len by (cases "slices l") (auto simp: lb_content_def)
  note fs = front_step [OF r sl n0]
  show ?thesis
  proof (cases "n \<le> slice_size s")
    case True
    let ?s = "s\<lparr>readIndex := readIndex s + min n (slice_size s)\<rparr>"
    let ?l = "(set_front ?s l)\<lparr>lb_len := lb_len l - n\<rparr>"
    have tk: "take (nat n) (lb_content m l) = take (nat n) (content m s)"
      using content_front [OF sl, of m] fs(4) True by simp
    have "ReadString bm readMore n (st, l, m) = Some (Inr (take (nat n) (lb_content m l)), st, ?l, m)"
      unfolding tk ReadString_def using n sl fs(1) True by (simp add: ensure_enough)
    moreover have "adv ct bm ds L xs (nat n) l m (set_front ?s l) m" using fs(3) True by (simp add: min_def)
    then have "radv ct bm ds L xs (nat n) l m ?l m" by (rule adv_radv [OF rb _ k]) (use n in simp)
    ultimately show ?thesis by blast
  next
    case False
    from read_string_loop_ok [OF r, of "[]" n] n len obtain l' m' where
      p: "read_string_loop bm n [] l m = Some (take (nat n) (lb_content m l), l', m')" "adv ct bm ds L xs (nat n) l m l' m'" by auto
    have "ReadString bm readMore n (st, l, m) = Some (Inr (take (nat n) (lb_content m l)), st, l'\<lparr>lb_len := lb_len l' - n\<rparr>, m')"
      unfolding ReadString_def using n sl False p(1) by (simp add: ensure_enough)
    moreover have "radv ct bm ds L xs (nat n) l m (l'\<lparr>lb_len := lb_len l' - n\<rparr>) m'"
      by (rule adv_radv [OF rb p(2) k]) (use n adv_less [OF p(2)] in simp)
    ultimately show ?thesis by blast
  qed
qed

lemma lb_read_ok:
  assumes rb: "rbuf ct bm ds L xs m l" and n: "0 < n" "1 \<le> lb_len l"
  shows "\<exists>l' m'. lb_read bm readMore n (st, l, m) = Some (Inr (take (nat n) (lb_content m l)), st, l', m') \<and>
    radv ct bm ds L xs (nat n) l m l' m'"
proof -
  have r: "rlist ct bm ds L xs m l" using rb by (simp add: rbuf_def)
  let ?k = "min (nat n) (length (lb_content m l))"
  from read_loop_ok [OF r, of "[]" n] n obtain l' m' where
    p: "read_loop bm n [] l m = Some (take (nat n) (lb_content m l), l', m')" "adv ct bm ds L xs (nat n) l m l' m'" by auto
  let ?l = "l'\<lparr>lb_len := lb_len l' - int (length (take (nat n) (lb_content m l)))\<rparr>"
  have "lb_read bm readMore n (st, l, m) = Some (Inr (take (nat n) (lb_content m l)), st, ?l, m')"
    unfolding lb_read_def using n p(1) by (simp add: ensure_enough)
  moreover have d: "drop ?k (lb_content m l) = drop (nat n) (lb_content m l)" by (simp add: min_def)
  then have "adv ct bm ds L xs ?k l m l' m'" using p(2) by (simp add: adv_def)
  then have "radv ct bm ds L xs ?k l m ?l m'" by (rule adv_radv [OF rb]) (use adv_less [OF p(2)] in \<open>simp_all add: min.commute\<close>)
  then have "radv ct bm ds L xs (nat n) l m ?l m'" unfolding radv_def d .
  ultimately show ?thesis by blast
qed

lemma ReadByte_ok:
  assumes rb: "rbuf ct bm ds L xs m l" and n: "1 \<le> lb_len l" and tg: "tight l"
  shows "\<exists>l' m'. ReadByte bm readMore (st, l, m) = Some (Inr (hd (lb_content m l)), st, l', m') \<and> radv ct bm ds L xs 1 l m l' m'"
proof -
  have r: "rlist ct bm ds L xs m l" and ne: "lb_content m l \<noteq> []" using rb n by (auto simp: rbuf_def)
  have k: "1 \<le> length (lb_content m l)" using ne by (simp add: Suc_leI)
  obtain s ss l1 m1 t ts where f: "slices l = s # ss"
    "(if slice_size s = 0 then readNextSlice bm l m else Some (l, m)) = Some (l1, m1)" "slices l1 = t # ts" "tight l \<longrightarrow> 0 < slice_size t"
    "adv ct bm ds L xs 0 l m l1 m1" "lb_content m1 l1 = lb_content m l" by (rule front_ready [OF r ne])
  note f4 = mp [OF f(4) tg]
  define t1 where "t1 = t\<lparr>readIndex := readIndex t + min 1 (slice_size t)\<rparr>"
  have one: "(0 :: int) \<le> 1" by simp
  note fs = front_step [OF adv_rlist [OF f(5)] f(3) one, folded t1_def]
  have m1: "min 1 (slice_size t) = 1" using f4 by simp
  have hd: "take (nat 1) (content m1 t) = [hd (lb_content m l)]"
    using content_front [OF f(3), of m1] f(6) fs(4) f4 by (cases "content m1 t") auto
  let ?l = "(set_front t1 l1)\<lparr>lb_len := lb_len l1 - 1\<rparr>"
  note rd = fs(1) [unfolded hd]
  have "ReadByte bm readMore (st, l, m) = Some (Inr (hd (lb_content m l)), st, ?l, m1)"
  proof (cases "slice_size s = 0")
    case True
    define s1 where "s1 = s\<lparr>readIndex := readIndex s + min 1 (slice_size s)\<rparr>"
    note gs = front_step [OF r f(1) one, folded s1_def]
    have "set_front s1 l = l" using True f(1) by (simp add: s1_def set_front_def set_items_def)
    then show ?thesis using n f(1-3) f4 True gs(1) rd by (simp add: ReadByte_def ensure_enough)
  next
    case False
    then have "l1 = l" "m1 = m" "t = s" using f(1,2,3) by auto
    then show ?thesis using n f(1) f4 rd by (simp add: ReadByte_def ensure_enough)
  qed
  moreover have "adv ct bm ds L xs 1 l m (set_front t1 l1) m1" using adv_trans [OF f(5) fs(3)] m1 by simp
  then have "radv ct bm ds L xs 1 l m ?l m1" by (rule adv_radv [OF rb _ k]) (use adv_less [OF f(5)] in simp)
  ultimately show ?thesis by blast
qed

lemma peek_rest_ok:
  assumes "\<forall>s \<in> set ss. slice_wf (length m) s" and "0 \<le> n"
  shows "peek_rest n res ss m = Some (res @ take (nat n) (concat (map (content m) ss)))"
  using assms
proof (induction ss arbitrary: n res)
  case (Cons s ss)
  have wf: "slice_wf (length m) s" using Cons.prems by simp
  let ?b = "take (nat n) (content m s)"
  have le: "0 \<le> n - int (length ?b)" "nat (n - int (length ?b)) = nat n - length (content m s)" using Cons.prems(2) by auto
  have "peek_rest n res (s # ss) m = (if n > 0 then peek_rest (n - int (length ?b)) (res @ ?b) ss m else Some res)"
    using slice_peek_ok [OF wf Cons.prems(2)] by simp
  with Cons.IH [OF _ le(1)] le(2) Cons.prems show ?case by simp
qed simp

lemma radv_pin: "rbuf ct bm ds L xs m l \<Longrightarrow> radv ct bm ds L xs 0 l m l m \<and> radv ct bm ds L xs 0 l m (l\<lparr>currentPinned := True\<rparr>) m"
  by (auto simp: radv_def rbuf_def rlist_def lb_content_def held_views_def tight_def)

lemma Peek_ok:
  assumes rb: "rbuf ct bm ds L xs m l" and n: "0 < n" "n \<le> lb_len l"
  shows "\<exists>l'. Peek readMore n (st, l, m) = Some (Inr (take (nat n) (lb_content m l)), st, l', m) \<and> radv ct bm ds L xs 0 l m l' m"
proof -
  have r: "rlist ct bm ds L xs m l" and len: "n \<le> int (length (lb_content m l))" using rb n by (simp_all add: rbuf_def)
  obtain s ss where sl: "slices l = s # ss" using n len by (cases "slices l") (auto simp: lb_content_def)
  have wf: "\<forall>t \<in> set (s # ss). slice_wf (length m) t"
    using r sl owns_wf [of ct bm ds L m "slices l @ pinnedList l @ xs"] by (auto simp: rlist_def)
  have n0: "0 \<le> n" using n by simp
  let ?b = "take (nat n) (content m s)"
  have pk: "slice_peek m s n = Some ((?b, if slice_size s < n then Some ErrNotEnoughData else None), s)"
    using slice_peek_ok [of m s n] wf n0 by simp
  have id: "set_front s l = l" using sl by (simp add: set_front_def set_items_def)
  show ?thesis
  proof (cases "int (length ?b) = n")
    case True
    then have "length (content m s) \<ge> nat n" by auto
    then have "take (nat n) (lb_content m l) = ?b" using content_front [OF sl, of m] by simp
    moreover have "Peek readMore n (st, l, m) = Some (Inr ?b, st, l\<lparr>currentPinned := True\<rparr>, m)"
      using n sl pk True id by (simp add: Peek_def ensure_enough del: length_take)
    ultimately show ?thesis using radv_pin [OF rb] by auto
  next
    case False
    have le: "0 \<le> n - int (length ?b)" "nat (n - int (length ?b)) = nat n - length (content m s)" using n by auto
    have "peek_rest (n - int (length ?b)) ?b ss m = Some (take (nat n) (lb_content m l))"
      using peek_rest_ok [OF _ le(1), of ss m ?b] wf le(2) content_front [OF sl, of m] by simp
    then have "Peek readMore n (st, l, m) = Some (Inr (take (nat n) (lb_content m l)), st, l, m)"
      using n sl pk False id by (simp add: Peek_def ensure_enough del: length_take)
    then show ?thesis using radv_pin [OF rb] by auto
  qed
qed

lemma Discard_ok:
  assumes rb: "rbuf ct bm ds L xs m l" and n: "0 < n" "n \<le> lb_len l"
  shows "\<exists>l' m'. Discard bm readMore n (st, l, m) = Some (Inr n, st, l', m') \<and> radv ct bm ds L xs (nat n) l m l' m'"
proof -
  have r: "rlist ct bm ds L xs m l" and len: "n \<le> int (length (lb_content m l))" using rb n by (simp_all add: rbuf_def)
  have k: "nat n \<le> length (lb_content m l)" and n0: "0 \<le> n" using len n by simp_all
  have ne: "slices l \<noteq> []" using n len by (auto simp: lb_content_def)
  from discard_loop_ok [OF r n0 len ne, of 0] obtain l' m' where
    p: "discard_loop bm n 0 l m = Some (n, l', m')" "adv ct bm ds L xs (nat n) l m l' m'" by auto
  have "Discard bm readMore n (st, l, m) = Some (Inr n, st, l'\<lparr>lb_len := lb_len l' - n\<rparr>, m')"
    unfolding Discard_def using n p(1) by (simp add: ensure_enough)
  moreover have "radv ct bm ds L xs (nat n) l m (l'\<lparr>lb_len := lb_len l' - n\<rparr>) m'"
    by (rule adv_radv [OF rb p(2) k]) (use n adv_less [OF p(2)] in simp)
  ultimately show ?thesis by blast
qed

lemma recycle_all_ok:
  assumes o: "owns ct bm ds L m (ss @ rest)"
  obtains m' where "recycle_items bm ss m = Some m'" and "owns ct bm ds L m' rest" and "same_views m m' rest"
  using recycle_items_ok [OF o] by blast

lemma cleanPinnedList_ok:
  assumes rb: "rbuf ct bm ds L xs m l"
  obtains l1 m1 where "cleanPinnedList bm l m = Some (l1, m1)" and "rbuf ct bm ds L xs m1 l1" and "lb_content m1 l1 = lb_content m l"
    and "same_views m m1 (slices l @ xs)" and "pinnedList l1 = []" and "lb_list l1 = lb_list l" and "lb_len l1 = lb_len l"
    and "lb_isFromShm l1 = lb_isFromShm l"
proof (cases "pinnedList l = []")
  case True
  with that [of l m] rb show thesis by (simp add: cleanPinnedList_def)
next
  case False
  have "owns ct bm ds L m (pinnedList l @ slices l @ xs)"
    by (rule owns_reorder [of _ _ _ _ _ "slices l @ pinnedList l @ xs"]) (use rb in \<open>simp_all add: rbuf_def rlist_def\<close>)
  then obtain m1 where m1: "recycle_items bm (pinnedList l) m = Some m1" "owns ct bm ds L m1 (slices l @ xs)" "same_views m m1 (slices l @ xs)"
    by (rule recycle_all_ok)
  have c: "concat (map (content m1) (slices l)) = concat (map (content m) (slices l))" by (rule same_views_concat [OF m1(3)]) simp
  let ?l = "l\<lparr>currentPinned := False, pinnedList := []\<rparr>"
  have "rbuf ct bm ds L xs m1 ?l" "lb_content m1 ?l = lb_content m l"
    using rb m1(2) c by (simp_all add: rbuf_def rlist_def lb_content_def)
  with that [of ?l m1] m1 False show thesis by (simp add: cleanPinnedList_def)
qed

lemma ReleasePreviousRead_ok:
  assumes rb: "rbuf ct bm ds L xs m l"
  shows "\<exists>l' m'. ReleasePreviousRead bm l m = Some (l', m') \<and> rbuf ct bm ds L xs m' l' \<and> lb_content m' l' = lb_content m l \<and>
    same_views m m' xs \<and> pinnedList l' = [] \<and> (tight l \<longrightarrow> tight l') \<and> (tight l \<and> lb_len l = 0 \<longrightarrow> slices l' = [])"
proof -
  obtain l1 m1 where c: "cleanPinnedList bm l m = Some (l1, m1)" "rbuf ct bm ds L xs m1 l1" "lb_content m1 l1 = lb_content m l"
    "same_views m m1 (slices l @ xs)" "pinnedList l1 = []" "lb_len l1 = lb_len l" "lb_list l1 = lb_list l" by (rule cleanPinnedList_ok [OF rb])
  have r1: "rlist ct bm ds L xs m1 l1" using c(2) by (simp add: rbuf_def)
  have sx: "same_views m m1 xs" by (rule same_views_subset [OF c(4)]) simp
  show ?thesis
  proof (cases "slices l1")
    case Nil
    with c sx show ?thesis by (auto simp: ReleasePreviousRead_def tight_def)
  next
    case (Cons s ss)
    note lc = front_step(4,5) [OF r1 Cons, of 0]
    have w: "wslice (lb_list l1) = WAt (length ss)" "tight l \<longrightarrow> (\<forall>t \<in> set ss. 0 < slice_size t)"
      using r1 Cons c(7) by (simp_all add: rlist_def tight_def)
    show ?thesis
    proof (cases "slice_size s = 0 \<and> ss = []")
      case True
      have "owns ct bm ds L m1 (s # xs)" using r1 Cons c(5) True by (simp add: rlist_def)
      then obtain m2 where m2: "recycleBuffer bm s m1 = Some m2" "owns ct bm ds L m2 xs" "same_views m1 m2 xs" by (rule owns_recycle)
      let ?l = "l1\<lparr>lb_list := \<lparr>items = ss, wslice = WNil\<rparr>\<rparr>"
      have "lb_content m1 l1 = []" using Cons True lc by (simp add: lb_content_def)
      then have e: "lb_content m l = []" "lb_len l1 = 0" using c(2,3) by (simp_all add: rbuf_def)
      have e2: "lb_content m2 ?l = []" using True by (simp add: lb_content_def)
      have "rbuf ct bm ds L xs m2 ?l" using c(5) m2(2) True e(2) e2 by (simp add: rbuf_def rlist_def)
      moreover have "lb_content m2 ?l = lb_content m l" using e(1) e2 by simp
      moreover have "ReleasePreviousRead bm l m = Some (?l, m2)" using c(1) Cons True w(1) m2(1) by (simp add: ReleasePreviousRead_def)
      ultimately show ?thesis using True c(5) same_views_trans [OF sx m2(3)] by (intro exI [of _ ?l] exI [of _ m2] conjI) (auto simp: tight_def)
    next
      case False
      then have "ReleasePreviousRead bm l m = Some (l1, m1)"
        using c(1) Cons w(1) by (cases ss) (auto simp: ReleasePreviousRead_def)
      moreover have "lb_content m1 l1 \<noteq> []" if "tight l"
      proof -
        from that False Cons lc w(2) obtain t where t: "t \<in> set (slices l1)" "0 < slice_size t" by (cases ss) auto
        have "slice_wf (length m1) t" by (rule owns_wf [of ct bm ds L _ "slices l1 @ pinnedList l1 @ xs"]) (use r1 t in \<open>simp_all add: rlist_def\<close>)
        from length_content [OF this] t(2) have "content m1 t \<noteq> []" by auto
        with t(1) show ?thesis by (auto simp: lb_content_def)
      qed
      ultimately show ?thesis using c(2-7) sx by (auto simp: rbuf_def tight_def)
    qed
  qed
qed

subsection \<open>Sequences of reads\<close>

datatype read_op = OpBytes int | OpString int | OpRead int | OpByte | OpPeek int | OpDiscard int

definition out_map :: "('a \<Rightarrow> 'b) \<Rightarrow> ((go_error + 'a) \<times> 'st rstate) option \<Rightarrow> ((go_error + 'b) \<times> 'st rstate) option" where
  "out_map f r = map_option (\<lambda>(o1, x). (map_sum id f o1, x)) r"

fun read_step :: "bufferManager \<Rightarrow> 'st read_more \<Rightarrow> read_op \<Rightarrow> 'st rstate \<Rightarrow> ((go_error + bytes) \<times> 'st rstate) option" where
  "read_step bm readMore (OpBytes n) x = ReadBytes bm readMore n x"
| "read_step bm readMore (OpString n) x = ReadString bm readMore n x"
| "read_step bm readMore (OpRead n) x = lb_read bm readMore n x"
| "read_step bm readMore OpByte x = out_map (\<lambda>b. [b]) (ReadByte bm readMore x)"
| "read_step bm readMore (OpPeek n) x = Peek readMore n x"
| "read_step bm readMore (OpDiscard n) x = out_map (\<lambda>_. []) (Discard bm readMore n x)"

fun run_reads :: "bufferManager \<Rightarrow> 'st read_more \<Rightarrow> read_op list \<Rightarrow> 'st rstate \<Rightarrow> ((go_error + bytes) list \<times> 'st rstate) option" where
  "run_reads bm readMore [] x = Some ([], x)"
| "run_reads bm readMore (a # as) x = do {
     (r, x1) \<leftarrow> read_step bm readMore a x;
     (rs, x2) \<leftarrow> run_reads bm readMore as x1;
     Some (r # rs, x2)
   }"

text \<open>The same operations on the plain sequence of unread bytes: what is possible, what comes
  out, what is left.\<close>

fun op_fits :: "read_op \<Rightarrow> bytes \<Rightarrow> bool" where
  "op_fits (OpBytes n) c \<longleftrightarrow> 0 < n \<and> n \<le> int (length c)"
| "op_fits (OpString n) c \<longleftrightarrow> 0 < n \<and> n \<le> int (length c)"
| "op_fits (OpRead n) c \<longleftrightarrow> 0 < n \<and> c \<noteq> []"
| "op_fits OpByte c \<longleftrightarrow> c \<noteq> []"
| "op_fits (OpPeek n) c \<longleftrightarrow> 0 < n \<and> n \<le> int (length c)"
| "op_fits (OpDiscard n) c \<longleftrightarrow> 0 < n \<and> n \<le> int (length c)"

fun op_out :: "read_op \<Rightarrow> bytes \<Rightarrow> bytes" where
  "op_out (OpBytes n) c = take (nat n) c"
| "op_out (OpString n) c = take (nat n) c"
| "op_out (OpRead n) c = take (nat n) c"
| "op_out OpByte c = [hd c]"
| "op_out (OpPeek n) c = take (nat n) c"
| "op_out (OpDiscard n) c = []"

fun op_takes :: "read_op \<Rightarrow> nat" where
  "op_takes (OpBytes n) = nat n"
| "op_takes (OpString n) = nat n"
| "op_takes (OpRead n) = nat n"
| "op_takes OpByte = 1"
| "op_takes (OpPeek n) = 0"
| "op_takes (OpDiscard n) = nat n"

fun ops_fit :: "read_op list \<Rightarrow> bytes \<Rightarrow> bool" where
  "ops_fit [] c \<longleftrightarrow> True"
| "ops_fit (a # as) c \<longleftrightarrow> op_fits a c \<and> ops_fit as (drop (op_takes a) c)"

fun ops_out :: "read_op list \<Rightarrow> bytes \<Rightarrow> bytes list" where
  "ops_out [] c = []"
| "ops_out (a # as) c = op_out a c # ops_out as (drop (op_takes a) c)"

lemma read_step_ok:
  assumes rb: "rbuf ct bm ds L xs m l" and tg: "tight l" and f: "op_fits a (lb_content m l)"
  shows "\<exists>l' m'. read_step bm readMore a (st, l, m) = Some (Inr (op_out a (lb_content m l)), st, l', m') \<and> radv ct bm ds L xs (op_takes a) l m l' m'"
proof -
  have len: "lb_len l = int (length (lb_content m l))" using rb by (simp add: rbuf_def)
  then have one: "lb_content m l \<noteq> [] \<Longrightarrow> 1 \<le> lb_len l" by (simp add: Suc_leI)
  show ?thesis
  proof (cases a)
    case (OpBytes n) with f len ReadBytes_ok [OF rb, of n readMore st] show ?thesis by simp
  next
    case (OpString n) with f len ReadString_ok [OF rb, of n readMore st] show ?thesis by simp
  next
    case (OpRead n) with f one lb_read_ok [OF rb, of n readMore st] show ?thesis by simp
  next
    case OpByte with f one ReadByte_ok [OF rb _ tg, of readMore st] show ?thesis by (auto simp: out_map_def)
  next
    case (OpPeek n) with f len Peek_ok [OF rb, of n readMore st] show ?thesis by auto
  next
    case (OpDiscard n) with f len Discard_ok [OF rb, of n readMore st] show ?thesis by (auto simp: out_map_def)
  qed
qed

lemma radv_D:
  assumes "radv ct bm ds L xs k l m l' m'"
  shows "rbuf ct bm ds L xs m' l'" and "lb_content m' l' = drop k (lb_content m l)" and "tight l \<Longrightarrow> tight l'"
    and "same_views m m' xs"
  using assms by (simp_all add: radv_def)

lemma run_reads_ok:
  assumes "rbuf ct bm ds L xs m l" and "tight l" and "ops_fit as (lb_content m l)"
  shows "\<exists>l' m'. run_reads bm readMore as (st, l, m) = Some (map Inr (ops_out as (lb_content m l)), st, l', m') \<and>
    radv ct bm ds L xs (sum_list (map op_takes as)) l m l' m' \<and> tight l'"
  using assms
proof (induction as arbitrary: l m)
  case Nil
  then show ?case using radv_pin [OF Nil.prems(1)] by simp
next
  case (Cons a as)
  have f: "op_fits a (lb_content m l)" using Cons.prems(3) by simp
  from read_step_ok [OF Cons.prems(1,2) f, of readMore st] obtain l1 m1 where
    1: "read_step bm readMore a (st, l, m) = Some (Inr (op_out a (lb_content m l)), st, l1, m1)" "radv ct bm ds L xs (op_takes a) l m l1 m1" by blast
  note d = radv_D [OF 1(2)]
  have "ops_fit as (lb_content m1 l1)" using Cons.prems(3) d(2) by simp
  from Cons.IH [OF d(1) d(3) [OF Cons.prems(2)] this] obtain l' m' where
    2: "run_reads bm readMore as (st, l1, m1) = Some (map Inr (ops_out as (lb_content m1 l1)), st, l', m')"
    "radv ct bm ds L xs (sum_list (map op_takes as)) l1 m1 l' m'" "tight l'" by blast
  show ?case using 1(1) 2(1,3) d(2) radv_trans [OF 1(2) 2(2)] by (auto simp: add.commute)
qed

subsection \<open>Properties\<close>

text \<open>
  C16. Reads return the bytes in the order they are in the buffer. For every sequence of
  \<^verbatim>\<open>ReadBytes\<close>, \<^verbatim>\<open>ReadString\<close>, \<^verbatim>\<open>Read\<close>, \<^verbatim>\<open>ReadByte\<close>, \<^verbatim>\<open>Peek\<close> and \<^verbatim>\<open>Discard\<close> the content is
  enough for, no call panics or fails, every call returns what the same call on the plain
  byte sequence gives, however the bytes are spread over slices, and the bytes left are the
  bytes not consumed. The buffers read stay accounted for, and no byte a view handed out
  before can see changes.
\<close>

theorem reads_in_order:
  assumes "rbuf ct bm ds L xs m l" and "tight l" and "ops_fit as (lb_content m l)"
  shows "\<exists>l' m'. run_reads bm readMore as (st, l, m) = Some (map Inr (ops_out as (lb_content m l)), st, l', m') \<and>
    rbuf ct bm ds L xs m' l' \<and> lb_content m' l' = drop (sum_list (map op_takes as)) (lb_content m l) \<and>
    (\<forall>s \<in> held_views l. s \<in> held_views l' \<and> content m' s = content m s)"
  using run_reads_ok [OF assms, of readMore st] by (auto simp: radv_def)

lemma content_rewind:
  assumes "slice_wf (length m) s" and "slice_wf (length m') s" and "content m' (rewind s) = content m (rewind s)"
  shows "content m' s = content m s"
proof -
  have "content m s = drop (nat (readIndex s)) (content m (rewind s))" if "slice_wf (length m) s" for m
    using slice_wfD [OF that] length_backing [OF that]
    by (auto simp: content_def rewind_def load_def slice_size_def drop_take nat_diff_distrib)
  then show ?thesis using assms by simp
qed


text \<open>
  C32. Once a message has been read to its end and released, no buffer of it is left behind:
  \<^verbatim>\<open>ReleasePreviousRead\<close> gives back the pinned slices and the drained last slice, and every
  buffer of the shared memory is free again.
\<close>

theorem release_returns_all:
  assumes "rbuf ct bm ds L [] m l" and "tight l" and "lb_len l = 0"
  shows "\<exists>l' m'. ReleasePreviousRead bm l m = Some (l', m') \<and> slices l' = [] \<and> pinnedList l' = [] \<and> owner_all_free ct bm ds L m'"
proof -
  from ReleasePreviousRead_ok [OF assms(1)] assms(2,3) obtain l' m' where
    r: "ReleasePreviousRead bm l m = Some (l', m')" "rbuf ct bm ds L [] m' l'" "pinnedList l' = []" "slices l' = []" by blast
  then have "owns ct bm ds L m' []" by (simp add: rbuf_def rlist_def)
  with r show ?thesis by (auto simp: owns_empty)
qed

text \<open>A received buffer with one slice in the demonstration memory.\<close>

lemma demo_rbuf:
  obtains bm m0 m s l where "createBufferManager demo_pairs ''b'' (replicate 400 0) 0 = Some (Inr (bm, m0))"
    and "rbuf 20 bm [(5, 8), (4, 16)] demo_all [] m l" and "l = appendBufferSlice (Some s) newEmptyLinkedBuffer" and "isFromShm s"
    and "content m s = [1, 2, 3, 4, 5]" and "slice_size s = 5"
proof -
  let ?ds = "[(5, 8), (4, 16)] :: (nat \<times> nat) list" and ?d = "[1, 2, 3, 4, 5] :: bytes"
  obtain bm m0 where c: "createBufferManager demo_pairs ''b'' (replicate 400 0) 0 = Some (Inr (bm, m0))"
    and i: "mgr_inv 20 bm ?ds [[0, 28, 56, 84, 112], [0, 36, 72, 108]] m0" by (rule demo_buffers)
  have dist: "distinct (free_handles [[0, 28, 56, 84, 112], [0, 36, 72, 108]])" by code_simp
  have o: "owns 20 bm ?ds demo_all m0 []" using i dist by (auto simp: owns_empty owner_all_free_def demo_all_def)
  have "allocShmBuffer bm 5 m0 \<noteq> Some (Inl ErrNoMoreBuffer, m0)" using allocShmBuffer_ok(2) [OF i, of 5 0] by auto
  with o obtain s m1 where s: "owns 20 bm ?ds demo_all m1 [s]" "fresh m1 s" "isFromShm s" "unat (5 :: u32) \<le> unat (bs_cap s)"
    by (cases rule: owns_alloc [where sz = 5]) auto
  have f: "content m1 s = []" "slice_remain s = uint (bs_cap s)" using s(2) fresh_content fresh_remain by simp_all
  have n: "?d \<noteq> []" "5 \<le> nat (slice_remain s)" using s(4) f(2) by (simp_all add: uint_nat)
  from owns_append [OF s(1) n(1)] obtain m s' where a: "owns 20 bm ?ds demo_all m [s']" "content m s' = content m1 s @ take (nat (slice_remain s)) ?d"
    and s': "s' = s\<lparr>bs_data := bs_data s', writeIndex := writeIndex s + int (min (nat (slice_remain s)) (length ?d))\<rparr>" .
  have d: "take (nat (slice_remain s)) ?d = ?d" by (rule take_all) (use n(2) in simp)
  note a = a(1) a(2) [unfolded f(1) d append_Nil]
  have sh: "isFromShm s'" using s(3) by (subst s') simp
  have sz: "slice_size s' = 5" using length_content [OF owns_wf [OF a(1)], of s'] slice_wfD(4) [OF owns_wf [OF a(1)], of s'] a(2) by simp
  have "rbuf 20 bm ?ds demo_all [] m (appendBufferSlice (Some s') newEmptyLinkedBuffer)"
    using a sz sh by (simp add: rbuf_def rlist_def appendBufferSlice_def newEmptyLinkedBuffer_def empty_slist_def lb_content_def Let_def)
  from that [OF c this refl sh a(2) sz] show thesis .
qed

theorem reads_in_order_witness:
  "\<exists>bm m0 m s l' m'. createBufferManager demo_pairs ''b'' (replicate 400 0) 0 = Some (Inr (bm, m0)) \<and>
    run_reads bm (\<lambda>_ _. None) [OpPeek 2, OpByte, OpBytes 2, OpRead 9] ((), appendBufferSlice (Some s) newEmptyLinkedBuffer, m) =
      Some ([Inr [1, 2], Inr [1], Inr [2, 3], Inr [4, 5]], (), l', m') \<and> lb_content m' l' = []"
proof -
  obtain bm m0 m s l where c: "createBufferManager demo_pairs ''b'' (replicate 400 0) 0 = Some (Inr (bm, m0))"
    and rb: "rbuf 20 bm [(5, 8), (4, 16)] demo_all [] m l" and l: "l = appendBufferSlice (Some s) newEmptyLinkedBuffer"
    and s: "content m s = [1, 2, 3, 4, 5]" "slice_size s = 5" by (rule demo_rbuf)
  have sl: "slices l = [s]" "lb_content m l = [1, 2, 3, 4, 5]" "tight l"
    using s by (simp_all add: l appendBufferSlice_def newEmptyLinkedBuffer_def empty_slist_def lb_content_def tight_def Let_def)
  let ?as = "[OpPeek 2, OpByte, OpBytes 2, OpRead 9]"
  have f: "ops_fit ?as (lb_content m l)" unfolding sl(2) by simp
  have o: "map Inr (ops_out ?as (lb_content m l)) = [Inr [1, 2], Inr [1], Inr [2, 3], Inr [4, 5] :: go_error + bytes]"
    "drop (sum_list (map op_takes ?as)) (lb_content m l) = []" unfolding sl(2) by simp_all
  from reads_in_order [OF rb sl(3) f, of "\<lambda>_ _. None" "()"] obtain l' m' where
    "run_reads bm (\<lambda>_ _. None) ?as ((), l, m) = Some ([Inr [1, 2], Inr [1], Inr [2, 3], Inr [4, 5]], (), l', m')" "lb_content m' l' = []"
    unfolding o by blast
  with c show ?thesis unfolding l by (intro exI conjI)
qed


theorem release_returns_all_witness:
  "\<exists>bm m0 l m l' m'. createBufferManager demo_pairs ''b'' (replicate 400 0) 0 = Some (Inr (bm, m0)) \<and> slices l \<noteq> [] \<and>
    ReleasePreviousRead bm l m = Some (l', m') \<and> slices l' = [] \<and> owner_all_free 20 bm [(5, 8), (4, 16)] demo_all m'"
proof -
  obtain bm m0 m0' s l where c: "createBufferManager demo_pairs ''b'' (replicate 400 0) 0 = Some (Inr (bm, m0))"
    and rb: "rbuf 20 bm [(5, 8), (4, 16)] demo_all [] m0' l" and l: "l = appendBufferSlice (Some s) newEmptyLinkedBuffer" and sh: "isFromShm s"
    and s: "content m0' s = [1, 2, 3, 4, 5]" "slice_size s = 5" by (rule demo_rbuf)
  have sl: "slices l = [s]" "lb_content m0' l = [1, 2, 3, 4, 5]" "tight l" "lb_len l = 5"
    using s by (simp_all add: l appendBufferSlice_def newEmptyLinkedBuffer_def empty_slist_def lb_content_def tight_def Let_def)
  have r: "rlist 20 bm [(5, 8), (4, 16)] demo_all [] m0' l" using rb by (simp add: rbuf_def)
  have five: "(0 :: int) \<le> 5" by simp
  define s1 where "s1 = s\<lparr>readIndex := readIndex s + min 5 (slice_size s)\<rparr>"
  note fs = front_step(3) [OF r sl(1) five, folded s1_def]
  have "radv 20 bm [(5, 8), (4, 16)] demo_all [] 5 l m0' ((set_front s1 l)\<lparr>lb_len := 0\<rparr>) m0'"
    by (rule adv_radv [OF rb, of 5 "set_front s1 l"]) (use fs s(2) sl in simp_all)
  note d = radv_D [OF this]
  from release_returns_all [OF d(1) d(3) [OF sl(3)]] obtain l' m' where
    "ReleasePreviousRead bm ((set_front s1 l)\<lparr>lb_len := 0\<rparr>) m0' = Some (l', m')" "slices l' = []" "owner_all_free 20 bm [(5, 8), (4, 16)] demo_all m'" by auto
  moreover have "slices ((set_front s1 l)\<lparr>lb_len := 0\<rparr>) \<noteq> []" using sl(1) by simp
  ultimately show ?thesis using c by (intro exI conjI)
qed

end
