(* ===== verification/Protocol_Event.thy ===== *)
theory Protocol_Event
  imports Shm_Prelude
begin

text \<open>
  The wire format of \<^verbatim>\<open>protocol_event.go\<close>: big endian numbers, the eight byte event header,
  the event types, and the header of data that is sent over the connection when shared memory
  is exhausted. A Go slice expression that leaves its slice is the value \<open>None\<close>.
\<close>

subsection \<open>Big endian numbers and slices\<close>

definition be_put :: "'a::len word \<Rightarrow> bytes" where
  "be_put w = rev (le_bytes (LENGTH('a) div 8) (unat w))"

definition be_get :: "bytes \<Rightarrow> 'a::len word option" where
  "be_get bs = (if LENGTH('a) div 8 \<le> length bs then Some (word_of_nat (le_val (rev (take (LENGTH('a) div 8) bs)))) else None)"

text \<open>\<^verbatim>\<open>b[lo:hi]\<close> as a value, and \<^verbatim>\<open>copy(b[lo:], src)\<close> for a source that fits.\<close>

definition sub :: "bytes \<Rightarrow> nat \<Rightarrow> nat \<Rightarrow> bytes option" where
  "sub b lo hi = (if lo \<le> hi \<and> hi \<le> length b then Some (load b lo (hi - lo)) else None)"

definition put_at :: "bytes \<Rightarrow> nat \<Rightarrow> bytes \<Rightarrow> bytes option" where
  "put_at b i src = (if i + length src \<le> length b then Some (store b i src) else None)"

lemma length_be_put [simp]: "length (be_put (w :: 'a::len word)) = LENGTH('a) div 8"
  by (simp add: be_put_def)

lemma be_get_put [simp]:
  assumes "LENGTH('a) = 8 * k"
  shows "be_get (be_put (w :: 'a::len word) @ bs) = Some w"
proof -
  have "le_val (le_bytes k (unat w)) = unat w mod 2 ^ (8 * k)" by (simp add: le_val_le_bytes power_mult)
  also have "\<dots> = unat w" by (rule mod_less) (metis assms unsigned_less)
  finally show ?thesis using assms by (simp add: be_get_def be_put_def)
qed

lemma be_get_short: "length bs < LENGTH('a) div 8 \<Longrightarrow> (be_get bs :: 'a::len word option) = None"
  by (simp add: be_get_def)

lemma be_get_append: "LENGTH('a) div 8 \<le> length bs \<Longrightarrow> (be_get (bs @ cs) :: 'a::len word option) = be_get bs"
  by (simp add: be_get_def)

subsection \<open>The constants\<close>

named_theorems event_types \<open>the numbers of the event types\<close>

definition protoVersion :: u8 where [consts_defs]: "protoVersion = 2"
definition maxSupportProtoVersion :: u8 where [consts_defs]: "maxSupportProtoVersion = 3"
definition magicNumber :: u16 where [consts_defs]: "magicNumber = 0x7758"
definition headerSize :: nat where [consts_defs]: "headerSize = 4 + 2 + 1 + 1"
definition epochIDLen :: nat where [consts_defs]: "epochIDLen = 8"

definition typeShareMemoryByFilePath :: u8 where [event_types]: "typeShareMemoryByFilePath = 0"
definition typePolling :: u8 where [event_types]: "typePolling = 1"
definition typeStreamClose :: u8 where [event_types]: "typeStreamClose = 2"
definition typeFallbackData :: u8 where [event_types]: "typeFallbackData = 3"
definition typeExchangeProtoVersion :: u8 where [event_types]: "typeExchangeProtoVersion = 4"
definition typeShareMemoryByMemfd :: u8 where [event_types]: "typeShareMemoryByMemfd = 5"
definition typeAckShareMemory :: u8 where [event_types]: "typeAckShareMemory = 6"
definition typeAckReadyRecvFD :: u8 where [event_types]: "typeAckReadyRecvFD = 7"
definition typeHotRestart :: u8 where [event_types]: "typeHotRestart = 8"
definition typeHotRestartAck :: u8 where [event_types]: "typeHotRestartAck = 9"
definition minEventType :: u8 where [event_types]: "minEventType = typeShareMemoryByFilePath"
definition maxEventType :: u8 where [event_types]: "maxEventType = typeHotRestartAck"

subsection \<open>The header\<close>

definition hdr_Length :: "bytes \<Rightarrow> u32 option" where
  "hdr_Length h = do { b \<leftarrow> sub h 0 4; be_get b }"

definition hdr_Magic :: "bytes \<Rightarrow> u16 option" where
  "hdr_Magic h = do { b \<leftarrow> sub h 4 6; be_get b }"

definition hdr_Version :: "bytes \<Rightarrow> u8 option" where
  "hdr_Version h = (if 6 < length h then Some (h ! 6) else None)"

definition hdr_MsgType :: "bytes \<Rightarrow> u8 option" where
  "hdr_MsgType h = (if 7 < length h then Some (h ! 7) else None)"

definition header_encode :: "bytes \<Rightarrow> u32 \<Rightarrow> u8 \<Rightarrow> u8 \<Rightarrow> bytes option" where
  "header_encode h len version msgType = do {
     h1 \<leftarrow> put_at h 0 (be_put len);
     h2 \<leftarrow> put_at h1 4 (be_put magicNumber);
     h3 \<leftarrow> put_at h2 6 [version];
     put_at h3 7 [msgType]
   }"

definition fallbackDataEvent_encode :: "bytes \<Rightarrow> int \<Rightarrow> u8 \<Rightarrow> u32 \<Rightarrow> u32 \<Rightarrow> bytes option" where
  "fallbackDataEvent_encode f len version seqID status = do {
     f1 \<leftarrow> put_at f 0 (be_put (word_of_int len :: u32));
     f2 \<leftarrow> put_at f1 4 (be_put magicNumber);
     f3 \<leftarrow> put_at f2 6 [version];
     f4 \<leftarrow> put_at f3 7 [typeFallbackData];
     f5 \<leftarrow> put_at f4 8 (be_put seqID);
     put_at f5 12 (be_put status)
   }"

text \<open>\<^verbatim>\<open>strconv.Itoa\<close> on a non-negative number.\<close>

fun itoa :: "nat \<Rightarrow> string" where
  "itoa n = (if n < 10 then [char_of (48 + n)] else itoa (n div 10) @ [char_of (48 + n mod 10)])"

declare itoa.simps [simp del]

definition eventType_String :: "u8 \<Rightarrow> string" where
  "eventType_String t =
     (if t = typeShareMemoryByFilePath then ''ShareMemoryByFilePath''
      else if t = typePolling then ''Polling''
      else if t = typeStreamClose then ''StreamClose''
      else if t = typeFallbackData then ''FallbackData''
      else if t = typeShareMemoryByMemfd then ''ShareMemoryByMemfd''
      else if t = typeExchangeProtoVersion then ''ExchangeProtoVersion''
      else if t = typeAckShareMemory then ''AckShareMemory''
      else if t = typeAckReadyRecvFD then ''AckReadyRecvFD''
      else if t = typeHotRestart then ''HotRestart''
      else if t = typeHotRestartAck then ''HotRestartAck''
      else ''<UNSET>'' @ itoa (unat t))"

definition header_String :: "bytes \<Rightarrow> string option" where
  "header_String h = do {
     len \<leftarrow> hdr_Length h; magic \<leftarrow> hdr_Magic h; version \<leftarrow> hdr_Version h; t \<leftarrow> hdr_MsgType h;
     Some (''Length:'' @ itoa (unat len) @ '' Magic:'' @ itoa (unat magic) @ '' Version:'' @ itoa (unat version) @
       '' Type:'' @ eventType_String t @ '' '')
   }"

definition checkEventValid :: "bytes \<Rightarrow> go_error option option" where
  "checkEventValid hdr = do {
     magic \<leftarrow> hdr_Magic hdr;
     version \<leftarrow> hdr_Version hdr;
     if magic \<noteq> magicNumber \<or> version = 0 then Some (Some ErrInvalidVersion)
     else do {
       mt \<leftarrow> hdr_MsgType hdr;
       if mt < minEventType \<or> mt > maxEventType then Some (Some ErrInvalidMsgType) else Some None
     }
   }"

text \<open>The polling events prepared at start, one per version.\<close>

definition pollingEventWithVersion :: "u8 \<Rightarrow> bytes option" where
  "pollingEventWithVersion v =
     (if v \<le> maxSupportProtoVersion then header_encode (replicate headerSize 0) (word_of_nat headerSize) v typePolling else None)"

subsection \<open>What is encoded is what is decoded\<close>

definition wire_header :: "u32 \<Rightarrow> u8 \<Rightarrow> u8 \<Rightarrow> bytes" where
  "wire_header len version msgType = be_put len @ be_put magicNumber @ [version, msgType]"

lemma length_wire_header [simp]: "length (wire_header len version t) = headerSize"
  by (simp add: wire_header_def headerSize_def)

lemma store_append [simp]: "length xs = i \<Longrightarrow> length src \<le> length ys \<Longrightarrow> store (xs @ ys) i src = xs @ src @ drop (length src) ys"
  by (simp add: store_def)

lemma header_encode_eq:
  assumes "headerSize \<le> length h"
  shows "header_encode h len version t = Some (wire_header len version t @ drop headerSize h)"
proof -
  have len: "8 \<le> length h" using assms by (simp add: headerSize_def)
  have "put_at h 0 (be_put len) = Some (be_put len @ drop 4 h)" using len by (simp add: put_at_def store_def)
  moreover have "put_at (be_put len @ drop 4 h) 4 (be_put magicNumber) = Some ((be_put len @ be_put magicNumber) @ drop 6 h)"
    using len by (simp add: put_at_def)
  moreover have "put_at ((be_put len @ be_put magicNumber) @ drop 6 h) 6 [version] = Some ((be_put len @ be_put magicNumber @ [version]) @ drop 7 h)"
    using len by (simp add: put_at_def store_def)
  moreover have "put_at ((be_put len @ be_put magicNumber @ [version]) @ drop 7 h) 7 [t] = Some (wire_header len version t @ drop headerSize h)"
    using len by (simp add: put_at_def store_def wire_header_def headerSize_def)
  ultimately show ?thesis by (simp add: header_encode_def)
qed

lemma header_fields [simp]:
  "hdr_Length (wire_header len version t @ rest) = Some len" "hdr_Magic (wire_header len version t @ rest) = Some magicNumber"
  "hdr_Version (wire_header len version t @ rest) = Some version" "hdr_MsgType (wire_header len version t @ rest) = Some t"
proof -
  have p: "be_get (be_put w) = Some w" if "LENGTH('a) = 8 * k" for w :: "'a::len word" and k
    using be_get_put [OF that, of w "[]"] by simp
  show "hdr_Length (wire_header len version t @ rest) = Some len"
    using p [of 4 len] by (simp add: hdr_Length_def sub_def load_def wire_header_def)
  show "hdr_Magic (wire_header len version t @ rest) = Some magicNumber"
    using p [of 2 magicNumber] by (simp add: hdr_Magic_def sub_def load_def wire_header_def)
  show "hdr_Version (wire_header len version t @ rest) = Some version" "hdr_MsgType (wire_header len version t @ rest) = Some t"
    by (simp_all add: hdr_Version_def hdr_MsgType_def wire_header_def nth_append)
qed

lemmas header_fields_exact [simp] = header_fields [where rest = "[]", simplified]

lemma fallbackDataEvent_eq:
  assumes "length f = headerSize + 8"
  shows "fallbackDataEvent_encode f n version seqID status =
    Some (wire_header (word_of_int n) version typeFallbackData @ be_put seqID @ be_put status)"
proof -
  have len: "length f = 16" using assms by (simp add: headerSize_def)
  let ?h = "wire_header (word_of_int n) version typeFallbackData"
  have e: "header_encode f (word_of_int n) version typeFallbackData = Some (?h @ drop 8 f)"
    using header_encode_eq [of f] len by (simp add: headerSize_def)
  have l: "length ?h = 8" by (simp add: headerSize_def)
  have "fallbackDataEvent_encode f n version seqID status = do {
      f4 \<leftarrow> header_encode f (word_of_int n) version typeFallbackData;
      f5 \<leftarrow> put_at f4 8 (be_put seqID);
      put_at f5 12 (be_put status) }"
    by (simp add: fallbackDataEvent_encode_def header_encode_def)
  also have "\<dots> = Some (?h @ be_put seqID @ be_put status)"
    using len l by (simp add: e put_at_def store_def)
  finally show ?thesis .
qed

subsection \<open>Properties\<close>

text \<open>
  C33. The event header survives the wire. Encoding into a buffer of at least eight bytes
  succeeds, changes only its first eight bytes, and the decoders give back the length, the
  magic number, the version and the type that were encoded.
\<close>

theorem header_roundtrip:
  assumes "headerSize \<le> length h"
  shows "\<exists>h'. header_encode h len version t = Some h' \<and> length h' = length h \<and> drop headerSize h' = drop headerSize h \<and>
    hdr_Length h' = Some len \<and> hdr_Magic h' = Some magicNumber \<and> hdr_Version h' = Some version \<and> hdr_MsgType h' = Some t"
  using header_encode_eq [OF assms, of len version t] assms by simp

theorem header_roundtrip_witness:
  "\<exists>h'. header_encode (replicate 10 0) 20 3 typePolling = Some h' \<and> drop headerSize h' = [0, 0] \<and> hdr_Length h' = Some 20 \<and>
    hdr_Version h' = Some 3 \<and> hdr_MsgType h' = Some typePolling"
proof -
  have "headerSize \<le> length (replicate 10 (0 :: u8))" "drop headerSize (replicate 10 (0 :: u8)) = [0, 0]"
    by (simp_all add: headerSize_def numeral_eq_Suc)
  then show ?thesis using header_roundtrip [of "replicate 10 0" 20 3 typePolling] by auto
qed

text \<open>
  \<^verbatim>\<open>checkEventValid\<close> accepts exactly the headers a peer may send: on every eight bytes
  or more it answers without a panic, with \<^verbatim>\<open>ErrInvalidVersion\<close> when the magic number is
  wrong or the version zero, otherwise with \<^verbatim>\<open>ErrInvalidMsgType\<close> when the type is above the
  last event type, and otherwise with no error.
\<close>

theorem checkEventValid_spec:
  assumes "headerSize \<le> length h"
  shows "checkEventValid h = Some (
    if hdr_Magic h \<noteq> Some magicNumber \<or> h ! 6 = 0 then Some ErrInvalidVersion
    else if typeHotRestartAck < h ! 7 then Some ErrInvalidMsgType else None)"
proof -
  have len: "8 \<le> length h" using assms by (simp add: headerSize_def)
  obtain g where g: "hdr_Magic h = Some g" using len by (simp add: hdr_Magic_def sub_def be_get_def)
  show ?thesis using len by (simp add: checkEventValid_def g hdr_Version_def hdr_MsgType_def event_types)
qed

theorem checkEventValid_spec_witness:
  "checkEventValid (wire_header 8 2 typePolling) = Some None \<and> checkEventValid (wire_header 8 2 10) = Some (Some ErrInvalidMsgType) \<and>
    checkEventValid (wire_header 8 0 typePolling) = Some (Some ErrInvalidVersion)"
proof -
  have i: "wire_header a v t ! 6 = v" "wire_header a v t ! 7 = t" for a v t by (simp_all add: wire_header_def nth_append)
  show ?thesis using checkEventValid_spec [of "wire_header 8 2 typePolling"] checkEventValid_spec [of "wire_header 8 2 10"]
    checkEventValid_spec [of "wire_header 8 0 typePolling"] by (simp add: i event_types)
qed

end
