(* ===== verification/Session_Config.thy ===== *)
theory Session_Config
  imports Buffer_Manager Os_Interface
begin

text \<open>
  The configuration of a session, \<^verbatim>\<open>config.go\<close>: the defaults and the verification that
  \<^verbatim>\<open>newSession\<close> makes before anything is created. Durations are in milliseconds; the log
  destination, the monitor and the callback are not part of the record, since
  no decision depends on them here.
\<close>

subsection \<open>Constants\<close>

definition defaultQueueCap :: u32 where [consts_defs]: "defaultQueueCap = 8192"
definition defaultShareMemoryCap :: u32 where [consts_defs]: "defaultShareMemoryCap = 32 * 1024 * 1024"
definition sessionRebuildInterval :: int where [consts_defs]: "sessionRebuildInterval = 60000"

subsection \<open>The configuration and its verification\<close>

record Config =
  ConnectionWriteTimeout :: int
  InitializeTimeout :: int
  QueueCap :: u32
  QueuePath :: string
  ShareMemoryBufferCap :: u32
  ShareMemoryPathPrefix :: string
  BufferSliceSizes :: "sizePercentPair list"
  cfg_MemMapType :: memMapType
  rebuildInterval :: int

definition DefaultConfig :: Config where
  "DefaultConfig = \<lparr>
     ConnectionWriteTimeout = 10000,
     InitializeTimeout = 1000,
     QueueCap = defaultQueueCap,
     QueuePath = ''/dev/shm/shmipc_queue'',
     ShareMemoryBufferCap = defaultShareMemoryCap,
     ShareMemoryPathPrefix = ''/dev/shm/shmipc'',
     BufferSliceSizes = [
       \<lparr>sp_Size = 8192 - word_of_nat bufferHeaderSize, sp_Percent = 50\<rparr>,
       \<lparr>sp_Size = 32 * 1024 - word_of_nat bufferHeaderSize, sp_Percent = 30\<rparr>,
       \<lparr>sp_Size = 128 * 1024 - word_of_nat bufferHeaderSize, sp_Percent = 20\<rparr>],
     cfg_MemMapType = MemMapTypeDevShmFile,
     rebuildInterval = sessionRebuildInterval\<rparr>"

text \<open>The loop over the sizes, with the sum of the percentages so far.\<close>

fun verify_sizes :: "os_env \<Rightarrow> u32 \<Rightarrow> sizePercentPair list \<Rightarrow> int \<Rightarrow> go_error + int" where
  "verify_sizes os cap [] acc = Inr acc"
| "verify_sizes os cap (p # ps) acc =
     (let acc = acc + uint (sp_Percent p) in
      if sp_Size p > cap then Inl (ErrMsg ''BufferSliceSizes's Size couldn't greater than ShareMemoryBufferCap'')
      else if isArmArch os \<and> sp_Size p mod 4 \<noteq> 0 then Inl (ErrMsg ''the SizePercentPair.Size must be a multiple of 4'')
      else verify_sizes os cap ps acc)"

definition VerifyConfig :: "os_env \<Rightarrow> Config \<Rightarrow> go_error option" where
  "VerifyConfig os config =
     (if ShareMemoryBufferCap config < push_bit 20 1 then Some (ErrMsg ''share memory size is too small'')
      else if length (BufferSliceSizes config) = 0 then Some (ErrMsg ''BufferSliceSizes could not be nil'')
      else (case verify_sizes os (ShareMemoryBufferCap config) (BufferSliceSizes config) 0 of
        Inl e \<Rightarrow> Some e
      | Inr acc \<Rightarrow>
          if acc \<noteq> 100 then Some (ErrMsg ''the sum of BufferSliceSizes's Percent should be 100'')
          else if isArmArch os \<and> QueueCap config mod 8 \<noteq> 0 then Some (ErrMsg ''the QueueCap must be a multiple of 8'')
          else if ShareMemoryPathPrefix config = '''' \<or> QueuePath config = '''' then Some (ErrMsg ''buffer path or queue path could not be nil'')
          else if os_GOOS os \<noteq> ''linux'' then Some ErrOSNonSupported
          else if os_GOARCH os \<noteq> ''amd64'' \<and> os_GOARCH os \<noteq> ''arm64'' then Some ErrArchNonSupported
          else None))"

subsection \<open>What a verified configuration guarantees\<close>

lemma verify_sizes_spec:
  "verify_sizes os cap ps s = Inr t \<longleftrightarrow> t = s + (\<Sum>p \<leftarrow> ps. uint (sp_Percent p)) \<and>
     (\<forall>p \<in> set ps. sp_Size p \<le> cap \<and> (isArmArch os \<longrightarrow> sp_Size p mod 4 = 0))"
  by (induction ps arbitrary: s) (auto simp: Let_def not_less algebra_simps)

lemma percent_le_sum: "p \<in> set ps \<Longrightarrow> uint (sp_Percent p) \<le> (\<Sum>p \<leftarrow> ps. uint (sp_Percent p))"
  by (rule member_le_sum_list) auto

lemma VerifyConfig_None:
  "VerifyConfig os c = None \<longleftrightarrow>
     2 ^ 20 \<le> unat (ShareMemoryBufferCap c) \<and> BufferSliceSizes c \<noteq> [] \<and>
     (\<forall>p \<in> set (BufferSliceSizes c). sp_Size p \<le> ShareMemoryBufferCap c) \<and>
     (\<Sum>p \<leftarrow> BufferSliceSizes c. uint (sp_Percent p)) = 100 \<and>
     (isArmArch os \<longrightarrow> (\<forall>p \<in> set (BufferSliceSizes c). sp_Size p mod 4 = 0) \<and> QueueCap c mod 8 = 0) \<and>
     ShareMemoryPathPrefix c \<noteq> '''' \<and> QueuePath c \<noteq> '''' \<and>
     os_GOOS os = ''linux'' \<and> os_GOARCH os \<in> {''amd64'', ''arm64''}"
proof -
  have cap: "ShareMemoryBufferCap c < push_bit 20 1 \<longleftrightarrow> \<not> 2 ^ 20 \<le> unat (ShareMemoryBufferCap c)"
    by (simp add: word_less_nat_alt not_le)
  show ?thesis
  proof (cases "verify_sizes os (ShareMemoryBufferCap c) (BufferSliceSizes c) 0")
    case (Inl e)
    then have "\<not> (\<exists>t. verify_sizes os (ShareMemoryBufferCap c) (BufferSliceSizes c) 0 = Inr t)" by simp
    then have "\<not> (\<forall>p \<in> set (BufferSliceSizes c). sp_Size p \<le> ShareMemoryBufferCap c \<and> (isArmArch os \<longrightarrow> sp_Size p mod 4 = 0))"
      unfolding verify_sizes_spec by blast
    with Inl show ?thesis by (auto simp: VerifyConfig_def)
  next
    case (Inr t)
    note s = Inr [unfolded verify_sizes_spec]
    show ?thesis unfolding VerifyConfig_def cap Inr using s by auto
  qed
qed

text \<open>
  C34. A configuration passes \<^verbatim>\<open>VerifyConfig\<close> exactly when the shared memory has at least
  one megabyte, there is a buffer size, no buffer size exceeds the shared memory, the
  percentages add up to one hundred, the sizes and the queue capacity are aligned where the
  processor requires it, both paths are given, and the platform is supported.
\<close>

theorem VerifyConfig_iff:
  "VerifyConfig os c = None \<longleftrightarrow>
     2 ^ 20 \<le> unat (ShareMemoryBufferCap c) \<and> BufferSliceSizes c \<noteq> [] \<and>
     (\<forall>p \<in> set (BufferSliceSizes c). sp_Size p \<le> ShareMemoryBufferCap c) \<and>
     (\<Sum>p \<leftarrow> BufferSliceSizes c. uint (sp_Percent p)) = 100 \<and>
     (isArmArch os \<longrightarrow> (\<forall>p \<in> set (BufferSliceSizes c). sp_Size p mod 4 = 0) \<and> QueueCap c mod 8 = 0) \<and>
     ShareMemoryPathPrefix c \<noteq> '''' \<and> QueuePath c \<noteq> '''' \<and>
     os_GOOS os = ''linux'' \<and> os_GOARCH os \<in> {''amd64'', ''arm64''}"
  by (rule VerifyConfig_None)

text \<open>
  The default configuration works on every supported platform: it passes
  \<^verbatim>\<open>VerifyConfig\<close>, and \<^verbatim>\<open>createBufferManager\<close> succeeds with its buffer sizes on a mapping of
  the default capacity.
\<close>

theorem default_config_works:
  assumes "os_GOOS os = ''linux''" and "os_GOARCH os \<in> {''amd64'', ''arm64''}"
    and "length mem = unat (ShareMemoryBufferCap DefaultConfig)"
  shows "VerifyConfig os DefaultConfig = None \<and>
    (\<exists>bm m. createBufferManager (BufferSliceSizes DefaultConfig) path mem 0 = Some (Inr (bm, m)) \<and> length m = length mem)"
proof
  show "VerifyConfig os DefaultConfig = None"
    unfolding VerifyConfig_None using assms(1,2) by (simp add: DefaultConfig_def consts_defs bufferHeaderSize_def)
  let ?ps = "BufferSliceSizes DefaultConfig"
  have n: "length mem = 33554432" using assms(3) by (simp add: DefaultConfig_def consts_defs)
  have l: "length ?ps = 3" by (simp add: DefaultConfig_def)
  have p: "?ps \<noteq> []" "length ?ps < 2 ^ 16" "8 + 36 * length ?ps \<le> length mem" "length mem < 2 ^ 32"
    using l n by auto
  have "pairs_ok (length mem - 8 - 36 * length ?ps) ?ps"
    unfolding n l by (simp add: pairs_ok_def pair_num_def DefaultConfig_def bufferHeaderSize_def)
  from createBufferManager_ok [OF p this] show "\<exists>bm m. createBufferManager ?ps path mem 0 = Some (Inr (bm, m)) \<and> length m = length mem"
    by blast
qed

definition config_os :: os_env where
  "config_os = \<lparr>os_GOOS = ''linux'', os_GOARCH = ''amd64'', os_Stat = \<lambda>_. Inl False, os_Remove = \<lambda>_. None, os_Create = \<lambda>_. None,
     os_Open = \<lambda>_. None, os_Truncate = \<lambda>_. None, os_Mmap = \<lambda>n. Inr (replicate n 0), os_MemfdCreate = \<lambda>_. Inr 3, os_Fstat = \<lambda>_. Inr 0,
     os_DiskFree = None\<rparr>"

theorem default_config_works_witness:
  "VerifyConfig config_os DefaultConfig = None \<and>
    (\<exists>bm m. createBufferManager (BufferSliceSizes DefaultConfig) ''p'' (replicate (unat (ShareMemoryBufferCap DefaultConfig)) 0) 0 = Some (Inr (bm, m)))"
  using default_config_works [of config_os "replicate (unat (ShareMemoryBufferCap DefaultConfig)) 0" "''p''"]
  by (auto simp: config_os_def)

theorem VerifyConfig_iff_witness:
  "VerifyConfig config_os (DefaultConfig\<lparr>QueueCap := 9\<rparr>) = None \<and> VerifyConfig config_os (DefaultConfig\<lparr>QueuePath := ''''\<rparr>) \<noteq> None"
  using VerifyConfig_iff [of config_os "DefaultConfig\<lparr>QueueCap := 9\<rparr>"] VerifyConfig_iff [of config_os "DefaultConfig\<lparr>QueuePath := ''''\<rparr>"]
  by (simp add: DefaultConfig_def consts_defs config_os_def isArmArch_def bufferHeaderSize_def)

text \<open>
  Two entries with the same size pass the verification, although \<^verbatim>\<open>recycleBuffer\<close> returns
  a buffer to the first list of its capacity.
\<close>

lemma duplicate_sizes_accepted:
  "VerifyConfig config_os (DefaultConfig\<lparr>BufferSliceSizes :=
     [\<lparr>sp_Size = 8172, sp_Percent = 50\<rparr>, \<lparr>sp_Size = 8172, sp_Percent = 50\<rparr>]\<rparr>) = None"
  unfolding VerifyConfig_None by (simp add: DefaultConfig_def consts_defs config_os_def isArmArch_def)

end
