(* ===== verification/Session_State.thy ===== *)
theory Session_State
  imports Protocol_Event Linked_Read Io_Queue
begin

text \<open>
  The state of a session and of its streams, \<^verbatim>\<open>session.go\<close> and \<^verbatim>\<open>stream.go\<close>, and the
  operations of the session that do not look into a stream: sending over the connection, waking
  the peer, the circuit breaker and the first half of \<^verbatim>\<open>Close\<close>.

  A world holds one session, its stream objects by address, and the two mappings it shares with
  the peer, the buffers and the queues. An operation returns the new world; \<open>None\<close> is a
  panic, or an operation that cannot proceed (a blocked channel or wait group). User callbacks
  are recorded in a trace. Tasks given to \<^verbatim>\<open>dispatcher.post\<close> are kept in a list, in the
  order they were posted. The counters of \<^verbatim>\<open>stats.go\<close> and the log are left out.
\<close>

subsection \<open>Streams and sessions\<close>

type_synonym sptr = nat

definition streamOpened :: u32 where [consts_defs]: "streamOpened = 0"
definition streamClosed :: u32 where [consts_defs]: "streamClosed = 1"
definition streamHalfClosed :: u32 where [consts_defs]: "streamHalfClosed = 2"

record bufferSliceWrapper =
  fallbackSlice :: "bufferSlice option"
  wr_offset :: u32

record Stream =
  st_id :: u32
  st_state :: u32
  st_pool :: "nat option"
  recvBuf :: linkedBuffer
  sendBuf :: linkedBuffer
  unread :: "bufferSliceWrapper list"
  recvNotifyCh :: bool
  closeNotifyCh :: bool
  readDeadline :: "int option"
  writeDeadline :: "int option"
  inFallbackState :: bool
  st_callback :: bool
  callbackInProcess :: bool
  asyncGoroutineWg :: nat
  callbackCloseState :: bool

datatype cb_event = OnNewStream sptr | OnShutdown go_error | OnLocalClose sptr | OnRemoteClose sptr

datatype task = CloseTask | HotRestartTask u64

datatype sessionState = defaultState | hotRestartState | hotRestartDoneState

record sendReady =
  sr_Hdr :: "bytes option"
  sr_Body :: "bytes option"

record Session =
  nextStreamID :: u32
  eventConn :: "bytes \<Rightarrow> go_error option"
  eventOut :: bytes
  streams :: "(u32 \<times> sptr) list option"
  acceptCh :: "sptr list"
  sendCh :: "sendReady list"
  notifyContinueWriteCh :: bool
  shutdown :: bool
  shutdownErr :: "go_error option"
  shutdownCh :: bool
  isClient :: bool
  handshakeDone :: bool
  unhealthy :: bool
  writing :: bool
  bufferManager_of :: "bufferManager option"
  queueManager_of :: "queueManager option"
  communicationVersion :: u8
  ss_name :: string
  ss_state :: sessionState
  sessionID :: int
  epochID :: u64
  randID :: u64
  listenCallback :: bool
  debugMode :: bool
  posted :: "task list"
  cb_trace :: "cb_event list"

text \<open>The part of a listener that its sessions touch.\<close>

record listenerHot =
  lh_epoch :: u64
  hotRestartAckCount :: int

record world =
  ses :: Session
  listener_of :: "listenerHot option"
  objs :: "sptr \<Rightarrow> Stream option"
  nobj :: sptr
  bmem :: bytes
  qmem :: bytes

definition upd_ses :: "(Session \<Rightarrow> Session) \<Rightarrow> world \<Rightarrow> world" where
  "upd_ses f w = w\<lparr>ses := f (ses w)\<rparr>"

definition upd_obj :: "sptr \<Rightarrow> (Stream \<Rightarrow> Stream) \<Rightarrow> world \<Rightarrow> world" where
  "upd_obj p f w = w\<lparr>objs := (objs w)(p := map_option f (objs w p))\<rparr>"

definition call_back :: "cb_event \<Rightarrow> world \<Rightarrow> world" where
  "call_back e = upd_ses (\<lambda>s. s\<lparr>cb_trace := cb_trace s @ [e]\<rparr>)"

text \<open>The map of streams; reading a nil map gives nothing, writing it panics.\<close>

definition streams_get :: "u32 \<Rightarrow> world \<Rightarrow> sptr option" where
  "streams_get i w = (case streams (ses w) of None \<Rightarrow> None | Some xs \<Rightarrow> map_of xs i)"

definition streams_put :: "u32 \<Rightarrow> sptr \<Rightarrow> world \<Rightarrow> world option" where
  "streams_put i p w = (case streams (ses w) of None \<Rightarrow> None
     | Some xs \<Rightarrow> Some (upd_ses (\<lambda>s. s\<lparr>streams := Some ((i, p) # filter (\<lambda>x. fst x \<noteq> i) xs)\<rparr>) w))"

definition streams_list :: "world \<Rightarrow> sptr list" where
  "streams_list w = (case streams (ses w) of None \<Rightarrow> [] | Some xs \<Rightarrow> map snd xs)"

definition newStream :: "u32 \<Rightarrow> world \<Rightarrow> sptr \<times> world" where
  "newStream i w = (nobj w, w\<lparr>nobj := nobj w + 1, objs := (objs w)(nobj w \<mapsto>
     \<lparr>st_id = i, st_state = streamOpened, st_pool = None, recvBuf = newEmptyLinkedBuffer, sendBuf = newEmptyLinkedBuffer,
      unread = [], recvNotifyCh = False, closeNotifyCh = False, readDeadline = None, writeDeadline = None, inFallbackState = False,
      st_callback = False, callbackInProcess = False, asyncGoroutineWg = 0, callbackCloseState = False\<rparr>)\<rparr>)"

definition safeCloseNotify :: "sptr \<Rightarrow> world \<Rightarrow> world" where
  "safeCloseNotify p = upd_obj p (\<lambda>s. s\<lparr>closeNotifyCh := True\<rparr>)"

definition onStreamClose :: "u32 \<Rightarrow> world \<Rightarrow> world" where
  "onStreamClose i = upd_ses (\<lambda>s. s\<lparr>streams := map_option (filter (\<lambda>x. fst x \<noteq> i)) (streams s)\<rparr>)"

subsection \<open>Queries\<close>

definition IsClosed :: "world \<Rightarrow> bool" where
  "IsClosed w = shutdown (ses w)"

definition IsHealthy :: "world \<Rightarrow> bool" where
  "IsHealthy w = (\<not> unhealthy (ses w))"

definition GetActiveStreamCount :: "world \<Rightarrow> nat" where
  "GetActiveStreamCount w = length (streams_list w)"

subsection \<open>Closing a session, the part that runs at once\<close>

definition ses_Close :: "world \<Rightarrow> world" where
  "ses_Close w =
     (if shutdown (ses w) then w
      else
        let err = (case shutdownErr (ses w) of None \<Rightarrow> ErrSessionShutdown | Some e \<Rightarrow> e);
            w1 = upd_ses (\<lambda>s. s\<lparr>shutdown := True, shutdownErr := Some err\<rparr>) w;
            w2 = (if listenCallback (ses w1) then call_back (OnShutdown err) w1 else w1);
            w3 = fold safeCloseNotify (streams_list w2) w2
        in upd_ses (\<lambda>s. s\<lparr>shutdownCh := True, posted := posted s @ [CloseTask]\<rparr>) w3)"

definition exitErr :: "go_error \<Rightarrow> world \<Rightarrow> world" where
  "exitErr err w = ses_Close (upd_ses (\<lambda>s. s\<lparr>shutdownErr := (if shutdownErr s = None then Some err else shutdownErr s)\<rparr>) w)"

definition onRemoteClose :: "world \<Rightarrow> world" where
  "onRemoteClose w = exitErr (ErrMsg ''connection was reset by peer'') w"

subsection \<open>Sending over the connection\<close>

text \<open>The error channel of a waiting sender receives what the first component says.\<close>

definition writeEventData :: "bytes \<Rightarrow> world \<Rightarrow> go_error option \<times> world" where
  "writeEventData data w = (case eventConn (ses w) data of
     Some err \<Rightarrow> (Some err, exitErr err w)
   | None \<Rightarrow> (None, upd_ses (\<lambda>s. s\<lparr>eventOut := eventOut s @ data\<rparr>) w))"

text \<open>One round of the send goroutine: what the waiting sender is told, first error first.\<close>

definition send_step :: "world \<Rightarrow> (go_error option \<times> world) option" where
  "send_step w = (case sendCh (ses w) of
     [] \<Rightarrow> None
   | ready # rest \<Rightarrow>
       if writing (ses w) then None
       else
         let w1 = upd_ses (\<lambda>s. s\<lparr>sendCh := rest, writing := True\<rparr>) w;
             (e1, w2) = (case sr_Hdr ready of None \<Rightarrow> (None, w1) | Some h \<Rightarrow> writeEventData h w1);
             (e2, w3) = (case sr_Body ready of None \<Rightarrow> (None, w2) | Some b \<Rightarrow> writeEventData b w2)
         in Some (case e1 of None \<Rightarrow> e2 | Some e \<Rightarrow> Some e, upd_ses (\<lambda>s. s\<lparr>writing := False\<rparr>) w3))"

text \<open>
  How the two \<^verbatim>\<open>select\<close> statements of \<^verbatim>\<open>waitForSendErr\<close> come out: the send channel stays full, the
  session shuts down before or after the data has been queued, no answer arrives in
  time, or the send goroutine answers.
\<close>

datatype send_outcome = ShutdownFirst | FullTimeout | Answered "go_error option" | ShutdownWaiting | AnswerTimeout

definition waitForSend :: "send_outcome \<Rightarrow> bytes option \<Rightarrow> bytes option \<Rightarrow> world \<Rightarrow> go_error option \<times> world" where
  "waitForSend r hdr body w =
     (let w1 = upd_ses (\<lambda>s. s\<lparr>sendCh := sendCh s @ [\<lparr>sr_Hdr = hdr, sr_Body = body\<rparr>]\<rparr>) w
      in case r of
           ShutdownFirst \<Rightarrow> (shutdownErr (ses w), w)
         | FullTimeout \<Rightarrow> (Some ErrConnectionWriteTimeout, w)
         | Answered e \<Rightarrow> (e, w1)
         | ShutdownWaiting \<Rightarrow> (shutdownErr (ses w1), w1)
         | AnswerTimeout \<Rightarrow> (Some ErrConnectionWriteTimeout, w1))"

text \<open>The shared end of \<^verbatim>\<open>wakeUpPeer\<close> and \<^verbatim>\<open>hotRestart\<close>: write at once, or queue the data.\<close>

definition write_or_queue :: "bytes \<Rightarrow> world \<Rightarrow> world" where
  "write_or_queue data w =
     (if \<not> writing (ses w) then
        let w1 = snd (writeEventData data (upd_ses (\<lambda>s. s\<lparr>writing := True\<rparr>) w))
        in upd_ses (\<lambda>s. s\<lparr>writing := False, notifyContinueWriteCh := True\<rparr>) w1
      else upd_ses (\<lambda>s. s\<lparr>sendCh := sendCh s @ [\<lparr>sr_Hdr = None, sr_Body = Some data\<rparr>]\<rparr>) w)"

definition wakeUpPeer :: "world \<Rightarrow> (go_error option \<times> world) option" where
  "wakeUpPeer w = do {
     qm \<leftarrow> queueManager_of (ses w);
     (first, q) \<leftarrow> markWorking (sendQueue qm) (qmem w);
     let w1 = w\<lparr>qmem := q\<rparr>;
     if \<not> first then Some (None, w1)
     else do {
       ev \<leftarrow> pollingEventWithVersion (communicationVersion (ses w1));
       Some (None, write_or_queue ev w1)
     }
   }"

definition hotRestart :: "u64 \<Rightarrow> u8 \<Rightarrow> world \<Rightarrow> (go_error option \<times> world) option" where
  "hotRestart epoch event w =
     (if event \<noteq> typeHotRestart \<and> event \<noteq> typeHotRestartAck then Some (Some (ErrMsg ''hotRestart invalid event type''), w)
      else do {
        data \<leftarrow> put_at (replicate (headerSize + 8) 0) headerSize (be_put epoch);
        data \<leftarrow> header_encode data (word_of_nat (length data)) (communicationVersion (ses w)) event;
        Some (None, write_or_queue data w)
      })"

definition openCircuitBreaker :: "world \<Rightarrow> world" where
  "openCircuitBreaker w = (if debugMode (ses w) then w else upd_ses (\<lambda>s. s\<lparr>unhealthy := True\<rparr>) w)"

text \<open>The timer that \<^verbatim>\<open>openCircuitBreaker\<close> starts fires after thirty seconds.\<close>

definition circuitBreakerTimer :: "world \<Rightarrow> world" where
  "circuitBreakerTimer = upd_ses (\<lambda>s. s\<lparr>unhealthy := False\<rparr>)"

lemma upd_ses_sel [simp]:
  "bmem (upd_ses f w) = bmem w" "qmem (upd_ses f w) = qmem w" "objs (upd_ses f w) = objs w" "nobj (upd_ses f w) = nobj w"
  "ses (upd_ses f w) = f (ses w)" "listener_of (upd_ses f w) = listener_of w"
  by (simp_all add: upd_ses_def)

end
