(* ===== verification/Stream_Ops.thy ===== *)
theory Stream_Ops
  imports Session_State
begin

text \<open>
  The operations of a stream, \<^verbatim>\<open>stream.go\<close>. A stream is named by its address in the world.
  Where the code waits, the argument says how the wait comes out: a \<open>wakeup\<close> is what
  other goroutines do to the world while the reader is blocked, followed by the channel that
  fires.
\<close>

definition with_obj :: "sptr \<Rightarrow> world \<Rightarrow> (Stream \<Rightarrow> 'a option) \<Rightarrow> 'a option" where
  "with_obj p w f = (case objs w p of None \<Rightarrow> None | Some s \<Rightarrow> f s)"

definition getStreamState :: "sptr \<Rightarrow> world \<Rightarrow> u32 option" where
  "getStreamState p w = map_option st_state (objs w p)"

definition IsOpen :: "sptr \<Rightarrow> world \<Rightarrow> bool option" where
  "IsOpen p w = map_option (\<lambda>s. st_state s = streamOpened) (objs w p)"

definition SetCallbacks :: "sptr \<Rightarrow> world \<Rightarrow> (go_error option \<times> world) option" where
  "SetCallbacks p w = with_obj p w (\<lambda>s.
     if st_callback s then Some (Some ErrStreamCallbackHadExisted, w)
     else Some (None, upd_obj p (\<lambda>s. s\<lparr>st_callback := True, callbackInProcess := False\<rparr>) w))"

definition SetDeadline :: "sptr \<Rightarrow> int option \<Rightarrow> world \<Rightarrow> world" where
  "SetDeadline p t = upd_obj p (\<lambda>s. s\<lparr>readDeadline := t, writeDeadline := t\<rparr>)"

definition SetReadDeadline :: "sptr \<Rightarrow> int option \<Rightarrow> world \<Rightarrow> world" where
  "SetReadDeadline p t = upd_obj p (\<lambda>s. s\<lparr>readDeadline := t\<rparr>)"

definition SetWriteDeadline :: "sptr \<Rightarrow> int option \<Rightarrow> world \<Rightarrow> world" where
  "SetWriteDeadline p t = upd_obj p (\<lambda>s. s\<lparr>writeDeadline := t\<rparr>)"

subsection \<open>Data that has arrived and is not in the read buffer yet\<close>

text \<open>The loop over the chain of slices that starts at \<open>off\<close>.\<close>

partial_function (option) move_chain :: "bufferManager \<Rightarrow> u32 \<Rightarrow> linkedBuffer \<Rightarrow> bytes \<Rightarrow> (linkedBuffer \<times> bytes) option" where
  "move_chain bm off l m = do {
     r \<leftarrow> readBufferSlice m off;
     case r of
       Inl e \<Rightarrow> Some (l, m)
     | Inr s \<Rightarrow> do {
         h \<leftarrow> bufferHeader s;
         if slice_size s = 0 then
           (if slices l = [] then do {
              nxt \<leftarrow> nextBufferOffset m h;
              m1 \<leftarrow> recycleBuffer bm s m;
              move_chain bm nxt l m1
            } else do {
              pre \<leftarrow> bufferHeader (last (slices l));
              more \<leftarrow> hasNext m h;
              if more then do {
                nxt \<leftarrow> nextBufferOffset m h;
                m1 \<leftarrow> linkNext m pre nxt;
                nxt \<leftarrow> nextBufferOffset m1 h;
                m2 \<leftarrow> recycleBuffer bm s m1;
                move_chain bm nxt l m2
              } else do {
                m1 \<leftarrow> clearFlag m pre;
                m2 \<leftarrow> setInUsed m1 pre;
                m3 \<leftarrow> recycleBuffer bm s m2;
                Some (l, m3)
              }
            })
         else do {
           let l1 = appendBufferSlice (Some s) l;
           more \<leftarrow> hasNext m h;
           if \<not> more then Some (l1, m)
           else do {
             nxt \<leftarrow> nextBufferOffset m h;
             move_chain bm nxt l1 m
           }
         }
       }
   }"

text \<open>All that is pending; the flag is set when data came over the connection.\<close>

fun move_unread :: "bufferManager \<Rightarrow> bufferSliceWrapper list \<Rightarrow> bool \<Rightarrow> linkedBuffer \<Rightarrow> bytes \<Rightarrow> (bool \<times> linkedBuffer \<times> bytes) option" where
  "move_unread bm [] fb l m = Some (fb, l, m)"
| "move_unread bm (u # us) fb l m = (case fallbackSlice u of
     Some s \<Rightarrow> move_unread bm us True (appendBufferSlice (Some s) l) m
   | None \<Rightarrow> do { (l1, m1) \<leftarrow> move_chain bm (wr_offset u) l m; move_unread bm us fb l1 m1 })"

definition moveTo :: "sptr \<Rightarrow> world \<Rightarrow> world option" where
  "moveTo p w = with_obj p w (\<lambda>s.
     if unread s = [] then Some w
     else do {
       bm \<leftarrow> bufferManager_of (ses w);
       (fb, l, m) \<leftarrow> move_unread bm (unread s) (inFallbackState s) (recvBuf s) (bmem w);
       Some (upd_obj p (\<lambda>s. s\<lparr>unread := [], inFallbackState := fb, recvBuf := l\<rparr>) (w\<lparr>bmem := m\<rparr>))
     })"

definition pending_add :: "sptr \<Rightarrow> bufferSliceWrapper \<Rightarrow> world \<Rightarrow> world" where
  "pending_add p u = upd_obj p (\<lambda>s. s\<lparr>unread := unread s @ [u]\<rparr>)"

fun clear_unread :: "bufferManager \<Rightarrow> bufferSliceWrapper list \<Rightarrow> bytes \<Rightarrow> bytes option" where
  "clear_unread bm [] m = Some m"
| "clear_unread bm (u # us) m = (case fallbackSlice u of
     Some s \<Rightarrow> clear_unread bm us m
   | None \<Rightarrow> do {
       r \<leftarrow> readBufferSlice m (wr_offset u);
       case r of
         Inl e \<Rightarrow> Some m
       | Inr s \<Rightarrow> do { m1 \<leftarrow> recycleBuffers bm s m; clear_unread bm us m1 }
     })"

definition pending_clear :: "sptr \<Rightarrow> world \<Rightarrow> world option" where
  "pending_clear p w = with_obj p w (\<lambda>s.
     if unread s = [] then Some w
     else do {
       bm \<leftarrow> bufferManager_of (ses w);
       m \<leftarrow> clear_unread bm (unread s) (bmem w);
       Some (upd_obj p (\<lambda>s. s\<lparr>unread := []\<rparr>) (w\<lparr>bmem := m\<rparr>))
     })"

subsection \<open>Waiting for data\<close>

datatype channel = RecvNotify | CloseNotify | Deadline

type_synonym wakeup = "(world \<Rightarrow> world) \<times> channel"

definition recv_len :: "sptr \<Rightarrow> world \<Rightarrow> int option" where
  "recv_len p w = map_option (\<lambda>s. lb_len (recvBuf s)) (objs w p)"

fun read_wait :: "sptr \<Rightarrow> int \<Rightarrow> wakeup list \<Rightarrow> world \<Rightarrow> (go_error option \<times> world) option" where
  "read_wait p minSize [] w = None"
| "read_wait p minSize ((env, ch) # rest) w0 = (let w = env w0 in with_obj p w (\<lambda>s. case ch of
     RecvNotify \<Rightarrow>
       if \<not> recvNotifyCh s then None
       else do {
         w1 \<leftarrow> moveTo p (upd_obj p (\<lambda>s. s\<lparr>recvNotifyCh := False\<rparr>) w);
         n \<leftarrow> recv_len p w1;
         if n \<ge> minSize then Some (None, w1) else read_wait p minSize rest w1
       }
   | CloseNotify \<Rightarrow>
       if \<not> closeNotifyCh s then None
       else do {
         w1 \<leftarrow> moveTo p w;
         n \<leftarrow> recv_len p w1;
         st \<leftarrow> getStreamState p w1;
         Some (if n \<ge> minSize then None else if st = streamHalfClosed then Some ErrEndOfStream else Some ErrStreamClosed, w1)
       }
   | Deadline \<Rightarrow> if readDeadline s = None then None else Some (Some ErrTimeout, w)))"

definition readMore :: "sptr \<Rightarrow> wakeup list \<Rightarrow> int \<Rightarrow> world \<Rightarrow> (go_error option \<times> world) option" where
  "readMore p wakes minSize w = do {
     w1 \<leftarrow> moveTo p w;
     recvLen \<leftarrow> recv_len p w1;
     if recvLen \<ge> minSize then Some (None, w1)
     else do {
       open \<leftarrow> IsOpen p w1;
       if recvLen = 0 \<and> \<not> open then Some (Some ErrEndOfStream, w1)
       else read_wait p minSize wakes w1
     }
   }"

text \<open>
  The read buffer calls \<^verbatim>\<open>readMore\<close> of its stream: the buffer and the memory are taken out of
  the world while an operation of the buffer runs, and put back around the call.
\<close>

definition put_buf :: "sptr \<Rightarrow> world rstate \<Rightarrow> world" where
  "put_buf p x = (case x of (w, l, m) \<Rightarrow> upd_obj p (\<lambda>s. s\<lparr>recvBuf := l\<rparr>) (w\<lparr>bmem := m\<rparr>))"

definition take_buf :: "sptr \<Rightarrow> world \<Rightarrow> world rstate option" where
  "take_buf p w = map_option (\<lambda>s. (w, recvBuf s, bmem w)) (objs w p)"

definition stream_more :: "sptr \<Rightarrow> wakeup list \<Rightarrow> world read_more" where
  "stream_more p wakes n x = do {
     (e, w) \<leftarrow> readMore p wakes n (put_buf p x);
     x' \<leftarrow> take_buf p w;
     Some (e, x')
   }"

definition on_reader :: "sptr \<Rightarrow> (world rstate \<Rightarrow> ('a \<times> world rstate) option) \<Rightarrow> world \<Rightarrow> ('a \<times> world) option" where
  "on_reader p f w = do {
     x \<leftarrow> take_buf p w;
     (a, x') \<leftarrow> f x;
     Some (a, put_buf p x')
   }"

definition stream_ReadBytes :: "sptr \<Rightarrow> wakeup list \<Rightarrow> int \<Rightarrow> world \<Rightarrow> ((go_error + bytes) \<times> world) option" where
  "stream_ReadBytes p wakes n w = do {
     bm \<leftarrow> bufferManager_of (ses w);
     on_reader p (ReadBytes bm (stream_more p wakes) n) w
   }"

text \<open>\<^verbatim>\<open>Read\<close>, that is \<^verbatim>\<open>copyRead\<close>, fills a slice of \<open>n\<close> bytes.\<close>

definition stream_Read :: "sptr \<Rightarrow> wakeup list \<Rightarrow> int \<Rightarrow> world \<Rightarrow> ((go_error + bytes) \<times> world) option" where
  "stream_Read p wakes n w = do {
     bm \<leftarrow> bufferManager_of (ses w);
     on_reader p (lb_read bm (stream_more p wakes) n) w
   }"

subsection \<open>Sending\<close>

definition upd_send :: "sptr \<Rightarrow> linkedBuffer \<times> bytes \<Rightarrow> world \<Rightarrow> world" where
  "upd_send p x w = upd_obj p (\<lambda>s. s\<lparr>sendBuf := fst x\<rparr>) (w\<lparr>bmem := snd x\<rparr>)"

definition recycle_send :: "sptr \<Rightarrow> world \<Rightarrow> world option" where
  "recycle_send p w = with_obj p w (\<lambda>s. do {
     bm \<leftarrow> bufferManager_of (ses w);
     x \<leftarrow> lb_recycle bm (sendBuf s) (bmem w);
     Some (upd_send p x w)
   })"

definition recycle_recv :: "sptr \<Rightarrow> world \<Rightarrow> world option" where
  "recycle_recv p w = with_obj p w (\<lambda>s. do {
     bm \<leftarrow> bufferManager_of (ses w);
     (l, m) \<leftarrow> lb_recycle bm (recvBuf s) (bmem w);
     Some (upd_obj p (\<lambda>s. s\<lparr>recvBuf := l\<rparr>) (w\<lparr>bmem := m\<rparr>))
   })"

definition writeFallback :: "sptr \<Rightarrow> u32 \<Rightarrow> send_outcome \<Rightarrow> world \<Rightarrow> (go_error option \<times> world) option" where
  "writeFallback p streamStatus r w = with_obj p w (\<lambda>s. do {
     event \<leftarrow> fallbackDataEvent_encode (replicate (headerSize + 8) 0) (int (headerSize + 8) + lb_len (sendBuf s))
       (communicationVersion (ses w)) (st_id s) streamStatus;
     underlyingSlices \<leftarrow> underlyingData (sendBuf s) (bmem w);
     let data = event @ concat underlyingSlices;
     w1 \<leftarrow> recycle_send p w;
     Some (waitForSend r None (Some data) (openCircuitBreaker w1))
   })"

definition put_element :: "queueElement \<Rightarrow> world \<Rightarrow> (go_error option \<times> world) option" where
  "put_element e w = do {
     qm \<leftarrow> queueManager_of (ses w);
     (err, q) \<leftarrow> queue_put (sendQueue qm) e (qmem w);
     Some (err, w\<lparr>qmem := q\<rparr>)
   }"

text \<open>The retries of \<^verbatim>\<open>Flush\<close> when the queue is full: what happens while the timer runs, and which
  channel fires.\<close>

datatype retry = RetryTimer | WriteDeadline | StreamClosing

fun put_retry :: "nat \<Rightarrow> sptr \<Rightarrow> queueElement \<Rightarrow> ((world \<Rightarrow> world) \<times> retry) list \<Rightarrow> world \<Rightarrow> (go_error option \<times> world) option" where
  "put_retry 0 p e ws w = Some (Some ErrQueueFull, w)"
| "put_retry (Suc n) p e [] w = None"
| "put_retry (Suc n) p e ((env, ch) # ws) w = with_obj p (env w) (\<lambda>s. case ch of
     RetryTimer \<Rightarrow> do {
       (err, w1) \<leftarrow> put_element e (env w);
       if err = Some ErrQueueFull then put_retry n p e ws w1 else Some (err, w1)
     }
   | WriteDeadline \<Rightarrow> if writeDeadline s = None then None else Some (Some ErrTimeout, env w)
   | StreamClosing \<Rightarrow> if \<not> closeNotifyCh s then None else Some (Some ErrStreamClosed, env w))"

definition clean_send :: "sptr \<Rightarrow> world \<Rightarrow> world" where
  "clean_send p = upd_obj p (\<lambda>s. s\<lparr>sendBuf := lb_clean (sendBuf s)\<rparr>)"

definition Flush :: "sptr \<Rightarrow> ((world \<Rightarrow> world) \<times> retry) list \<Rightarrow> send_outcome \<Rightarrow> world \<Rightarrow> (go_error option \<times> world) option" where
  "Flush p ws r w = with_obj p w (\<lambda>s.
     if lb_len (sendBuf s) = 0 then Some (None, w)
     else if st_state s \<noteq> streamOpened then do { w1 \<leftarrow> recycle_send p w; Some (Some ErrStreamClosed, w1) }
     else do {
       bm \<leftarrow> bufferManager_of (ses w);
       x \<leftarrow> lb_done bm (sendBuf s) (bmem w);
       let w1 = upd_send p x w;
       let fb = (inFallbackState s \<or> \<not> lb_isFromShm (fst x));
       let w1 = upd_obj p (\<lambda>s. s\<lparr>inFallbackState := fb\<rparr>) w1;
       if fb then do {
         (err, w2) \<leftarrow> writeFallback p (st_state s) r w1;
         Some (err, clean_send p w2)
       } else do {
         root \<leftarrow> rootBufOffset (fst x);
         let e = \<lparr>seqID = st_id s, offsetInShmBuf = root, status = st_state s\<rparr>;
         (err, w2) \<leftarrow> put_element e w1;
         (err, w2) \<leftarrow> (if err = Some ErrQueueFull then put_retry 10 p e ws w2 else Some (err, w2));
         case err of
           Some er \<Rightarrow> do { w3 \<leftarrow> recycle_send p w2; Some (Some er, clean_send p w3) }
         | None \<Rightarrow> do { (err, w3) \<leftarrow> wakeUpPeer w2; Some (err, clean_send p w3) }
       }
     })"

text \<open>\<^verbatim>\<open>Write\<close>, that is \<^verbatim>\<open>copyWriteAndFlush\<close>.\<close>

definition stream_WriteBytes :: "sptr \<Rightarrow> bytes \<Rightarrow> world \<Rightarrow> (nat \<times> world) option" where
  "stream_WriteBytes p data w = with_obj p w (\<lambda>s. do {
     bm \<leftarrow> bufferManager_of (ses w);
     (n, x) \<leftarrow> WriteBytes bm data (sendBuf s) (bmem w);
     Some (n, upd_send p x w)
   })"

definition copyWriteAndFlush :: "sptr \<Rightarrow> bytes \<Rightarrow> ((world \<Rightarrow> world) \<times> retry) list \<Rightarrow> send_outcome \<Rightarrow> world \<Rightarrow> (nat \<times> go_error option \<times> world) option" where
  "copyWriteAndFlush p data ws r w =
     (if length data = 0 then Some (0, None, w)
      else do {
        (written, w1) \<leftarrow> stream_WriteBytes p data w;
        (err, w2) \<leftarrow> Flush p ws r w1;
        Some (written, err, w2)
      })"

subsection \<open>Closing and reusing\<close>

definition stream_clean :: "sptr \<Rightarrow> world \<Rightarrow> world option" where
  "stream_clean p w = with_obj p w (\<lambda>s. do {
     w1 \<leftarrow> pending_clear p (onStreamClose (st_id s) w);
     w2 \<leftarrow> recycle_recv p w1;
     recycle_send p w2
   })"

definition stream_close :: "sptr \<Rightarrow> send_outcome \<Rightarrow> world \<Rightarrow> (go_error option \<times> world) option" where
  "stream_close p r w = with_obj p w (\<lambda>s.
     if st_state s = streamClosed then Some (None, w)
     else if st_callback s \<and> asyncGoroutineWg s > 0 then None
     else do {
       w1 \<leftarrow> stream_clean p (upd_obj p (\<lambda>s. s\<lparr>st_state := streamClosed\<rparr>) w);
       if st_state s \<noteq> streamOpened then Some (None, w1)
       else do {
         let w2 = safeCloseNotify p w1;
         let w3 = (if st_callback s then call_back (if IsClosed w2 then OnRemoteClose p else OnLocalClose p) w2 else w2);
         if IsClosed w3 then Some (None, w3)
         else do {
           (err, w4) \<leftarrow> put_element \<lparr>seqID = st_id s, offsetInShmBuf = 0, status = streamClosed\<rparr> w3;
           if err \<noteq> None then do {
             ev \<leftarrow> header_encode (replicate (headerSize + 4) 0) (word_of_nat (headerSize + 4)) (communicationVersion (ses w4)) typeStreamClose;
             ev \<leftarrow> put_at ev headerSize (be_put (st_id s));
             Some (waitForSend r None (Some ev) w4)
           } else wakeUpPeer w4
         }
       }
     })"

definition stream_Close :: "sptr \<Rightarrow> send_outcome \<Rightarrow> world \<Rightarrow> (go_error option \<times> world) option" where
  "stream_Close p r w = with_obj p w (\<lambda>s.
     let w1 = (if st_callback s then upd_obj p (\<lambda>s. s\<lparr>callbackCloseState := True\<rparr>) w else w) in
     if callbackInProcess s
     then Some (None, upd_obj p (\<lambda>s. s\<lparr>st_state := (if st_state s = streamOpened then streamHalfClosed else st_state s)\<rparr>) w1)
     else stream_close p r w1)"

definition halfClose :: "sptr \<Rightarrow> world \<Rightarrow> world option" where
  "halfClose p w = with_obj p w (\<lambda>s.
     if st_state s = streamOpened then
       let w1 = safeCloseNotify p (upd_obj p (\<lambda>s. s\<lparr>st_state := streamHalfClosed\<rparr>) w)
       in Some (if st_callback s then call_back (OnRemoteClose p) w1 else w1)
     else Some w)"

definition stream_reset :: "sptr \<Rightarrow> world \<Rightarrow> (go_error option \<times> world) option" where
  "stream_reset p w = with_obj p w (\<lambda>s.
     if st_state s \<noteq> streamOpened then Some (Some ErrStreamClosed, w)
     else if lb_len (recvBuf s) > 0 then Some (Some (ErrMsg ''stream had unread data''), w)
     else if length (unread s) > 0 then Some (Some (ErrMsg ''stream had unread pending data''), w)
     else Some (None, upd_obj p (\<lambda>s. s\<lparr>readDeadline := None, writeDeadline := None, inFallbackState := False,
       recvNotifyCh := False, st_callback := False\<rparr>) w))"

definition ReleaseReadAndReuse :: "sptr \<Rightarrow> world \<Rightarrow> world option" where
  "ReleaseReadAndReuse p w = with_obj p w (\<lambda>s. do {
     bm \<leftarrow> bufferManager_of (ses w);
     (l, m) \<leftarrow> releasePreviousReadAndReserve bm (recvBuf s) (bmem w);
     let w1 = w\<lparr>bmem := m\<rparr>;
     if lb_len l = 0 \<and> length (slices l) = 1
     then Some (upd_obj p (\<lambda>s. s\<lparr>recvBuf := sendBuf s, sendBuf := l\<rparr>) w1)
     else Some (upd_obj p (\<lambda>s. s\<lparr>recvBuf := l\<rparr>) w1)
   })"

subsection \<open>Arriving data\<close>

text \<open>
  With callbacks set, the first arrival starts a goroutine, whose body is \<open>async_loop\<close> below.
\<close>

definition fillDataToReadBuffer :: "sptr \<Rightarrow> bufferSliceWrapper \<Rightarrow> world \<Rightarrow> (go_error option \<times> world) option" where
  "fillDataToReadBuffer p u w = (let w1 = pending_add p u w in with_obj p w1 (\<lambda>s.
     if st_state s = streamClosed then do {
       w2 \<leftarrow> pending_clear p w1;
       w3 \<leftarrow> recycle_recv p w2;
       Some (None, w3)
     } else
       let w2 = upd_obj p (\<lambda>s. s\<lparr>recvNotifyCh := True\<rparr>) w1
       in Some (None,
            if st_callback s \<and> \<not> callbackInProcess s
            then upd_obj p (\<lambda>s. s\<lparr>callbackInProcess := True, asyncGoroutineWg := asyncGoroutineWg s + 1\<rparr>) w2
            else w2)))"

partial_function (option) data_loop :: "(sptr \<Rightarrow> world \<Rightarrow> world) \<Rightarrow> sptr \<Rightarrow> world \<Rightarrow> world option" where
  "data_loop onData p w = do {
     open \<leftarrow> IsOpen p w;
     n \<leftarrow> recv_len p w;
     if open \<and> n > 0 then do { w1 \<leftarrow> moveTo p (onData p w); data_loop onData p w1 } else Some w
   }"

partial_function (option) async_loop :: "(sptr \<Rightarrow> world \<Rightarrow> world) \<Rightarrow> sptr \<Rightarrow> send_outcome \<Rightarrow> world \<Rightarrow> world option" where
  "async_loop onData p r w = do {
     w1 \<leftarrow> moveTo p w;
     w2 \<leftarrow> data_loop onData p w1;
     let w3 = upd_obj p (\<lambda>s. s\<lparr>callbackInProcess := False\<rparr>) w2;
     s \<leftarrow> objs w3 p;
     if callbackCloseState s then
       map_option snd (stream_close p r (upd_obj p (\<lambda>s. s\<lparr>asyncGoroutineWg := asyncGoroutineWg s - 1\<rparr>) w3))
     else if length (unread s) > 0 \<and> \<not> callbackInProcess s
     then async_loop onData p r (upd_obj p (\<lambda>s. s\<lparr>callbackInProcess := True\<rparr>) w3)
     else Some (upd_obj p (\<lambda>s. s\<lparr>asyncGoroutineWg := asyncGoroutineWg s - 1\<rparr>) w3)
   }"

end
