(* ===== verification/Session_Ops.thy ===== *)
theory Session_Ops
  imports Stream_Ops
begin

text \<open>
  The session around its streams: opening and accepting streams, the events that arrive over
  the connection (\<^verbatim>\<open>protocol_manager.go\<close>), and the second half of closing, which the dispatcher
  runs.
\<close>

subsection \<open>Streams of a session\<close>

text \<open>The registration of a new stream, under the lock of the map.\<close>

definition register_stream :: "u32 \<Rightarrow> world \<Rightarrow> ((go_error + sptr) \<times> world) option" where
  "register_stream i w = (case newStream i w of (p, w1) \<Rightarrow>
     (case streams_get i w1 of
        Some _ \<Rightarrow> Some (Inl ErrStreamsExhausted, w1)
      | None \<Rightarrow> do { w2 \<leftarrow> streams_put i p w1; Some (Inr p, w2) }))"

definition OpenStream :: "world \<Rightarrow> ((go_error + sptr) \<times> world) option" where
  "OpenStream w =
     (if IsClosed w then do { e \<leftarrow> shutdownErr (ses w); Some (Inl e, w) }
      else if \<not> IsHealthy w then Some (Inl ErrSessionUnhealthy, w)
      else
        let i = nextStreamID (ses w) + 1
        in register_stream i (upd_ses (\<lambda>s. s\<lparr>nextStreamID := i\<rparr>) w))"

text \<open>Whether the accept channel or the shutdown channel is taken when both are ready is the
  choice \<open>c\<close>.\<close>

definition AcceptStream :: "bool \<Rightarrow> world \<Rightarrow> ((go_error + sptr) \<times> world) option" where
  "AcceptStream c w = (case acceptCh (ses w) of
     p # ps \<Rightarrow> if shutdownCh (ses w) \<and> c then do { e \<leftarrow> shutdownErr (ses w); Some (Inl e, w) }
               else Some (Inr p, upd_ses (\<lambda>s. s\<lparr>acceptCh := ps\<rparr>) w)
   | [] \<Rightarrow> if shutdownCh (ses w) then do { e \<leftarrow> shutdownErr (ses w); Some (Inl e, w) } else None)"

definition acceptCap :: nat where [consts_defs]: "acceptCap = 1024"

definition getStream :: "u32 \<Rightarrow> u32 \<Rightarrow> world \<Rightarrow> (sptr option \<times> world) option" where
  "getStream i state w = (case streams_get i w of
     Some p \<Rightarrow> Some (Some p, w)
   | None \<Rightarrow>
       if \<not> isClient (ses w) \<and> state = streamOpened then
         (case newStream i w of (p, w1) \<Rightarrow> do {
            w2 \<leftarrow> streams_put i p w1;
            if listenCallback (ses w2) then Some (Some p, call_back (OnNewStream p) w2)
            else if length (acceptCh (ses w2)) < acceptCap then Some (Some p, upd_ses (\<lambda>s. s\<lparr>acceptCh := acceptCh s @ [p]\<rparr>) w2)
            else if shutdownCh (ses w2) then Some (Some p, w2)
            else None
          })
       else Some (None, w))"

definition getStreamById :: "u32 \<Rightarrow> world \<Rightarrow> sptr option" where
  "getStreamById i w = streams_get i w"

definition handleStreamMessage :: "sptr \<Rightarrow> bufferSliceWrapper \<Rightarrow> u32 \<Rightarrow> world \<Rightarrow> (go_error option \<times> world) option" where
  "handleStreamMessage p u state w =
     (if state = streamClosed then do { w1 \<leftarrow> halfClose p w; Some (None, w1) }
      else fillDataToReadBuffer p u w)"

subsection \<open>The handlers\<close>

type_synonym handled = "(int \<times> bool \<times> go_error option) \<times> world"

text \<open>The inner loop of \<^verbatim>\<open>handlePolling\<close>: the last error of a stream, and whether the handler
  returns at once.\<close>

partial_function (option) poll_queue :: "go_error option \<Rightarrow> world \<Rightarrow> ((go_error option \<times> bool) \<times> world) option" where
  "poll_queue retErr w = do {
     qm \<leftarrow> queueManager_of (ses w);
     (r, q) \<leftarrow> queue_pop (recvQueue qm) (qmem w);
     let w1 = w\<lparr>qmem := q\<rparr>;
     case r of
       Inl e \<Rightarrow> Some ((retErr, False), w1)
     | Inr ele \<Rightarrow> do {
         let state = status ele AND 0xff;
         (st, w2) \<leftarrow> getStream (seqID ele) state w1;
         case st of
           None \<Rightarrow>
             if state = streamOpened then do {
               bm \<leftarrow> bufferManager_of (ses w2);
               r \<leftarrow> readBufferSlice (bmem w2) (offsetInShmBuf ele);
               case r of
                 Inl e \<Rightarrow> Some ((Some e, True), w2)
               | Inr s \<Rightarrow> do {
                   m \<leftarrow> recycleBuffers bm s (bmem w2);
                   poll_queue retErr (w2\<lparr>bmem := m\<rparr>)
                 }
             } else poll_queue retErr w2
         | Some p \<Rightarrow> do {
             (err, w3) \<leftarrow> handleStreamMessage p \<lparr>fallbackSlice = None, wr_offset = offsetInShmBuf ele\<rparr> state w2;
             poll_queue err w3
           }
       }
   }"

partial_function (option) poll_loop :: "go_error option \<Rightarrow> world \<Rightarrow> (go_error option \<times> world) option" where
  "poll_loop retErr w = do {
     ((err, stop), w1) \<leftarrow> poll_queue retErr w;
     if stop then Some (err, w1)
     else do {
       qm \<leftarrow> queueManager_of (ses w1);
       (done, q) \<leftarrow> markNotWorking (recvQueue qm) (qmem w1);
       let w2 = w1\<lparr>qmem := q\<rparr>;
       if done then Some (err, w2) else poll_loop err w2
     }
   }"

definition handlePolling :: "bytes \<Rightarrow> bytes \<Rightarrow> world \<Rightarrow> handled option" where
  "handlePolling hdr buf w = do {
     (err, w1) \<leftarrow> poll_loop None w;
     Some ((int headerSize, False, err), w1)
   }"

definition handleFallbackData :: "bytes \<Rightarrow> bytes \<Rightarrow> world \<Rightarrow> handled option" where
  "handleFallbackData hdr buf w = do {
     len \<leftarrow> hdr_Length hdr;
     let eventLen = uint len;
     let payloadLen = eventLen - int headerSize;
     if int (length buf) < payloadLen then Some ((0, True, None), w)
     else if payloadLen < 0 then None
     else do {
       let data = take (nat payloadLen) buf;
       seq \<leftarrow> (do { b \<leftarrow> sub data 0 4; be_get b } :: u32 option);
       st \<leftarrow> (do { b \<leftarrow> sub data 4 8; be_get b } :: u32 option);
       let state = st AND 0xff;
       let w1 = openCircuitBreaker w;
       body \<leftarrow> sub data 8 (length data);
       fs \<leftarrow> newBufferSlice (bmem w1) None (HeapData body) 0 False;
       let fs = fs\<lparr>writeIndex := int (length body)\<rparr>;
       (p, w2) \<leftarrow> getStream seq state w1;
       case p of
         None \<Rightarrow> Some ((eventLen, False, None), w2)
       | Some p \<Rightarrow> do {
           (err, w3) \<leftarrow> handleStreamMessage p \<lparr>fallbackSlice = Some fs, wr_offset = 0\<rparr> state w2;
           Some ((eventLen, False, err), w3)
         }
     }
   }"

definition handleStreamClose :: "bytes \<Rightarrow> bytes \<Rightarrow> world \<Rightarrow> handled option" where
  "handleStreamClose hdr buf w =
     (if length buf < 4 then Some ((0, True, None), w)
      else do {
        i \<leftarrow> be_get (take 4 buf);
        case getStreamById i w of
          None \<Rightarrow> Some ((int headerSize + 4, False, None), w)
        | Some p \<Rightarrow> do { w1 \<leftarrow> halfClose p w; Some ((int headerSize + 4, False, None), w1) }
      })"

definition handleHotRestart :: "bytes \<Rightarrow> bytes \<Rightarrow> world \<Rightarrow> handled option" where
  "handleHotRestart hdr buf w =
     (if length buf < epochIDLen then Some ((0, True, None), w)
      else do {
        epoch \<leftarrow> be_get (take epochIDLen buf);
        Some ((int (headerSize + epochIDLen), False, None), upd_ses (\<lambda>s. s\<lparr>posted := posted s @ [HotRestartTask epoch]\<rparr>) w)
      })"

definition handleHotRestartAck :: "bytes \<Rightarrow> bytes \<Rightarrow> world \<Rightarrow> handled option" where
  "handleHotRestartAck hdr buf w =
     (if length buf < epochIDLen then Some ((0, True, None), w)
      else do {
        epoch \<leftarrow> be_get (take epochIDLen buf);
        li \<leftarrow> listener_of w;
        let w1 = (if epoch = lh_epoch li
          then upd_ses (\<lambda>s. s\<lparr>ss_state := hotRestartDoneState\<rparr>) (w\<lparr>listener_of := Some (li\<lparr>hotRestartAckCount := hotRestartAckCount li - 1\<rparr>)\<rparr>)
          else w);
        Some ((int (headerSize + epochIDLen), False, None), w1)
      })"

text \<open>The table of handlers; an index without a handler or beyond the table is \<open>None\<close>.\<close>

definition protocolHandlers :: "u8 \<Rightarrow> (bytes \<Rightarrow> bytes \<Rightarrow> world \<Rightarrow> handled option) option" where
  "protocolHandlers t =
     (if t = typePolling then Some handlePolling
      else if t = typeStreamClose then Some handleStreamClose
      else if t = typeFallbackData then Some handleFallbackData
      else if t = typeHotRestart then Some handleHotRestart
      else if t = typeHotRestartAck then Some handleHotRestartAck
      else None)"

partial_function (option) handle_events :: "bytes \<Rightarrow> int \<Rightarrow> world \<Rightarrow> ((int \<times> go_error option) \<times> world) option" where
  "handle_events buf consumed w =
     (if consumed < 0 \<or> int (length buf) < consumed then None
      else if int (length buf) - consumed \<ge> int headerSize then do {
        let eventHeader = load buf (nat consumed) headerSize;
        v \<leftarrow> checkEventValid eventHeader;
        if v \<noteq> None then Some ((consumed + int headerSize, Some ErrInvalidMsgType), w)
        else do {
          t \<leftarrow> hdr_MsgType eventHeader;
          case protocolHandlers t of
            None \<Rightarrow> Some ((consumed + int headerSize, Some ErrInvalidMsgType), w)
          | Some f \<Rightarrow> do {
              ((n, stop, err), w1) \<leftarrow> f eventHeader (drop (nat consumed + headerSize) buf) w;
              if err \<noteq> None then Some ((consumed + n, err), w1)
              else if stop then Some ((consumed + n, None), w1)
              else handle_events buf (consumed + n) w1
            }
        }
      } else Some ((consumed, None), w))"

definition handleEvents :: "bytes \<Rightarrow> world \<Rightarrow> ((int \<times> go_error option) \<times> world) option" where
  "handleEvents buf w = handle_events buf 0 w"

text \<open>The number of bytes that the connection may discard, and the new world.\<close>

definition onEventData :: "bytes \<Rightarrow> world \<Rightarrow> (int \<times> world) option" where
  "onEventData buf w =
     (if IsClosed w then Some (0, w)
      else do {
        ((consumed, err), w1) \<leftarrow> handleEvents buf w;
        Some (consumed, case err of None \<Rightarrow> w1 | Some e \<Rightarrow> if IsClosed w1 then w1 else exitErr e w1)
      })"

subsection \<open>The task that closes the session\<close>

fun close_streams :: "sptr list \<Rightarrow> send_outcome \<Rightarrow> world \<Rightarrow> world option" where
  "close_streams [] r w = Some w"
| "close_streams (p # ps) r w = do {
     (e, w1) \<leftarrow> stream_Close p r w;
     s \<leftarrow> objs w1 p;
     if asyncGoroutineWg s > 0 then None else close_streams ps r w1
   }"

text \<open>
  The part of the task that concerns the streams: the connection is closed, so that a write to it fails with \<^verbatim>\<open>EPIPE\<close> from now on, and the streams are
  taken out of the session and closed. What follows, giving back the buffer manager and unmapping the queues, needs the process and is added there.
\<close>

definition EPIPE :: go_error where "EPIPE = ErrMsg ''EPIPE''"

definition close_task :: "send_outcome \<Rightarrow> world \<Rightarrow> world option" where
  "close_task r w = (let ps = streams_list w in close_streams ps r (upd_ses (\<lambda>s. s\<lparr>eventConn := (\<lambda>_. Some EPIPE), streams := None\<rparr>) w))"

end
