(* ===== verification/Stream_Delivery.thy ===== *)
theory Stream_Delivery
  imports Session_Ops
begin

text \<open>
  What a stream delivers. The reader finds the bytes of the messages that have arrived, in their
  order, however they came: as chains of slices in shared memory, or over the connection. A
  source of data is a locale, and the pending data of a stream is one.
\<close>

subsection \<open>Moving arrived data to the read buffer\<close>

text \<open>A message as its sender left it in shared memory: headers written and linked, no slice empty.\<close>

definition published :: "bytes \<Rightarrow> bufferSlice list \<Rightarrow> bool" where
  "published m ss \<longleftrightarrow> ss \<noteq> [] \<and> chain m ss \<and> full ss \<and> (\<forall>s \<in> set ss. isFromShm s \<and> readIndex s = uint (bs_start s))"

lemma append_slice_ok:
  assumes "rbuf ct bm ds L (s # xs) m l" and "0 < slice_size s"
  defines "l' \<equiv> appendBufferSlice (Some s) l"
  shows "rbuf ct bm ds L xs m l'" and "lb_content m l' = lb_content m l @ content m s" and "held_views l \<subseteq> held_views l'"
    and "tight l \<Longrightarrow> tight l'" and "lb_len l' = lb_len l + slice_size s"
proof -
  have sl: "slices l' = slices l @ [s]" "pinnedList l' = pinnedList l" "currentPinned l' = currentPinned l"
    "wslice (lb_list l') = WAt (length (slices l))" "lb_len l' = lb_len l + slice_size s"
    by (simp_all add: l'_def appendBufferSlice_def Let_def)
  have o: "owns ct bm ds L m (slices l @ pinnedList l @ s # xs)" and len: "lb_len l = int (length (lb_content m l))"
    using assms(1) by (simp_all add: rbuf_def rlist_def)
  have o': "owns ct bm ds L m (slices l' @ pinnedList l' @ xs)" by (rule owns_reorder [OF o]) (simp add: sl)
  have "slice_wf (length m) s" by (rule owns_wf [OF o]) simp
  then have lc: "int (length (content m s)) = slice_size s" using length_content assms(2) by simp
  show c: "lb_content m l' = lb_content m l @ content m s" by (simp add: lb_content_def sl)
  show "rbuf ct bm ds L xs m l'" using o' sl c len lc by (simp add: rbuf_def rlist_def)
  show "held_views l \<subseteq> held_views l'" by (auto simp: held_views_def sl)
  show "tight l \<Longrightarrow> tight l'" using assms(2) by (cases "slices l") (auto simp: tight_def sl)
  show "lb_len l' = lb_len l + slice_size s" by (rule sl(5))
qed

lemma rbuf_swap:
  assumes "rbuf ct bm ds L xs m l" and "owns ct bm ds L m (slices l @ pinnedList l @ ys)"
  shows "rbuf ct bm ds L ys m l"
  using assms by (simp add: rbuf_def rlist_def)

lemma move_chain_ok:
  assumes "rbuf ct bm ds L (ss @ xs) m l" and "published m ss"
  shows "\<exists>l'. move_chain bm (offsetInShm (hd ss)) l m = Some (l', m) \<and> rbuf ct bm ds L xs m l' \<and>
    lb_content m l' = lb_content m l @ concat (map (content m) ss) \<and> held_views l \<subseteq> held_views l' \<and> (tight l \<longrightarrow> tight l')"
  using assms
proof (induction ss arbitrary: l)
  case (Cons s ss)
  have p: "isFromShm s" "readIndex s = uint (bs_start s)" "sfields m s = (word_of_int (slice_size s), bs_start s)" "0 < slice_size s"
    and lk: "slink m s = (case ss of [] \<Rightarrow> None | t # _ \<Rightarrow> Some (offsetInShm t))"
    using Cons.prems(2) by (simp_all add: published_def)
  have "owns ct bm ds L m (slices l @ pinnedList l @ s # ss @ xs)" using Cons.prems(1) by (simp add: rbuf_def rlist_def)
  then have o: "owns ct bm ds L m (s # slices l @ pinnedList l @ ss @ xs)" by (rule owns_reorder) simp
  from owns_read_back [OF o p(1,3,2)] obtain s' where rb: "readBufferSlice m (offsetInShm s) = Some (Inr s')"
    and o': "owns ct bm ds L m (s' # slices l @ pinnedList l @ ss @ xs)" and s': "isFromShm s'" "offsetInShm s' = offsetInShm s"
      "content m s' = content m s" "slice_size s' = slice_size s" .
  from owns_hdr [OF o' s'(1)] obtain h where h: "bufferHeader s' = Some h" "sl_base h = unat (offsetInShm s')" "hdr_ok (length m) h" .
  have hn: "hasNext m h = Some (slink m s \<noteq> None)" using hasNext_ok [OF h(3)] h(2) s'(2) by (simp add: slink_def)
  have r': "rbuf ct bm ds L (s' # ss @ xs) m l"
    by (rule rbuf_swap [OF Cons.prems(1)]) (rule owns_reorder [OF o'], simp)
  have pos: "0 < slice_size s'" using p(4) s'(4) by simp
  note ap = append_slice_ok [OF r' pos]
  let ?l = "appendBufferSlice (Some s') l"
  show ?case
  proof (cases ss)
    case Nil
    have "move_chain bm (offsetInShm s) l m = Some (?l, m)"
      using rb h(1) pos hn lk Nil by (subst move_chain.simps) simp
    with ap s'(3) Nil show ?thesis by simp
  next
    case (Cons t ts)
    have nx: "nextBufferOffset m h = Some (offsetInShm t)"
      using nextBufferOffset_ok [OF h(3)] lk Cons h(2) s'(2) by (auto simp: slink_def link_at_def split: if_splits)
    have st: "move_chain bm (offsetInShm s) l m = move_chain bm (offsetInShm (hd ss)) ?l m"
      using rb h(1) pos hn lk nx Cons by (subst move_chain.simps) simp
    have "published m ss" using Cons.prems(2) Cons by (simp add: published_def)
    from Cons.IH [OF ap(1) this] obtain l' where "move_chain bm (offsetInShm (hd ss)) ?l m = Some (l', m)" "rbuf ct bm ds L xs m l'"
      "lb_content m l' = lb_content m ?l @ concat (map (content m) ss)" "held_views ?l \<subseteq> held_views l'" "tight ?l \<longrightarrow> tight l'" by blast
    with st ap(2-4) s'(3) show ?thesis by auto
  qed
qed (simp add: published_def)

text \<open>An entry of the pending list stands for the slices \<open>c\<close>.\<close>

definition stands_for :: "bytes \<Rightarrow> bufferSliceWrapper \<Rightarrow> bufferSlice list \<Rightarrow> bool" where
  "stands_for m u c \<longleftrightarrow> (case fallbackSlice u of
     Some s \<Rightarrow> c = [s] \<and> heap_slice s \<and> 0 < slice_size s
   | None \<Rightarrow> published m c \<and> wr_offset u = offsetInShm (hd c))"

lemma move_unread_ok:
  assumes "rbuf ct bm ds L (concat cs @ xs) m l" and "list_all2 (stands_for m) us cs"
  shows "\<exists>l'. move_unread bm us fb l m = Some (fb \<or> (\<exists>u \<in> set us. fallbackSlice u \<noteq> None), l', m) \<and> rbuf ct bm ds L xs m l' \<and>
    lb_content m l' = lb_content m l @ concat (map (content m) (concat cs)) \<and> held_views l \<subseteq> held_views l' \<and> (tight l \<longrightarrow> tight l')"
  using assms(2,1)
proof (induction us cs arbitrary: l fb rule: list_all2_induct)
  case (Cons u us c cs)
  show ?case
  proof (cases "fallbackSlice u")
    case None
    then have p: "published m c" "wr_offset u = offsetInShm (hd c)" using Cons.hyps(1) by (simp_all add: stands_for_def)
    have r: "rbuf ct bm ds L (c @ concat cs @ xs) m l" using Cons.prems by simp
    from move_chain_ok [OF r p(1)] obtain l1 where 1: "move_chain bm (wr_offset u) l m = Some (l1, m)" "rbuf ct bm ds L (concat cs @ xs) m l1"
      "lb_content m l1 = lb_content m l @ concat (map (content m) c)" "held_views l \<subseteq> held_views l1" "tight l \<longrightarrow> tight l1"
      unfolding p(2) by blast
    from Cons.IH [OF 1(2), of fb] 1 None show ?thesis by auto
  next
    case (Some s)
    then have p: "c = [s]" "0 < slice_size s" using Cons.hyps(1) by (simp_all add: stands_for_def)
    have r: "rbuf ct bm ds L (s # concat cs @ xs) m l" using Cons.prems p(1) by simp
    note ap = append_slice_ok [OF r p(2)]
    from Cons.IH [OF ap(1), of True] ap Some p(1) show ?thesis by auto
  qed
qed auto

subsection \<open>The contract between a read buffer and the source of its data\<close>

fun exact_op :: "read_op \<Rightarrow> bool" where
  "exact_op (OpBytes n) = True"
| "exact_op (OpString n) = True"
| "exact_op (OpPeek n) = True"
| "exact_op (OpDiscard n) = True"
| "exact_op (OpRead n) = False"
| "exact_op OpByte = False"

fun op_need :: "read_op \<Rightarrow> int" where
  "op_need (OpBytes n) = n"
| "op_need (OpString n) = n"
| "op_need (OpPeek n) = n"
| "op_need (OpDiscard n) = n"
| "op_need (OpRead n) = 1"
| "op_need OpByte = 1"

lemma exact_step:
  assumes rb: "rbuf ct bm ds L xs m l" and "exact_op a" and "op_fits a c" and "op_need a \<le> lb_len l" and c: "take (nat (lb_len l)) c = lb_content m l"
  shows "\<exists>l' m'. read_step bm rm a (st, l, m) = Some (Inr (op_out a c), st, l', m') \<and> radv ct bm ds L xs (op_takes a) l m l' m'"
proof -
  have t: "take (nat n) c = take (nat n) (lb_content m l)" if "n \<le> lb_len l" for n
    unfolding c [symmetric] using that by (simp add: min_def nat_le_eq_zle)
  show ?thesis
  proof (cases a)
    case (OpBytes n) with assms t [of n] ReadBytes_ok [OF rb, of n rm st] show ?thesis by simp
  next
    case (OpString n) with assms t [of n] ReadString_ok [OF rb, of n rm st] show ?thesis by simp
  next
    case (OpPeek n) with assms t [of n] Peek_ok [OF rb, of n rm st] show ?thesis by auto
  next
    case (OpDiscard n) with assms Discard_ok [OF rb, of n rm st] show ?thesis by (auto simp: out_map_def)
  qed (use assms in simp_all)
qed

lemma ensured_step:
  assumes "ensure rm (op_need a) x = Some (None, x1)" and "x1 = (st, l, m)" and "op_need a \<le> lb_len l" and "exact_op a"
    and "0 < op_need a"
  shows "read_step bm rm a x = read_step bm rm a x1"
proof -
  have "ensure rm (op_need a) x1 = Some (None, x1)" using assms(2,3) by (simp add: ensure_enough)
  with assms(1,4,5) show ?thesis
    by (cases a) (simp_all add: ReadBytes_def ReadString_def Peek_def Discard_def)
qed

text \<open>
  \<open>good\<close> is what the source keeps invariant, \<open>ahead\<close> the bytes the reader will find, those
  already in the buffer first. The source promises that a request for bytes that are ahead
  is met without losing or reordering any.
\<close>

locale data_source =
  fixes rm :: "'st read_more"
    and good :: "'st rstate \<Rightarrow> bool"
    and ahead :: "'st rstate \<Rightarrow> bytes"
    and ct :: nat and bm :: bufferManager and ds :: "(nat \<times> nat) list" and L :: "(nat \<times> nat) multiset"
  assumes good_read: "good (st, l, m) \<Longrightarrow> \<exists>xs. rbuf ct bm ds L xs m l \<and> take (nat (lb_len l)) (ahead (st, l, m)) = lb_content m l \<and>
      (\<forall>k l' m'. radv ct bm ds L xs k l m l' m' \<and> int k \<le> lb_len l \<longrightarrow>
        good (st, l', m') \<and> ahead (st, l', m') = drop k (ahead (st, l, m)))"
    and more_ok: "\<lbrakk>good x; x = (st, l, m); lb_len l < n; n \<le> int (length (ahead x))\<rbrakk> \<Longrightarrow>
      \<exists>st' l' m'. rm n x = Some (None, st', l', m') \<and> good (st', l', m') \<and> ahead (st', l', m') = ahead x \<and> n \<le> lb_len l'"
begin

lemma ensure_ahead:
  assumes "good x" and "n \<le> int (length (ahead x))"
  obtains st l m where "ensure rm n x = Some (None, st, l, m)" and "good (st, l, m)" and "ahead (st, l, m) = ahead x" and "n \<le> lb_len l"
proof -
  obtain st l m where x: "x = (st, l, m)" by (cases x) auto
  show thesis
  proof (cases "n \<le> lb_len l")
    case True
    with that [of st l m] assms(1) x show thesis by (simp add: ensure_def)
  next
    case False
    then have "lb_len l < n" by simp
    from more_ok [OF assms(1) x this assms(2)] obtain st' l' m' where
      "rm n x = Some (None, st', l', m')" "good (st', l', m')" "ahead (st', l', m') = ahead x" "n \<le> lb_len l'" by blast
    with that [of st' l' m'] False x show thesis by (simp add: ensure_def)
  qed
qed

lemma step_ahead:
  assumes g: "good x" and e: "exact_op a" and f: "op_fits a (ahead x)"
  shows "\<exists>x'. read_step bm rm a x = Some (Inr (op_out a (ahead x)), x') \<and> good x' \<and> ahead x' = drop (op_takes a) (ahead x)"
proof -
  have n: "0 < op_need a" "op_need a \<le> int (length (ahead x))" "int (op_takes a) \<le> op_need a" using e f by (cases a; simp)+
  obtain st l m where en: "ensure rm (op_need a) x = Some (None, st, l, m)" and g1: "good (st, l, m)"
    and ah: "ahead (st, l, m) = ahead x" and le: "op_need a \<le> lb_len l" by (rule ensure_ahead [OF g n(2)])
  from good_read [OF g1] obtain xs where gr: "rbuf ct bm ds L xs m l" "take (nat (lb_len l)) (ahead x) = lb_content m l"
    and step: "\<And>k l' m'. radv ct bm ds L xs k l m l' m' \<Longrightarrow> int k \<le> lb_len l \<Longrightarrow> good (st, l', m') \<and> ahead (st, l', m') = drop k (ahead x)"
    unfolding ah by blast
  from exact_step [OF gr(1) e f le gr(2), of rm st] obtain l' m' where
    r: "read_step bm rm a (st, l, m) = Some (Inr (op_out a (ahead x)), st, l', m')"
    "radv ct bm ds L xs (op_takes a) l m l' m'" by blast
  from step [OF r(2)] n(3) le have "good (st, l', m')" "ahead (st, l', m') = drop (op_takes a) (ahead x)" by auto
  moreover have "read_step bm rm a x = read_step bm rm a (st, l, m)" by (rule ensured_step [OF en refl le e n(1)])
  ultimately show ?thesis using r(1) by auto
qed

lemma run_ahead:
  assumes "good x" and "list_all exact_op as" and "ops_fit as (ahead x)"
  shows "\<exists>x'. run_reads bm rm as x = Some (map Inr (ops_out as (ahead x)), x') \<and> good x' \<and>
    ahead x' = drop (sum_list (map op_takes as)) (ahead x)"
  using assms
proof (induction as arbitrary: x)
  case (Cons a as)
  have e: "exact_op a" and f: "op_fits a (ahead x)" using Cons.prems by simp_all
  from step_ahead [OF Cons.prems(1) e f] obtain x1 where
    1: "read_step bm rm a x = Some (Inr (op_out a (ahead x)), x1)" "good x1" "ahead x1 = drop (op_takes a) (ahead x)" by blast
  from Cons.IH [OF 1(2)] Cons.prems 1(3) obtain x2 where
    "run_reads bm rm as x1 = Some (map Inr (ops_out as (ahead x1)), x2)" "good x2" "ahead x2 = drop (sum_list (map op_takes as)) (ahead x1)"
    by auto
  with 1 show ?case by (simp add: add.commute)
qed simp

end

subsection \<open>A stream as the source of its read buffer\<close>

lemma upd_obj_sel [simp]:
  "ses (upd_obj p f w) = ses w" "bmem (upd_obj p f w) = bmem w" "qmem (upd_obj p f w) = qmem w" "nobj (upd_obj p f w) = nobj w"
  "objs (upd_obj p f w) p' = (if p' = p then map_option f (objs w p) else objs w p')" "listener_of (upd_obj p f w) = listener_of w"
  by (simp_all add: upd_obj_def)

lemma with_obj_Some [simp]: "objs w p = Some s \<Longrightarrow> with_obj p w f = f s"
  by (simp add: with_obj_def)

definition reader :: "nat \<Rightarrow> bufferManager \<Rightarrow> (nat \<times> nat) list \<Rightarrow> (nat \<times> nat) multiset \<Rightarrow> bufferSlice list \<Rightarrow> bufferSlice list list \<Rightarrow>
    sptr \<Rightarrow> Stream \<Rightarrow> world \<Rightarrow> bool" where
  "reader ct bm ds L xs cs p s w \<longleftrightarrow> objs w p = Some s \<and> bufferManager_of (ses w) = Some bm \<and>
     rbuf ct bm ds L (concat cs @ xs) (bmem w) (recvBuf s) \<and> list_all2 (stands_for (bmem w)) (unread s) cs"

definition arrived :: "bytes \<Rightarrow> bufferSlice list list \<Rightarrow> linkedBuffer \<Rightarrow> bytes" where
  "arrived m cs l = lb_content m l @ concat (map (content m) (concat cs))"

lemma moveTo_ok:
  assumes "reader ct bm ds L xs cs p s w"
  shows "\<exists>fb l. moveTo p w = Some (upd_obj p (\<lambda>s. s\<lparr>unread := [], inFallbackState := fb, recvBuf := l\<rparr>) w) \<and>
    rbuf ct bm ds L xs (bmem w) l \<and> lb_content (bmem w) l = arrived (bmem w) cs (recvBuf s) \<and>
    held_views (recvBuf s) \<subseteq> held_views l \<and> (tight (recvBuf s) \<longrightarrow> tight l)"
proof (cases "unread s = []")
  case True
  then have "cs = []" using assms by (simp add: reader_def)
  moreover have "upd_obj p (\<lambda>t. t\<lparr>unread := [], inFallbackState := inFallbackState s, recvBuf := recvBuf s\<rparr>) w = w"
    using assms True by (cases w; cases s) (auto simp: reader_def upd_obj_def fun_upd_idem)
  ultimately show ?thesis using assms True
    by (intro exI [of _ "inFallbackState s"] exI [of _ "recvBuf s"]) (simp add: reader_def moveTo_def arrived_def)
next
  case False
  from assms have a: "objs w p = Some s" "bufferManager_of (ses w) = Some bm" by (simp_all add: reader_def)
  from assms move_unread_ok [of ct bm ds L cs xs "bmem w" "recvBuf s" "unread s" "inFallbackState s"] obtain fb l where
    m: "move_unread bm (unread s) (inFallbackState s) (recvBuf s) (bmem w) = Some (fb, l, bmem w)" "rbuf ct bm ds L xs (bmem w) l"
    "lb_content (bmem w) l = arrived (bmem w) cs (recvBuf s)" "held_views (recvBuf s) \<subseteq> held_views l" "tight (recvBuf s) \<longrightarrow> tight l"
    by (auto simp: reader_def arrived_def)
  have "w\<lparr>bmem := bmem w\<rparr> = w" by simp
  with m a False show ?thesis by (intro exI [of _ fb] exI [of _ l]) (simp add: moveTo_def)
qed

lemma chain_same:
  assumes "same_views m m' ss" and "\<forall>s \<in> set ss. isFromShm s"
  shows "chain m' ss = chain m ss"
proof -
  have "\<forall>s \<in> set ss. slink m' s = slink m s \<and> sfields m' s = sfields m s" using assms by (auto simp: same_views_def)
  then show ?thesis by (induction ss) auto
qed

lemma stands_for_same:
  assumes "same_views m m' c" and "stands_for m u c"
  shows "stands_for m' u c"
proof (cases "fallbackSlice u")
  case None
  then have p: "published m c" "wr_offset u = offsetInShm (hd c)" using assms(2) by (simp_all add: stands_for_def)
  then have "\<forall>s \<in> set c. isFromShm s" by (simp add: published_def)
  from chain_same [OF assms(1) this] p None show ?thesis by (simp add: stands_for_def published_def)
next
  case (Some s)
  with assms(2) show ?thesis by (simp add: stands_for_def)
qed

lemma stands_for_all:
  assumes "list_all2 (stands_for m) us cs" and "same_views m m' (concat cs)"
  shows "list_all2 (stands_for m') us cs"
  using assms
proof (induction rule: list_all2_induct)
  case (Cons u us c cs)
  have "same_views m m' c" "same_views m m' (concat cs)" using Cons.prems by (auto intro: same_views_subset)
  with Cons stands_for_same show ?case by simp
qed simp

lemma reader_read:
  assumes "reader ct bm ds L xs cs p s w" and ra: "radv ct bm ds L (concat cs @ xs) k (recvBuf s) (bmem w) l' m'"
    and "k \<le> length (lb_content (bmem w) (recvBuf s))"
  shows "reader ct bm ds L xs cs p (s\<lparr>recvBuf := l'\<rparr>) (put_buf p (w, l', m'))"
    and "arrived m' cs l' = drop k (arrived (bmem w) cs (recvBuf s))"
proof -
  note d = radv_D [OF ra]
  have sv: "same_views (bmem w) m' (concat cs)" by (rule same_views_subset [OF d(4)]) auto
  have "concat (map (content m') (concat cs)) = concat (map (content (bmem w)) (concat cs))" by (rule same_views_concat [OF sv]) simp
  then show "arrived m' cs l' = drop k (arrived (bmem w) cs (recvBuf s))" using d(2) assms(3) by (simp add: arrived_def)
  show "reader ct bm ds L xs cs p (s\<lparr>recvBuf := l'\<rparr>) (put_buf p (w, l', m'))"
    using assms(1) d(1) stands_for_all [OF _ sv] by (simp add: reader_def put_buf_def)
qed

definition stream_good :: "nat \<Rightarrow> bufferManager \<Rightarrow> (nat \<times> nat) list \<Rightarrow> (nat \<times> nat) multiset \<Rightarrow> sptr \<Rightarrow> world rstate \<Rightarrow> bool" where
  "stream_good ct bm ds L p x \<longleftrightarrow> (\<exists>xs cs s. reader ct bm ds L xs cs p s (put_buf p x))"

text \<open>What the reader of the stream will find: the read buffer after all pending data has been moved to it.\<close>

definition stream_ahead :: "sptr \<Rightarrow> world rstate \<Rightarrow> bytes" where
  "stream_ahead p x = (case moveTo p (put_buf p x) of None \<Rightarrow> []
     | Some w \<Rightarrow> (case objs w p of None \<Rightarrow> [] | Some s \<Rightarrow> lb_content (bmem w) (recvBuf s)))"

lemma put_buf_sel [simp]:
  "bmem (put_buf p (w, l, m)) = m" "qmem (put_buf p (w, l, m)) = qmem w" "ses (put_buf p (w, l, m)) = ses w"
  by (simp_all add: put_buf_def)

lemma objs_put_buf: "objs (put_buf p (w, l, m)) p = map_option (\<lambda>s. s\<lparr>recvBuf := l\<rparr>) (objs w p)"
  by (simp add: put_buf_def)

lemma put_buf_put [simp]: "put_buf p (put_buf p (w, l, m), l', m') = put_buf p (w, l', m')"
  by (cases "objs w p") (simp_all add: put_buf_def upd_obj_def)

lemma put_buf_same: "objs w p = Some s \<Longrightarrow> recvBuf s = l \<Longrightarrow> bmem w = m \<Longrightarrow> put_buf p (w, l, m) = w"
  by (cases w; cases s) (auto simp: put_buf_def upd_obj_def fun_upd_idem)

lemma ahead_reader:
  assumes "reader ct bm ds L xs cs p s (put_buf p (w, l, m))"
  shows "stream_ahead p (w, l, m) = arrived m cs l"
proof -
  have s: "objs (put_buf p (w, l, m)) p = Some s" using assms by (simp add: reader_def)
  then have "recvBuf s = l" by (auto simp: objs_put_buf)
  with moveTo_ok [OF assms] s show ?thesis by (auto simp: stream_ahead_def)
qed

lemma stream_more_ok:
  assumes g: "reader ct bm ds L xs cs p s (put_buf p (w, l, m))" and n: "n \<le> int (length (arrived m cs l))"
  shows "\<exists>w' l'. stream_more p wakes n (w, l, m) = Some (None, w', l', m) \<and> n \<le> lb_len l' \<and>
    stream_good ct bm ds L p (w', l', m) \<and> stream_ahead p (w', l', m) = arrived m cs l"
proof -
  let ?w = "put_buf p (w, l, m)"
  have s: "objs ?w p = Some s" "bufferManager_of (ses ?w) = Some bm" using g by (simp_all add: reader_def)
  then have sl: "recvBuf s = l" by (auto simp: objs_put_buf)
  from moveTo_ok [OF g] obtain fb l' where mv: "moveTo p ?w = Some (upd_obj p (\<lambda>s. s\<lparr>unread := [], inFallbackState := fb, recvBuf := l'\<rparr>) ?w)"
    and rb: "rbuf ct bm ds L xs m l'" and c: "lb_content m l' = arrived m cs l" unfolding put_buf_sel sl by blast
  define w1 where "w1 = upd_obj p (\<lambda>s. s\<lparr>unread := [], inFallbackState := fb, recvBuf := l'\<rparr>) ?w"
  define s1 where "s1 = s\<lparr>unread := [], inFallbackState := fb, recvBuf := l'\<rparr>"
  have o1: "objs w1 p = Some s1" "recvBuf s1 = l'" "unread s1 = []" "bmem w1 = m" "ses w1 = ses ?w" using s(1) by (simp_all add: w1_def s1_def)
  have len: "lb_len l' = int (length (arrived m cs l))" using rb c by (simp add: rbuf_def)
  have "Stream_Ops.readMore p wakes n ?w = Some (None, w1)"
    using mv n len o1 by (simp add: Stream_Ops.readMore_def recv_len_def w1_def [symmetric])
  then have "stream_more p wakes n (w, l, m) = Some (None, w1, l', m)" using o1 by (simp add: stream_more_def take_buf_def)
  moreover have e: "put_buf p (w1, l', m) = w1" by (rule put_buf_same [OF o1(1,2,4)])
  have rd: "reader ct bm ds L xs [] p s1 (put_buf p (w1, l', m))" unfolding e using o1 rb s(2) by (simp add: reader_def)
  then have "stream_good ct bm ds L p (w1, l', m)" by (auto simp: stream_good_def)
  moreover have "stream_ahead p (w1, l', m) = arrived m cs l" using ahead_reader [OF rd] c by (simp add: arrived_def)
  ultimately show ?thesis using n len by auto
qed

interpretation sr: data_source "stream_more p wakes" "stream_good ct bm ds L p" "stream_ahead p" ct bm ds L for p wakes ct bm ds L
proof
  fix w l m
  assume "stream_good ct bm ds L p (w, l, m)"
  then obtain xs cs s where rd: "reader ct bm ds L xs cs p s (put_buf p (w, l, m))" by (auto simp: stream_good_def)
  then have s: "recvBuf s = l" and rb: "rbuf ct bm ds L (concat cs @ xs) m l" by (auto simp: reader_def objs_put_buf)
  have len: "lb_len l = int (length (lb_content m l))" using rb by (simp add: rbuf_def)
  have "take (nat (lb_len l)) (stream_ahead p (w, l, m)) = lb_content m l" using ahead_reader [OF rd] len by (simp add: arrived_def)
  moreover have "stream_good ct bm ds L p (w, l', m') \<and> stream_ahead p (w, l', m') = drop k (stream_ahead p (w, l, m))"
    if "radv ct bm ds L (concat cs @ xs) k l m l' m'" "int k \<le> lb_len l" for k l' m'
  proof -
    have k: "k \<le> length (lb_content m l)" using that(2) len by simp
    note rr = reader_read [OF rd, of k l' m', unfolded put_buf_sel s put_buf_put, OF that(1) k]
    from rr(1) have "stream_good ct bm ds L p (w, l', m')" by (auto simp: stream_good_def)
    with ahead_reader [OF rr(1)] ahead_reader [OF rd] rr(2) show ?thesis by simp
  qed
  ultimately show "\<exists>xs. rbuf ct bm ds L xs m l \<and> take (nat (lb_len l)) (stream_ahead p (w, l, m)) = lb_content m l \<and>
      (\<forall>k l' m'. radv ct bm ds L xs k l m l' m' \<and> int k \<le> lb_len l \<longrightarrow>
        stream_good ct bm ds L p (w, l', m') \<and> stream_ahead p (w, l', m') = drop k (stream_ahead p (w, l, m)))"
    using rb by blast
next
  fix x w l m n
  assume g: "stream_good ct bm ds L p x" and x: "x = (w, l, m)" and n: "n \<le> int (length (stream_ahead p x))"
  from g x obtain xs cs s where rd: "reader ct bm ds L xs cs p s (put_buf p (w, l, m))" by (auto simp: stream_good_def)
  note ah = ahead_reader [OF rd]
  from stream_more_ok [OF rd, of n wakes] n x ah show "\<exists>st' l' m'. stream_more p wakes n x = Some (None, st', l', m') \<and>
      stream_good ct bm ds L p (st', l', m') \<and> stream_ahead p (st', l', m') = stream_ahead p x \<and> n \<le> lb_len l'" by auto
qed

end
