(* ===== verification/Message_Delivery.thy ===== *)
theory Message_Delivery
  imports Stream_Delivery
begin

text \<open>
  The path of a message from the writer of one process to the reader of the other: \<^verbatim>\<open>WriteBytes\<close>
  and \<^verbatim>\<open>Flush\<close> of the sending stream, the queue element or the fallback event in between, the
  handlers of the receiving session, and \<^verbatim>\<open>ReadBytes\<close> of the receiving stream.
\<close>

subsection \<open>Sending a message through shared memory\<close>

lemma close_notify_mem: "bmem (fold safeCloseNotify ps w) = bmem w \<and> qmem (fold safeCloseNotify ps w) = qmem w"
  by (induction ps arbitrary: w) (simp_all add: safeCloseNotify_def)

lemma exit_mem [simp]: "bmem (ses_Close w) = bmem w" "qmem (ses_Close w) = qmem w" "bmem (exitErr e w) = bmem w" "qmem (exitErr e w) = qmem w"
  by (simp_all add: exitErr_def ses_Close_def Let_def call_back_def close_notify_mem)

lemma write_mem [simp]: "bmem (write_or_queue d w) = bmem w" "qmem (write_or_queue d w) = qmem w"
  by (simp_all add: write_or_queue_def writeEventData_def split: option.split)

lemma wakeUpPeer_ok:
  assumes "queueManager_of (ses w) = Some qm" and inv: "queue_inv (sendQueue qm) (qmem w)" and v: "communicationVersion (ses w) \<le> maxSupportProtoVersion"
  shows "\<exists>w'. wakeUpPeer w = Some (None, w') \<and> bmem w' = bmem w \<and> queue_inv (sendQueue qm) (qmem w') \<and>
    queue_items (sendQueue qm) (qmem w') = queue_items (sendQueue qm) (qmem w) \<and> consumerIsWorking (sendQueue qm) (qmem w') = Some True"
proof -
  let ?q = "sendQueue qm"
  have wf: "q_workingFlag ?q + 4 \<le> length (qmem w)" using inv by (simp add: queue_inv_def queue_wf_def)
  obtain b q where m: "markWorking ?q (qmem w) = Some (b, q)" "q = qmem w \<and> rd (qmem w) (q_workingFlag ?q) \<noteq> (0 :: u32) \<or> q = wr (qmem w) (q_workingFlag ?q) (1 :: u32)"
    using wf by (cases "rd (qmem w) (q_workingFlag ?q) = (0 :: u32)") (auto simp: markWorking_def)
  note ff = flag_frame [OF inv, of 1]
  have q: "queue_inv ?q q" "queue_items ?q q = queue_items ?q (qmem w)" using m(2) ff inv by auto
  have c: "consumerIsWorking ?q q = Some True"
    using m(2) wf by (auto simp: consumerIsWorking_def mload_def mem_simps word_gt_0)
  obtain ev where ev: "pollingEventWithVersion (communicationVersion (ses w)) = Some ev"
    using v header_encode_eq [of "replicate headerSize 0"] by (simp add: pollingEventWithVersion_def)
  show ?thesis using assms(1) m(1) q c ev by (cases b) (simp_all add: wakeUpPeer_def Let_def)
qed

lemma Flush_shm:
  assumes s: "objs w p = Some s" "bufferManager_of (ses w) = Some bm" "st_state s = streamOpened" "\<not> inFallbackState s"
    and wb: "wbuf ct bm ds L (bmem w) (sendBuf s)" and sh: "lb_isFromShm (sendBuf s)" and fl: "full (slices (sendBuf s))"
    and ne: "lb_content (bmem w) (sendBuf s) \<noteq> []"
    and q: "queueManager_of (ses w) = Some qm" "queue_inv (sendQueue qm) (qmem w)" "length (queue_items (sendQueue qm) (qmem w)) < qcap (sendQueue qm)"
      "0 < queue_budget (sendQueue qm) (qmem w)" and v: "communicationVersion (ses w) \<le> maxSupportProtoVersion"
  obtains w' ss where "Flush p ws r w = Some (None, w')" and "published (bmem w') ss" and "owns ct bm ds L (bmem w') ss"
    and "concat (map (content (bmem w')) ss) = lb_content (bmem w) (sendBuf s)"
    and "queue_inv (sendQueue qm) (qmem w')"
    and "queue_items (sendQueue qm) (qmem w') = queue_items (sendQueue qm) (qmem w) @
      [\<lparr>seqID = st_id s, offsetInShmBuf = offsetInShm (hd ss), status = streamOpened\<rparr>]"
proof -
  let ?l = "sendBuf s" and ?q = "sendQueue qm"
  have sl: "slices ?l \<noteq> []" using ne by (auto simp: lb_content_def)
  obtain m' where d: "lb_done bm ?l (bmem w) = Some (?l, m')" "owns ct bm ds L m' (slices ?l)" "chain m' (slices ?l)"
    "lb_content m' ?l = lb_content (bmem w) ?l" by (rule lb_done_ok [OF wb sh sl])
  have pub: "published m' (slices ?l)"
    using sl d(3) fl wb sh by (auto simp: published_def wbuf_def wstate_def unsent_def)
  have root: "rootBufOffset ?l = Some (offsetInShm (hd (slices ?l)))" using sl by (cases "slices ?l") (auto simp: rootBufOffset_def front_of_def)
  let ?e = "\<lparr>seqID = st_id s, offsetInShmBuf = offsetInShm (hd (slices ?l)), status = streamOpened\<rparr>"
  note pt = queue_put_room_spec [OF q(2,3,4), of ?e]
  define w1 where "w1 = upd_obj p (\<lambda>s. s\<lparr>inFallbackState := False\<rparr>) (upd_send p (?l, m') w)"
  define w2 where "w2 = w1\<lparr>qmem := put_mem ?q ?e (qmem w)\<rparr>"
  have w1: "ses w1 = ses w" "qmem w1 = qmem w" "bmem w1 = m'" by (simp_all add: w1_def upd_send_def)
  have pe: "put_element ?e w1 = Some (None, w2)" using q(1) pt w1 by (simp add: put_element_def w2_def)
  have w2: "ses w2 = ses w" "qmem w2 = put_mem ?q ?e (qmem w)" "bmem w2 = m'" using w1 by (simp_all add: w2_def)
  from wakeUpPeer_ok [of w2 qm] q(1) pt v w2 obtain w3 where w3: "wakeUpPeer w2 = Some (None, w3)" "bmem w3 = m'" "queue_inv ?q (qmem w3)"
    "queue_items ?q (qmem w3) = queue_items ?q (qmem w) @ [?e]" by auto
  have nz: "lb_len ?l \<noteq> 0" using wb ne by (simp add: wbuf_def)
  have "Flush p ws r w = Some (None, clean_send p w3)"
    using s(1-4) nz d(1) sh root pe w3(1) unfolding Flush_def by (simp add: w1_def [symmetric] Let_def)
  moreover have "bmem (clean_send p w3) = m'" "qmem (clean_send p w3) = qmem w3" using w3(2) by (simp_all add: clean_send_def)
  ultimately show thesis using that [of "clean_send p w3" "slices ?l"] pub d(2,4) w3 by (simp add: lb_content_def)
qed

subsection \<open>Receiving\<close>

text \<open>The stream that a message for the id \<open>i\<close> goes to is registered and not closed.\<close>

definition deliverable :: "u32 \<Rightarrow> world \<Rightarrow> bool" where
  "deliverable i w \<longleftrightarrow> (case streams_get i w of None \<Rightarrow> False
     | Some p \<Rightarrow> (case objs w p of None \<Rightarrow> False | Some s \<Rightarrow> st_state s \<noteq> streamClosed))"

definition addressed :: "sptr \<Rightarrow> world \<Rightarrow> queueElement list \<Rightarrow> bufferSliceWrapper list" where
  "addressed p w es = map (\<lambda>e. \<lparr>fallbackSlice = None, wr_offset = offsetInShmBuf e\<rparr>) (filter (\<lambda>e. streams_get (seqID e) w = Some p) es)"

text \<open>\<open>grown f w w'\<close>: every stream has its state and read buffer, and \<open>f\<close> appended to its pending data.\<close>

definition grown :: "(sptr \<Rightarrow> bufferSliceWrapper list) \<Rightarrow> world \<Rightarrow> world \<Rightarrow> bool" where
  "grown f w w' \<longleftrightarrow> ses w' = ses w \<and> bmem w' = bmem w \<and> (\<forall>p s. objs w p = Some s \<longrightarrow> (\<exists>s'. objs w' p = Some s' \<and>
     st_state s' = st_state s \<and> recvBuf s' = recvBuf s \<and> unread s' = unread s @ f p \<and> (recvNotifyCh s' \<longleftrightarrow> recvNotifyCh s \<or> f p \<noteq> [])))"

lemma grownE:
  assumes "grown f w w'" and "objs w p = Some s"
  obtains s' where "objs w' p = Some s'" and "st_state s' = st_state s" and "recvBuf s' = recvBuf s" and "unread s' = unread s @ f p"
    and "recvNotifyCh s' \<longleftrightarrow> recvNotifyCh s \<or> f p \<noteq> []"
  using assms unfolding grown_def by blast

lemma grown_trans:
  assumes "grown f w w1" and "grown g w1 w2" and h: "\<And>p. h p = f p @ g p"
  shows "grown h w w2"
  unfolding grown_def
proof (intro conjI allI impI)
  fix p s assume "objs w p = Some s"
  from grownE [OF assms(1) this] obtain s1 where 1: "objs w1 p = Some s1" "st_state s1 = st_state s" "recvBuf s1 = recvBuf s" "unread s1 = unread s @ f p"
    "recvNotifyCh s1 \<longleftrightarrow> recvNotifyCh s \<or> f p \<noteq> []" .
  from grownE [OF assms(2) 1(1)] obtain s2 where "objs w2 p = Some s2" "st_state s2 = st_state s1" "recvBuf s2 = recvBuf s1" "unread s2 = unread s1 @ g p"
    "recvNotifyCh s2 \<longleftrightarrow> recvNotifyCh s1 \<or> g p \<noteq> []" .
  with 1 h [of p] show "\<exists>s'. objs w2 p = Some s' \<and> st_state s' = st_state s \<and> recvBuf s' = recvBuf s \<and>
    unread s' = unread s @ h p \<and> (recvNotifyCh s' \<longleftrightarrow> recvNotifyCh s \<or> h p \<noteq> [])" by auto
qed (use assms in \<open>simp_all add: grown_def\<close>)

lemma fill_ok:
  assumes "objs w p = Some s" and "st_state s \<noteq> streamClosed"
  shows "\<exists>w'. fillDataToReadBuffer p u w = Some (None, w') \<and> grown (\<lambda>x. if x = p then [u] else []) w w' \<and> qmem w' = qmem w"
  using assms by (auto simp: fillDataToReadBuffer_def pending_add_def Let_def with_obj_def grown_def upd_obj_def)

lemma deliverable_grown: "deliverable i w \<Longrightarrow> grown f w w' \<Longrightarrow> deliverable i w'"
  by (fastforce simp: deliverable_def grown_def streams_get_def split: option.splits)

lemma addressed_grown: "grown f w w' \<Longrightarrow> addressed p w' es = addressed p w es"
  by (simp add: addressed_def grown_def streams_get_def)

lemma poll_queue_ok:
  assumes "queueManager_of (ses w) = Some qm" and "queue_inv (recvQueue qm) (qmem w)" and "queue_items (recvQueue qm) (qmem w) = es"
    and "\<forall>e \<in> set es. status e AND 0xff \<noteq> streamClosed \<and> deliverable (seqID e) w"
  shows "\<exists>w'. poll_queue None w = Some ((None, False), w') \<and> grown (\<lambda>p. addressed p w es) w w' \<and>
    queue_inv (recvQueue qm) (qmem w') \<and> queue_items (recvQueue qm) (qmem w') = []"
  using assms
proof (induction es arbitrary: w)
  case Nil
  then have "queue_pop (recvQueue qm) (qmem w) = Some (Inl errQueueEmpty, qmem w)" by (cases rule: queue_pop_cases [OF Nil.prems(2)]) simp_all
  with Nil show ?case by (subst poll_queue.simps) (auto simp: grown_def addressed_def)
next
  case (Cons e es)
  let ?q = "recvQueue qm"
  have pop: "queue_pop ?q (qmem w) = Some (Inr e, pop_mem ?q (qmem w))" "queue_inv ?q (pop_mem ?q (qmem w))" "queue_items ?q (pop_mem ?q (qmem w)) = es"
    using Cons.prems(3) by (cases rule: queue_pop_cases [OF Cons.prems(2)]; simp)+
  let ?w = "w\<lparr>qmem := pop_mem ?q (qmem w)\<rparr>" and ?u = "\<lparr>fallbackSlice = None, wr_offset = offsetInShmBuf e\<rparr>"
  from Cons.prems(4) obtain p s where p: "streams_get (seqID e) w = Some p" "objs w p = Some s" "st_state s \<noteq> streamClosed"
    by (auto simp: deliverable_def split: option.splits)
  from fill_ok [of ?w p s ?u] p obtain w1 where w1: "fillDataToReadBuffer p ?u ?w = Some (None, w1)" "grown (\<lambda>x. if x = p then [?u] else []) ?w w1"
    "qmem w1 = pop_mem ?q (qmem w)" by auto
  have g1: "grown (\<lambda>x. if x = p then [?u] else []) w w1" using w1(2) by (simp add: grown_def)
  have "\<exists>w'. poll_queue None w1 = Some ((None, False), w') \<and> grown (\<lambda>p. addressed p w1 es) w1 w' \<and> queue_inv ?q (qmem w') \<and> queue_items ?q (qmem w') = []"
    by (rule Cons.IH) (use Cons.prems g1 w1(3) pop deliverable_grown [OF _ g1] in \<open>simp_all add: grown_def\<close>)
  then obtain w' where w': "poll_queue None w1 = Some ((None, False), w')" "grown (\<lambda>p. addressed p w1 es) w1 w'" "queue_inv ?q (qmem w')" "queue_items ?q (qmem w') = []"
    by blast
  have "getStream (seqID e) (status e AND 0xff) ?w = Some (Some p, ?w)" using p(1) by (simp add: getStream_def streams_get_def)
  then have "poll_queue None w = Some ((None, False), w')"
    using Cons.prems(1,4) pop(1) w1(1) w'(1) by (subst poll_queue.simps) (simp add: handleStreamMessage_def Let_def)
  moreover have "grown (\<lambda>p. addressed p w (e # es)) w w'"
    by (rule grown_trans [OF g1 w'(2)]) (use p(1) in \<open>auto simp: addressed_grown [OF g1]\<close>, simp_all add: addressed_def)
  ultimately show ?case using w'(3,4) by blast
qed

lemma handlePolling_ok:
  assumes "queueManager_of (ses w) = Some qm" and "queue_inv (recvQueue qm) (qmem w)"
    and "\<forall>e \<in> set (queue_items (recvQueue qm) (qmem w)). status e AND 0xff \<noteq> streamClosed \<and> deliverable (seqID e) w"
  shows "\<exists>w'. handlePolling h buf w = Some ((int headerSize, False, None), w') \<and>
    grown (\<lambda>p. addressed p w (queue_items (recvQueue qm) (qmem w))) w w' \<and>
    queue_inv (recvQueue qm) (qmem w') \<and> queue_items (recvQueue qm) (qmem w') = [] \<and> consumerIsWorking (recvQueue qm) (qmem w') = Some False"
proof -
  let ?q = "recvQueue qm"
  from poll_queue_ok [OF assms(1,2) refl assms(3)] obtain w1 where w1: "poll_queue None w = Some ((None, False), w1)"
    "grown (\<lambda>p. addressed p w (queue_items ?q (qmem w))) w w1" "queue_inv ?q (qmem w1)" "queue_items ?q (qmem w1) = []" by blast
  from markNotWorking_ok [OF w1(3)] w1(4) obtain m where m: "markNotWorking ?q (qmem w1) = Some (True, m)" "queue_inv ?q m" "queue_items ?q m = []"
    "consumerIsWorking ?q m = Some False" by auto
  have "ses w1 = ses w" using w1(2) by (simp add: grown_def)
  then have "poll_loop None w = Some (None, w1\<lparr>qmem := m\<rparr>)" using assms(1) w1(1) m(1) by (subst poll_loop.simps) simp
  moreover have "grown (\<lambda>p. addressed p w (queue_items ?q (qmem w))) w (w1\<lparr>qmem := m\<rparr>)" using w1(2) by (simp add: grown_def)
  ultimately show ?thesis using m by (auto simp: handlePolling_def)
qed

subsection \<open>From writer to reader\<close>

definition at_rest :: "Stream \<Rightarrow> bool" where
  "at_rest t \<longleftrightarrow> st_state t \<noteq> streamClosed \<and> unread t = [] \<and> slices (recvBuf t) = [] \<and> pinnedList (recvBuf t) = [] \<and> lb_len (recvBuf t) = 0"

text \<open>The session can take a message for the stream \<open>i\<close>: the stream has nothing else to read, or it does not
  exist yet and the server can accept it.\<close>

definition ready_for :: "u32 \<Rightarrow> world \<Rightarrow> bool" where
  "ready_for i w \<longleftrightarrow> (case streams_get i w of
     Some q \<Rightarrow> (case objs w q of None \<Rightarrow> False | Some t \<Rightarrow> at_rest t)
   | None \<Rightarrow> \<not> isClient (ses w) \<and> streams (ses w) \<noteq> None \<and> (listenCallback (ses w) \<or> length (acceptCh (ses w)) < acceptCap))"

lemma ready_same: "ses w' = ses w \<Longrightarrow> objs w' = objs w \<Longrightarrow> ready_for i w' = ready_for i w"
  unfolding ready_for_def streams_get_def by (simp only:)

lemma getStream_ready:
  assumes "ready_for i w"
  shows "\<exists>q w1 t. getStream i streamOpened w = Some (Some q, w1) \<and> streams_get i w1 = Some q \<and> objs w1 q = Some t \<and> at_rest t \<and>
    bmem w1 = bmem w \<and> qmem w1 = qmem w \<and> bufferManager_of (ses w1) = bufferManager_of (ses w) \<and> queueManager_of (ses w1) = queueManager_of (ses w)"
proof (cases "streams_get i w")
  case (Some q)
  with assms show ?thesis by (auto simp: ready_for_def getStream_def split: option.splits)
next
  case None
  with assms show ?thesis
    by (auto simp: ready_for_def getStream_def streams_get_def newStream_def streams_put_def call_back_def at_rest_def
        newEmptyLinkedBuffer_def empty_slist_def consts_defs)
qed

lemma reader_good:
  assumes "reader ct bm ds L xs cs p s w"
  shows "stream_good ct bm ds L p (w, recvBuf s, bmem w)" and "stream_ahead p (w, recvBuf s, bmem w) = arrived (bmem w) cs (recvBuf s)"
proof -
  have "put_buf p (w, recvBuf s, bmem w) = w" using assms by (cases w) (auto simp: reader_def put_buf_def upd_obj_def fun_upd_idem)
  with assms ahead_reader [of ct bm ds L xs cs p s w "recvBuf s" "bmem w"]
  show "stream_good ct bm ds L p (w, recvBuf s, bmem w)" "stream_ahead p (w, recvBuf s, bmem w) = arrived (bmem w) cs (recvBuf s)"
    by (auto simp: stream_good_def)
qed

lemma read_arrived:
  assumes "reader ct bm ds L xs cs p s w" and "0 < n" and "n \<le> int (length (arrived (bmem w) cs (recvBuf s)))"
  shows "\<exists>w'. stream_ReadBytes p wakes n w = Some (Inr (take (nat n) (arrived (bmem w) cs (recvBuf s))), w')"
proof -
  let ?x = "(w, recvBuf s, bmem w)"
  note x = reader_good [OF assms(1)]
  from sr.step_ahead [OF x(1), of "OpBytes n" wakes] assms(2,3) x(2) obtain x' where
    "ReadBytes bm (stream_more p wakes) n ?x = Some (Inr (take (nat n) (arrived (bmem w) cs (recvBuf s))), x')" by auto
  with assms(1) show ?thesis by (simp add: reader_def stream_ReadBytes_def on_reader_def take_buf_def)
qed

lemma read_delivered:
  assumes "objs w q = Some t" and "at_rest t" and g: "grown (\<lambda>x. if x = q then [u] else []) w w'" and bm: "bufferManager_of (ses w) = Some bm"
    and o: "owns ct bm ds L (bmem w) c" and u: "stands_for (bmem w) u c" and d: "concat (map (content (bmem w)) c) = data" "data \<noteq> []"
  shows "\<exists>w''. stream_ReadBytes q wakes (int (length data)) w' = Some (Inr data, w'')"
proof -
  obtain t' where t': "objs w' q = Some t'" "recvBuf t' = recvBuf t" "unread t' = [u]" using grownE [OF g assms(1)] assms(2) by (auto simp: at_rest_def)
  have m: "bmem w' = bmem w" "ses w' = ses w" using g by (simp_all add: grown_def)
  have r: "reader ct bm ds L [] [c] q t' w'"
    using t' m bm o u assms(2) by (simp add: reader_def rbuf_def rlist_def at_rest_def lb_content_def)
  have "arrived (bmem w') [c] (recvBuf t') = data" using t' m d assms(2) by (simp add: arrived_def at_rest_def lb_content_def)
  with read_arrived [OF r, of "int (length data)"] d(2) show ?thesis by auto
qed

lemma polling_delivers:
  assumes b: "queueManager_of (ses b) = Some qm" "queue_inv (recvQueue qm) (qmem b)" "queue_items (recvQueue qm) (qmem b) = [\<lparr>seqID = i, offsetInShmBuf = off, status = streamOpened\<rparr>]"
    and "ready_for i b" and bm: "bufferManager_of (ses b) = Some bm" and o: "owns ct bm ds L (bmem b) c" and pub: "published (bmem b) c" and off: "off = offsetInShm (hd c)"
    and d: "concat (map (content (bmem b)) c) = data" "data \<noteq> []"
  shows "\<exists>b1 q b2. handlePolling h buf b = Some ((int headerSize, False, None), b1) \<and> streams_get i b1 = Some q \<and>
    stream_ReadBytes q wakes (int (length data)) b1 = Some (Inr data, b2)"
proof -
  let ?q = "recvQueue qm" and ?u = "\<lparr>fallbackSlice = None, wr_offset = off\<rparr>"
  have pop: "queue_pop ?q (qmem b) = Some (Inr \<lparr>seqID = i, offsetInShmBuf = off, status = streamOpened\<rparr>, pop_mem ?q (qmem b))"
    "queue_inv ?q (pop_mem ?q (qmem b))" "queue_items ?q (pop_mem ?q (qmem b)) = []"
    using b(3) by (cases rule: queue_pop_cases [OF b(2)]; simp)+
  let ?b = "b\<lparr>qmem := pop_mem ?q (qmem b)\<rparr>"
  from getStream_ready [of i ?b] assms(4) obtain q w1 t where g: "getStream i streamOpened ?b = Some (Some q, w1)" "streams_get i w1 = Some q"
    "objs w1 q = Some t" "at_rest t" "bmem w1 = bmem b" "qmem w1 = pop_mem ?q (qmem b)" "bufferManager_of (ses w1) = Some bm" "queueManager_of (ses w1) = Some qm"
    using ready_same [of ?b b i] b(1) bm by auto
  from fill_ok [OF g(3), of ?u] g(4) obtain w2 where w2: "fillDataToReadBuffer q ?u w1 = Some (None, w2)" "grown (\<lambda>x. if x = q then [?u] else []) w1 w2" "qmem w2 = qmem w1"
    by (auto simp: at_rest_def)
  from poll_queue_ok [of w2 qm "[]"] g w2(2,3) pop obtain w3 where w3: "poll_queue None w2 = Some ((None, False), w3)" "grown (\<lambda>p. addressed p w2 []) w2 w3"
    "queue_inv ?q (qmem w3)" "queue_items ?q (qmem w3) = []" by (auto simp: grown_def)
  from markNotWorking_ok [OF w3(3)] w3(4) obtain m where m: "markNotWorking ?q (qmem w3) = Some (True, m)" by auto
  have g3: "grown (\<lambda>x. if x = q then [?u] else []) w1 (w3\<lparr>qmem := m\<rparr>)"
    using grown_trans [OF w2(2) w3(2)] by (simp add: addressed_def grown_def)
  have "poll_queue None b = Some ((None, False), w3)"
    using b(1) pop(1) g(1) w2(1) w3(1) by (subst poll_queue.simps) (simp add: handleStreamMessage_def Let_def consts_defs)
  moreover have "queueManager_of (ses w3) = Some qm" using g3 g(8) by (simp add: grown_def)
  ultimately have "handlePolling h buf b = Some ((int headerSize, False, None), w3\<lparr>qmem := m\<rparr>)"
    using m by (simp add: handlePolling_def, subst poll_loop.simps) simp
  moreover have "streams_get i (w3\<lparr>qmem := m\<rparr>) = Some q" using g3 g(2) by (simp add: grown_def streams_get_def)
  moreover have "\<exists>w''. stream_ReadBytes q wakes (int (length data)) (w3\<lparr>qmem := m\<rparr>) = Some (Inr data, w'')"
    by (rule read_delivered [OF g(3,4) g3 g(7)]) (use o pub off d g(5) in \<open>simp_all add: stands_for_def\<close>)
  ultimately show ?thesis by blast
qed

definition fallback_event :: "u8 \<Rightarrow> u32 \<Rightarrow> u32 \<Rightarrow> bytes \<Rightarrow> bytes" where
  "fallback_event v i st data =
     wire_header (word_of_nat (headerSize + 8 + length data)) v typeFallbackData @ be_put i @ be_put st @ data"

lemma underlyingData_owned:
  assumes "owns ct bm ds L m (slices l)" and "wslice (lb_list l) = WAt (length (slices l) - 1)" and "slices l \<noteq> []"
  shows "underlyingData l m = Some (map (content m) (slices l))"
  using assms collect_data_ok [of "slices l" m] owns_wf [of ct bm ds L m "slices l"] by (auto simp: underlyingData_def)

lemma Flush_fallback:
  assumes s: "objs w p = Some s" "bufferManager_of (ses w) = Some bm" "st_state s = streamOpened" and fb: "inFallbackState s \<or> \<not> lb_isFromShm (sendBuf s)"
    and wb: "wbuf ct bm ds L (bmem w) (sendBuf s)" and ne: "lb_content (bmem w) (sendBuf s) \<noteq> []"
  obtains w' where "Flush p ws (Answered None) w = Some (None, w')" and "owns ct bm ds L (bmem w') []"
    and "sendCh (ses w') = sendCh (ses w) @ [\<lparr>sr_Hdr = None, sr_Body = Some (fallback_event (communicationVersion (ses w)) (st_id s) streamOpened (lb_content (bmem w) (sendBuf s)))\<rparr>]"
    and "qmem w' = qmem w"
proof -
  let ?l = "sendBuf s" and ?d = "lb_content (bmem w) (sendBuf s)"
  have sl: "slices ?l \<noteq> []" using ne by (auto simp: lb_content_def)
  obtain m where d: "lb_done bm ?l (bmem w) = Some (?l, m)" "owns ct bm ds L m (slices ?l)" "lb_content m ?l = ?d"
  proof (cases "lb_isFromShm ?l")
    case True
    obtain m' where m': "lb_done bm ?l (bmem w) = Some (?l, m')" "owns ct bm ds L m' (slices ?l)" "chain m' (slices ?l)" "lb_content m' ?l = ?d"
      by (rule lb_done_ok [OF wb True sl])
    show ?thesis by (rule that [of m']) (use m' in simp_all)
  next
    case False
    show ?thesis by (rule that [of "bmem w"]) (use False wb in \<open>simp_all add: lb_done_def wbuf_def wstate_def\<close>)
  qed
  have o: "owns ct bm ds L m (slices ?l @ [])" using d(2) by simp
  from recycle_items_ok [OF o] obtain m' where m': "recycle_items bm (slices ?l) m = Some m'" "owns ct bm ds L m' []" by blast
  have len: "lb_len ?l = int (length ?d)" and ws: "wslice (lb_list ?l) = WAt (length (slices ?l) - 1)"
    using wb sl by (simp_all add: wbuf_def wstate_def)
  define w1 where "w1 = upd_obj p (\<lambda>s. s\<lparr>inFallbackState := True\<rparr>) (upd_send p (?l, m) w)"
  have w1: "objs w1 p = Some (s\<lparr>sendBuf := ?l, inFallbackState := True\<rparr>)" "ses w1 = ses w" "bmem w1 = m" "qmem w1 = qmem w"
    using s(1) by (simp_all add: w1_def upd_send_def)
  let ?ev = "fallback_event (communicationVersion (ses w)) (st_id s) streamOpened ?d"
  let ?h = "wire_header (word_of_nat (headerSize + 8 + length ?d)) (communicationVersion (ses w)) typeFallbackData @ be_put (st_id s) @ be_put streamOpened"
  have "int (headerSize + 8) + lb_len ?l = int (headerSize + 8 + length ?d)" using len by simp
  then have e1: "fallbackDataEvent_encode (replicate (headerSize + 8) 0) (int (headerSize + 8) + lb_len ?l) (communicationVersion (ses w)) (st_id s) streamOpened = Some ?h"
    using fallbackDataEvent_eq [of "replicate (headerSize + 8) 0"] by (simp only: length_replicate of_int_of_nat_eq)
  have e2: "?h @ concat (map (content m) (slices ?l)) = ?ev" using d(3) by (simp add: fallback_event_def lb_content_def)
  define w2 where "w2 = openCircuitBreaker (upd_send p (lb_clean ?l, m') w1)"
  have w2: "bmem w2 = m'" "qmem w2 = qmem w" "sendCh (ses w2) = sendCh (ses w)"
    using w1 by (simp_all add: w2_def upd_send_def openCircuitBreaker_def)
  have "writeFallback p streamOpened (Answered None) w1 = Some (None, upd_ses (\<lambda>s. s\<lparr>sendCh := sendCh s @ [\<lparr>sr_Hdr = None, sr_Body = Some ?ev\<rparr>]\<rparr>) w2)"
    using w1 e1 e2 s(2) m'(1) underlyingData_owned [OF d(2) ws sl]
    by (simp add: writeFallback_def recycle_send_def lb_recycle_def waitForSend_def w2_def del: replicate.simps)
  then have "Flush p ws (Answered None) w = Some (None, clean_send p (upd_ses (\<lambda>s. s\<lparr>sendCh := sendCh s @ [\<lparr>sr_Hdr = None, sr_Body = Some ?ev\<rparr>]\<rparr>) w2))"
    using s fb d(1) len ne unfolding Flush_def by (simp add: w1_def [symmetric] Let_def)
  then show thesis by (rule that) (use m'(2) w2 in \<open>simp_all add: clean_send_def\<close>)
qed

lemma fallback_slice_ok:
  assumes "length data < 2 ^ 32" and "data \<noteq> []"
  obtains f where "newBufferSlice m None (HeapData data) 0 False = Some f" and "heap_slice (f\<lparr>writeIndex := int (length data)\<rparr>)"
    and "slice_wf n (f\<lparr>writeIndex := int (length data)\<rparr>)" and "content m' (f\<lparr>writeIndex := int (length data)\<rparr>) = data"
    and "0 < slice_size (f\<lparr>writeIndex := int (length data)\<rparr>)"
  using assms by (fastforce simp: newBufferSlice_def heap_slice_def slice_wf_def data_wf_def content_def backing_def slice_size_def load_def zero_slice_def
      data_cap_def unat_of_nat)

lemma load_wire [simp]: "load (wire_header a v t @ rest) 0 headerSize = wire_header a v t"
  by (simp add: load_def)

lemma wire_valid:
  assumes "v \<noteq> 0" and "t \<le> maxEventType"
  shows "checkEventValid (wire_header a v t) = Some None"
  using assms header_fields [of a v t "[]"] by (simp add: checkEventValid_def event_types not_less)

lemma handle_one:
  assumes "v \<noteq> 0" and "t \<le> maxEventType" and "protocolHandlers t = Some f"
    and "f (wire_header a v t) p w = Some ((int (headerSize + length p), False, None), w')"
  shows "handleEvents (wire_header a v t @ p) w = Some ((int (headerSize + length p), None), w')"
proof -
  let ?b = "wire_header a v t @ p"
  have "handle_events ?b (int (headerSize + length p)) w' = Some ((int (headerSize + length p), None), w')"
    by (subst handle_events.simps) (simp add: headerSize_def)
  with assms(3,4) wire_valid [OF assms(1,2), of a] header_fields(4) [of a v t "[]"] show ?thesis
    unfolding handleEvents_def by (subst handle_events.simps) simp
qed

lemma fallback_delivers:
  assumes b: "ready_for i b" "bufferManager_of (ses b) = Some bm" and v: "v \<noteq> 0" and o: "owns ct bm ds L (bmem b) []"
    and d: "headerSize + 8 + length data < 2 ^ 32" "data \<noteq> []"
  shows "\<exists>b1 q b2. handleEvents (fallback_event v i streamOpened data) b = Some ((int (length (fallback_event v i streamOpened data)), None), b1) \<and>
    streams_get i b1 = Some q \<and> stream_ReadBytes q wakes (int (length data)) b1 = Some (Inr data, b2)"
proof -
  let ?ev = "fallback_event v i streamOpened data" and ?n = "headerSize + 8 + length data"
  let ?h = "wire_header (word_of_nat ?n) v typeFallbackData" and ?b = "openCircuitBreaker b"
  have ub: "uint (word_of_nat ?n :: u32) = int ?n" using unat_of_nat32 [OF d(1)] by (simp only: uint_nat)
  have bs: "bmem ?b = bmem b" "qmem ?b = qmem b" "objs ?b = objs b" "ready_for i ?b" "bufferManager_of (ses ?b) = Some bm"
    using b by (auto simp: openCircuitBreaker_def ready_for_def streams_get_def split: option.splits)
  obtain f where f: "newBufferSlice (bmem ?b) None (HeapData data) 0 False = Some f" "heap_slice (f\<lparr>writeIndex := int (length data)\<rparr>)"
    "slice_wf (length (bmem b)) (f\<lparr>writeIndex := int (length data)\<rparr>)" "content (bmem b) (f\<lparr>writeIndex := int (length data)\<rparr>) = data"
    "0 < slice_size (f\<lparr>writeIndex := int (length data)\<rparr>)"
    by (rule fallback_slice_ok [of data]) (use d in simp_all)
  let ?f = "f\<lparr>writeIndex := int (length data)\<rparr>"
  let ?u = "\<lparr>fallbackSlice = Some ?f, wr_offset = 0\<rparr>"
  from getStream_ready [OF bs(4)] bs obtain q w1 t where g: "getStream i streamOpened ?b = Some (Some q, w1)" "streams_get i w1 = Some q"
    "objs w1 q = Some t" "at_rest t" "bmem w1 = bmem b" "bufferManager_of (ses w1) = Some bm" by auto
  from fill_ok [OF g(3), of ?u] g(4) obtain w2 where w2: "fillDataToReadBuffer q ?u w1 = Some (None, w2)" "grown (\<lambda>x. if x = q then [?u] else []) w1 w2"
    by (auto simp: at_rest_def)
  let ?p = "be_put i @ be_put streamOpened @ data"
  have fields: "sub ?p 0 4 = Some (be_put i)" "sub ?p 4 8 = Some (be_put (streamOpened :: u32))" "sub ?p 8 (length ?p) = Some data"
    "be_get (be_put i) = Some i" "be_get (be_put (streamOpened :: u32)) = Some streamOpened"
    using be_get_put [of 4 i "[]"] be_get_put [of 4 "streamOpened :: u32" "[]"] by (simp_all add: sub_def load_def)
  have "handleFallbackData ?h ?p b = Some ((int ?n, False, None), w2)"
    using fields ub f(1) g(1) w2(1) header_fields(1) [of _ v typeFallbackData "[]"]
    by (simp add: handleFallbackData_def handleStreamMessage_def Let_def consts_defs headerSize_def)
  then have "handleEvents (?h @ ?p) b = Some ((int (headerSize + length ?p), None), w2)"
    using handle_one [OF v, of typeFallbackData handleFallbackData] by (simp add: event_types protocolHandlers_def add.assoc)
  moreover have ev: "?ev = ?h @ ?p" "headerSize + length ?p = length ?ev" by (simp_all add: fallback_event_def)
  ultimately have "handleEvents ?ev b = Some ((int (length ?ev), None), w2)" by (simp only:)
  moreover have "streams_get i w2 = Some q" using w2(2) g(2) by (simp add: grown_def streams_get_def)
  moreover have "\<exists>w''. stream_ReadBytes q wakes (int (length data)) w2 = Some (Inr data, w'')"
    by (rule read_delivered [OF g(3,4) w2(2) g(6), where c = "[?f]" and ct = ct and ds = ds and L = L])
      (use o f d(2) g(5) in \<open>simp_all add: stands_for_def owns_heap\<close>)
  ultimately show ?thesis by blast
qed

definition writer :: "nat \<Rightarrow> bufferManager \<Rightarrow> (nat \<times> nat) list \<Rightarrow> (nat \<times> nat) multiset \<Rightarrow> sptr \<Rightarrow> Stream \<Rightarrow> world \<Rightarrow> bool" where
  "writer ct bm ds L p s w \<longleftrightarrow> objs w p = Some s \<and> bufferManager_of (ses w) = Some bm \<and> st_state s = streamOpened \<and>
     wbuf ct bm ds L (bmem w) (sendBuf s) \<and> full (slices (sendBuf s))"

lemma writer_write:
  assumes "writer ct bm ds L p s w" and "length data < 2 ^ 32"
  shows "\<exists>w' s'. stream_WriteBytes p data w = Some (length data, w') \<and> writer ct bm ds L p s' w' \<and> ses w' = ses w \<and> qmem w' = qmem w \<and>
    st_id s' = st_id s \<and> inFallbackState s' = inFallbackState s \<and> lb_content (bmem w') (sendBuf s') = lb_content (bmem w) (sendBuf s) @ data"
proof -
  have w: "objs w p = Some s" "bufferManager_of (ses w) = Some bm" "st_state s = streamOpened" "wbuf ct bm ds L (bmem w) (sendBuf s)" "full (slices (sendBuf s))"
    using assms(1) by (simp_all add: writer_def)
  obtain l' m' where r: "WriteBytes bm data (sendBuf s) (bmem w) = Some (length data, l', m')" "wbuf ct bm ds L m' l'"
    "lb_content m' l' = lb_content (bmem w) (sendBuf s) @ data" "full (slices (sendBuf s)) \<longrightarrow> full (slices l')" by (rule WriteBytes_ok [OF w(4) assms(2)])
  let ?w = "upd_send p (l', m') w" and ?s = "s\<lparr>sendBuf := l'\<rparr>"
  have "stream_WriteBytes p data w = Some (length data, ?w)" using w r(1) by (simp add: stream_WriteBytes_def)
  moreover have "writer ct bm ds L p ?s ?w" using w r by (simp add: writer_def upd_send_def)
  ultimately show ?thesis using r(3) by (intro exI [of _ ?w] exI [of _ ?s]) (simp add: upd_send_def)
qed

lemma owns_length:
  assumes "owns ct bm ds L m ss" and "owns ct bm ds L' m' ss'"
  shows "length m' = length m"
proof -
  have l: "bm_lists bm = lists_at ct 8 ds (length m) \<and> ds \<noteq> [] \<and> 44 \<le> length m" if "owns ct bm ds L m ss" for L m ss
  proof -
    from that obtain fss where i: "mgr_inv ct bm ds fss m" by (auto simp: owns_def owner_def)
    then obtain d ds' fs where "ds = d # ds'" "free_list (list_at ct 8 (fst d) (snd d) (length m)) (fst d) (snd d) m fs"
      by (cases ds) (auto simp: mgr_inv_def split: list.splits)
    then have "44 \<le> length m" by (simp add: free_list_def list_wf_def list_layout_def list_at_def)
    with i show ?thesis by (simp add: mgr_inv_def)
  qed
  from l [OF assms(1)] l [OF assms(2)] show ?thesis by (cases ds) (auto simp: list_at_def)
qed

lemma message_path:
  assumes w: "writer ct bm ds L p s a" and d: "data \<noteq> []" "headerSize + 8 + length (lb_content (bmem a) (sendBuf s)) + length data < 2 ^ 32"
    and q: "queueManager_of (ses a) = Some qa" "queue_inv (sendQueue qa) (qmem a)" "queue_items (sendQueue qa) (qmem a) = []" "0 < queue_budget (sendQueue qa) (qmem a)"
    and v: "0 < communicationVersion (ses a)" "communicationVersion (ses a) \<le> maxSupportProtoVersion"
    and b: "ready_for (st_id s) b" "bufferManager_of (ses b) = Some bm'" "queueManager_of (ses b) = Some qb" "recvQueue qb = sendQueue qa"
    and peer: "peers ds (length (bmem a)) ct bm ct' bm'"
  shows "\<exists>a1 s1 a2 b1 x b2. stream_WriteBytes p data a = Some (length data, a1) \<and> objs a1 p = Some s1 \<and>
    Flush p ws (Answered None) a1 = Some (None, a2) \<and>
    (if inFallbackState s1 \<or> \<not> lb_isFromShm (sendBuf s1)
     then \<exists>ev. sendCh (ses a2) = sendCh (ses a) @ [\<lparr>sr_Hdr = None, sr_Body = Some ev\<rparr>] \<and>
       handleEvents ev (b\<lparr>bmem := bmem a2, qmem := qmem a2\<rparr>) = Some ((int (length ev), None), b1)
     else handlePolling h buf (b\<lparr>bmem := bmem a2, qmem := qmem a2\<rparr>) = Some ((int headerSize, False, None), b1)) \<and>
    streams_get (st_id s) b1 = Some x \<and>
    stream_ReadBytes x wakes (int (length (lb_content (bmem a) (sendBuf s) @ data))) b1 = Some (Inr (lb_content (bmem a) (sendBuf s) @ data), b2)"
proof -
  let ?c = "lb_content (bmem a) (sendBuf s) @ data"
  have o: "owns ct bm ds L (bmem a) (slices (sendBuf s))" using w by (simp add: writer_def wbuf_def wstate_def)
  from writer_write [OF w, of data] d obtain a1 s1 where wr: "stream_WriteBytes p data a = Some (length data, a1)" "writer ct bm ds L p s1 a1"
    "ses a1 = ses a" "qmem a1 = qmem a" "st_id s1 = st_id s" "lb_content (bmem a1) (sendBuf s1) = ?c" by auto
  then have s1: "objs a1 p = Some s1" "bufferManager_of (ses a1) = Some bm" "st_state s1 = streamOpened" "wbuf ct bm ds L (bmem a1) (sendBuf s1)"
    "full (slices (sendBuf s1))" "?c \<noteq> []" using d(1) by (simp_all add: writer_def)
  have tr: "owns ct' bm' ds L m ss" if "owns ct bm ds L m ss" for m ss
    using owns_peer [OF that] peer owns_length [OF o that] by simp
  have rdy: "ready_for (st_id s) (b\<lparr>bmem := m, qmem := q\<rparr>)" for m q using b(1) ready_same [of "b\<lparr>bmem := m, qmem := q\<rparr>" b] by simp
  show ?thesis
  proof (cases "inFallbackState s1 \<or> \<not> lb_isFromShm (sendBuf s1)")
    case True
    obtain a2 where f: "Flush p ws (Answered None) a1 = Some (None, a2)" "owns ct bm ds L (bmem a2) []"
      "sendCh (ses a2) = sendCh (ses a1) @ [\<lparr>sr_Hdr = None, sr_Body = Some (fallback_event (communicationVersion (ses a1)) (st_id s1) streamOpened ?c)\<rparr>]"
      by (rule Flush_fallback [OF s1(1-3) True s1(4), unfolded wr(6)]) (use s1(6) in simp_all)
    let ?b = "b\<lparr>bmem := bmem a2, qmem := qmem a2\<rparr>" and ?ev = "fallback_event (communicationVersion (ses a)) (st_id s) streamOpened ?c"
    have "\<exists>b1 x b2. handleEvents ?ev ?b = Some ((int (length ?ev), None), b1) \<and> streams_get (st_id s) b1 = Some x \<and>
      stream_ReadBytes x wakes (int (length ?c)) b1 = Some (Inr ?c, b2)"
      by (rule fallback_delivers [OF rdy, where bm = bm' and ct = ct' and ds = ds and L = L])
        (use b(2) v(1) tr [OF f(2)] d s1(6) in \<open>simp_all add: word_gt_0\<close>)
    then show ?thesis using wr f(1,3) s1(1) True by auto
  next
    case False
    have room: "length (queue_items (sendQueue qa) (qmem a1)) < qcap (sendQueue qa)" using q wr(4) by (simp add: queue_inv_def queue_wf_def)
    obtain a2 ss where f: "Flush p ws (Answered None) a1 = Some (None, a2)" "published (bmem a2) ss" "owns ct bm ds L (bmem a2) ss"
      "concat (map (content (bmem a2)) ss) = ?c" "queue_inv (sendQueue qa) (qmem a2)"
      "queue_items (sendQueue qa) (qmem a2) = [\<lparr>seqID = st_id s, offsetInShmBuf = offsetInShm (hd ss), status = streamOpened\<rparr>]"
      by (rule Flush_shm [OF s1(1-3) _ s1(4) _ s1(5), unfolded wr(3-6), where qm = qa]) (use False s1(6) q v room wr in simp_all)
    let ?b = "b\<lparr>bmem := bmem a2, qmem := qmem a2\<rparr>"
    from polling_delivers [where b = ?b and qm = qb and i = "st_id s" and bm = bm' and ct = ct' and ds = ds and L = L and c = ss and data = ?c] f b rdy tr [OF f(3)] s1(6)
    have "\<exists>b1 x b2. handlePolling h buf ?b = Some ((int headerSize, False, None), b1) \<and> streams_get (st_id s) b1 = Some x \<and>
      stream_ReadBytes x wakes (int (length ?c)) b1 = Some (Inr ?c, b2)" by simp
    then show ?thesis using wr(1) f(1) s1(1) False by auto
  qed
qed

text \<open>
  C2. A message reaches the peer intact. A stream whose send buffer already holds some bytes
  writes more data and flushes; the write takes all of the data, the flush succeeds, and
  what arrives at the other process is one queue element when every slice came from shared
  memory, and one fallback event over the connection otherwise. The peer, which has mapped
  the same memory, handles the element or the event without error, registers the stream when
  it is new, and \<^verbatim>\<open>ReadBytes\<close> on that stream returns the bytes of the send buffer followed by
  the data, unchanged and in order.
\<close>

theorem message_delivered:
  assumes w: "writer ct bm ds L p s a" and d: "data \<noteq> []" "headerSize + 8 + length (lb_content (bmem a) (sendBuf s)) + length data < 2 ^ 32"
    and q: "queueManager_of (ses a) = Some qa" "queue_inv (sendQueue qa) (qmem a)" "queue_items (sendQueue qa) (qmem a) = []" "0 < queue_budget (sendQueue qa) (qmem a)"
    and v: "0 < communicationVersion (ses a)" "communicationVersion (ses a) \<le> maxSupportProtoVersion"
    and b: "ready_for (st_id s) b" "bufferManager_of (ses b) = Some bm'" "queueManager_of (ses b) = Some qb" "recvQueue qb = sendQueue qa"
    and peer: "peers ds (length (bmem a)) ct bm ct' bm'"
  shows "\<exists>a1 s1 a2 b1 x b2. stream_WriteBytes p data a = Some (length data, a1) \<and> objs a1 p = Some s1 \<and>
    Flush p ws (Answered None) a1 = Some (None, a2) \<and>
    (if inFallbackState s1 \<or> \<not> lb_isFromShm (sendBuf s1)
     then \<exists>ev. sendCh (ses a2) = sendCh (ses a) @ [\<lparr>sr_Hdr = None, sr_Body = Some ev\<rparr>] \<and>
       handleEvents ev (b\<lparr>bmem := bmem a2, qmem := qmem a2\<rparr>) = Some ((int (length ev), None), b1)
     else handlePolling h buf (b\<lparr>bmem := bmem a2, qmem := qmem a2\<rparr>) = Some ((int headerSize, False, None), b1)) \<and>
    streams_get (st_id s) b1 = Some x \<and>
    stream_ReadBytes x wakes (int (length (lb_content (bmem a) (sendBuf s) @ data))) b1 = Some (Inr (lb_content (bmem a) (sendBuf s) @ data), b2)"
  using assms by (rule message_path)

lemma demo_peers:
  obtains bm bm' m where "createBufferManager demo_pairs ''b'' (replicate 400 0) 0 = Some (Inr (bm, m))" and "mappingBufferManager ''b'' m 0 = Some (Inr bm')"
    and "wbuf 20 bm [(5, 8), (4, 16)] demo_all m newEmptyLinkedBuffer" and "peers [(5, 8), (4, 16)] (length m) 20 bm 24 bm'"
proof -
  have d: "pairs_ok (length (replicate 400 (0 :: u8)) - 8 - 36 * length demo_pairs) demo_pairs"
    "sorted_wrt (<) (map sp_Size demo_pairs)" "demo_pairs \<noteq> []"
    "length demo_pairs < 2 ^ 16" "8 + 36 * length demo_pairs \<le> length (replicate 400 (0 :: u8))" "length (replicate 400 (0 :: u8)) < 2 ^ 32"
    by (simp_all add: demo_pairs_def pairs_ok_def pair_num_def)
  have e: "map (pair_dim (length (replicate 400 (0 :: u8)) - 8 - 36 * length demo_pairs)) demo_pairs = [(5, 8), (4, 16)]"
    by (simp add: demo_pairs_def pair_dim_def pair_num_def)
  note cm = created_managers [OF d(3-6,1,2), of "''b''", unfolded e]
  from cm obtain bm m bm' where c: "createBufferManager demo_pairs ''b'' (replicate 400 0) 0 = Some (Inr (bm, m))" "mappingBufferManager ''b'' m 0 = Some (Inr bm')"
    "length m = length (replicate 400 (0 :: u8))" and i: "mgr_inv 20 bm [(5, 8), (4, 16)] (map (\<lambda>d. all_slots (fst d) (snd d)) [(5, 8), (4, 16)]) m"
    "mgr_inv 24 bm' [(5, 8), (4, 16)] (map (\<lambda>d. all_slots (fst d) (snd d)) [(5, 8), (4, 16)]) m" .
  obtain bm0 m0 where o: "createBufferManager demo_pairs ''b'' (replicate 400 0) 0 = Some (Inr (bm0, m0))"
    "wbuf 20 bm0 [(5, 8), (4, 16)] demo_all m0 newEmptyLinkedBuffer" by (rule demo_wbuf)
  have "bm_maxSliceSize bm' = bm_maxSliceSize bm" using i by (simp add: mgr_inv_def word_unat_eq_iff)
  with i have "peers [(5, 8), (4, 16)] (length m) 20 bm 24 bm'" by (simp only: peers_def mgr_inv_def)
  with that [OF c(1,2)] o c(1) show thesis by simp
qed

definition demo_session :: "bool \<Rightarrow> bufferManager \<Rightarrow> queueManager \<Rightarrow> Session" where
  "demo_session client bm qm = \<lparr>nextStreamID = 0, eventConn = (\<lambda>_. None), eventOut = [], streams = Some [], acceptCh = [], sendCh = [],
     notifyContinueWriteCh = False, shutdown = False, shutdownErr = None, shutdownCh = False, isClient = client, handshakeDone = True,
     unhealthy = False, writing = False, bufferManager_of = Some bm, queueManager_of = Some qm, communicationVersion = 2,
     ss_name = ''demo'', ss_state = defaultState, sessionID = 0, epochID = 0, randID = 0, listenCallback = False, debugMode = False,
     posted = [], cb_trace = []\<rparr>"

definition demo_world :: "bool \<Rightarrow> bufferManager \<Rightarrow> queueManager \<Rightarrow> bytes \<Rightarrow> bytes \<Rightarrow> world" where
  "demo_world client bm qm m q = \<lparr>ses = demo_session client bm qm, listener_of = None, objs = Map.empty, nobj = 0, bmem = m, qmem = q\<rparr>"

definition demo_qm :: "queue \<Rightarrow> queue \<Rightarrow> queueManager" where
  "demo_qm s r = \<lparr>qm_path = ''/dev/shm/q'', sendQueue = s, recvQueue = r, qm_mmapMapType = MemMapTypeDevShmFile, qm_memFd = 0\<rparr>"

text \<open>A client that has just opened the stream 5, and its server, which does not know the stream yet.\<close>

lemma demo_worlds:
  fixes bm' :: bufferManager
  assumes "wbuf 20 bm ds L m newEmptyLinkedBuffer"
  defines "a \<equiv> snd (newStream 5 (demo_world True bm (demo_qm demo_send demo_recv) m demo_mem2))"
    and "b \<equiv> demo_world False bm' (demo_qm demo_recv demo_send) m demo_mem2"
  obtains s where "writer 20 bm ds L 0 s a" and "st_id s = 5" and "lb_content (bmem a) (sendBuf s) = []" and "ready_for 5 b"
    and "\<not> inFallbackState s" and "bmem a = m" and "queueManager_of (ses a) = Some (demo_qm demo_send demo_recv)" and "qmem a = demo_mem2"
    and "communicationVersion (ses a) = 2" and "bufferManager_of (ses b) = Some bm'" and "queueManager_of (ses b) = Some (demo_qm demo_recv demo_send)"
  using assms by (auto simp: newStream_def demo_world_def demo_session_def writer_def full_def ready_for_def streams_get_def acceptCap_def
      newEmptyLinkedBuffer_def empty_slist_def lb_content_def)

theorem message_delivered_witness:
  "\<exists>bm bm' m. createBufferManager demo_pairs ''b'' (replicate 400 0) 0 = Some (Inr (bm, m)) \<and> mappingBufferManager ''b'' m 0 = Some (Inr bm') \<and>
    (let a = snd (newStream 5 (demo_world True bm (demo_qm demo_send demo_recv) m demo_mem2));
         b = demo_world False bm' (demo_qm demo_recv demo_send) m demo_mem2
     in \<exists>a1 s1 a2 b1 x b2. stream_WriteBytes 0 [1, 2, 3] a = Some (3, a1) \<and> objs a1 0 = Some s1 \<and> Flush 0 [] (Answered None) a1 = Some (None, a2) \<and>
       (if inFallbackState s1 \<or> \<not> lb_isFromShm (sendBuf s1)
        then \<exists>ev. sendCh (ses a2) = sendCh (ses a) @ [\<lparr>sr_Hdr = None, sr_Body = Some ev\<rparr>] \<and>
          handleEvents ev (b\<lparr>bmem := bmem a2, qmem := qmem a2\<rparr>) = Some ((int (length ev), None), b1)
        else handlePolling [] [] (b\<lparr>bmem := bmem a2, qmem := qmem a2\<rparr>) = Some ((int headerSize, False, None), b1)) \<and>
       streams_get 5 b1 = Some x \<and> stream_ReadBytes x [] 3 b1 = Some (Inr [1, 2, 3], b2))"
proof -
  obtain bm bm' m where m: "createBufferManager demo_pairs ''b'' (replicate 400 0) 0 = Some (Inr (bm, m))" "mappingBufferManager ''b'' m 0 = Some (Inr bm')"
    "wbuf 20 bm [(5, 8), (4, 16)] demo_all m newEmptyLinkedBuffer" "peers [(5, 8), (4, 16)] (length m) 20 bm 24 bm'" by (rule demo_peers)
  let ?a = "snd (newStream 5 (demo_world True bm (demo_qm demo_send demo_recv) m demo_mem2))"
  let ?b = "demo_world False bm' (demo_qm demo_recv demo_send) m demo_mem2"
  obtain s where s: "writer 20 bm [(5, 8), (4, 16)] demo_all 0 s ?a" "st_id s = 5" "lb_content (bmem ?a) (sendBuf s) = []" "ready_for 5 ?b"
    "bmem ?a = m" "queueManager_of (ses ?a) = Some (demo_qm demo_send demo_recv)" "qmem ?a = demo_mem2"
    "communicationVersion (ses ?a) = 2" "bufferManager_of (ses ?b) = Some bm'" "queueManager_of (ses ?b) = Some (demo_qm demo_recv demo_send)"
    by (rule demo_worlds [OF m(3), of bm']) 
  have q: "queue_inv demo_send demo_mem2" "queue_items demo_send demo_mem2 = []" "0 < queue_budget demo_send demo_mem2"
    using demo_pair(1) by (simp_all add: queue_fresh_def queue_budget_def queue_items_def)
  have dq: "sendQueue (demo_qm x y) = x" "recvQueue (demo_qm x y) = y" for x y by (simp_all add: demo_qm_def)
  have c: "lb_content m (sendBuf s) = []" using s(3,5) by simp
  have len: "length [1, 2, 3 :: u8] = 3" "int 3 = 3" by simp_all
  note md = message_delivered [OF s(1), where data = "[1, 2, 3]" and qa = "demo_qm demo_send demo_recv" and b = ?b and bm' = bm'
      and qb = "demo_qm demo_recv demo_send" and ct' = 24 and h = "[]" and buf = "[]" and ws = "[]" and wakes = "[]", unfolded s(2,5-8) c dq append_Nil len]
  show ?thesis unfolding Let_def
    by (rule exI [of _ bm], rule exI [of _ bm'], rule exI [of _ m], intro conjI m(1,2), rule md)
      (use q m(4) s(4,9,10) in \<open>simp_all add: headerSize_def maxSupportProtoVersion_def\<close>)
qed

text \<open>
  C14. A stream is read in order across its pending data. When the read buffer and the messages
  not yet moved to it hold enough bytes, any sequence of \<^verbatim>\<open>ReadBytes\<close>, \<^verbatim>\<open>ReadString\<close>, \<^verbatim>\<open>Peek\<close>
  and \<^verbatim>\<open>Discard\<close> succeeds without waiting, and the results are cut from the buffered bytes
  followed by the pending messages in the order of their arrival.
\<close>

theorem stream_reads_in_order:
  assumes "reader ct bm ds L xs cs p s w" and "list_all exact_op as" and "ops_fit as (arrived (bmem w) cs (recvBuf s))"
  shows "\<exists>w'. on_reader p (run_reads bm (stream_more p wakes) as) w = Some (map Inr (ops_out as (arrived (bmem w) cs (recvBuf s))), w')"
proof -
  let ?x = "(w, recvBuf s, bmem w)"
  note x = reader_good [OF assms(1)]
  from sr.run_ahead [OF x(1) assms(2), of wakes] assms(3) x(2) obtain x' where
    "run_reads bm (stream_more p wakes) as ?x = Some (map Inr (ops_out as (arrived (bmem w) cs (recvBuf s))), x')" by auto
  then show ?thesis using assms(1) by (simp add: reader_def on_reader_def take_buf_def)
qed

definition demo_stream :: "linkedBuffer \<Rightarrow> bufferSliceWrapper list \<Rightarrow> Stream" where
  "demo_stream l us = \<lparr>st_id = 5, st_state = streamOpened, st_pool = None, recvBuf = l, sendBuf = newEmptyLinkedBuffer,
      unread = us, recvNotifyCh = False, closeNotifyCh = False, readDeadline = None, writeDeadline = None, inFallbackState = False,
      st_callback = False, callbackInProcess = False, asyncGoroutineWg = 0, callbackCloseState = False\<rparr>"

definition demo_slice :: bufferSlice where
  "demo_slice = zero_slice\<lparr>bs_cap := 2, bs_data := HeapData [6, 7], writeIndex := 2\<rparr>"

theorem stream_reads_in_order_witness:
  "\<exists>bm m0 m s w'. createBufferManager demo_pairs ''b'' (replicate 400 0) 0 = Some (Inr (bm, m0)) \<and> content m s = [1, 2, 3, 4, 5] \<and>
    on_reader 0 (run_reads bm (stream_more 0 []) [OpPeek 2, OpBytes 3, OpDiscard 1, OpString 3])
      ((demo_world False bm (demo_qm demo_recv demo_send) m demo_mem2)\<lparr>objs := [0 \<mapsto> demo_stream (appendBufferSlice (Some s) newEmptyLinkedBuffer)
        [\<lparr>fallbackSlice = Some demo_slice, wr_offset = 0\<rparr>]]\<rparr>) = Some ([Inr [1, 2], Inr [1, 2, 3], Inr [], Inr [5, 6, 7]], w')"
proof -
  obtain bm m0 m s l where c: "createBufferManager demo_pairs ''b'' (replicate 400 0) 0 = Some (Inr (bm, m0))"
    and rb: "rbuf 20 bm [(5, 8), (4, 16)] demo_all [] m l" and l: "l = appendBufferSlice (Some s) newEmptyLinkedBuffer" and s: "content m s = [1, 2, 3, 4, 5]"
    by (rule demo_rbuf)
  let ?t = "demo_stream l [\<lparr>fallbackSlice = Some demo_slice, wr_offset = 0\<rparr>]"
  let ?w = "(demo_world False bm (demo_qm demo_recv demo_send) m demo_mem2)\<lparr>objs := [0 \<mapsto> ?t]\<rparr>"
  have f: "heap_slice demo_slice" "slice_wf n demo_slice" "slice_size demo_slice = 2" "content m demo_slice = [6, 7]" for n
    by (simp_all add: demo_slice_def heap_slice_def zero_slice_def slice_wf_def data_wf_def slice_size_def content_def backing_def load_def)
  have "owns 20 bm [(5, 8), (4, 16)] demo_all m (slices l @ pinnedList l @ [demo_slice])"
    using rb f(1,2) by (auto simp: rbuf_def rlist_def owns_def owner_def heap_slice_def)
  with rb have "rbuf 20 bm [(5, 8), (4, 16)] demo_all [demo_slice] m l" by (simp add: rbuf_def rlist_def)
  then have r: "reader 20 bm [(5, 8), (4, 16)] demo_all [] [[demo_slice]] 0 ?t ?w"
    using f by (simp add: reader_def demo_world_def demo_session_def demo_stream_def stands_for_def)
  have "lb_content m l = [1, 2, 3, 4, 5]" using s by (simp add: l lb_content_def appendBufferSlice_def newEmptyLinkedBuffer_def empty_slist_def Let_def)
  then have a: "arrived (bmem ?w) [[demo_slice]] (recvBuf ?t) = [1, 2, 3, 4, 5, 6, 7]" using f(4) by (simp add: arrived_def demo_world_def demo_stream_def)
  from stream_reads_in_order [OF r, of "[OpPeek 2, OpBytes 3, OpDiscard 1, OpString 3]" "[]"] c s a l show ?thesis by fastforce
qed


definition demo_bm :: bufferManager where
  "demo_bm = \<lparr>bm_lists = [], bm_minSliceSize = 8, bm_maxSliceSize = 16, bm_path = ''b'', bm_refCount = 1, bm_mmapMapType = MemMapTypeDevShmFile, bm_memFd = 0\<rparr>"


end
