(* ===== verification/Buffer_Registry.thy ===== *)
theory Buffer_Registry
  imports Manager_Contract
begin

text \<open>
  The buffer managers of a process: the table of \<^verbatim>\<open>buffer_manager.go\<close> that shares one manager
  among the sessions that name the same path, with its reference counts, and the unmapping
  of a manager that nobody uses any more.
\<close>

text \<open>What is done to the operating system, in order. The results of these calls are only logged.\<close>

datatype os_action = CloseFd int | Munmap bytes | RemoveFile string

text \<open>The map from paths to managers; a manager comes with the memory it has mapped.\<close>

type_synonym registry = "(string \<times> (bufferManager \<times> bytes)) list"

definition reg_put :: "string \<Rightarrow> bufferManager \<times> bytes \<Rightarrow> registry \<Rightarrow> registry" where
  "reg_put path e reg = (path, e) # filter (\<lambda>x. fst x \<noteq> path) reg"

definition reg_delete :: "string \<Rightarrow> registry \<Rightarrow> registry" where
  "reg_delete path reg = filter (\<lambda>x. fst x \<noteq> path) reg"

text \<open>\<^verbatim>\<open>sort.Sort\<close> on the pairs; below a dozen elements it is an insertion sort.\<close>

definition sortPairs :: "sizePercentPair list \<Rightarrow> sizePercentPair list" where
  "sortPairs pairs = sort_key sp_Size pairs"

definition add_ref :: "int \<Rightarrow> bufferManager \<Rightarrow> bufferManager" where
  "add_ref c bm = bm\<lparr>bm_refCount := bm_refCount bm + word_of_int c\<rparr>"

text \<open>The end that both ways of obtaining a manager share: build the manager on the mapping and
  enter it, or give the mapping back.\<close>

definition enter_manager :: "bool \<Rightarrow> sizePercentPair list \<Rightarrow> string \<Rightarrow> (bufferManager \<Rightarrow> bufferManager) \<Rightarrow> bytes \<Rightarrow> registry \<Rightarrow>
    ((go_error + bufferManager \<times> bytes) \<times> os_action list \<times> registry) option" where
  "enter_manager create pairs path fix mem reg = do {
     r \<leftarrow> (if create then createBufferManager (sortPairs pairs) path mem 0
          else map_option (map_sum id (\<lambda>bm. (bm, mem))) (mappingBufferManager path mem 0));
     case r of
       Inl err \<Rightarrow> Some (Inl err, [Munmap mem], reg)
     | Inr (bm, m) \<Rightarrow> Some (Inr (fix bm, m), [], reg_put path (fix bm, m) reg)
   }"

definition getGlobalBufferManagerWithMemFd :: "os_env \<Rightarrow> string \<Rightarrow> int \<Rightarrow> u32 \<Rightarrow> bool \<Rightarrow> sizePercentPair list \<Rightarrow> registry \<Rightarrow>
    ((go_error + bufferManager \<times> bytes) \<times> os_action list \<times> registry) option" where
  "getGlobalBufferManagerWithMemFd os bufferPathName memFd capacity create pairs reg = (case map_of reg bufferPathName of
     Some (bm, m) \<Rightarrow>
       let bm' = add_ref 1 bm
       in Some (Inr (bm', m), if memFd > 0 \<and> \<not> create then [CloseFd memFd] else [], reg_put bufferPathName (bm', m) reg)
   | None \<Rightarrow>
       let opened = (if create then
              (case os_MemfdCreate os bufferPathName of
                 Inl err \<Rightarrow> Inl (ErrMsg ''getGlobalBufferManagerWithMemFd MemfdCreate failed'')
               | Inr fd \<Rightarrow> (case os_Truncate os (unat capacity) of
                   Some err \<Rightarrow> Inl (ErrMsg ''getGlobalBufferManagerWithMemFd truncate share memory failed'')
                 | None \<Rightarrow> Inr (fd, capacity)))
            else
              (case os_Fstat os memFd of
                 Inl err \<Rightarrow> Inl (ErrMsg ''getGlobalBufferManagerWithMemFd mapping failed'')
               | Inr n \<Rightarrow> Inr (memFd, word_of_nat n)))
       in case opened of
            Inl err \<Rightarrow> Some (Inl err, [], reg)
          | Inr (fd, cap) \<Rightarrow> (case os_Mmap os (unat cap) of
              Inl err \<Rightarrow> Some (Inl (ErrMsg ''getGlobalBufferManagerWithMemFd Mmap failed''), [], reg)
            | Inr mem \<Rightarrow> enter_manager create pairs bufferPathName (\<lambda>bm. bm\<lparr>bm_memFd := fd, bm_mmapMapType := MemMapTypeMemFd\<rparr>) mem reg))"

definition getGlobalBufferManager :: "os_env \<Rightarrow> string \<Rightarrow> u32 \<Rightarrow> bool \<Rightarrow> sizePercentPair list \<Rightarrow> registry \<Rightarrow>
    ((go_error + bufferManager \<times> bytes) \<times> os_action list \<times> registry) option" where
  "getGlobalBufferManager os shmPath capacity create pairs reg = (case map_of reg shmPath of
     Some (bm, m) \<Rightarrow> let bm' = add_ref 1 bm in Some (Inr (bm', m), [], reg_put shmPath (bm', m) reg)
   | None \<Rightarrow>
       let opened = (if create then
              if \<not> canCreateOnDevShm os (ucast capacity) shmPath then Inl (ErrMsg ''share memory had not left space'')
              else (case os_Create os shmPath of
                 Some err \<Rightarrow> Inl err
               | None \<Rightarrow> (case os_Truncate os (unat capacity) of
                   Some err \<Rightarrow> Inl (ErrMsg ''getGlobalBufferManager truncate share memory failed'')
                 | None \<Rightarrow> Inr capacity))
            else
              (case os_Open os shmPath of
                 Some err \<Rightarrow> Inl err
               | None \<Rightarrow> (case os_Stat os shmPath of
                   Inl _ \<Rightarrow> Inl (ErrMsg ''getGlobalBufferManager mapping failed'')
                 | Inr fi \<Rightarrow> Inr (word_of_nat (fi_Size fi)))))
       in case opened of
            Inl err \<Rightarrow> Some (Inl err, [], reg)
          | Inr cap \<Rightarrow> (case os_Mmap os (unat cap) of
              Inl err \<Rightarrow> Some (Inl err, [], reg)
            | Inr mem \<Rightarrow> enter_manager create pairs shmPath id mem reg))"

subsection \<open>Unmapping\<close>

text \<open>The wait for the buffers to come back: \<open>view i\<close> is the shared memory at the \<open>i\<close>-th look. The result
  is the number of sleeps of 100 microseconds.\<close>

fun unmap_spin :: "nat \<Rightarrow> nat \<Rightarrow> bufferManager \<Rightarrow> (nat \<Rightarrow> bytes) \<Rightarrow> nat option" where
  "unmap_spin 0 i bm view = Some i"
| "unmap_spin (Suc n) i bm view = do {
     returned \<leftarrow> checkBufferReturned bm (view i);
     if returned then Some i else unmap_spin n (i + 1) bm view
   }"

definition bm_unmap :: "bufferManager \<Rightarrow> bytes \<Rightarrow> (nat \<Rightarrow> bytes) \<Rightarrow> (nat \<times> os_action list) option" where
  "bm_unmap bm mem view = do {
     slept \<leftarrow> unmap_spin 50 0 bm view;
     Some (slept, Munmap mem # (case bm_mmapMapType bm of
       MemMapTypeDevShmFile \<Rightarrow> [RemoveFile (bm_path bm)]
     | MemMapTypeMemFd \<Rightarrow> [CloseFd (bm_memFd bm)]))
   }"

definition addGlobalBufferManagerRefCount :: "string \<Rightarrow> int \<Rightarrow> (nat \<Rightarrow> bytes) \<Rightarrow> registry \<Rightarrow> (os_action list \<times> registry) option" where
  "addGlobalBufferManagerRefCount path c view reg = (case map_of reg path of
     None \<Rightarrow> Some ([], reg)
   | Some (bm, m) \<Rightarrow>
       let bm' = add_ref c bm
       in if sint (bm_refCount bm') \<le> 0
          then do { (slept, acts) \<leftarrow> bm_unmap bm' m view; Some (acts, reg_delete path reg) }
          else Some ([], reg_put path (bm', m) reg))"

subsection \<open>The count is the number of holders\<close>

lemma new_ref:
  "createBufferManager ps path mem off = Some (Inr (bm, m)) \<Longrightarrow> bm_refCount bm = 1"
  "mappingBufferManager path mem off = Some (Inr bm) \<Longrightarrow> bm_refCount bm = 1"
  by (auto simp: createBufferManager_def mappingBufferManager_def Let_def split: Option.bind_split_asm if_split_asm sum.split_asm prod.split_asm)

lemma enter_ok:
  assumes "enter_manager create pairs path fix mem reg = Some (r, acts, reg')" and "\<And>bm. bm_refCount (fix bm) = bm_refCount bm"
  shows "case r of Inl err \<Rightarrow> reg' = reg | Inr (bm, m) \<Rightarrow> bm_refCount bm = 1 \<and> reg' = reg_put path (bm, m) reg"
proof -
  obtain x where x: "(if create then createBufferManager (sortPairs pairs) path mem 0
      else map_option (map_sum id (\<lambda>bm. (bm, mem))) (mappingBufferManager path mem 0)) = Some x"
    and r: "(case x of Inl err \<Rightarrow> Some (Inl err, [Munmap mem], reg) | Inr (bm, m) \<Rightarrow> Some (Inr (fix bm, m), [], reg_put path (fix bm, m) reg)) = Some (r, acts, reg')"
    using assms(1) unfolding enter_manager_def bind_eq_Some_conv by blast
  show ?thesis
  proof (cases x)
    case (Inr e)
    then have "bm_refCount (fst e) = 1" using x new_ref by (cases e; cases "mappingBufferManager path mem 0") (auto split: if_splits simp: map_sum_def split: sum.split_asm)
    with Inr r assms(2) show ?thesis by (cases e) auto
  qed (use r in auto)
qed

text \<open>Obtaining a manager under a path: nothing changes on an error; otherwise the count of the entry
  goes up, or a new entry starts with one.\<close>

definition acquired :: "string \<Rightarrow> registry \<Rightarrow> go_error + bufferManager \<times> bytes \<Rightarrow> registry \<Rightarrow> bool" where
  "acquired path reg r reg' \<longleftrightarrow> (case r of
     Inl err \<Rightarrow> reg' = reg \<and> map_of reg path = None
   | Inr (bm, m) \<Rightarrow> reg' = reg_put path (bm, m) reg \<and> (case map_of reg path of
       Some (bm0, m0) \<Rightarrow> bm = add_ref 1 bm0 \<and> m = m0
     | None \<Rightarrow> bm_refCount bm = 1))"

lemma get_acquires:
  assumes "getGlobalBufferManager os path capacity create pairs reg = Some (r, acts, reg')"
  shows "acquired path reg r reg'"
proof (cases "map_of reg path")
  case None
  with assms show ?thesis
    by (auto simp: getGlobalBufferManager_def acquired_def Let_def split: if_splits option.splits sum.splits dest!: enter_ok)
next
  case (Some e)
  with assms show ?thesis by (auto simp: getGlobalBufferManager_def acquired_def Let_def split: prod.splits)
qed

lemma getFd_acquires:
  assumes "getGlobalBufferManagerWithMemFd os path fd capacity create pairs reg = Some (r, acts, reg')"
  shows "acquired path reg r reg'"
proof (cases "map_of reg path")
  case None
  with assms show ?thesis
    by (auto simp: getGlobalBufferManagerWithMemFd_def acquired_def Let_def split: if_splits option.splits sum.splits dest!: enter_ok)
next
  case (Some e)
  with assms show ?thesis by (auto simp: getGlobalBufferManagerWithMemFd_def acquired_def Let_def split: prod.splits)
qed

text \<open>The registries that arise when managers are obtained and given back; \<open>h\<close> counts the holders of each path.\<close>

inductive reg_reach :: "registry \<Rightarrow> (string \<Rightarrow> nat) \<Rightarrow> bool" where
  start: "reg_reach [] (\<lambda>_. 0)"
| got: "reg_reach reg h \<Longrightarrow> h path < 2 ^ 31 - 1 \<Longrightarrow> getGlobalBufferManager os path capacity create pairs reg = Some (r, acts, reg') \<Longrightarrow>
    reg_reach reg' (case r of Inl _ \<Rightarrow> h | Inr _ \<Rightarrow> h(path := h path + 1))"
| got_fd: "reg_reach reg h \<Longrightarrow> h path < 2 ^ 31 - 1 \<Longrightarrow> getGlobalBufferManagerWithMemFd os path fd capacity create pairs reg = Some (r, acts, reg') \<Longrightarrow>
    reg_reach reg' (case r of Inl _ \<Rightarrow> h | Inr _ \<Rightarrow> h(path := h path + 1))"
| released: "reg_reach reg h \<Longrightarrow> 0 < h path \<Longrightarrow> addGlobalBufferManagerRefCount path (- 1) view reg = Some (acts, reg') \<Longrightarrow>
    reg_reach reg' (h(path := h path - 1))"

definition reg_inv :: "registry \<Rightarrow> (string \<Rightarrow> nat) \<Rightarrow> bool" where
  "reg_inv reg h \<longleftrightarrow> (\<forall>path. case map_of reg path of
     None \<Rightarrow> h path = 0
   | Some (bm, m) \<Rightarrow> 0 < h path \<and> h path < 2 ^ 31 \<and> bm_refCount bm = word_of_nat (h path))"

lemma map_of_reg [simp]:
  "map_of (reg_put path e reg) p = (if p = path then Some e else map_of reg p)"
  "map_of (reg_delete path reg) p = (if p = path then None else map_of reg p)"
proof -
  have "map_of (filter (\<lambda>x. fst x \<noteq> path) reg) p = (if p = path then None else map_of reg p)" by (induction reg) auto
  then show "map_of (reg_put path e reg) p = (if p = path then Some e else map_of reg p)"
    "map_of (reg_delete path reg) p = (if p = path then None else map_of reg p)"
    by (simp_all add: reg_put_def reg_delete_def)
qed

lemma reg_invD:
  assumes "reg_inv reg h"
  shows "map_of reg path = None \<longleftrightarrow> h path = 0"
    and "map_of reg path = Some (bm, m) \<Longrightarrow> 0 < h path \<and> h path < 2 ^ 31 \<and> bm_refCount bm = word_of_nat (h path)"
proof -
  have "case map_of reg path of None \<Rightarrow> h path = 0 | Some (bm, m) \<Rightarrow> 0 < h path \<and> h path < 2 ^ 31 \<and> bm_refCount bm = word_of_nat (h path)"
    using assms unfolding reg_inv_def by (rule spec)
  then show "map_of reg path = None \<longleftrightarrow> h path = 0"
    "map_of reg path = Some (bm, m) \<Longrightarrow> 0 < h path \<and> h path < 2 ^ 31 \<and> bm_refCount bm = word_of_nat (h path)"
    by (auto split: option.splits)
qed

lemma inv_acquired:
  assumes i: "reg_inv reg h" and "h path < 2 ^ 31 - 1" and a: "acquired path reg r reg'"
  shows "reg_inv reg' (case r of Inl _ \<Rightarrow> h | Inr _ \<Rightarrow> h(path := h path + 1))"
proof (cases r)
  case (Inr e)
  obtain bm m where e: "e = (bm, m)" by (cases e)
  have c: "bm_refCount bm = word_of_nat (h path + 1)"
    using a Inr e reg_invD [OF i, of path] by (auto simp: acquired_def add_ref_def split: option.splits)
  show ?thesis
    unfolding reg_inv_def
  proof
    fix p show "case map_of reg' p of None \<Rightarrow> (case r of Inl _ \<Rightarrow> h | Inr _ \<Rightarrow> h(path := h path + 1)) p = 0
      | Some (bm, m) \<Rightarrow> 0 < (case r of Inl _ \<Rightarrow> h | Inr _ \<Rightarrow> h(path := h path + 1)) p \<and>
          (case r of Inl _ \<Rightarrow> h | Inr _ \<Rightarrow> h(path := h path + 1)) p < 2 ^ 31 \<and>
          bm_refCount bm = word_of_nat ((case r of Inl _ \<Rightarrow> h | Inr _ \<Rightarrow> h(path := h path + 1)) p)"
      using a Inr e c assms(2) reg_invD [OF i, of p] by (auto simp: acquired_def split: option.splits)
  qed
qed (use assms in \<open>simp add: acquired_def\<close>)

lemma count_pos:
  assumes "h < 2 ^ 31"
  shows "sint (word_of_nat h :: u32) = int h"
  using assms by (simp add: signed_of_nat signed_take_bit_int_eq_self)

lemma release_cases:
  assumes i: "reg_inv reg h" and "0 < h path" and r: "addGlobalBufferManagerRefCount path (- 1) view reg = Some (acts, reg')"
  obtains (last) bm m slept where "h path = 1" and "map_of reg path = Some (bm, m)" and "bm_unmap (add_ref (- 1) bm) m view = Some (slept, acts)" and "reg' = reg_delete path reg"
    | (kept) bm m where "1 < h path" and "map_of reg path = Some (bm, m)" and "acts = []" and "reg' = reg_put path (add_ref (- 1) bm, m) reg"
      and "bm_refCount (add_ref (- 1) bm) = word_of_nat (h path - 1)"
proof -
  obtain bm m where e: "map_of reg path = Some (bm, m)" using reg_invD(1) [OF i, of path] assms(2) by auto
  note d = reg_invD(2) [OF i e]
  have c: "bm_refCount (add_ref (- 1) bm) = word_of_nat (h path - 1)" using d by (simp add: add_ref_def of_nat_diff)
  have s: "sint (bm_refCount (add_ref (- 1) bm)) = int (h path - 1)" unfolding c by (rule count_pos) (use d in linarith)
  show thesis
  proof (cases "h path = 1")
    case True
    with r e s last show thesis by (auto simp: addGlobalBufferManagerRefCount_def Let_def bind_eq_Some_conv)
  next
    case False
    with assms(2) r e s c kept [of bm m] show thesis by (simp add: addGlobalBufferManagerRefCount_def Let_def)
  qed
qed

lemma reg_reach_inv: "reg_reach reg h \<Longrightarrow> reg_inv reg h"
proof (induction rule: reg_reach.induct)
  case (released reg h path view acts reg')
  from released(4,2,3) show ?case
  proof (cases rule: release_cases)
    case last
    then show ?thesis using reg_invD [OF released(4)] by (auto simp: reg_inv_def split: option.splits)
  next
    case kept
    then show ?thesis using reg_invD [OF released(4)] by (auto simp: reg_inv_def less_imp_diff_less split: option.splits)
  qed
next
  case start
  show ?case by (simp add: reg_inv_def)
next
  case got
  then show ?case by (intro inv_acquired get_acquires)
next
  case got_fd
  then show ?case by (intro inv_acquired getFd_acquires)
qed

subsection \<open>Properties\<close>

text \<open>
  C20. A shared manager lives exactly as long as it is held. Whatever sequence of sessions obtains
  and gives back buffer managers, as long as a path is held the table has one manager for it,
  further requests get this very memory without another mapping, and giving it back unmaps the
  memory and forgets the path exactly when the last holder leaves, and touches nothing before.
\<close>

theorem manager_shared_until_last:
  assumes "reg_reach reg h" and "0 < h path"
  shows "\<exists>bm m. map_of reg path = Some (bm, m) \<and>
    getGlobalBufferManager os path capacity create pairs reg = Some (Inr (add_ref 1 bm, m), [], reg_put path (add_ref 1 bm, m) reg) \<and>
    (\<forall>view acts reg'. addGlobalBufferManagerRefCount path (- 1) view reg = Some (acts, reg') \<longrightarrow>
       (if h path = 1 then map_of reg' path = None \<and> acts \<noteq> [] \<and> hd acts = Munmap m
        else acts = [] \<and> (\<exists>bm'. map_of reg' path = Some (bm', m))))"
proof -
  note i = reg_reach_inv [OF assms(1)]
  obtain bm m where e: "map_of reg path = Some (bm, m)" using reg_invD(1) [OF i, of path] assms(2) by auto
  have "if h path = 1 then map_of reg' path = None \<and> acts \<noteq> [] \<and> hd acts = Munmap m else acts = [] \<and> (\<exists>bm'. map_of reg' path = Some (bm', m))"
    if "addGlobalBufferManagerRefCount path (- 1) view reg = Some (acts, reg')" for view acts reg'
    using i assms(2) that by (cases rule: release_cases) (auto simp: e bm_unmap_def bind_eq_Some_conv)
  with e show ?thesis by (simp add: getGlobalBufferManager_def Let_def)
qed

definition demo_reg_os :: os_env where
  "demo_reg_os = \<lparr>os_GOOS = ''linux'', os_GOARCH = ''amd64'', os_Stat = (\<lambda>_. Inl False), os_Remove = (\<lambda>_. None),
     os_Create = (\<lambda>_. None), os_Open = (\<lambda>_. None), os_Truncate = (\<lambda>_. None), os_Mmap = (\<lambda>n. Inr (replicate n 0)),
     os_MemfdCreate = (\<lambda>_. Inr 3), os_Fstat = (\<lambda>_. Inr 96), os_DiskFree = Some 1000000\<rparr>"

theorem manager_shared_until_last_witness:
  "\<exists>reg bm m reg'. getGlobalBufferManager demo_reg_os ''b'' 400 True demo_pairs [] = Some (Inr (bm, m), [], reg) \<and>
    getGlobalBufferManager demo_reg_os ''b'' 400 True demo_pairs reg = Some (Inr (add_ref 1 bm, m), [], reg')"
proof -
  obtain bm m where c: "createBufferManager demo_pairs ''b'' (replicate 400 0) 0 = Some (Inr (bm, m))" by (rule demo_buffers)
  have "sortPairs demo_pairs = demo_pairs" by (simp add: sortPairs_def demo_pairs_def)
  with c have g: "getGlobalBufferManager demo_reg_os ''b'' 400 True demo_pairs [] = Some (Inr (bm, m), [], reg_put ''b'' (bm, m) [])"
    by (simp add: getGlobalBufferManager_def demo_reg_os_def canCreateOnDevShm_def enter_manager_def)
  have r: "reg_reach (reg_put ''b'' (bm, m) []) ((\<lambda>_. 0)(''b'' := 1))" using reg_reach.got [OF start _ g] by simp
  from manager_shared_until_last [OF r, of "''b''" demo_reg_os 400 True demo_pairs] g show ?thesis by auto
qed

text \<open>The look at the lists answers, and yes only when every slot of every list is free.\<close>

lemma lists_returned_ok:
  assumes "lists_inv ct off ds fss m" and "ct = 20 \<or> ct = 24"
  shows "\<exists>b. lists_returned (lists_at ct off ds (length m)) m = Some b \<and> (b \<longrightarrow> list_all2 (\<lambda>fs d. length fs = fst d) fss ds)"
  using assms
proof (induction ds arbitrary: off fss)
  case (Cons d ds)
  then obtain fs fss' where f: "fss = fs # fss'" "free_list (list_at ct off (fst d) (snd d) (length m)) (fst d) (snd d) m fs"
    "lists_inv ct (off + list_bytes d) ds fss' m" by (auto split: list.splits)
  from Cons.IH [OF f(3) Cons.prems(2)] obtain b where
    b: "lists_returned (lists_at ct (off + list_bytes d) ds (length m)) m = Some b" "b \<longrightarrow> list_all2 (\<lambda>fs d. length fs = fst d) fss' ds" by blast
  let ?l = "list_at ct off (fst d) (snd d) (length m)"
  have l: "list_layout ?l (fst d) (snd d) (length m)" "rd m (bl_cap ?l) = (word_of_nat (fst d) :: u32)" "rd m (bl_size ?l) = (word_of_nat (length fs) :: u32)"
    "distinct fs" "\<forall>x \<in> set fs. slot (fst d) (snd d) x" using f(2) by (simp_all add: free_list_def list_wf_def)
  note sb = size_bound [OF l(1,4,5)]
  have e: "word_of_nat (length fs) = (word_of_nat (fst d) :: u32) \<longleftrightarrow> length fs = fst d"
  proof
    assume "word_of_nat (length fs) = (word_of_nat (fst d) :: u32)"
    then have "unat (word_of_nat (length fs) :: u32) = unat (word_of_nat (fst d) :: u32)" by simp
    moreover have "length fs < 2 ^ 32" "fst d < 2 ^ 32" using sb by simp_all
    ultimately show "length fs = fst d" using unat_of_nat32 [of "length fs"] unat_of_nat32 [of "fst d"] by linarith
  qed simp
  have "bl_counter ?l + 4 \<le> length m" "bl_cap ?l + 4 \<le> length m" "bl_size ?l + 4 \<le> length m" using l(1) Cons.prems(2) by (auto simp: list_layout_def list_at_def)
  then obtain c where "mload m (bl_counter ?l) = Some (c :: u32)" "mload m (bl_cap ?l) = Some (word_of_nat (fst d) :: u32)" "mload m (bl_size ?l) = Some (word_of_nat (length fs) :: u32)"
    using l(2,3) by (simp add: mload_def)
  with b e f(1) show ?case by auto
qed auto

lemma unmap_ok:
  assumes "\<And>i. mgr_inv ct bm ds (fs i) (view i)"
  shows "\<exists>slept acts. bm_unmap bm mem view = Some (slept, Munmap mem # acts) \<and> slept \<le> 50 \<and>
    (\<forall>i < slept. checkBufferReturned bm (view i) = Some False) \<and>
    (slept < 50 \<longrightarrow> checkBufferReturned bm (view slept) = Some True \<and> list_all2 (\<lambda>f d. length f = fst d) (fs slept) ds)"
proof -
  have look: "\<exists>b. checkBufferReturned bm (view i) = Some b \<and> (b \<longrightarrow> list_all2 (\<lambda>f d. length f = fst d) (fs i) ds)" for i
    using assms [of i] lists_returned_ok [of ct 8 ds "fs i" "view i"] by (auto simp: mgr_inv_def checkBufferReturned_def)
  have "\<exists>k. unmap_spin n i bm view = Some k \<and> i \<le> k \<and> k \<le> i + n \<and> (\<forall>j. i \<le> j \<and> j < k \<longrightarrow> checkBufferReturned bm (view j) = Some False) \<and>
      (k < i + n \<longrightarrow> checkBufferReturned bm (view k) = Some True)" for n i
  proof (induction n arbitrary: i)
    case (Suc n)
    obtain b where b: "checkBufferReturned bm (view i) = Some b" using look by blast
    obtain k where k: "unmap_spin n (i + 1) bm view = Some k" "i + 1 \<le> k" "k \<le> i + 1 + n"
      "\<forall>j. i + 1 \<le> j \<and> j < k \<longrightarrow> checkBufferReturned bm (view j) = Some False" "k < i + 1 + n \<longrightarrow> checkBufferReturned bm (view k) = Some True"
      using Suc.IH [of "i + 1"] by blast
    have "checkBufferReturned bm (view j) = Some False" if "\<not> b" "i \<le> j" "j < k" for j
      using that b k(4) by (cases "i = j") auto
    with b k show ?case by (cases b) (auto intro!: exI [of _ k])
  qed auto
  from this [of 50 0] obtain k where k: "unmap_spin 50 0 bm view = Some k" "k \<le> 50"
    "\<forall>j < k. checkBufferReturned bm (view j) = Some False" "k < 50 \<longrightarrow> checkBufferReturned bm (view k) = Some True" by auto
  with look [of k] show ?thesis by (auto simp: bm_unmap_def)
qed



end
