(* ===== verification/Handshake.thy ===== *)
theory Handshake
  imports Buffer_Registry Session_Config Message_Delivery
begin

text \<open>
  The handshake of a session: blocking input and output on the socket (\<^verbatim>\<open>block_io.go\<close>), the metadata
  that names the shared memory (\<^verbatim>\<open>session.go\<close>), the choice of the protocol version and the two
  initializers (\<^verbatim>\<open>protocol_manager.go\<close>, \<^verbatim>\<open>protocol_initializer.go\<close>), up to \<^verbatim>\<open>newSession\<close>.

  A party of the handshake has its world, its table of buffer managers, and its end of the
  socket. A step gives a result or an error, or it panics, or it waits for bytes that have
  not arrived.
\<close>

subsection \<open>The socket\<close>

text \<open>What a read finds after the segments that have arrived: the peer has closed, an error, or nothing yet.\<close>

datatype read_end = EndEOF | EndErr go_error | EndWait

text \<open>
  \<open>pt_segs\<close> are the arrived segments; a read returns bytes of the first one only. \<open>pt_room\<close> says
  how many bytes the next writes take, or that they fail; when it is used up, writes take
  everything. Control messages carry file descriptors: \<open>pt_oob\<close> are the answers of the
  next \<^verbatim>\<open>Recvmsg\<close> calls, the length received and what parsing it gives.
\<close>

type_synonym oob_parsed = "go_error + (go_error + int list) list"

record party =
  pt_w :: world
  pt_reg :: registry
  pt_segs :: "bytes list"
  pt_end :: read_end
  pt_room :: "(go_error + nat) list"
  pt_out :: bytes
  pt_oob :: "(go_error + nat \<times> oob_parsed) list"
  pt_fds :: "int list list"
  pt_acts :: "os_action list"

datatype 'a hs = HsOk 'a | HsErr go_error | HsWait | HsPanic

type_synonym 'a step = "party \<Rightarrow> 'a hs \<times> party"

definition hs_ret :: "'a \<Rightarrow> 'a step" where
  "hs_ret a pt = (HsOk a, pt)"

definition hs_fail :: "go_error \<Rightarrow> 'a step" where
  "hs_fail e pt = (HsErr e, pt)"

definition hs_bind :: "'a step \<Rightarrow> ('a \<Rightarrow> 'b step) \<Rightarrow> 'b step" where
  "hs_bind m f pt = (case m pt of (r, pt') \<Rightarrow> (case r of
     HsOk a \<Rightarrow> f a pt' | HsErr e \<Rightarrow> (HsErr e, pt') | HsWait \<Rightarrow> (HsWait, pt') | HsPanic \<Rightarrow> (HsPanic, pt')))"

text \<open>A computation that panics on \<open>None\<close>, and reading and changing the party.\<close>

definition hs_of :: "'a option \<Rightarrow> 'a step" where
  "hs_of x pt = (case x of None \<Rightarrow> (HsPanic, pt) | Some a \<Rightarrow> (HsOk a, pt))"

definition hs_get :: "(party \<Rightarrow> 'a step) \<Rightarrow> 'a step" where
  "hs_get f pt = f pt pt"

definition hs_upd :: "(party \<Rightarrow> party) \<Rightarrow> unit step" where
  "hs_upd f pt = (HsOk (), f pt)"

text \<open>The error of a step in other words, as the wrapped errors of the code.\<close>

definition hs_wrap :: "string \<Rightarrow> 'a step \<Rightarrow> 'a step" where
  "hs_wrap msg m pt = (case m pt of (HsErr e, pt') \<Rightarrow> (HsErr (ErrMsg msg), pt') | x \<Rightarrow> x)"

definition ErrEOF :: go_error where "ErrEOF = ErrMsg ''EOF''"

fun read_full :: "nat \<Rightarrow> bytes \<Rightarrow> bytes list \<Rightarrow> read_end \<Rightarrow> bytes hs \<times> bytes list" where
  "read_full need got segs e =
     (if need = 0 then (HsOk got, segs)
      else case segs of
        [] \<Rightarrow> (case e of EndEOF \<Rightarrow> HsErr ErrEOF | EndErr err \<Rightarrow> HsErr (ErrMsg ''ReadFull failed'') | EndWait \<Rightarrow> HsWait, [])
      | s # ss \<Rightarrow>
          if s = [] then (HsErr ErrEOF, ss)
          else if need < length s then (HsOk (got @ take need s), drop need s # ss)
          else read_full (need - length s) (got @ s) ss e)"

declare read_full.simps [simp del]

definition blockReadFull :: "nat \<Rightarrow> bytes step" where
  "blockReadFull n pt = (case read_full n [] (pt_segs pt) (pt_end pt) of (r, segs) \<Rightarrow> (r, pt\<lparr>pt_segs := segs\<rparr>))"

fun write_full :: "bytes \<Rightarrow> bytes \<Rightarrow> (go_error + nat) list \<Rightarrow> unit hs \<times> bytes \<times> (go_error + nat) list" where
  "write_full data out [] = (HsOk (), out @ data, [])"
| "write_full data out (r # rs) =
     (if data = [] then (HsOk (), out, r # rs)
      else case r of
        Inl e \<Rightarrow> (HsErr e, out, rs)
      | Inr n \<Rightarrow> write_full (drop n data) (out @ take n data) rs)"

definition blockWriteFull :: "bytes \<Rightarrow> unit step" where
  "blockWriteFull data pt = (case write_full data (pt_out pt) (pt_room pt) of (r, out, room) \<Rightarrow> (r, pt\<lparr>pt_out := out, pt_room := room\<rparr>))"

definition sendFd :: "int list \<Rightarrow> unit step" where
  "sendFd fds pt = (HsOk (), pt\<lparr>pt_fds := pt_fds pt @ [fds]\<rparr>)"

definition blockReadOutOfBoundForFd :: "(nat \<times> oob_parsed) step" where
  "blockReadOutOfBoundForFd pt = (case pt_oob pt of
     [] \<Rightarrow> (HsWait, pt)
   | r # rs \<Rightarrow> ((case r of Inl e \<Rightarrow> HsErr e | Inr x \<Rightarrow> HsOk x), pt\<lparr>pt_oob := rs\<rparr>))"

definition blockReadEventHeader :: "bytes step" where
  "blockReadEventHeader =
     hs_bind (blockReadFull headerSize) (\<lambda>buf.
     hs_bind (hs_of (checkEventValid buf)) (\<lambda>err.
     case err of Some e \<Rightarrow> hs_fail e | None \<Rightarrow> hs_ret buf))"

definition waitEventHeader :: "u8 \<Rightarrow> bytes step" where
  "waitEventHeader expect =
     hs_bind blockReadEventHeader (\<lambda>h.
     hs_bind (hs_of (hdr_MsgType h)) (\<lambda>t.
     if t \<noteq> expect then hs_fail (ErrMsg ''expect eventType'') else hs_ret h))"

subsection \<open>The names of the shared memory\<close>

definition str_bytes :: "string \<Rightarrow> bytes" where
  "str_bytes s = map (\<lambda>c. word_of_nat (of_char c)) s"

definition bytes_str :: "bytes \<Rightarrow> string" where
  "bytes_str bs = map (\<lambda>b. char_of (unat b)) bs"

definition generateShmMetadata :: "u8 \<Rightarrow> world \<Rightarrow> bytes option" where
  "generateShmMetadata t w = do {
     qm \<leftarrow> queueManager_of (ses w);
     bm \<leftarrow> bufferManager_of (ses w);
     let queuePath = str_bytes (qm_path qm);
     let bufferPath = str_bytes (bm_path bm);
     let data = replicate (headerSize + 2 + length queuePath + 2 + length bufferPath) 0;
     let offset = headerSize;
     d1 \<leftarrow> put_at data offset (be_put (word_of_nat (length queuePath) :: u16));
     let offset = offset + 2;
     d2 \<leftarrow> put_at d1 offset queuePath;
     let offset = offset + length queuePath;
     d3 \<leftarrow> put_at d2 offset (be_put (word_of_nat (length bufferPath) :: u16));
     let offset = offset + 2;
     d4 \<leftarrow> put_at d3 offset bufferPath;
     header_encode d4 (word_of_nat (length d4)) (communicationVersion (ses w)) t
   }"

text \<open>The path of the buffers and the path of the queues.\<close>

definition extractShmMetadata :: "bytes \<Rightarrow> (string \<times> string) option" where
  "extractShmMetadata body = do {
     lo \<leftarrow> sub body 0 2;
     n \<leftarrow> (be_get lo :: u16 option);
     let queuePathLen = unat n;
     let offset = 2;
     queuePath \<leftarrow> sub body offset (offset + queuePathLen);
     let offset = offset + queuePathLen;
     lo \<leftarrow> sub body offset (offset + 2);
     n \<leftarrow> (be_get lo :: u16 option);
     let bufferPathLen = unat n;
     let offset = offset + 2;
     bufferPath \<leftarrow> sub body offset (offset + bufferPathLen);
     Some (bytes_str bufferPath, bytes_str queuePath)
   }"

definition pt_ses :: "(Session \<Rightarrow> Session) \<Rightarrow> party \<Rightarrow> party" where
  "pt_ses f pt = pt\<lparr>pt_w := upd_ses f (pt_w pt)\<rparr>"

definition sendShareMemoryByFilePath :: "unit step" where
  "sendShareMemoryByFilePath = hs_get (\<lambda>pt.
     hs_bind (hs_of (generateShmMetadata typeShareMemoryByFilePath (pt_w pt))) blockWriteFull)"

definition sendMemFdToPeer :: "unit step" where
  "sendMemFdToPeer = hs_get (\<lambda>pt.
     hs_bind (hs_of (generateShmMetadata typeShareMemoryByMemfd (pt_w pt))) (\<lambda>event.
     hs_bind (blockWriteFull event) (\<lambda>_.
     hs_bind (waitEventHeader typeAckReadyRecvFD) (\<lambda>_.
     hs_bind (hs_of (bufferManager_of (ses (pt_w pt)))) (\<lambda>bm.
     hs_bind (hs_of (queueManager_of (ses (pt_w pt)))) (\<lambda>qm.
     sendFd [bm_memFd bm, qm_memFd qm]))))))"

subsection \<open>The handlers of the server\<close>

text \<open>The body of an event, whose length is a 32-bit difference.\<close>

definition read_body :: "bytes \<Rightarrow> bytes step" where
  "read_body h = hs_bind (hs_of (hdr_Length h)) (\<lambda>len. blockReadFull (unat (len - word_of_nat headerSize)))"

text \<open>The results of the functions that give queues and buffers, and entering them in the session.\<close>

definition obtain_queue :: "(go_error + queueManager \<times> bytes) option \<Rightarrow> (queueManager \<times> bytes) step" where
  "obtain_queue r = hs_bind (hs_of r) (case_sum hs_fail hs_ret)"

definition obtain_buffers :: "(registry \<Rightarrow> ((go_error + bufferManager \<times> bytes) \<times> os_action list \<times> registry) option) \<Rightarrow> (bufferManager \<times> bytes) step" where
  "obtain_buffers f = hs_get (\<lambda>pt. hs_bind (hs_of (f (pt_reg pt))) (\<lambda>(r, acts, reg).
     hs_bind (hs_upd (\<lambda>pt. pt\<lparr>pt_reg := reg, pt_acts := pt_acts pt @ acts\<rparr>)) (\<lambda>_. case_sum hs_fail hs_ret r)))"

definition set_queue :: "queueManager \<times> bytes \<Rightarrow> unit step" where
  "set_queue x = hs_upd (\<lambda>pt. pt\<lparr>pt_w := upd_ses (\<lambda>s. s\<lparr>queueManager_of := Some (fst x)\<rparr>) (pt_w pt\<lparr>qmem := snd x\<rparr>)\<rparr>)"

definition set_buffers :: "bufferManager \<times> bytes \<Rightarrow> unit step" where
  "set_buffers x = hs_upd (\<lambda>pt. pt\<lparr>pt_w := upd_ses (\<lambda>s. s\<lparr>bufferManager_of := Some (fst x)\<rparr>) (pt_w pt\<lparr>bmem := snd x\<rparr>)\<rparr>)"

definition handleShareMemoryByFilePath :: "os_env \<Rightarrow> bytes \<Rightarrow> unit step" where
  "handleShareMemoryByFilePath os hdr =
     hs_bind (read_body hdr) (\<lambda>body.
     hs_bind (hs_of (extractShmMetadata body)) (\<lambda>(bufferPath, queuePath).
     hs_bind (hs_wrap ''handleShareMemoryByFilePath mappingQueueManager failed'' (obtain_queue (mappingQueueManager os queuePath))) (\<lambda>qm.
     hs_bind (set_queue qm) (\<lambda>_.
     hs_bind (hs_wrap ''handleShareMemoryByFilePath mappingBufferManager failed'' (obtain_buffers (getGlobalBufferManager os bufferPath 0 False []))) (\<lambda>bm.
     hs_bind (set_buffers bm) (\<lambda>_.
     hs_upd (pt_ses (\<lambda>s. s\<lparr>handshakeDone := True\<rparr>))))))))"

definition memfdCount :: nat where [consts_defs]: "memfdCount = 2"

text \<open>\<open>space\<close> is \<^verbatim>\<open>CmsgSpace\<close> of the two descriptors.\<close>

definition handleShareMemoryByMemFd :: "os_env \<Rightarrow> nat \<Rightarrow> bytes \<Rightarrow> unit step" where
  "handleShareMemoryByMemFd os space h =
     hs_bind (hs_wrap ''read shm metadata failed'' (read_body h)) (\<lambda>body.
     hs_bind (hs_of (extractShmMetadata body)) (\<lambda>(bufferPath, queuePath).
     hs_bind (hs_get (\<lambda>pt. hs_bind (hs_of (header_encode (replicate headerSize 0) (word_of_nat headerSize) (communicationVersion (ses (pt_w pt))) typeAckReadyRecvFD))
       (\<lambda>ack. hs_wrap ''send ack typeAckReadyRecvFD failed'' (blockWriteFull ack)))) (\<lambda>_.
     hs_bind (hs_wrap ''try recv fd from peer failed'' blockReadOutOfBoundForFd) (\<lambda>(oobn, parsed).
     if oobn \<noteq> space then hs_fail (ErrMsg ''handleShareMemoryByMemFd failed'')
     else case parsed of
       Inl e \<Rightarrow> hs_fail (ErrMsg ''parse socket control message failed'')
     | Inr [] \<Rightarrow> hs_fail (ErrMsg ''parse socket control message ret is nil'')
     | Inr (Inl e # _) \<Rightarrow> hs_fail (ErrMsg ''parse fd from unix domain failed'')
     | Inr (Inr fds # _) \<Rightarrow>
         if length fds < memfdCount then hs_fail (ErrMsg ''the number of memfd received is wrong'')
         else
           hs_bind (obtain_queue (mappingQueueManagerMemfd os queuePath (fds ! 1))) (\<lambda>qm.
           hs_bind (set_queue qm) (\<lambda>_.
           hs_bind (obtain_buffers (getGlobalBufferManagerWithMemFd os bufferPath (fds ! 0) 0 False [])) (\<lambda>bm.
           hs_bind (set_buffers bm) (\<lambda>_.
           hs_upd (pt_ses (\<lambda>s. s\<lparr>handshakeDone := True\<rparr>))))))))))"

definition handleExchangeVersion :: "bytes \<Rightarrow> unit step" where
  "handleExchangeVersion h =
     hs_bind (hs_of (header_encode (replicate headerSize 0) (word_of_nat headerSize) maxSupportProtoVersion typeExchangeProtoVersion)) (\<lambda>resp.
     hs_bind (hs_of (hdr_Version h)) (\<lambda>v.
     hs_bind (hs_upd (pt_ses (\<lambda>s. s\<lparr>communicationVersion := word_of_int (minInt (uint v) (uint maxSupportProtoVersion))\<rparr>))) (\<lambda>_.
     blockWriteFull resp)))"

subsection \<open>The initializers\<close>

datatype protocolInitializer = InitializerV2 "bytes option" | InitializerV3 "bytes option"

fun initializer_Version :: "protocolInitializer \<Rightarrow> u8" where
  "initializer_Version (InitializerV2 _) = 2"
| "initializer_Version (InitializerV3 _) = 3"

text \<open>The type of the first event; reading a header that is nil panics.\<close>

definition first_type :: "bytes option \<Rightarrow> u8 step" where
  "first_type first = hs_bind (hs_of first) (\<lambda>h. hs_of (hdr_MsgType h))"

definition initV2 :: "os_env \<Rightarrow> bytes option \<Rightarrow> unit step" where
  "initV2 os first = hs_get (\<lambda>pt.
     if \<not> isClient (ses (pt_w pt)) then
       hs_bind (first_type first) (\<lambda>t.
       if t \<noteq> typeShareMemoryByFilePath then hs_fail (ErrMsg ''protocolInitializerV2 expect first event'')
       else hs_bind (hs_of first) (handleShareMemoryByFilePath os))
     else sendShareMemoryByFilePath)"

text \<open>The second and the third part of \<^verbatim>\<open>serverInit\<close>.\<close>

definition recvShareMemory :: "os_env \<Rightarrow> nat \<Rightarrow> unit step" where
  "recvShareMemory os space =
     hs_bind (hs_wrap ''protocolInitializerV3 blockReadEventHeader failed'' blockReadEventHeader) (\<lambda>h.
     hs_bind (hs_of (hdr_MsgType h)) (\<lambda>t.
     if t = typeShareMemoryByFilePath then handleShareMemoryByFilePath os h
     else if t = typeShareMemoryByMemfd then handleShareMemoryByMemFd os space h
     else hs_fail (ErrMsg ''expect event type is typeShareMemoryByFilePath or typeShareMemoryByMemfd'')))"

definition ackShareMemory :: "unit step" where
  "ackShareMemory = hs_get (\<lambda>pt.
     hs_bind (hs_of (header_encode (replicate headerSize 0) (word_of_nat headerSize) (communicationVersion (ses (pt_w pt))) typeAckShareMemory)) blockWriteFull)"

definition serverInit :: "os_env \<Rightarrow> nat \<Rightarrow> bytes option \<Rightarrow> unit step" where
  "serverInit os space first =
     hs_bind (first_type first) (\<lambda>t.
     if t \<noteq> typeExchangeProtoVersion then hs_fail (ErrMsg ''protocolInitializerV3 expect firsts event'')
     else
       hs_bind (hs_wrap ''protocolInitializerV3 exchangeVersion failed'' (hs_bind (hs_of first) handleExchangeVersion)) (\<lambda>_.
       hs_bind (recvShareMemory os space) (\<lambda>_. ackShareMemory)))"

definition clientInit :: "memMapType \<Rightarrow> unit step" where
  "clientInit memType =
     hs_bind (case memType of MemMapTypeDevShmFile \<Rightarrow> sendShareMemoryByFilePath | MemMapTypeMemFd \<Rightarrow> sendMemFdToPeer) (\<lambda>_.
     hs_bind (waitEventHeader typeAckShareMemory) (\<lambda>_. hs_ret ()))"

definition initV3 :: "os_env \<Rightarrow> nat \<Rightarrow> memMapType \<Rightarrow> bytes option \<Rightarrow> unit step" where
  "initV3 os space memType first = hs_get (\<lambda>pt.
     if isClient (ses (pt_w pt)) then clientInit memType else serverInit os space first)"

fun initializer_Init :: "os_env \<Rightarrow> nat \<Rightarrow> memMapType \<Rightarrow> protocolInitializer \<Rightarrow> unit step" where
  "initializer_Init os space memType (InitializerV2 first) = initV2 os first"
| "initializer_Init os space memType (InitializerV3 first) = initV3 os space memType first"

definition createProtoVersionInitializer :: "u8 \<Rightarrow> bytes option \<Rightarrow> protocolInitializer step" where
  "createProtoVersionInitializer version first =
     (if version = 2 then hs_ret (InitializerV2 first)
      else if version = 3 then hs_ret (InitializerV3 first)
      else hs_fail (ErrMsg ''not support the protocol version''))"

definition clientGetProtocolInitializer :: "memMapType \<Rightarrow> protocolInitializer step" where
  "clientGetProtocolInitializer memType =
     (if memType = MemMapTypeDevShmFile then hs_ret (InitializerV2 None)
      else
        hs_bind (hs_of (header_encode (replicate headerSize 0) (word_of_nat headerSize) maxSupportProtoVersion typeExchangeProtoVersion)) (\<lambda>h.
        hs_bind (blockWriteFull h) (\<lambda>_.
        hs_bind (hs_wrap ''protocolInitializerV3 clientInit failed'' (waitEventHeader typeExchangeProtoVersion)) (\<lambda>recvHeader.
        hs_bind (hs_of (hdr_Version recvHeader)) (\<lambda>serverVersion.
        createProtoVersionInitializer (word_of_int (minInt (uint maxSupportProtoVersion) (uint serverVersion))) None)))))"

definition serverGetProtocolInitializer :: "protocolInitializer step" where
  "serverGetProtocolInitializer =
     hs_bind blockReadEventHeader (\<lambda>h.
     hs_bind (hs_of (hdr_Version h)) (\<lambda>v. createProtoVersionInitializer v (Some h)))"

definition getProtocolInitializer :: "memMapType \<Rightarrow> protocolInitializer step" where
  "getProtocolInitializer memType = hs_get (\<lambda>pt.
     if isClient (ses (pt_w pt)) then clientGetProtocolInitializer memType else serverGetProtocolInitializer)"

text \<open>The goroutine of \<^verbatim>\<open>initProtocol\<close>, and \<^verbatim>\<open>initProtocol\<close> itself, which gives up when the goroutine is still waiting
  after \<^verbatim>\<open>InitializeTimeout\<close>.\<close>

definition protocol_goroutine :: "os_env \<Rightarrow> nat \<Rightarrow> memMapType \<Rightarrow> unit step" where
  "protocol_goroutine os space memType =
     hs_bind (hs_wrap ''getProtocolInitializer failed'' (getProtocolInitializer memType)) (\<lambda>i.
     hs_bind (hs_upd (pt_ses (\<lambda>s. s\<lparr>communicationVersion := initializer_Version i\<rparr>))) (\<lambda>_.
     initializer_Init os space memType i))"

definition initProtocol :: "os_env \<Rightarrow> nat \<Rightarrow> memMapType \<Rightarrow> unit step" where
  "initProtocol os space memType pt = (case protocol_goroutine os space memType pt of
     (HsWait, pt') \<Rightarrow> (HsErr (ErrMsg ''protocolInitializer init timeout''), pt')
   | x \<Rightarrow> x)"

subsection \<open>A new session\<close>

definition bufferPathSuffix :: string where "bufferPathSuffix = ''_buffer''"

text \<open>On an error of a step, remove a file and give another error.\<close>

definition hs_remove :: "string \<Rightarrow> string \<Rightarrow> 'a step \<Rightarrow> 'a step" where
  "hs_remove file msg m pt = (case m pt of
     (HsErr e, pt') \<Rightarrow> (HsErr (ErrMsg msg), pt'\<lparr>pt_acts := pt_acts pt' @ [RemoveFile file]\<rparr>)
   | x \<Rightarrow> x)"

definition initMemManager :: "os_env \<Rightarrow> Config \<Rightarrow> unit step" where
  "initMemManager os cfg = hs_get (\<lambda>pt.
     if \<not> isClient (ses (pt_w pt)) then hs_ret ()
     else
       let bufferPath = ShareMemoryPathPrefix cfg @ bufferPathSuffix in
       hs_bind (case cfg_MemMapType cfg of
         MemMapTypeDevShmFile \<Rightarrow>
           hs_bind (hs_remove bufferPath ''create share memory buffer manager failed''
             (obtain_buffers (getGlobalBufferManager os bufferPath (ShareMemoryBufferCap cfg) True (BufferSliceSizes cfg)))) (\<lambda>bm.
           hs_bind (hs_remove (QueuePath cfg) ''create share memory queue manager failed''
             (obtain_queue (createQueueManager os (QueuePath cfg) (QueueCap cfg)))) (\<lambda>qm. hs_ret (bm, qm)))
       | MemMapTypeMemFd \<Rightarrow>
           hs_bind (hs_wrap ''create share memory buffer manager failed''
             (obtain_buffers (getGlobalBufferManagerWithMemFd os bufferPath 0 (ShareMemoryBufferCap cfg) True (BufferSliceSizes cfg)))) (\<lambda>bm.
           hs_bind (hs_wrap ''create share memory queue manager failed''
             (obtain_queue (createQueueManagerWithMemFd os (QueuePath cfg) (QueueCap cfg)))) (\<lambda>qm. hs_ret (bm, qm)))) (\<lambda>(bm, qm).
       hs_bind (set_buffers bm) (\<lambda>_. set_queue qm)))"

definition qm_unmap :: "queueManager \<Rightarrow> bytes \<Rightarrow> os_action list" where
  "qm_unmap qm mem = Munmap mem # (case qm_mmapMapType qm of
     MemMapTypeDevShmFile \<Rightarrow> [RemoveFile (qm_path qm)]
   | MemMapTypeMemFd \<Rightarrow> [CloseFd (qm_memFd qm)])"

text \<open>What is undone when the protocol fails.\<close>

definition undo_session :: "(nat \<Rightarrow> bytes) \<Rightarrow> unit step" where
  "undo_session view pt =
     (let w = pt_w pt;
          pt1 = (case queueManager_of (ses w) of None \<Rightarrow> pt | Some qm \<Rightarrow> pt\<lparr>pt_acts := pt_acts pt @ qm_unmap qm (qmem w)\<rparr>)
      in case bufferManager_of (ses w) of
           None \<Rightarrow> (HsOk (), pt1)
         | Some bm \<Rightarrow> (case addGlobalBufferManagerRefCount (bm_path bm) (- 1) view (pt_reg pt1) of
             None \<Rightarrow> (HsPanic, pt1)
           | Some (acts, reg) \<Rightarrow> (HsOk (), pt1\<lparr>pt_reg := reg, pt_acts := pt_acts pt1 @ acts\<rparr>)))"

definition initial_session :: "bool \<Rightarrow> bool \<Rightarrow> Session" where
  "initial_session dbg client = \<lparr>nextStreamID = (if client then 1 else 2), eventConn = (\<lambda>_. None), eventOut = [], streams = Some [], acceptCh = [], sendCh = [],
     notifyContinueWriteCh = False, shutdown = False, shutdownErr = None, shutdownCh = False, isClient = client, handshakeDone = False,
     unhealthy = False, writing = False, bufferManager_of = None, queueManager_of = None, communicationVersion = protoVersion,
     ss_name = [], ss_state = defaultState, sessionID = 0, epochID = 0, randID = 0, listenCallback = False, debugMode = dbg,
     posted = [], cb_trace = []\<rparr>"

definition initial_world :: "bool \<Rightarrow> bool \<Rightarrow> world" where
  "initial_world dbg client = \<lparr>ses = initial_session dbg client, listener_of = None, objs = Map.empty, nobj = 0, bmem = [], qmem = []\<rparr>"

text \<open>
  \<open>unixConn\<close> is whether the connection is a unix domain socket, \<open>dup\<close> and \<open>cb\<close> are the results of
  duplicating its descriptor and of registering the callback, \<open>conn\<close> is how the dispatcher
  writes to the descriptor, \<open>dbg\<close> is the debug mode of the process, and \<open>view\<close> shows the shared memory
  while a session that failed waits for its buffers.
\<close>

definition newSession :: "os_env \<Rightarrow> nat \<Rightarrow> Config option \<Rightarrow> bool \<Rightarrow> go_error option \<Rightarrow> go_error option \<Rightarrow> (bytes \<Rightarrow> go_error option) \<Rightarrow>
    bool \<Rightarrow> (nat \<Rightarrow> bytes) \<Rightarrow> bool \<Rightarrow> world step" where
  "newSession os space config unixConn dup cb conn dbg view client =
     (let cfg = (case config of None \<Rightarrow> DefaultConfig | Some c \<Rightarrow> c) in
      case VerifyConfig os cfg of
        Some e \<Rightarrow> hs_fail (ErrMsg ''VerifyConfig failed'')
      | None \<Rightarrow>
          if cfg_MemMapType cfg = MemMapTypeMemFd \<and> \<not> unixConn
          then hs_fail (ErrMsg ''conn.Network must be unix when config.MemMapType is MemMapTypeMemFd'')
          else case dup of Some e \<Rightarrow> hs_fail (ErrMsg ''could get fd from conn'')
          | None \<Rightarrow>
              hs_bind (hs_upd (\<lambda>pt. pt\<lparr>pt_w := initial_world dbg client\<rparr>)) (\<lambda>_.
              hs_bind (hs_wrap ''create share memory buffer manager failed'' (initMemManager os cfg)) (\<lambda>_ pt.
              case initProtocol os space (cfg_MemMapType cfg) pt of
                (HsErr e, pt1) \<Rightarrow> hs_bind (undo_session view) (\<lambda>_. hs_fail e) pt1
              | (HsWait, pt1) \<Rightarrow> (HsWait, pt1)
              | (HsPanic, pt1) \<Rightarrow> (HsPanic, pt1)
              | (HsOk _, pt1) \<Rightarrow>
                  (case cb of Some e \<Rightarrow> hs_fail e
                   | None \<Rightarrow> hs_get (\<lambda>pt. hs_bind (hs_of (queueManager_of (ses (pt_w pt)))) (\<lambda>qm.
                       hs_bind (hs_upd (pt_ses (\<lambda>s. s\<lparr>eventConn := conn, ss_name := qm_path qm\<rparr>))) (\<lambda>_.
                       hs_get (\<lambda>pt. hs_ret (pt_w pt)))))) pt1)))"

subsection \<open>Reading and writing whole messages\<close>

lemma read_full_ok:
  assumes "list_all (\<lambda>s. s \<noteq> []) segs" and "n \<le> length (concat segs)"
  shows "\<exists>segs'. read_full n got segs e = (HsOk (got @ take n (concat segs)), segs') \<and> concat segs' = drop n (concat segs) \<and> list_all (\<lambda>s. s \<noteq> []) segs'"
  using assms
proof (induction segs arbitrary: n got)
  case Nil
  then show ?case by (subst read_full.simps) simp
next
  case (Cons s segs)
  show ?case
  proof (cases "n = 0 \<or> n < length s")
    case True
    with Cons.prems show ?thesis by (subst read_full.simps) auto
  next
    case False
    with Cons.prems Cons.IH [of "n - length s" "got @ s"] show ?thesis by (subst read_full.simps) auto
  qed
qed

lemma read_full_short:
  assumes "list_all (\<lambda>s. s \<noteq> []) segs" and "length (concat segs) < n"
  shows "fst (read_full n got segs e) = (case e of EndEOF \<Rightarrow> HsErr ErrEOF | EndErr err \<Rightarrow> HsErr (ErrMsg ''ReadFull failed'') | EndWait \<Rightarrow> HsWait)"
  using assms
proof (induction segs arbitrary: n got)
  case Nil
  then show ?case by (subst read_full.simps) simp
next
  case (Cons s segs)
  then show ?case by (subst read_full.simps) auto
qed

lemma write_full_ok:
  assumes "list_all (\<lambda>r. \<not> isl r) room"
  shows "\<exists>room'. write_full data out room = (HsOk (), out @ data, room') \<and> list_all (\<lambda>r. \<not> isl r) room'"
  using assms
proof (induction room arbitrary: data out)
  case (Cons r room)
  show ?case
  proof (cases "data = []")
    case False
    from Cons.prems obtain n where "r = Inr n" by (cases r) auto
    with False Cons.prems Cons.IH [of "drop n data" "out @ take n data"] show ?thesis by simp
  qed (use Cons.prems in simp)
qed simp

text \<open>The bytes \<open>bs\<close> have arrived, in whatever segments, and writes succeed, in whatever portions.\<close>

definition sock :: "party \<Rightarrow> bytes \<Rightarrow> bool" where
  "sock pt bs \<longleftrightarrow> list_all (\<lambda>s. s \<noteq> []) (pt_segs pt) \<and> concat (pt_segs pt) = bs \<and> list_all (\<lambda>r. \<not> isl r) (pt_room pt)"

text \<open>\<open>pt'\<close> is \<open>pt\<close> after some input and output: the output has grown by \<open>out\<close>, and the bytes \<open>bs\<close> are left to read.\<close>

definition moved :: "party \<Rightarrow> bytes \<Rightarrow> bytes \<Rightarrow> party \<Rightarrow> bool" where
  "moved pt out bs pt' \<longleftrightarrow> sock pt' bs \<and> (\<exists>segs room. pt' = pt\<lparr>pt_segs := segs, pt_room := room, pt_out := pt_out pt @ out\<rparr>)"

lemma moved_refl: "sock pt bs \<Longrightarrow> moved pt [] bs pt"
  by (auto simp: moved_def intro!: exI [of _ "pt_segs pt"] exI [of _ "pt_room pt"])

lemma moved_trans: "moved pt o1 bs pt1 \<Longrightarrow> moved pt1 o2 bs2 pt2 \<Longrightarrow> moved pt (o1 @ o2) bs2 pt2"
  unfolding moved_def by (elim conjE exE, intro conjI) (simp_all, intro exI, rule refl)

lemma moved_w: "moved pt out bs pt1 \<Longrightarrow> moved (pt\<lparr>pt_w := w\<rparr>) out bs (pt1\<lparr>pt_w := w\<rparr>)"
  unfolding moved_def
proof (elim conjE exE, intro conjI)
  fix segs room assume "sock pt1 bs" "pt1 = pt\<lparr>pt_segs := segs, pt_room := room, pt_out := pt_out pt @ out\<rparr>"
  then show "\<exists>segs room. pt1\<lparr>pt_w := w\<rparr> = pt\<lparr>pt_w := w, pt_segs := segs, pt_room := room, pt_out := pt_out (pt\<lparr>pt_w := w\<rparr>) @ out\<rparr>"
    by (intro exI [of _ segs] exI [of _ room]) simp
qed (simp add: sock_def)

lemma moved_sel:
  assumes "moved pt out bs pt'"
  shows "sock pt' bs" and "pt_out pt' = pt_out pt @ out" and "pt_w pt' = pt_w pt" and "pt_reg pt' = pt_reg pt" and "pt_oob pt' = pt_oob pt"
    and "pt_fds pt' = pt_fds pt" and "pt_acts pt' = pt_acts pt" and "pt_end pt' = pt_end pt"
  using assms by (auto simp: moved_def)

lemma read_moved:
  assumes "sock pt (d @ bs)" and "length d = n"
  shows "\<exists>pt'. blockReadFull n pt = (HsOk d, pt') \<and> moved pt [] bs pt'"
proof -
  have s: "list_all (\<lambda>s. s \<noteq> []) (pt_segs pt)" "concat (pt_segs pt) = d @ bs" using assms(1) by (simp_all add: sock_def)
  from read_full_ok [OF s(1), of n "[]" "pt_end pt"] s(2) assms(2) obtain segs where
    "read_full n [] (pt_segs pt) (pt_end pt) = (HsOk d, segs)" "concat segs = bs" "list_all (\<lambda>s. s \<noteq> []) segs" by auto
  with assms(1) show ?thesis
    by (auto simp: blockReadFull_def moved_def sock_def intro!: exI [of _ segs] exI [of _ "pt_room pt"])
qed

lemma write_moved:
  assumes "sock pt bs"
  shows "\<exists>pt'. blockWriteFull d pt = (HsOk (), pt') \<and> moved pt d bs pt'"
proof -
  from assms write_full_ok [of "pt_room pt" d "pt_out pt"] obtain room where
    "write_full d (pt_out pt) (pt_room pt) = (HsOk (), pt_out pt @ d, room)" "list_all (\<lambda>r. \<not> isl r) room" by (auto simp: sock_def)
  with assms show ?thesis
    by (auto simp: blockWriteFull_def moved_def sock_def intro!: exI [of _ "pt_segs pt"] exI [of _ room])
qed

text \<open>Nothing to read yet.\<close>

lemma read_waits:
  assumes "sock pt []" and "pt_end pt = EndWait" and "0 < n"
  shows "\<exists>pt'. blockReadFull n pt = (HsWait, pt') \<and> moved pt [] [] pt'"
  using assms read_full.simps [of n "[]" "[]" EndWait]
  by (cases "pt_segs pt") (auto simp: blockReadFull_def moved_def sock_def intro!: exI [of _ "[]"] exI [of _ "pt_room pt"])

lemma header_moved:
  assumes "sock pt (wire_header a v t @ bs)" and "v \<noteq> 0" and "t \<le> maxEventType"
  shows "\<exists>pt'. blockReadEventHeader pt = (HsOk (wire_header a v t), pt') \<and> moved pt [] bs pt'"
proof -
  have valid: "checkEventValid (wire_header a v t) = Some None"
    using assms(2,3) header_fields [of a v t "[]"] by (simp add: checkEventValid_def event_types not_less)
  from read_moved [OF assms(1), of headerSize] obtain pt' where
    "blockReadFull headerSize pt = (HsOk (wire_header a v t), pt')" "moved pt [] bs pt'" by auto
  then show ?thesis using valid by (simp add: blockReadEventHeader_def hs_bind_def hs_of_def hs_ret_def)
qed

subsection \<open>The metadata\<close>

lemma str_roundtrip [simp]: "bytes_str (str_bytes s) = s"
proof (induction s)
  case (Cons c s)
  have "unat (word_of_nat (of_char c) :: u8) = of_char c" by (simp add: unat_of_nat)
  with Cons show ?case by (simp add: bytes_str_def str_bytes_def)
qed (simp add: bytes_str_def str_bytes_def)

lemma length_str_bytes [simp]: "length (str_bytes s) = length s"
  by (simp add: str_bytes_def)

lemma put_append:
  assumes "length xs = i" and "length src \<le> length ys"
  shows "put_at (xs @ ys) i src = Some (xs @ src @ drop (length src) ys)"
  using assms by (simp add: put_at_def)

definition metadata_body :: "string \<Rightarrow> string \<Rightarrow> bytes" where
  "metadata_body q b = be_put (word_of_nat (length q) :: u16) @ str_bytes q @ be_put (word_of_nat (length b) :: u16) @ str_bytes b"

lemma generate_eq:
  assumes "queueManager_of (ses w) = Some qm" and "bufferManager_of (ses w) = Some bm"
  defines "body \<equiv> metadata_body (qm_path qm) (bm_path bm)"
  shows "generateShmMetadata t w = Some (wire_header (word_of_nat (headerSize + length body)) (communicationVersion (ses w)) t @ body)"
proof -
  let ?q = "str_bytes (qm_path qm)" and ?b = "str_bytes (bm_path bm)"
  let ?z = "\<lambda>n. replicate n (0 :: u8)"
  let ?lq = "be_put (word_of_nat (length ?q) :: u16)" and ?lb = "be_put (word_of_nat (length ?b) :: u16)"
  let ?n = "length ?q" and ?k = "length ?b"
  have r: "?z (headerSize + 2 + ?n + 2 + ?k) = ?z headerSize @ ?z (2 + ?n + 2 + ?k)" by (simp only: replicate_add [symmetric] add.assoc)
  have 1: "put_at (?z headerSize @ ?z (2 + ?n + 2 + ?k)) headerSize ?lq = Some ((?z headerSize @ ?lq) @ ?z (?n + 2 + ?k))"
    by (subst put_append) (simp_all del: add_2_eq_Suc add_2_eq_Suc')
  have 2: "put_at ((?z headerSize @ ?lq) @ ?z (?n + 2 + ?k)) (headerSize + 2) ?q = Some ((?z headerSize @ ?lq @ ?q) @ ?z (2 + ?k))"
    by (subst put_append) (simp_all del: add_2_eq_Suc add_2_eq_Suc')
  have 3: "put_at ((?z headerSize @ ?lq @ ?q) @ ?z (2 + ?k)) (headerSize + 2 + ?n) ?lb = Some ((?z headerSize @ ?lq @ ?q @ ?lb) @ ?z ?k)"
    by (subst put_append) (simp_all del: add_2_eq_Suc add_2_eq_Suc')
  have 4: "put_at ((?z headerSize @ ?lq @ ?q @ ?lb) @ ?z ?k) (headerSize + 2 + ?n + 2) ?b = Some (?z headerSize @ body)"
    by (subst put_append) (simp_all add: body_def metadata_body_def)
  have 5: "header_encode (?z headerSize @ body) (word_of_nat (length (?z headerSize @ body))) (communicationVersion (ses w)) t =
      Some (wire_header (word_of_nat (headerSize + length body)) (communicationVersion (ses w)) t @ body)"
    by (subst header_encode_eq) simp_all
  show ?thesis unfolding generateShmMetadata_def assms(1,2) Let_def
    by (simp only: Option.bind.bind_lunit r 1 2 3 4 5)
qed

lemma extract_eq:
  assumes "length q < 2 ^ 16" and "length b < 2 ^ 16"
  shows "extractShmMetadata (metadata_body q b) = Some (b, q)"
proof -
  let ?lq = "be_put (word_of_nat (length q) :: u16)" and ?lb = "be_put (word_of_nat (length b) :: u16)"
  have u: "unat (word_of_nat (length q) :: u16) = length q" "unat (word_of_nat (length b) :: u16) = length b"
    using assms by (simp_all add: unat_of_nat)
  have g: "be_get ?lq = Some (word_of_nat (length q) :: u16)" "be_get ?lb = Some (word_of_nat (length b) :: u16)"
    using be_get_put [of 2 "word_of_nat (length q) :: u16" "[]"] be_get_put [of 2 "word_of_nat (length b) :: u16" "[]"] by simp_all
  have s: "sub (metadata_body q b) 0 2 = Some ?lq" "sub (metadata_body q b) 2 (2 + length q) = Some (str_bytes q)"
    "sub (metadata_body q b) (2 + length q) (2 + length q + 2) = Some ?lb" "sub (metadata_body q b) (2 + length q + 2) (2 + length q + 2 + length b) = Some (str_bytes b)"
    by (simp_all add: sub_def load_def metadata_body_def)
  show ?thesis unfolding extractShmMetadata_def Let_def
    by (simp only: Option.bind.bind_lunit s g u str_roundtrip)
qed

subsection \<open>The server maps what the client names\<close>

lemmas hs_steps = hs_bind_def hs_ret_def hs_fail_def hs_of_def hs_get_def hs_upd_def hs_wrap_def

definition installed :: "queueManager \<times> bytes \<Rightarrow> bufferManager \<times> bytes \<Rightarrow> world \<Rightarrow> world" where
  "installed x y w = upd_ses (\<lambda>s. s\<lparr>queueManager_of := Some (fst x), bufferManager_of := Some (fst y), handshakeDone := True\<rparr>)
     (w\<lparr>qmem := snd x, bmem := snd y\<rparr>)"

lemma read_body_ok:
  assumes "sock pt (body @ bs)" and "headerSize + length body < 2 ^ 32"
  shows "\<exists>pt'. read_body (wire_header (word_of_nat (headerSize + length body)) v t) pt = (HsOk body, pt') \<and> moved pt [] bs pt'"
proof -
  have "word_of_nat (headerSize + length body) - word_of_nat headerSize = (word_of_nat (length body) :: u32)" by simp
  then have u: "unat (word_of_nat (headerSize + length body) - word_of_nat headerSize :: u32) = length body"
    using unat_of_nat32 [of "length body"] assms(2) by simp
  from read_moved [OF assms(1) refl] u header_fields(1) [of _ v t "[]"] show ?thesis
    by (simp add: read_body_def hs_steps)
qed

lemma body_size:
  assumes "length q < 2 ^ 16" and "length b < 2 ^ 16"
  shows "headerSize + length (metadata_body q b) < 2 ^ 32"
  using assms by (simp add: metadata_body_def headerSize_def)

lemma file_path_ok:
  assumes s: "sock pt (metadata_body q b @ bs)" and l: "length q < 2 ^ 16" "length b < 2 ^ 16"
    and mq: "mappingQueueManager os q = Some (Inr x)" and mb: "getGlobalBufferManager os b 0 False [] (pt_reg pt) = Some (Inr y, acts, reg)"
    and h: "h = wire_header (word_of_nat (headerSize + length (metadata_body q b))) v t"
  shows "\<exists>pt1. handleShareMemoryByFilePath os h pt = (HsOk (), pt1\<lparr>pt_w := installed x y (pt_w pt), pt_reg := reg, pt_acts := pt_acts pt @ acts\<rparr>) \<and>
    moved pt [] bs pt1"
proof -
  from read_body_ok [OF s body_size [OF l], of v t] obtain pt1 where
    r: "read_body h pt = (HsOk (metadata_body q b), pt1)" and m: "moved pt [] bs pt1" unfolding h by blast
  note ms = moved_sel [OF m]
  have "handleShareMemoryByFilePath os h pt = (HsOk (), pt1\<lparr>pt_w := installed x y (pt_w pt), pt_reg := reg, pt_acts := pt_acts pt @ acts\<rparr>)"
    using extract_eq [OF l] mq mb ms(3,4,7) r
    by (simp add: handleShareMemoryByFilePath_def hs_steps obtain_queue_def obtain_buffers_def set_queue_def set_buffers_def pt_ses_def installed_def upd_ses_def)
  with m show ?thesis by blast
qed

subsection \<open>The exchange of files\<close>

definition small_header :: "u8 \<Rightarrow> u8 \<Rightarrow> bytes" where
  "small_header v t = wire_header (word_of_nat headerSize) v t"

lemma encode_small: "header_encode (replicate headerSize 0) (word_of_nat headerSize) v t = Some (small_header v t)"
  using header_encode_eq [of "replicate headerSize 0"] by (simp add: small_header_def)

lemma small_fields [simp]: "hdr_Version (small_header v t) = Some v" "hdr_MsgType (small_header v t) = Some t"
  using header_fields [of _ v t "[]"] by (simp_all add: small_header_def)

lemma sock_upd [simp]:
  "sock (pt_ses f pt) bs = sock pt bs" "sock (pt\<lparr>pt_w := w\<rparr>) bs = sock pt bs" "sock (pt\<lparr>pt_reg := r\<rparr>) bs = sock pt bs" "sock (pt\<lparr>pt_acts := a\<rparr>) bs = sock pt bs"
  "sock (pt\<lparr>pt_oob := o'\<rparr>) bs = sock pt bs" "sock (pt\<lparr>pt_fds := f'\<rparr>) bs = sock pt bs"
  by (simp_all add: sock_def pt_ses_def)

lemma pt_ses_sel [simp]:
  "pt_w (pt_ses f pt) = upd_ses f (pt_w pt)" "pt_out (pt_ses f pt) = pt_out pt" "pt_reg (pt_ses f pt) = pt_reg pt" "pt_oob (pt_ses f pt) = pt_oob pt"
  "pt_fds (pt_ses f pt) = pt_fds pt" "pt_acts (pt_ses f pt) = pt_acts pt" "pt_end (pt_ses f pt) = pt_end pt"
  by (simp_all add: pt_ses_def)

definition metadata_event :: "u8 \<Rightarrow> u8 \<Rightarrow> string \<Rightarrow> string \<Rightarrow> bytes" where
  "metadata_event v t q b = wire_header (word_of_nat (headerSize + length (metadata_body q b))) v t @ metadata_body q b"

definition set_version :: "u8 \<Rightarrow> world \<Rightarrow> world" where
  "set_version v = upd_ses (\<lambda>s. s\<lparr>communicationVersion := v\<rparr>)"

lemma client_file_ok:
  assumes "isClient (ses (pt_w pt))" and "queueManager_of (ses (pt_w pt)) = Some qm" and "bufferManager_of (ses (pt_w pt)) = Some bm" and "sock pt []"
  shows "\<exists>pt'. initProtocol os sp MemMapTypeDevShmFile pt = (HsOk (), pt') \<and> pt_w pt' = set_version 2 (pt_w pt) \<and>
    pt_out pt' = pt_out pt @ metadata_event 2 typeShareMemoryByFilePath (qm_path qm) (bm_path bm) \<and> pt_reg pt' = pt_reg pt \<and> pt_acts pt' = pt_acts pt"
proof -
  let ?pt = "pt_ses (\<lambda>s. s\<lparr>communicationVersion := 2\<rparr>) pt"
  have g: "generateShmMetadata typeShareMemoryByFilePath (pt_w ?pt) = Some (metadata_event 2 typeShareMemoryByFilePath (qm_path qm) (bm_path bm))"
    unfolding metadata_event_def using generate_eq [of "pt_w ?pt" qm bm] assms(2,3) by simp
  from write_moved [of ?pt "[]" "metadata_event 2 typeShareMemoryByFilePath (qm_path qm) (bm_path bm)"] assms(4) obtain pt' where
    w: "blockWriteFull (metadata_event 2 typeShareMemoryByFilePath (qm_path qm) (bm_path bm)) ?pt = (HsOk (), pt')"
      "moved ?pt (metadata_event 2 typeShareMemoryByFilePath (qm_path qm) (bm_path bm)) [] pt'" by auto
  have "initProtocol os sp MemMapTypeDevShmFile pt = (HsOk (), pt')"
    using assms(1) g w(1) by (simp add: initProtocol_def protocol_goroutine_def getProtocolInitializer_def clientGetProtocolInitializer_def
        hs_steps initV2_def sendShareMemoryByFilePath_def)
  with moved_sel [OF w(2)] show ?thesis by (auto simp: set_version_def)
qed

lemma server_file_ok:
  assumes "\<not> isClient (ses (pt_w pt))" and s: "sock pt (metadata_event 2 typeShareMemoryByFilePath q b)" and l: "length q < 2 ^ 16" "length b < 2 ^ 16"
    and mq: "mappingQueueManager os q = Some (Inr x)" and mb: "getGlobalBufferManager os b 0 False [] (pt_reg pt) = Some (Inr y, acts, reg)"
  shows "\<exists>pt'. initProtocol os sp mt pt = (HsOk (), pt') \<and> pt_w pt' = installed x y (set_version 2 (pt_w pt)) \<and> pt_reg pt' = reg \<and>
    pt_out pt' = pt_out pt \<and> pt_acts pt' = pt_acts pt @ acts"
proof -
  define h where "h = wire_header (word_of_nat (headerSize + length (metadata_body q b))) 2 typeShareMemoryByFilePath"
  have f: "hdr_Version h = Some 2" "hdr_MsgType h = Some typeShareMemoryByFilePath" using header_fields [of _ 2 typeShareMemoryByFilePath "[]"] by (simp_all add: h_def)
  from header_moved [OF s [unfolded metadata_event_def]] obtain pt1 where
    r: "blockReadEventHeader pt = (HsOk h, pt1)" "moved pt [] (metadata_body q b) pt1" unfolding h_def by (auto simp: event_types)
  note m = moved_sel [OF r(2)]
  let ?pt = "pt_ses (\<lambda>s. s\<lparr>communicationVersion := 2\<rparr>) pt1"
  from file_path_ok [of ?pt q b "[]", OF _ l mq _ h_def] m mb obtain pt2 where
    e: "handleShareMemoryByFilePath os h ?pt = (HsOk (), pt2\<lparr>pt_w := installed x y (pt_w ?pt), pt_reg := reg, pt_acts := pt_acts ?pt @ acts\<rparr>)" "moved ?pt [] [] pt2"
    by auto
  have "initProtocol os sp mt pt = (HsOk (), pt2\<lparr>pt_w := installed x y (pt_w ?pt), pt_reg := reg, pt_acts := pt_acts ?pt @ acts\<rparr>)"
    using assms(1) r(1) m f e(1) by (simp add: initProtocol_def protocol_goroutine_def getProtocolInitializer_def serverGetProtocolInitializer_def
        createProtoVersionInitializer_def hs_steps initV2_def first_type_def)
  with moved_sel [OF e(2)] m show ?thesis by (simp add: set_version_def)
qed

subsection \<open>The exchange of descriptors\<close>

lemma wait_moved:
  assumes "sock pt (small_header v t @ bs)" and "v \<noteq> 0" and "t \<le> maxEventType"
  shows "\<exists>pt'. waitEventHeader t pt = (HsOk (small_header v t), pt') \<and> moved pt [] bs pt'"
proof -
  from header_moved [OF assms [unfolded small_header_def]] obtain pt' where
    "blockReadEventHeader pt = (HsOk (small_header v t), pt')" "moved pt [] bs pt'" by (auto simp: small_header_def)
  then show ?thesis by (simp add: waitEventHeader_def hs_steps)
qed

lemma header_waits:
  assumes "sock pt []" and "pt_end pt = EndWait"
  shows "\<exists>pt'. blockReadEventHeader pt = (HsWait, pt') \<and> moved pt [] [] pt'"
proof -
  from read_waits [OF assms, of headerSize] obtain pt' where "blockReadFull headerSize pt = (HsWait, pt')" "moved pt [] [] pt'"
    by (auto simp: headerSize_def)
  then show ?thesis by (simp add: blockReadEventHeader_def hs_steps)
qed

lemma wait_waits:
  assumes "sock pt []" and "pt_end pt = EndWait"
  shows "\<exists>pt'. waitEventHeader t pt = (HsWait, pt') \<and> moved pt [] [] pt'"
proof -
  from header_waits [OF assms] obtain pt' where "blockReadEventHeader pt = (HsWait, pt')" "moved pt [] [] pt'" by blast
  then show ?thesis by (simp add: waitEventHeader_def hs_steps)
qed

lemma small_ok: "(3 :: u8) \<noteq> 0" "typeExchangeProtoVersion \<le> maxEventType" "typeAckReadyRecvFD \<le> maxEventType" "typeAckShareMemory \<le> maxEventType"
  by (simp_all add: event_types)

abbreviation exchangeMsg :: bytes where "exchangeMsg \<equiv> small_header 3 typeExchangeProtoVersion"
abbreviation ackReadyMsg :: bytes where "ackReadyMsg \<equiv> small_header 3 typeAckReadyRecvFD"
abbreviation ackShmMsg :: bytes where "ackShmMsg \<equiv> small_header 3 typeAckShareMemory"

lemma client_version:
  assumes "sock pt bs" and "isClient (ses (pt_w pt))"
  shows "bs = [] \<Longrightarrow> pt_end pt = EndWait \<Longrightarrow> \<exists>pt'. getProtocolInitializer MemMapTypeMemFd pt = (HsWait, pt') \<and> moved pt exchangeMsg [] pt'"
    and "bs = exchangeMsg @ rest \<Longrightarrow> \<exists>pt'. getProtocolInitializer MemMapTypeMemFd pt = (HsOk (InitializerV3 None), pt') \<and> moved pt exchangeMsg rest pt'"
proof -
  from write_moved [OF assms(1), of exchangeMsg] obtain pt1 where w: "blockWriteFull exchangeMsg pt = (HsOk (), pt1)" "moved pt exchangeMsg bs pt1" by blast
  note m = moved_sel [OF w(2)]
  have g: "getProtocolInitializer MemMapTypeMemFd pt = hs_bind (hs_wrap ''protocolInitializerV3 clientInit failed'' (waitEventHeader typeExchangeProtoVersion)) (\<lambda>recvHeader.
        hs_bind (hs_of (hdr_Version recvHeader)) (\<lambda>serverVersion.
        createProtoVersionInitializer (word_of_int (minInt (uint maxSupportProtoVersion) (uint serverVersion))) None)) pt1"
    using assms(2) w(1) encode_small [of maxSupportProtoVersion typeExchangeProtoVersion]
    by (simp add: getProtocolInitializer_def clientGetProtocolInitializer_def maxSupportProtoVersion_def hs_steps)
  { assume "bs = []" "pt_end pt = EndWait"
    with wait_waits [of pt1 typeExchangeProtoVersion] m obtain pt2 where "waitEventHeader typeExchangeProtoVersion pt1 = (HsWait, pt2)" "moved pt1 [] [] pt2" by auto
    with g moved_trans [OF w(2)] show "\<exists>pt'. getProtocolInitializer MemMapTypeMemFd pt = (HsWait, pt') \<and> moved pt exchangeMsg [] pt'" by (fastforce simp: hs_steps) }
  { assume "bs = exchangeMsg @ rest"
    with wait_moved [of pt1 3 typeExchangeProtoVersion rest] m(1) small_ok obtain pt2 where
      "waitEventHeader typeExchangeProtoVersion pt1 = (HsOk exchangeMsg, pt2)" "moved pt1 [] rest pt2" by auto
    with g moved_trans [OF w(2)] show "\<exists>pt'. getProtocolInitializer MemMapTypeMemFd pt = (HsOk (InitializerV3 None), pt') \<and> moved pt exchangeMsg rest pt'"
      by (fastforce simp: hs_steps createProtoVersionInitializer_def maxSupportProtoVersion_def minInt_def) }
qed

text \<open>How far the client comes with the answers \<open>bs\<close> of the server.\<close>

lemma client_memfd:
  assumes c: "isClient (ses (pt_w pt))" "queueManager_of (ses (pt_w pt)) = Some qm" "bufferManager_of (ses (pt_w pt)) = Some bm" "communicationVersion (ses (pt_w pt)) = 3"
    and s: "sock pt bs" and e: "pt_end pt = EndWait"
  defines "ev \<equiv> metadata_event 3 typeShareMemoryByMemfd (qm_path qm) (bm_path bm)"
  shows "bs = [] \<Longrightarrow> \<exists>pt'. clientInit MemMapTypeMemFd pt = (HsWait, pt') \<and> moved pt ev [] pt'"
    and "bs = ackReadyMsg \<Longrightarrow> \<exists>pt'. clientInit MemMapTypeMemFd pt = (HsWait, pt'\<lparr>pt_fds := pt_fds pt @ [[bm_memFd bm, qm_memFd qm]]\<rparr>) \<and> moved pt ev [] pt'"
    and "bs = ackReadyMsg @ ackShmMsg \<Longrightarrow> \<exists>pt'. clientInit MemMapTypeMemFd pt = (HsOk (), pt'\<lparr>pt_fds := pt_fds pt @ [[bm_memFd bm, qm_memFd qm]]\<rparr>) \<and> moved pt ev [] pt'"
proof -
  have g: "generateShmMetadata typeShareMemoryByMemfd (pt_w pt) = Some ev"
    unfolding ev_def metadata_event_def using generate_eq [OF c(2,3)] c(4) by simp
  from write_moved [OF s, of ev] obtain pt1 where w: "blockWriteFull ev pt = (HsOk (), pt1)" "moved pt ev bs pt1" by blast
  note m = moved_sel [OF w(2)]
  have sm: "sendMemFdToPeer pt = hs_bind (waitEventHeader typeAckReadyRecvFD) (\<lambda>_. sendFd [bm_memFd bm, qm_memFd qm]) pt1"
    using g w(1) c(2,3) by (auto simp: sendMemFdToPeer_def hs_steps split: prod.splits hs.splits)
  { assume "bs = []"
    with wait_waits [of pt1 typeAckReadyRecvFD] m e obtain pt2 where "waitEventHeader typeAckReadyRecvFD pt1 = (HsWait, pt2)" "moved pt1 [] [] pt2" by auto
    with sm moved_trans [OF w(2)] show "\<exists>pt'. clientInit MemMapTypeMemFd pt = (HsWait, pt') \<and> moved pt ev [] pt'" by (fastforce simp: hs_steps clientInit_def) }
  have fds: "\<exists>pt2. sendMemFdToPeer pt = (HsOk (), pt2\<lparr>pt_fds := pt_fds pt @ [[bm_memFd bm, qm_memFd qm]]\<rparr>) \<and> moved pt ev rest pt2" if "bs = ackReadyMsg @ rest" for rest
  proof -
    from that wait_moved [of pt1 3 typeAckReadyRecvFD rest] m(1) small_ok obtain pt2 where
      "waitEventHeader typeAckReadyRecvFD pt1 = (HsOk ackReadyMsg, pt2)" "moved pt1 [] rest pt2" by auto
    with sm moved_trans [OF w(2)] moved_sel(6) [OF this(2)] m(6) show ?thesis by (fastforce simp: hs_steps sendFd_def)
  qed
  let ?f = "\<lambda>x. x\<lparr>pt_fds := pt_fds pt @ [[bm_memFd bm, qm_memFd qm]]\<rparr>"
  have mf: "\<exists>y. pt' = ?f y \<and> moved pt ev bs' y" if "moved pt ev b x" "moved (?f x) [] bs' pt'" for x pt' b bs'
  proof -
    from that(2) obtain segs room where "pt' = (?f x)\<lparr>pt_segs := segs, pt_room := room, pt_out := pt_out x\<rparr>" "sock pt' bs'" by (auto simp: moved_def)
    moreover from that(1) obtain segs0 room0 where "x = pt\<lparr>pt_segs := segs0, pt_room := room0, pt_out := pt_out pt @ ev\<rparr>" by (auto simp: moved_def)
    ultimately have "pt' = ?f (pt\<lparr>pt_segs := segs, pt_room := room, pt_out := pt_out pt @ ev\<rparr>)" "sock pt' bs'" by simp_all
    then show ?thesis by (intro exI [of _ "pt\<lparr>pt_segs := segs, pt_room := room, pt_out := pt_out pt @ ev\<rparr>"]) (auto simp: moved_def)
  qed
  { assume "bs = ackReadyMsg"
    with fds [of "[]"] obtain pt2 where 2: "sendMemFdToPeer pt = (HsOk (), ?f pt2)" "moved pt ev [] pt2" by auto
    from wait_waits [of "?f pt2" typeAckShareMemory] moved_sel [OF 2(2)] e obtain pt3 where
      3: "waitEventHeader typeAckShareMemory (?f pt2) = (HsWait, pt3)" "moved (?f pt2) [] [] pt3" by auto
    with 2(1) mf [OF 2(2) 3(2)] show "\<exists>pt'. clientInit MemMapTypeMemFd pt = (HsWait, ?f pt') \<and> moved pt ev [] pt'" by (auto simp: hs_steps clientInit_def) }
  { assume "bs = ackReadyMsg @ ackShmMsg"
    with fds [of ackShmMsg] obtain pt2 where 2: "sendMemFdToPeer pt = (HsOk (), ?f pt2)" "moved pt ev ackShmMsg pt2" by auto
    from wait_moved [of "?f pt2" 3 typeAckShareMemory "[]"] moved_sel [OF 2(2)] small_ok obtain pt3 where
      3: "waitEventHeader typeAckShareMemory (?f pt2) = (HsOk ackShmMsg, pt3)" "moved (?f pt2) [] [] pt3" by auto
    with 2(1) mf [OF 2(2) 3(2)] show "\<exists>pt'. clientInit MemMapTypeMemFd pt = (HsOk (), ?f pt') \<and> moved pt ev [] pt'" by (auto simp: hs_steps clientInit_def) }
qed

lemma server_version:
  assumes "\<not> isClient (ses (pt_w pt))" and "sock pt (exchangeMsg @ bs)"
  shows "\<exists>pt'. protocol_goroutine os sp mt pt = hs_bind (recvShareMemory os sp) (\<lambda>_. ackShareMemory) pt' \<and> moved (pt\<lparr>pt_w := set_version 3 (pt_w pt)\<rparr>) exchangeMsg bs pt'"
proof -
  from header_moved [OF assms(2) [unfolded small_header_def] small_ok(1,2)] obtain pt1 where
    r: "blockReadEventHeader pt = (HsOk exchangeMsg, pt1)" "moved pt [] bs pt1" by (auto simp: small_header_def)
  let ?pt = "pt1\<lparr>pt_w := set_version 3 (pt_w pt)\<rparr>"
  have sk: "sock ?pt bs" using moved_sel [OF r(2)] by simp
  from write_moved [OF sk, of exchangeMsg] obtain pt2 where w: "blockWriteFull exchangeMsg ?pt = (HsOk (), pt2)" "moved ?pt exchangeMsg bs pt2" by blast
  have v: "upd_ses (\<lambda>s. s\<lparr>communicationVersion := 3\<rparr>) (upd_ses (\<lambda>s. s\<lparr>communicationVersion := 3\<rparr>) (pt_w pt)) = set_version 3 (pt_w pt)"
    by (simp add: set_version_def upd_ses_def)
  have p: "pt_ses (\<lambda>s. s\<lparr>communicationVersion := 3\<rparr>) (pt_ses (\<lambda>s. s\<lparr>communicationVersion := 3\<rparr>) pt1) = ?pt"
    using moved_sel [OF r(2)] v by (simp add: pt_ses_def)
  have e: "moved (pt\<lparr>pt_w := set_version 3 (pt_w pt)\<rparr>) [] bs ?pt" by (rule moved_w [OF r(2)])
  show ?thesis
    using assms(1) r(1) moved_sel [OF r(2)] w(1) p encode_small [of 3 typeExchangeProtoVersion] moved_trans [OF e w(2)]
    by (intro exI [of _ pt2]) (simp add: protocol_goroutine_def getProtocolInitializer_def serverGetProtocolInitializer_def createProtoVersionInitializer_def initV3_def serverInit_def first_type_def
        handleExchangeVersion_def maxSupportProtoVersion_def minInt_def hs_bind_def hs_ret_def hs_of_def hs_get_def hs_upd_def hs_wrap_def)
qed

lemma memfd_handler:
  assumes s: "sock pt (metadata_body q b)" and l: "length q < 2 ^ 16" "length b < 2 ^ 16" and v: "communicationVersion (ses (pt_w pt)) = 3"
    and h: "h = wire_header (word_of_nat (headerSize + length (metadata_body q b))) v' t"
  shows "pt_oob pt = [] \<Longrightarrow> \<exists>pt'. handleShareMemoryByMemFd os sp h pt = (HsWait, pt') \<and> moved pt ackReadyMsg [] pt'"
    and "pt_oob pt = [Inr (sp, Inr [Inr [fb, fq]])] \<Longrightarrow> mappingQueueManagerMemfd os q fq = Some (Inr x) \<Longrightarrow>
      getGlobalBufferManagerWithMemFd os b fb 0 False [] (pt_reg pt) = Some (Inr y, acts, reg) \<Longrightarrow>
      \<exists>pt1. handleShareMemoryByMemFd os sp h pt = (HsOk (), pt1\<lparr>pt_oob := [], pt_w := installed x y (pt_w pt), pt_reg := reg, pt_acts := pt_acts pt @ acts\<rparr>) \<and>
        moved pt ackReadyMsg [] pt1"
proof -
  from read_body_ok [of pt "metadata_body q b" "[]", OF _ body_size [OF l], of v' t] s obtain pt1 where
    r: "read_body h pt = (HsOk (metadata_body q b), pt1)" "moved pt [] [] pt1" unfolding h by auto
  note m = moved_sel [OF r(2)]
  from write_moved [OF m(1), of ackReadyMsg] obtain pt2 where w: "blockWriteFull ackReadyMsg pt1 = (HsOk (), pt2)" "moved pt1 ackReadyMsg [] pt2" by blast
  note m2 = moved_sel [OF w(2)] and mt = moved_trans [OF r(2) w(2), unfolded append_Nil]
  note st = extract_eq [OF l] r(1) w(1) m v encode_small [of 3 typeAckReadyRecvFD] m2
  { assume "pt_oob pt = []"
    with st have "handleShareMemoryByMemFd os sp h pt = (HsWait, pt2)"
      by (simp add: handleShareMemoryByMemFd_def hs_steps blockReadOutOfBoundForFd_def)
    with mt show "\<exists>pt'. handleShareMemoryByMemFd os sp h pt = (HsWait, pt') \<and> moved pt ackReadyMsg [] pt'" by blast }
  { assume "pt_oob pt = [Inr (sp, Inr [Inr [fb, fq]])]" "mappingQueueManagerMemfd os q fq = Some (Inr x)"
      "getGlobalBufferManagerWithMemFd os b fb 0 False [] (pt_reg pt) = Some (Inr y, acts, reg)"
    with st have "handleShareMemoryByMemFd os sp h pt = (HsOk (), pt2\<lparr>pt_oob := [], pt_w := installed x y (pt_w pt), pt_reg := reg, pt_acts := pt_acts pt @ acts\<rparr>)"
      by (simp add: handleShareMemoryByMemFd_def hs_steps blockReadOutOfBoundForFd_def memfdCount_def obtain_queue_def obtain_buffers_def set_queue_def
          set_buffers_def pt_ses_def installed_def upd_ses_def)
    with mt show "\<exists>pt1. handleShareMemoryByMemFd os sp h pt = (HsOk (), pt1\<lparr>pt_oob := [], pt_w := installed x y (pt_w pt), pt_reg := reg, pt_acts := pt_acts pt @ acts\<rparr>) \<and>
        moved pt ackReadyMsg [] pt1" by blast }
qed

lemma server_memfd:
  assumes c: "\<not> isClient (ses (pt_w pt))" and e: "pt_end pt = EndWait" and l: "length q < 2 ^ 16" "length b < 2 ^ 16"
  defines "ev \<equiv> metadata_event 3 typeShareMemoryByMemfd q b"
  shows "sock pt exchangeMsg \<Longrightarrow> \<exists>pt'. protocol_goroutine os sp mt pt = (HsWait, pt') \<and> pt_out pt' = pt_out pt @ exchangeMsg"
    and "sock pt (exchangeMsg @ ev) \<Longrightarrow> pt_oob pt = [] \<Longrightarrow> \<exists>pt'. protocol_goroutine os sp mt pt = (HsWait, pt') \<and> pt_out pt' = pt_out pt @ exchangeMsg @ ackReadyMsg"
    and "sock pt (exchangeMsg @ ev) \<Longrightarrow> pt_oob pt = [Inr (sp, Inr [Inr [fb, fq]])] \<Longrightarrow> mappingQueueManagerMemfd os q fq = Some (Inr x) \<Longrightarrow>
      getGlobalBufferManagerWithMemFd os b fb 0 False [] (pt_reg pt) = Some (Inr y, acts, reg) \<Longrightarrow>
      \<exists>pt'. protocol_goroutine os sp mt pt = (HsOk (), pt') \<and> pt_out pt' = pt_out pt @ exchangeMsg @ ackReadyMsg @ ackShmMsg \<and>
        pt_w pt' = installed x y (set_version 3 (pt_w pt)) \<and> pt_reg pt' = reg"
proof -
  define h where "h = wire_header (word_of_nat (headerSize + length (metadata_body q b))) 3 typeShareMemoryByMemfd"
  have t: "hdr_MsgType h = Some typeShareMemoryByMemfd" using header_fields [of _ 3 typeShareMemoryByMemfd "[]"] by (simp add: h_def)
  have ty: "typeShareMemoryByMemfd \<noteq> typeShareMemoryByFilePath" "typeShareMemoryByMemfd \<le> maxEventType" by (simp_all add: event_types)
  { assume "sock pt exchangeMsg"
    with server_version [OF c, of "[]" os sp mt] obtain pt1 where
      1: "protocol_goroutine os sp mt pt = hs_bind (recvShareMemory os sp) (\<lambda>_. ackShareMemory) pt1" "moved (pt\<lparr>pt_w := set_version 3 (pt_w pt)\<rparr>) exchangeMsg [] pt1" by auto
    from header_waits [of pt1] moved_sel [OF 1(2)] e obtain pt2 where 2: "blockReadEventHeader pt1 = (HsWait, pt2)" "moved pt1 [] [] pt2" by auto
    with 1(1) moved_sel(2) [OF 1(2)] moved_sel(2) [OF 2(2)]
    show "\<exists>pt'. protocol_goroutine os sp mt pt = (HsWait, pt') \<and> pt_out pt' = pt_out pt @ exchangeMsg" by (simp add: hs_steps recvShareMemory_def) }
  have go: "\<exists>pt2. protocol_goroutine os sp mt pt = hs_bind (handleShareMemoryByMemFd os sp h) (\<lambda>_. ackShareMemory) pt2 \<and> moved (pt\<lparr>pt_w := set_version 3 (pt_w pt)\<rparr>) exchangeMsg (metadata_body q b) pt2" if "sock pt (exchangeMsg @ ev)"
  proof -
    from server_version [OF c that, of os sp mt] obtain pt1 where
      1: "protocol_goroutine os sp mt pt = hs_bind (recvShareMemory os sp) (\<lambda>_. ackShareMemory) pt1" "moved (pt\<lparr>pt_w := set_version 3 (pt_w pt)\<rparr>) exchangeMsg ev pt1" by blast
    from header_moved [of pt1, OF moved_sel(1) [OF 1(2), unfolded ev_def metadata_event_def] small_ok(1) ty(2)] obtain pt2 where
      2: "blockReadEventHeader pt1 = (HsOk h, pt2)" "moved pt1 [] (metadata_body q b) pt2" unfolding h_def by blast
    from moved_trans [OF 1(2) 2(2)] 1(1) 2(1) t ty(1) show ?thesis by (intro exI [of _ pt2]) (simp add: hs_steps recvShareMemory_def)
  qed
  { assume s: "sock pt (exchangeMsg @ ev)" and o: "pt_oob pt = []"
    from go [OF s] obtain pt2 where 2: "protocol_goroutine os sp mt pt = hs_bind (handleShareMemoryByMemFd os sp h) (\<lambda>_. ackShareMemory) pt2" "moved (pt\<lparr>pt_w := set_version 3 (pt_w pt)\<rparr>) exchangeMsg (metadata_body q b) pt2" by blast
    note m = moved_sel [OF 2(2)]
    from memfd_handler(1) [OF m(1) l _ h_def, of os sp] m o obtain pt3 where "handleShareMemoryByMemFd os sp h pt2 = (HsWait, pt3)" "moved pt2 ackReadyMsg [] pt3"
      by (auto simp: set_version_def)
    with 2(1) m(2) moved_sel(2) [OF this(2)]
    show "\<exists>pt'. protocol_goroutine os sp mt pt = (HsWait, pt') \<and> pt_out pt' = pt_out pt @ exchangeMsg @ ackReadyMsg" by (simp add: hs_steps) }
  { assume s: "sock pt (exchangeMsg @ ev)" and o: "pt_oob pt = [Inr (sp, Inr [Inr [fb, fq]])]" and mq: "mappingQueueManagerMemfd os q fq = Some (Inr x)"
      and mb: "getGlobalBufferManagerWithMemFd os b fb 0 False [] (pt_reg pt) = Some (Inr y, acts, reg)"
    from go [OF s] obtain pt2 where 2: "protocol_goroutine os sp mt pt = hs_bind (handleShareMemoryByMemFd os sp h) (\<lambda>_. ackShareMemory) pt2" "moved (pt\<lparr>pt_w := set_version 3 (pt_w pt)\<rparr>) exchangeMsg (metadata_body q b) pt2" by blast
    note m = moved_sel [OF 2(2)]
    from memfd_handler(2) [OF m(1) l _ h_def _ mq, of sp fb y acts reg] m o mb obtain pt3 where
      3: "handleShareMemoryByMemFd os sp h pt2 = (HsOk (), pt3\<lparr>pt_oob := [], pt_w := installed x y (pt_w pt2), pt_reg := reg, pt_acts := pt_acts pt2 @ acts\<rparr>)"
        "moved pt2 ackReadyMsg [] pt3" by (auto simp: set_version_def)
    note m3 = moved_sel [OF 3(2)]
    let ?pt = "pt3\<lparr>pt_oob := [], pt_w := installed x y (pt_w pt2), pt_reg := reg, pt_acts := pt_acts pt2 @ acts\<rparr>"
    have v: "communicationVersion (ses (pt_w ?pt)) = 3" using m(3) by (simp add: installed_def set_version_def)
    from write_moved [of ?pt "[]" ackShmMsg] m3(1) obtain pt4 where 4: "blockWriteFull ackShmMsg ?pt = (HsOk (), pt4)" "moved ?pt ackShmMsg [] pt4" by auto
    note m4 = moved_sel [OF 4(2)]
    have "protocol_goroutine os sp mt pt = (HsOk (), pt4)" using 2(1) 3(1) v 4(1) encode_small [of 3 typeAckShareMemory] by (simp add: hs_steps ackShareMemory_def)
    with m m3 m4 show "\<exists>pt'. protocol_goroutine os sp mt pt = (HsOk (), pt') \<and> pt_out pt' = pt_out pt @ exchangeMsg @ ackReadyMsg @ ackShmMsg \<and>
        pt_w pt' = installed x y (set_version 3 (pt_w pt)) \<and> pt_reg pt' = reg" by simp }
qed

lemma client_rounds:
  assumes c: "isClient (ses (pt_w pt))" "queueManager_of (ses (pt_w pt)) = Some qm" "bufferManager_of (ses (pt_w pt)) = Some bm" and e: "pt_end pt = EndWait"
  defines "ev \<equiv> metadata_event 3 typeShareMemoryByMemfd (qm_path qm) (bm_path bm)" and "fds \<equiv> [[bm_memFd bm, qm_memFd qm]]"
  shows "sock pt [] \<Longrightarrow> \<exists>pt'. protocol_goroutine os sp MemMapTypeMemFd pt = (HsWait, pt') \<and> pt_out pt' = pt_out pt @ exchangeMsg \<and> pt_fds pt' = pt_fds pt"
    and "sock pt exchangeMsg \<Longrightarrow> \<exists>pt'. protocol_goroutine os sp MemMapTypeMemFd pt = (HsWait, pt') \<and> pt_out pt' = pt_out pt @ exchangeMsg @ ev \<and> pt_fds pt' = pt_fds pt"
    and "sock pt (exchangeMsg @ ackReadyMsg) \<Longrightarrow> \<exists>pt'. protocol_goroutine os sp MemMapTypeMemFd pt = (HsWait, pt') \<and> pt_out pt' = pt_out pt @ exchangeMsg @ ev \<and>
      pt_fds pt' = pt_fds pt @ fds"
    and "sock pt (exchangeMsg @ ackReadyMsg @ ackShmMsg) \<Longrightarrow> \<exists>pt'. protocol_goroutine os sp MemMapTypeMemFd pt = (HsOk (), pt') \<and> pt_out pt' = pt_out pt @ exchangeMsg @ ev \<and>
      pt_fds pt' = pt_fds pt @ fds \<and> pt_w pt' = set_version 3 (pt_w pt)"
proof -
  { assume s: "sock pt []"
    from client_version(1) [OF s c(1) refl e] obtain pt1 where "getProtocolInitializer MemMapTypeMemFd pt = (HsWait, pt1)" "moved pt exchangeMsg [] pt1" by blast
    with moved_sel [OF this(2)] show "\<exists>pt'. protocol_goroutine os sp MemMapTypeMemFd pt = (HsWait, pt') \<and> pt_out pt' = pt_out pt @ exchangeMsg \<and> pt_fds pt' = pt_fds pt"
      by (simp add: protocol_goroutine_def hs_steps) }
  have go: "\<exists>pt1. protocol_goroutine os sp MemMapTypeMemFd pt = clientInit MemMapTypeMemFd pt1 \<and> sock pt1 rest \<and> pt_w pt1 = set_version 3 (pt_w pt) \<and>
      pt_out pt1 = pt_out pt @ exchangeMsg \<and> pt_fds pt1 = pt_fds pt \<and> pt_end pt1 = EndWait" if "sock pt (exchangeMsg @ rest)" for rest
  proof -
    from client_version(2) [OF that c(1) refl] obtain pt1 where 1: "getProtocolInitializer MemMapTypeMemFd pt = (HsOk (InitializerV3 None), pt1)" "moved pt exchangeMsg rest pt1" by blast
    note m = moved_sel [OF 1(2)]
    show ?thesis using 1(1) m e c(1)
      by (intro exI [of _ "pt_ses (\<lambda>s. s\<lparr>communicationVersion := 3\<rparr>) pt1"]) (simp add: protocol_goroutine_def hs_steps initV3_def set_version_def)
  qed
  have w: "isClient (ses (set_version 3 (pt_w pt)))" "queueManager_of (ses (set_version 3 (pt_w pt))) = Some qm" "bufferManager_of (ses (set_version 3 (pt_w pt))) = Some bm"
    "communicationVersion (ses (set_version 3 (pt_w pt))) = 3" using c by (simp_all add: set_version_def)
  { assume "sock pt exchangeMsg"
    then obtain pt1 where 1: "protocol_goroutine os sp MemMapTypeMemFd pt = clientInit MemMapTypeMemFd pt1" "sock pt1 []" "pt_w pt1 = set_version 3 (pt_w pt)"
      "pt_out pt1 = pt_out pt @ exchangeMsg" "pt_fds pt1 = pt_fds pt" "pt_end pt1 = EndWait" using go [of "[]"] by auto
    from client_memfd(1) [OF w [folded 1(3)] 1(2,6) refl] obtain pt2 where "clientInit MemMapTypeMemFd pt1 = (HsWait, pt2)" "moved pt1 ev [] pt2" unfolding ev_def by blast
    with 1 moved_sel [OF this(2)]
    show "\<exists>pt'. protocol_goroutine os sp MemMapTypeMemFd pt = (HsWait, pt') \<and> pt_out pt' = pt_out pt @ exchangeMsg @ ev \<and> pt_fds pt' = pt_fds pt" by simp }
  { assume "sock pt (exchangeMsg @ ackReadyMsg)"
    then obtain pt1 where 1: "protocol_goroutine os sp MemMapTypeMemFd pt = clientInit MemMapTypeMemFd pt1" "sock pt1 ackReadyMsg" "pt_w pt1 = set_version 3 (pt_w pt)"
      "pt_out pt1 = pt_out pt @ exchangeMsg" "pt_fds pt1 = pt_fds pt" "pt_end pt1 = EndWait" using go by blast
    from client_memfd(2) [OF w [folded 1(3)] 1(2,6) refl] obtain pt2 where "clientInit MemMapTypeMemFd pt1 = (HsWait, pt2\<lparr>pt_fds := pt_fds pt1 @ fds\<rparr>)" "moved pt1 ev [] pt2"
      unfolding ev_def fds_def by blast
    with 1 moved_sel [OF this(2)]
    show "\<exists>pt'. protocol_goroutine os sp MemMapTypeMemFd pt = (HsWait, pt') \<and> pt_out pt' = pt_out pt @ exchangeMsg @ ev \<and> pt_fds pt' = pt_fds pt @ fds" by simp }
  { assume "sock pt (exchangeMsg @ ackReadyMsg @ ackShmMsg)"
    then obtain pt1 where 1: "protocol_goroutine os sp MemMapTypeMemFd pt = clientInit MemMapTypeMemFd pt1" "sock pt1 (ackReadyMsg @ ackShmMsg)" "pt_w pt1 = set_version 3 (pt_w pt)"
      "pt_out pt1 = pt_out pt @ exchangeMsg" "pt_fds pt1 = pt_fds pt" "pt_end pt1 = EndWait" using go by blast
    from client_memfd(3) [OF w [folded 1(3)] 1(2,6) refl] obtain pt2 where "clientInit MemMapTypeMemFd pt1 = (HsOk (), pt2\<lparr>pt_fds := pt_fds pt1 @ fds\<rparr>)" "moved pt1 ev [] pt2"
      unfolding ev_def fds_def by blast
    with 1 moved_sel [OF this(2)]
    show "\<exists>pt'. protocol_goroutine os sp MemMapTypeMemFd pt = (HsOk (), pt') \<and> pt_out pt' = pt_out pt @ exchangeMsg @ ev \<and>
      pt_fds pt' = pt_fds pt @ fds \<and> pt_w pt' = set_version 3 (pt_w pt)" by simp }
qed

subsection \<open>Both ends\<close>

text \<open>
  One round: the client runs on the bytes \<open>ci\<close> that the server has sent so far, and the server on all
  that the client has then sent; \<open>parts\<close> is how the socket divides a stream into segments and \<open>dup\<close> how
  the kernel renumbers descriptors.
\<close>

definition exchange_round :: "os_env \<Rightarrow> os_env \<Rightarrow> nat \<Rightarrow> (bytes \<Rightarrow> bytes list) \<Rightarrow> (int \<Rightarrow> int) \<Rightarrow> party \<Rightarrow> party \<Rightarrow> bytes \<Rightarrow> (unit hs \<times> party) \<times> (unit hs \<times> party)" where
  "exchange_round osc oss sp parts dup pc ps ci =
     (let c = protocol_goroutine osc sp MemMapTypeMemFd (pc\<lparr>pt_segs := parts ci\<rparr>);
          s = protocol_goroutine oss sp MemMapTypeMemFd (ps\<lparr>pt_segs := parts (pt_out (snd c)), pt_oob := map (\<lambda>fds. Inr (sp, Inr [Inr (map dup fds)])) (pt_fds (snd c))\<rparr>)
      in (c, s))"

fun exchange_rounds :: "nat \<Rightarrow> os_env \<Rightarrow> os_env \<Rightarrow> nat \<Rightarrow> (bytes \<Rightarrow> bytes list) \<Rightarrow> (int \<Rightarrow> int) \<Rightarrow> party \<Rightarrow> party \<Rightarrow> bytes \<Rightarrow> (unit hs \<times> party) \<times> (unit hs \<times> party)" where
  "exchange_rounds 0 osc oss sp parts dup pc ps ci = exchange_round osc oss sp parts dup pc ps ci"
| "exchange_rounds (Suc n) osc oss sp parts dup pc ps ci =
     exchange_rounds n osc oss sp parts dup pc ps (pt_out (snd (snd (exchange_round osc oss sp parts dup pc ps ci))))"

definition cuts_ok :: "(bytes \<Rightarrow> bytes list) \<Rightarrow> bool" where
  "cuts_ok parts \<longleftrightarrow> (\<forall>bs. concat (parts bs) = bs \<and> list_all (\<lambda>s. s \<noteq> []) (parts bs))"

definition starting :: "party \<Rightarrow> bool" where
  "starting pt \<longleftrightarrow> pt_out pt = [] \<and> pt_fds pt = [] \<and> pt_end pt = EndWait \<and> list_all (\<lambda>r. \<not> isl r) (pt_room pt)"


text \<open>
  C19. The handshake over files completes. The client sends the names of its queue and buffer files; a
  server that receives these bytes, in whatever segments, maps the files with these very names
  and enters queues, buffers and version 2 into its session, and sends nothing back.
\<close>

theorem handshake_file_path:
  assumes c: "isClient (ses (pt_w pc))" "queueManager_of (ses (pt_w pc)) = Some qm" "bufferManager_of (ses (pt_w pc)) = Some bm" "sock pc []" "pt_out pc = []"
    and s: "\<not> isClient (ses (pt_w ps))" and l: "length (qm_path qm) < 2 ^ 16" "length (bm_path bm) < 2 ^ 16"
    and mq: "mappingQueueManager oss (qm_path qm) = Some (Inr x)" and mb: "getGlobalBufferManager oss (bm_path bm) 0 False [] (pt_reg ps) = Some (Inr y, acts, reg)"
  shows "\<exists>pc'. initProtocol osc sp MemMapTypeDevShmFile pc = (HsOk (), pc') \<and> pt_w pc' = set_version 2 (pt_w pc) \<and>
    (sock ps (pt_out pc') \<longrightarrow> (\<exists>ps'. initProtocol oss sp mt ps = (HsOk (), ps') \<and>
       pt_w ps' = installed x y (set_version 2 (pt_w ps)) \<and> pt_reg ps' = reg \<and> pt_out ps' = pt_out ps))"
  using client_file_ok [OF c(1-4), of osc sp] server_file_ok [OF s _ l mq mb, of sp mt] c(5) by fastforce

text \<open>
  C36. A server refuses a version it does not know. When the first header carries a version other than 2 and
  3, initializing the protocol fails, the session is unchanged and nothing is sent; a client of
  a newer version is refused as well, not answered with the highest version of the server.
\<close>

theorem unknown_version_refused:
  assumes "\<not> isClient (ses (pt_w pt))" and "sock pt (wire_header a v t @ bs)" and "t \<le> maxEventType" and "v \<noteq> 0" and "v \<noteq> 2" and "v \<noteq> 3"
  shows "\<exists>pt'. initProtocol os sp mt pt = (HsErr (ErrMsg ''getProtocolInitializer failed''), pt') \<and> pt_w pt' = pt_w pt \<and> pt_out pt' = pt_out pt"
proof -
  from header_moved [OF assms(2,4,3)] obtain pt' where r: "blockReadEventHeader pt = (HsOk (wire_header a v t), pt')" "moved pt [] bs pt'" by blast
  have "hdr_Version (wire_header a v t) = Some v" using header_fields [of a v t "[]"] by simp
  with assms(1,5,6) r(1) have "initProtocol os sp mt pt = (HsErr (ErrMsg ''getProtocolInitializer failed''), pt')"
    by (simp add: initProtocol_def protocol_goroutine_def getProtocolInitializer_def serverGetProtocolInitializer_def createProtoVersionInitializer_def hs_steps)
  with moved_sel [OF r(2)] show ?thesis by simp
qed

text \<open>
  The names of the shared memory survive the wire. The event that \<^verbatim>\<open>generateShmMetadata\<close> builds for a
  session has a header with its own length, the version of the session and the type asked for, and
  \<^verbatim>\<open>extractShmMetadata\<close> on its body gives back the buffer path and the queue path.
\<close>

theorem metadata_roundtrip:
  assumes "queueManager_of (ses w) = Some qm" and "bufferManager_of (ses w) = Some bm" and "length (qm_path qm) < 2 ^ 16" and "length (bm_path bm) < 2 ^ 16"
  shows "\<exists>d. generateShmMetadata t w = Some d \<and> hdr_Length d = Some (word_of_nat (length d)) \<and> hdr_Version d = Some (communicationVersion (ses w)) \<and>
    hdr_MsgType d = Some t \<and> extractShmMetadata (drop headerSize d) = Some (bm_path bm, qm_path qm)"
  using generate_eq [OF assms(1,2), of t] extract_eq [OF assms(3,4)] by simp

text \<open>
  Reading does not depend on how the bytes arrive. When at least \<open>n\<close> bytes have arrived, \<^verbatim>\<open>blockReadFull\<close> of
  \<open>n\<close> bytes returns the first \<open>n\<close> of them and leaves exactly the rest to be read; when fewer arrive
  before the connection ends, it returns an error and never a short result.
\<close>

theorem blockReadFull_exact:
  assumes "list_all (\<lambda>s. s \<noteq> []) (pt_segs pt)"
  shows "case blockReadFull n pt of (r, pt') \<Rightarrow>
    if n \<le> length (concat (pt_segs pt)) then r = HsOk (take n (concat (pt_segs pt))) \<and> concat (pt_segs pt') = drop n (concat (pt_segs pt))
    else r = (case pt_end pt of EndEOF \<Rightarrow> HsErr ErrEOF | EndErr e \<Rightarrow> HsErr (ErrMsg ''ReadFull failed'') | EndWait \<Rightarrow> HsWait)"
  using read_full_ok [OF assms, of n "[]" "pt_end pt"] read_full_short [OF assms, of n "[]" "pt_end pt"]
  by (cases "n \<le> length (concat (pt_segs pt))") (auto simp: blockReadFull_def not_le split: prod.split)

definition demo_party :: "world \<Rightarrow> bytes list \<Rightarrow> party" where
  "demo_party w segs = \<lparr>pt_w = w, pt_reg = [], pt_segs = segs, pt_end = EndWait, pt_room = [Inr 3, Inr 0], pt_out = [], pt_oob = [], pt_fds = [], pt_acts = []\<rparr>"

text \<open>A peer on which the queues and the buffers have been mapped before by the other process.\<close>

definition mapped_os :: "bytes \<Rightarrow> bytes \<Rightarrow> os_env" where
  "mapped_os q m = \<lparr>os_GOOS = ''linux'', os_GOARCH = ''amd64'',
     os_Stat = (\<lambda>p. Inr \<lparr>fi_Size = if p = ''/dev/shm/q'' then length q else length m, fi_IsDir = False\<rparr>), os_Remove = (\<lambda>_. None),
     os_Create = (\<lambda>_. None), os_Open = (\<lambda>_. None), os_Truncate = (\<lambda>_. None),
     os_Mmap = (\<lambda>n. if n = length q then Inr q else if n = length m then Inr m else Inl (ErrMsg ''EINVAL'')),
     os_MemfdCreate = (\<lambda>_. Inr 3), os_Fstat = (\<lambda>fd. Inr (if fd = 7 then length q else length m)), os_DiskFree = Some 1000000\<rparr>"

lemma demo_mapped:
  obtains bm bm' m qm' where "createBufferManager demo_pairs ''b'' (replicate 400 0) 0 = Some (Inr (bm, m))" and "bm_path bm = ''b''" and "mappingBufferManager ''b'' m 0 = Some (Inr bm')"
    and "mappingQueueManager (mapped_os demo_mem2 m) ''/dev/shm/q'' = Some (Inr (demo_qm demo_recv demo_send, demo_mem2))"
    and "mappingQueueManagerMemfd (mapped_os demo_mem2 m) ''/dev/shm/q'' 7 = Some (Inr (qm', demo_mem2))"
    and "getGlobalBufferManager (mapped_os demo_mem2 m) ''b'' 0 False [] [] = Some (Inr (bm', m), [], [(''b'', bm', m)])"
    and "getGlobalBufferManagerWithMemFd (mapped_os demo_mem2 m) ''b'' 10 0 False [] [] =
      Some (Inr (bm'\<lparr>bm_memFd := 10, bm_mmapMapType := MemMapTypeMemFd\<rparr>, m), [], [(''b'', bm'\<lparr>bm_memFd := 10, bm_mmapMapType := MemMapTypeMemFd\<rparr>, m)])"
proof -
  obtain bm bm' m where m: "createBufferManager demo_pairs ''b'' (replicate 400 0) 0 = Some (Inr (bm, m))" "mappingBufferManager ''b'' m 0 = Some (Inr bm')" by (rule demo_peers)
  have p: "bm_path bm = ''b''" using m(1)
    by (auto simp: createBufferManager_def Let_def split: Option.bind_split_asm if_split_asm sum.split_asm prod.split_asm)
  obtain bm0 m0 where "createBufferManager demo_pairs ''b'' (replicate 400 0) 0 = Some (Inr (bm0, m0))" "length m0 = 400" by (rule demo_buffers)
  with m(1) have l: "length m = 400" by simp
  have q: "mapQueues False 96 demo_mem2 = Some (demo_recv, demo_send)" "length demo_mem2 = 96" by code_simp+
  show thesis
  proof (rule that [OF m(1) p m(2)])
    show "mappingQueueManager (mapped_os demo_mem2 m) ''/dev/shm/q'' = Some (Inr (demo_qm demo_recv demo_send, demo_mem2))"
      using q by (simp add: mappingQueueManager_def mapped_os_def isArmArch_def demo_qm_def)
    show "mappingQueueManagerMemfd (mapped_os demo_mem2 m) ''/dev/shm/q'' 7 = Some (Inr ((demo_qm demo_recv demo_send)\<lparr>qm_mmapMapType := MemMapTypeMemFd, qm_memFd := 7\<rparr>, demo_mem2))"
      using q by (simp add: mappingQueueManagerMemfd_def mapped_os_def isArmArch_def demo_qm_def)
    show "getGlobalBufferManager (mapped_os demo_mem2 m) ''b'' 0 False [] [] = Some (Inr (bm', m), [], [(''b'', bm', m)])"
      using m(2) l q(2) by (simp add: getGlobalBufferManager_def mapped_os_def enter_manager_def reg_put_def)
    show "getGlobalBufferManagerWithMemFd (mapped_os demo_mem2 m) ''b'' 10 0 False [] [] =
      Some (Inr (bm'\<lparr>bm_memFd := 10, bm_mmapMapType := MemMapTypeMemFd\<rparr>, m), [], [(''b'', bm'\<lparr>bm_memFd := 10, bm_mmapMapType := MemMapTypeMemFd\<rparr>, m)])"
      using m(2) l q(2) by (simp add: getGlobalBufferManagerWithMemFd_def mapped_os_def enter_manager_def reg_put_def)
  qed
qed


theorem handshake_file_path_witness:
  "\<exists>bm bm' m pc' ps'. createBufferManager demo_pairs ''b'' (replicate 400 0) 0 = Some (Inr (bm, m)) \<and>
    initProtocol config_os 24 MemMapTypeDevShmFile (demo_party (demo_world True bm (demo_qm demo_send demo_recv) m demo_mem2) []) = (HsOk (), pc') \<and>
    initProtocol (mapped_os demo_mem2 m) 24 MemMapTypeDevShmFile (demo_party (initial_world False False) (map (\<lambda>b. [b]) (pt_out pc'))) = (HsOk (), ps') \<and>
    pt_w ps' = installed (demo_qm demo_recv demo_send, demo_mem2) (bm', m) (set_version 2 (initial_world False False))"
proof -
  obtain bm bm' m where d: "createBufferManager demo_pairs ''b'' (replicate 400 0) 0 = Some (Inr (bm, m))" "bm_path bm = ''b''"
    "mappingQueueManager (mapped_os demo_mem2 m) ''/dev/shm/q'' = Some (Inr (demo_qm demo_recv demo_send, demo_mem2))"
    "getGlobalBufferManager (mapped_os demo_mem2 m) ''b'' 0 False [] [] = Some (Inr (bm', m), [], [(''b'', bm', m)])" by (rule demo_mapped)
  let ?pc = "demo_party (demo_world True bm (demo_qm demo_send demo_recv) m demo_mem2) []" and ?ps = "\<lambda>bs. demo_party (initial_world False False) (map (\<lambda>b. [b]) bs)"
  have c: "isClient (ses (pt_w ?pc))" "queueManager_of (ses (pt_w ?pc)) = Some (demo_qm demo_send demo_recv)" "bufferManager_of (ses (pt_w ?pc)) = Some bm"
    "sock ?pc []" "pt_out ?pc = []" "\<not> isClient (ses (pt_w (?ps bs)))" "sock (?ps bs) bs" "pt_reg (?ps bs) = []" "pt_w (?ps bs) = initial_world False False" for bs
    by (simp_all add: demo_party_def demo_world_def demo_session_def sock_def initial_world_def initial_session_def list_all_iff)
  have p: "qm_path (demo_qm demo_send demo_recv) = ''/dev/shm/q''" by (simp add: demo_qm_def)
  have h: "\<exists>pc'. initProtocol config_os 24 MemMapTypeDevShmFile ?pc = (HsOk (), pc') \<and> pt_w pc' = set_version 2 (pt_w ?pc) \<and>
    (sock (?ps bs) (pt_out pc') \<longrightarrow> (\<exists>ps'. initProtocol (mapped_os demo_mem2 m) 24 MemMapTypeDevShmFile (?ps bs) = (HsOk (), ps') \<and>
       pt_w ps' = installed (demo_qm demo_recv demo_send, demo_mem2) (bm', m) (set_version 2 (pt_w (?ps bs))) \<and> pt_reg ps' = [(''b'', bm', m)] \<and> pt_out ps' = pt_out (?ps bs)))" for bs
    by (rule handshake_file_path [OF c(1-6)]) (use d p c(8) in simp_all)
  then obtain pc' where "initProtocol config_os 24 MemMapTypeDevShmFile ?pc = (HsOk (), pc')" by blast
  with h [of "pt_out pc'"] c(7,9) d(1) show ?thesis by fastforce
qed

theorem unknown_version_refused_witness:
  "\<exists>pt'. initProtocol config_os 24 MemMapTypeMemFd (demo_party (initial_world False False) [small_header 4 typeExchangeProtoVersion]) =
    (HsErr (ErrMsg ''getProtocolInitializer failed''), pt') \<and> pt_out pt' = []"
  using unknown_version_refused [of "demo_party (initial_world False False) [small_header 4 typeExchangeProtoVersion]" "word_of_nat headerSize" 4 typeExchangeProtoVersion "[]" config_os 24 MemMapTypeMemFd]
  by (auto simp: demo_party_def sock_def small_header_def initial_world_def initial_session_def event_types wire_header_def)

theorem metadata_roundtrip_witness:
  "\<exists>d. generateShmMetadata typeShareMemoryByFilePath (demo_world True (demo_bm\<lparr>bm_path := ''/dev/shm/b''\<rparr>) (demo_qm demo_send demo_recv) [] []) = Some d \<and>
    extractShmMetadata (drop headerSize d) = Some (''/dev/shm/b'', ''/dev/shm/q'')"
  using metadata_roundtrip [of "demo_world True (demo_bm\<lparr>bm_path := ''/dev/shm/b''\<rparr>) (demo_qm demo_send demo_recv) [] []" "demo_qm demo_send demo_recv" "demo_bm\<lparr>bm_path := ''/dev/shm/b''\<rparr>"
    typeShareMemoryByFilePath]
  by (auto simp: demo_world_def demo_session_def demo_qm_def)

theorem blockReadFull_exact_witness:
  "fst (blockReadFull 3 (demo_party (initial_world False False) [[1, 2], [3, 4]])) = HsOk [1, 2, 3]"
  using blockReadFull_exact [of "demo_party (initial_world False False) [[1, 2], [3, 4]]" 3]
  by (auto simp: demo_party_def split: prod.splits)

end
