(* ===== verification/Connection.thy ===== *)
theory Connection
  imports Handshake
begin

text \<open>
  Sessions from the start: what \<^verbatim>\<open>newSession\<close> gives on the two sides of a connection, ready for
  messages, and what it leaves behind when it fails.
\<close>

definition client_cfg_ok :: "os_env \<Rightarrow> Config \<Rightarrow> bool" where
  "client_cfg_ok os cfg \<longleftrightarrow> VerifyConfig os cfg = None \<and> cfg_MemMapType cfg = MemMapTypeDevShmFile \<and>
     length (QueuePath cfg) < 2 ^ 16 \<and> length (ShareMemoryPathPrefix cfg @ bufferPathSuffix) < 2 ^ 16"

text \<open>The world of a session that has its queues and buffers.\<close>

definition session_world :: "bool \<Rightarrow> (bytes \<Rightarrow> go_error option) \<Rightarrow> queueManager \<times> bytes \<Rightarrow> bufferManager \<times> bytes \<Rightarrow> bool \<Rightarrow> bool \<Rightarrow> world" where
  "session_world dbg conn x y client fin = upd_ses (\<lambda>s. s\<lparr>queueManager_of := Some (fst x), bufferManager_of := Some (fst y), handshakeDone := fin,
     communicationVersion := 2, eventConn := conn, ss_name := qm_path (fst x)\<rparr>) ((initial_world dbg client)\<lparr>qmem := snd x, bmem := snd y\<rparr>)"

lemma new_client:
  assumes cfg: "client_cfg_ok os cfg" and q: "createQueueManager os (QueuePath cfg) (QueueCap cfg) = Some (Inr x)"
    and b: "getGlobalBufferManager os (ShareMemoryPathPrefix cfg @ bufferPathSuffix) (ShareMemoryBufferCap cfg) True (BufferSliceSizes cfg) (pt_reg pt) = Some (Inr y, acts, reg)"
    and s: "sock pt []"
  shows "\<exists>pt'. newSession os sp (Some cfg) u None None conn dbg view True pt = (HsOk (session_world dbg conn x y True False), pt') \<and>
    pt_out pt' = pt_out pt @ metadata_event 2 typeShareMemoryByFilePath (qm_path (fst x)) (bm_path (fst y)) \<and> pt_reg pt' = reg"
proof -
  let ?w = "upd_ses (\<lambda>s. s\<lparr>queueManager_of := Some (fst x)\<rparr>) ((upd_ses (\<lambda>s. s\<lparr>bufferManager_of := Some (fst y)\<rparr>) ((initial_world dbg True)\<lparr>bmem := snd y\<rparr>))\<lparr>qmem := snd x\<rparr>)"
  let ?pt = "pt\<lparr>pt_w := ?w, pt_reg := reg, pt_acts := pt_acts pt @ acts\<rparr>"
  have i: "initMemManager os cfg (pt\<lparr>pt_w := initial_world dbg True\<rparr>) = (HsOk (), ?pt)"
    using cfg q b by (cases x; cases y)
      (simp add: initMemManager_def client_cfg_ok_def hs_bind_def hs_get_def hs_remove_def hs_of_def hs_ret_def hs_upd_def obtain_buffers_def obtain_queue_def set_buffers_def set_queue_def
        initial_world_def initial_session_def upd_ses_def Let_def)
  have w: "isClient (ses (pt_w ?pt))" "queueManager_of (ses (pt_w ?pt)) = Some (fst x)" "bufferManager_of (ses (pt_w ?pt)) = Some (fst y)" "sock ?pt []"
    using s by (simp_all add: initial_world_def initial_session_def)
  from client_file_ok [OF w, of os sp] obtain pt' where
    p: "initProtocol os sp MemMapTypeDevShmFile ?pt = (HsOk (), pt')" "pt_w pt' = set_version 2 ?w"
      "pt_out pt' = pt_out pt @ metadata_event 2 typeShareMemoryByFilePath (qm_path (fst x)) (bm_path (fst y))" "pt_reg pt' = reg" by auto
  let ?r = "pt_ses (\<lambda>s. s\<lparr>eventConn := conn, ss_name := qm_path (fst x)\<rparr>) pt'"
  have e: "pt_w ?r = session_world dbg conn x y True False"
    using p(2) by (simp add: session_world_def set_version_def upd_ses_def initial_world_def initial_session_def)
  have "newSession os sp (Some cfg) u None None conn dbg view True pt = (HsOk (session_world dbg conn x y True False), ?r)"
    using cfg i p(1,2) e
    by (simp add: newSession_def client_cfg_ok_def hs_bind_def hs_upd_def hs_wrap_def hs_get_def hs_of_def hs_ret_def set_version_def)
  with p(3,4) show ?thesis by simp
qed

lemma new_server:
  assumes cfg: "VerifyConfig os cfg = None" "cfg_MemMapType cfg = MemMapTypeDevShmFile" and l: "length q < 2 ^ 16" "length b < 2 ^ 16"
    and s: "sock pt (metadata_event 2 typeShareMemoryByFilePath q b)"
    and mq: "mappingQueueManager os q = Some (Inr x)" and mb: "getGlobalBufferManager os b 0 False [] (pt_reg pt) = Some (Inr y, acts, reg)"
  shows "\<exists>pt'. newSession os sp (Some cfg) u None None conn dbg view False pt = (HsOk (session_world dbg conn x y False True), pt') \<and> pt_reg pt' = reg"
proof -
  let ?pt = "pt\<lparr>pt_w := initial_world dbg False\<rparr>"
  have c: "\<not> isClient (ses (pt_w ?pt))" "sock ?pt (metadata_event 2 typeShareMemoryByFilePath q b)" using s by (simp_all add: initial_world_def initial_session_def)
  from server_file_ok [OF c l mq, of y acts reg sp MemMapTypeDevShmFile] mb obtain pt' where
    p: "initProtocol os sp MemMapTypeDevShmFile ?pt = (HsOk (), pt')" "pt_w pt' = installed x y (set_version 2 (initial_world dbg False))" "pt_reg pt' = reg" by auto
  let ?r = "pt_ses (\<lambda>s. s\<lparr>eventConn := conn, ss_name := qm_path (fst x)\<rparr>) pt'"
  have e: "pt_w ?r = session_world dbg conn x y False True"
    using p(2) by (simp add: session_world_def set_version_def installed_def upd_ses_def initial_world_def initial_session_def)
  have i: "initMemManager os cfg ?pt = (HsOk (), ?pt)" by (simp add: initMemManager_def hs_get_def hs_ret_def initial_world_def initial_session_def)
  have "newSession os sp (Some cfg) u None None conn dbg view False pt = (HsOk (session_world dbg conn x y False True), ?r)"
    using cfg i p(1,2) e
    by (simp add: newSession_def hs_bind_def hs_upd_def hs_wrap_def hs_get_def hs_of_def hs_ret_def installed_def)
  with p(3) show ?thesis by simp
qed

subsection \<open>Connected sessions\<close>

lemma distinct_free:
  assumes "\<forall>fs \<in> set fss. distinct fs"
  shows "distinct (free_handles fss)"
proof -
  have "distinct (concat (map (\<lambda>i. map (Pair i) (fss ! i)) is))" if "distinct is" "set is \<subseteq> {..<length fss}" for "is"
    using that
  proof (induction "is")
    case (Cons i js)
    then have "distinct (fss ! i)" using assms by simp
    with Cons show ?case by (auto simp: distinct_map inj_on_def)
  qed simp
  then show ?thesis unfolding free_handles_def by (simp add: lessThan_atLeast0)
qed

lemma distinct_all_slots: "distinct (all_slots N C)"
  by (auto simp: all_slots_def distinct_map inj_on_def)

definition free_all :: "(nat \<times> nat) list \<Rightarrow> (nat \<times> nat) multiset" where
  "free_all ds = mset (free_handles (map (\<lambda>d. all_slots (fst d) (snd d)) ds))"

text \<open>The buffers that a client creates, and the server's view of them.\<close>

lemma buffers_connected:
  fixes ps :: "sizePercentPair list"
  assumes g: "getGlobalBufferManager os b cap True pairs reg0 = Some (Inr (bm, m), acts, reg)" and new: "map_of reg0 b = None" and "mmap_ok os"
    and ps: "sortPairs pairs = ps" "ps \<noteq> []" "length ps < 2 ^ 16" "8 + 36 * length ps \<le> unat cap" "pairs_ok (unat cap - 8 - 36 * length ps) ps" "sorted_wrt (<) (map sp_Size ps)"
    and peer: "os_Open os' b = None" "os_Stat os' b = Inr fi" "fi_Size fi = length m" "os_Mmap os' (length m) = Inr m" and new': "map_of reg1 b = None"
  defines "ds \<equiv> map (pair_dim (unat cap - 8 - 36 * length ps)) ps"
  obtains bm' where "getGlobalBufferManager os' b 0 False [] reg1 = Some (Inr (bm', m), [], reg_put b (bm', m) reg1)" and "length m = unat cap"
    and "owns 20 bm ds (free_all ds) m []" and "peers ds (length m) 20 bm 24 bm'" and "bm_path bm = b"
proof -
  from g new obtain mem where mm: "os_Mmap os (unat cap) = Inr mem" "enter_manager True pairs b id mem reg0 = Some (Inr (bm, m), acts, reg)"
    by (auto simp: getGlobalBufferManager_def Let_def split: if_splits option.splits sum.splits)
  have len: "length mem = unat cap" using mm(1) assms(3) by (simp add: mmap_ok_def)
  have c: "createBufferManager ps b mem 0 = Some (Inr (bm, m))"
    using mm(2) ps(1) by (auto simp: enter_manager_def split: Option.bind_split_asm sum.split_asm)
  have lt: "length mem < 2 ^ 32" using unsigned_less [of cap] len by simp
  have pl: "8 + 36 * length ps \<le> length mem" "pairs_ok (length mem - 8 - 36 * length ps) ps" using ps(4,5) len by simp_all
  note cr = created_managers [OF ps(2,3) pl(1) lt pl(2) ps(6), of b, unfolded len, folded ds_def]
  from cr obtain bm0 m0 bm' where cm: "createBufferManager ps b mem 0 = Some (Inr (bm0, m0))" "mappingBufferManager b m0 0 = Some (Inr bm')" "length m0 = unat cap"
    "mgr_inv 20 bm0 ds (map (\<lambda>d. all_slots (fst d) (snd d)) ds) m0" "mgr_inv 24 bm' ds (map (\<lambda>d. all_slots (fst d) (snd d)) ds) m0" .
  then have e: "bm0 = bm" "m0 = m" using c by simp_all
  note cm = cm [unfolded e]
  have l: "length m = unat cap" by (rule cm(3))
  have "distinct (free_handles (map (\<lambda>d. all_slots (fst d) (snd d)) ds))" by (rule distinct_free) (auto simp: distinct_all_slots)
  then have o: "owns 20 bm ds (free_all ds) m []" using cm(4) unfolding owns_empty owner_all_free_def free_all_def by blast
  have "bm_maxSliceSize bm' = bm_maxSliceSize bm" using cm(4,5) by (simp add: mgr_inv_def word_unat_eq_iff)
  then have p: "peers ds (length m) 20 bm 24 bm'" using cm(4,5) by (simp only: peers_def mgr_inv_def)
  have bp: "bm_path bm = b" using c
    by (auto simp: createBufferManager_def Let_def split: Option.bind_split_asm if_split_asm sum.split_asm prod.split_asm)
  have "getGlobalBufferManager os' b 0 False [] reg1 = Some (Inr (bm', m), [], reg_put b (bm', m) reg1)"
    using peer new' cm(2) l by (simp add: getGlobalBufferManager_def enter_manager_def)
  from that [OF this l o p bp] show thesis .
qed

text \<open>What the two sides of a connection over files need of their environments.\<close>

definition peers_cfg :: "os_env \<Rightarrow> os_env \<Rightarrow> Config \<Rightarrow> Config \<Rightarrow> bool" where
  "peers_cfg os os' cfg cfg' \<longleftrightarrow> client_cfg_ok os cfg \<and> mmap_ok os \<and> 0 < QueueCap cfg \<and> 24 + 12 * unat (QueueCap cfg) < 2 ^ 32 \<and>
     VerifyConfig os' cfg' = None \<and> cfg_MemMapType cfg' = MemMapTypeDevShmFile \<and> isArmArch os' = isArmArch os \<and>
     (let ps = sortPairs (BufferSliceSizes cfg); n = unat (ShareMemoryBufferCap cfg)
      in length ps < 2 ^ 16 \<and> 8 + 36 * length ps \<le> n \<and> pairs_ok (n - 8 - 36 * length ps) ps \<and> sorted_wrt (<) (map sp_Size ps))"

text \<open>The files with these contents exist for the server.\<close>

definition shared_files :: "os_env \<Rightarrow> string \<Rightarrow> bytes \<Rightarrow> string \<Rightarrow> bytes \<Rightarrow> bool" where
  "shared_files os q qm b m \<longleftrightarrow> os_Open os q = None \<and> os_Open os b = None \<and>
     (\<exists>fi. os_Stat os q = Inr fi \<and> fi_Size fi = length qm) \<and> (\<exists>fi. os_Stat os b = Inr fi \<and> fi_Size fi = length m) \<and>
     os_Mmap os (length qm) = Inr qm \<and> os_Mmap os (length m) = Inr m"

text \<open>Two sessions share fresh queues, each sending where the other receives, and a buffer memory with all buffers free.\<close>

definition connected :: "(nat \<times> nat) list \<Rightarrow> world \<Rightarrow> world \<Rightarrow> bool" where
  "connected ds a b \<longleftrightarrow> (\<exists>qa qb bm bm'. queueManager_of (ses a) = Some qa \<and> queueManager_of (ses b) = Some qb \<and>
     recvQueue qb = sendQueue qa \<and> sendQueue qb = recvQueue qa \<and> queue_fresh (sendQueue qa) (qmem a) \<and> queue_fresh (recvQueue qa) (qmem a) \<and>
     bufferManager_of (ses a) = Some bm \<and> bufferManager_of (ses b) = Some bm' \<and> bmem b = bmem a \<and> qmem b = qmem a \<and>
     owns 20 bm ds (free_all ds) (bmem a) [] \<and> peers ds (length (bmem a)) 20 bm 24 bm' \<and>
     communicationVersion (ses a) = 2 \<and> communicationVersion (ses b) = 2)"

lemma sessions_connect:
  assumes cfg: "peers_cfg os os' cfg cfg'" and qn: "createQueueManager os (QueuePath cfg) (QueueCap cfg) = Some (Inr (qm, q))"
    and bn: "getGlobalBufferManager os (ShareMemoryPathPrefix cfg @ bufferPathSuffix) (ShareMemoryBufferCap cfg) True (BufferSliceSizes cfg) (pt_reg pc) = Some (Inr (bm, m), acts, reg)"
      "map_of (pt_reg pc) (ShareMemoryPathPrefix cfg @ bufferPathSuffix) = None" and sc: "sock pc []" "pt_out pc = []"
    and f: "shared_files os' (QueuePath cfg) q (ShareMemoryPathPrefix cfg @ bufferPathSuffix) m" "map_of (pt_reg ps) (ShareMemoryPathPrefix cfg @ bufferPathSuffix) = None"
  shows "\<exists>pc' qm' bm' ds. newSession os sp (Some cfg) u None None conn dbg view True pc = (HsOk (session_world dbg conn (qm, q) (bm, m) True False), pc') \<and>
    (sock ps (pt_out pc') \<longrightarrow> (\<exists>ps'. newSession os' sp (Some cfg') u' None None conn' dbg view' False ps = (HsOk (session_world dbg conn' (qm', q) (bm', m) False True), ps'))) \<and>
    connected ds (session_world dbg conn (qm, q) (bm, m) True False) (session_world dbg conn' (qm', q) (bm', m) False True)"
proof -
  let ?b = "ShareMemoryPathPrefix cfg @ bufferPathSuffix" and ?ps = "sortPairs (BufferSliceSizes cfg)" and ?n = "unat (ShareMemoryBufferCap cfg)"
  let ?ds = "map (pair_dim (?n - 8 - 36 * length ?ps)) ?ps"
  have c: "client_cfg_ok os cfg" "mmap_ok os" "0 < QueueCap cfg" "24 + 12 * unat (QueueCap cfg) < 2 ^ 32" "VerifyConfig os' cfg' = None" "cfg_MemMapType cfg' = MemMapTypeDevShmFile"
    "isArmArch os' = isArmArch os" "length ?ps < 2 ^ 16" "8 + 36 * length ?ps \<le> ?n" "pairs_ok (?n - 8 - 36 * length ?ps) ?ps" "sorted_wrt (<) (map sp_Size ?ps)"
    using cfg by (simp_all add: peers_cfg_def Let_def)
  have v: "VerifyConfig os cfg = None" "length (QueuePath cfg) < 2 ^ 16" "length ?b < 2 ^ 16" using c(1) by (simp_all add: client_cfg_ok_def)
  have ev: "isArmArch os \<longrightarrow> even (unat (QueueCap cfg))" 
  proof
    assume "isArmArch os"
    then have "QueueCap cfg mod 8 = 0" using v(1) by (simp add: VerifyConfig_None)
    then have "unat (QueueCap cfg mod 8) = 0" by simp
    then have "unat (QueueCap cfg) mod 8 = 0" by (simp add: unat_mod)
    then show "even (unat (QueueCap cfg))" by presburger
  qed
  have ne: "?ps \<noteq> []" using v(1) by (auto simp: VerifyConfig_None sortPairs_def simp flip: set_empty)
  obtain fq fb where fi: "os_Stat os' (QueuePath cfg) = Inr fq" "fi_Size fq = length q" "os_Stat os' ?b = Inr fb" "fi_Size fb = length m" "os_Open os' (QueuePath cfg) = None" "os_Open os' ?b = None"
    "os_Mmap os' (length q) = Inr q" "os_Mmap os' (length m) = Inr m" using f(1) by (auto simp: shared_files_def)
  from managers_wired_ok [OF qn c(2-4) ev c(7) fi(5,1,2,7)] obtain qm' where
    w: "mappingQueueManager os' (QueuePath cfg) = Some (Inr (qm', q))" "sendQueue qm' = recvQueue qm" "recvQueue qm' = sendQueue qm"
      "queue_fresh (sendQueue qm) q" "queue_fresh (recvQueue qm) q" by blast
  obtain bm' where g: "getGlobalBufferManager os' ?b 0 False [] (pt_reg ps) = Some (Inr (bm', m), [], reg_put ?b (bm', m) (pt_reg ps))"
    "owns 20 bm ?ds (free_all ?ds) m []" "peers ?ds (length m) 20 bm 24 bm'" "bm_path bm = ?b"
    by (rule buffers_connected [OF bn c(2) refl ne c(8-11) fi(6,3,4,8) f(2)])
  have qp: "qm_path qm = QueuePath cfg" using qn
    by (auto simp: createQueueManager_def Let_def split: Option.bind_split_asm if_split_asm sum.split_asm prod.split_asm option.split_asm)
  let ?a = "session_world dbg conn (qm, q) (bm, m) True False"
  from new_client [OF c(1) qn bn(1) sc(1), of sp u conn dbg view] sc(2) obtain pc' where
    pc: "newSession os sp (Some cfg) u None None conn dbg view True pc = (HsOk ?a, pc')" "pt_out pc' = metadata_event 2 typeShareMemoryByFilePath (QueuePath cfg) ?b"
    using qp g(4) by auto
  have sv: "\<exists>ps'. newSession os' sp (Some cfg') u' None None conn' dbg view' False ps = (HsOk (session_world dbg conn' (qm', q) (bm', m) False True), ps')" if "sock ps (pt_out pc')"
    using new_server [OF c(5,6) v(2,3) that [unfolded pc(2)] w(1) g(1), of sp u' conn' dbg view'] by blast
  have "connected ?ds ?a (session_world dbg conn' (qm', q) (bm', m) False True)"
    using w g(2,3) by (simp add: connected_def session_world_def)
  with pc(1) sv show ?thesis by blast
qed

text \<open>A stream opened on a session that has just been set up, and the session that waits for it.\<close>

lemma open_first:
  assumes "owns 20 (fst y) ds L (snd y) []" and w: "w = session_world dbg conn x y True False"
  shows "\<exists>a s. OpenStream w = Some (Inr 0, a) \<and> writer 20 (fst y) ds L 0 s a \<and> ses a = (ses w)\<lparr>nextStreamID := 2, streams := Some [(2, 0)]\<rparr> \<and>
    bmem a = snd y \<and> qmem a = snd x \<and> st_id s = 2 \<and> \<not> inFallbackState s \<and> sendBuf s = newEmptyLinkedBuffer"
  using wbuf_new [OF assms(1)] unfolding w
  by (auto simp: OpenStream_def session_world_def initial_world_def initial_session_def IsClosed_def IsHealthy_def register_stream_def newStream_def
      streams_get_def streams_put_def writer_def full_def newEmptyLinkedBuffer_def empty_slist_def upd_ses_def)

lemma ready_first: "ready_for i (session_world dbg conn x y False fin)"
  by (simp add: ready_for_def session_world_def streams_get_def initial_world_def initial_session_def acceptCap_def)

text \<open>How the data of a flush reaches the session \<open>b\<close>: as an element of the queue, or as an event over the connection.\<close>

definition received :: "world \<Rightarrow> world \<Rightarrow> world \<Rightarrow> world \<Rightarrow> bool" where
  "received a a' b b' \<longleftrightarrow> (let w = b\<lparr>bmem := bmem a', qmem := qmem a'\<rparr> in
     handlePolling [] [] w = Some ((int headerSize, False, None), b') \<or>
     (\<exists>ev. sendCh (ses a') = sendCh (ses a) @ [\<lparr>sr_Hdr = None, sr_Body = Some ev\<rparr>] \<and> handleEvents ev w = Some ((int (length ev), None), b')))"

text \<open>
  C1. From two processes with a socket to the first message. A client and a server whose configurations
  pass \<^verbatim>\<open>VerifyConfig\<close> start a session over the same files: \<^verbatim>\<open>newSession\<close> succeeds on both sides, however the
  socket divides the bytes of the handshake. The client then opens a stream, writes any data and flushes,
  all without error; the server handles what arrives, has the new stream registered under the id of the
  client, and \<^verbatim>\<open>ReadBytes\<close> on it returns exactly the data.
\<close>

theorem first_message_arrives:
  assumes cfg: "peers_cfg os os' cfg cfg'" and qn: "createQueueManager os (QueuePath cfg) (QueueCap cfg) = Some (Inr (qm, q))"
    and bn: "getGlobalBufferManager os (ShareMemoryPathPrefix cfg @ bufferPathSuffix) (ShareMemoryBufferCap cfg) True (BufferSliceSizes cfg) (pt_reg pc) = Some (Inr (bm, m), acts, reg)"
      "map_of (pt_reg pc) (ShareMemoryPathPrefix cfg @ bufferPathSuffix) = None" and sc: "sock pc []" "pt_out pc = []"
    and f: "shared_files os' (QueuePath cfg) q (ShareMemoryPathPrefix cfg @ bufferPathSuffix) m" "map_of (pt_reg ps) (ShareMemoryPathPrefix cfg @ bufferPathSuffix) = None"
    and d: "data \<noteq> []" "headerSize + 8 + length data < 2 ^ 32"
  shows "\<exists>pc' wc. newSession os sp (Some cfg) u None None conn dbg view True pc = (HsOk wc, pc') \<and>
    (sock ps (pt_out pc') \<longrightarrow> (\<exists>ps' ws a a1 a2 b1 x b2.
      newSession os' sp (Some cfg') u' None None conn' dbg view' False ps = (HsOk ws, ps') \<and>
      OpenStream wc = Some (Inr 0, a) \<and> stream_WriteBytes 0 data a = Some (length data, a1) \<and> Flush 0 [] (Answered None) a1 = Some (None, a2) \<and>
      received a a2 ws b1 \<and> streams_get 2 b1 = Some x \<and> stream_ReadBytes x [] (int (length data)) b1 = Some (Inr data, b2)))"
proof -
  from sessions_connect [OF cfg qn bn sc f, of sp u conn dbg view u' conn' view'] obtain pc' qm' bm' ds where
    c: "newSession os sp (Some cfg) u None None conn dbg view True pc = (HsOk (session_world dbg conn (qm, q) (bm, m) True False), pc')"
    and s: "sock ps (pt_out pc') \<longrightarrow> (\<exists>ps'. newSession os' sp (Some cfg') u' None None conn' dbg view' False ps = (HsOk (session_world dbg conn' (qm', q) (bm', m) False True), ps'))"
    and co: "connected ds (session_world dbg conn (qm, q) (bm, m) True False) (session_world dbg conn' (qm', q) (bm', m) False True)" by blast
  let ?wc = "session_world dbg conn (qm, q) (bm, m) True False" and ?ws = "session_world dbg conn' (qm', q) (bm', m) False True"
  have k: "recvQueue qm' = sendQueue qm" "queue_fresh (sendQueue qm) q" "owns 20 bm ds (free_all ds) m []" "peers ds (length m) 20 bm 24 bm'"
    using co by (simp_all add: connected_def session_world_def)
  from open_first [of "(bm, m)" ds "free_all ds" ?wc dbg conn "(qm, q)"] k(3) obtain a t where
    a: "OpenStream ?wc = Some (Inr 0, a)" "writer 20 bm ds (free_all ds) 0 t a" "ses a = (ses ?wc)\<lparr>nextStreamID := 2, streams := Some [(2, 0)]\<rparr>"
      "bmem a = m" "qmem a = q" "st_id t = 2" "sendBuf t = newEmptyLinkedBuffer" by auto
  have e: "lb_content (bmem a) (sendBuf t) = []" using a(7) by simp
  have q: "queueManager_of (ses a) = Some qm" "communicationVersion (ses a) = 2" using a(3) by (simp_all add: session_world_def)
  have b: "ready_for (st_id t) ?ws" "bufferManager_of (ses ?ws) = Some bm'" "queueManager_of (ses ?ws) = Some qm'" by (simp_all add: ready_first) (simp_all add: session_world_def)
  have fr: "queue_inv (sendQueue qm) q" "queue_items (sendQueue qm) q = []" "0 < queue_budget (sendQueue qm) q"
    using k(2) by (simp_all add: queue_fresh_def queue_budget_def queue_items_def)
  have "\<exists>a1 s1 a2 b1 x b2. stream_WriteBytes 0 data a = Some (length data, a1) \<and> objs a1 0 = Some s1 \<and> Flush 0 [] (Answered None) a1 = Some (None, a2) \<and>
    (if inFallbackState s1 \<or> \<not> lb_isFromShm (sendBuf s1)
     then \<exists>ev. sendCh (ses a2) = sendCh (ses a) @ [\<lparr>sr_Hdr = None, sr_Body = Some ev\<rparr>] \<and>
       handleEvents ev (?ws\<lparr>bmem := bmem a2, qmem := qmem a2\<rparr>) = Some ((int (length ev), None), b1)
     else handlePolling [] [] (?ws\<lparr>bmem := bmem a2, qmem := qmem a2\<rparr>) = Some ((int headerSize, False, None), b1)) \<and>
    streams_get (st_id t) b1 = Some x \<and>
    stream_ReadBytes x [] (int (length (lb_content (bmem a) (sendBuf t) @ data))) b1 = Some (Inr (lb_content (bmem a) (sendBuf t) @ data), b2)"
    by (rule message_path [OF a(2) d(1) _ q(1) _ _ _ _ _ b k(1)]) (use d(2) e fr a(4,5) q(2) k(4) in \<open>simp_all add: maxSupportProtoVersion_def\<close>)
  then show ?thesis unfolding e a(6) append_Nil
  proof (elim exE conjE)
    fix a1 s1 a2 b1 x b2
    assume r: "stream_WriteBytes 0 data a = Some (length data, a1)" "Flush 0 [] (Answered None) a1 = Some (None, a2)"
      "streams_get 2 b1 = Some x" "stream_ReadBytes x [] (int (length data)) b1 = Some (Inr data, b2)"
      and i: "if inFallbackState s1 \<or> \<not> lb_isFromShm (sendBuf s1)
       then \<exists>ev. sendCh (ses a2) = sendCh (ses a) @ [\<lparr>sr_Hdr = None, sr_Body = Some ev\<rparr>] \<and>
         handleEvents ev (?ws\<lparr>bmem := bmem a2, qmem := qmem a2\<rparr>) = Some ((int (length ev), None), b1)
       else handlePolling [] [] (?ws\<lparr>bmem := bmem a2, qmem := qmem a2\<rparr>) = Some ((int headerSize, False, None), b1)"
    have "received a a2 ?ws b1" using i unfolding received_def Let_def by (simp split: if_splits)
    with r c s a(1) show ?thesis by blast
  qed
qed

definition demo_cfg :: Config where
  "demo_cfg = DefaultConfig\<lparr>QueueCap := 2, QueuePath := ''/dev/shm/q'', ShareMemoryPathPrefix := ''/tmp/s''\<rparr>"

lemma demo_cfg_pairs:
  "sortPairs (BufferSliceSizes demo_cfg) = BufferSliceSizes demo_cfg" "length (BufferSliceSizes demo_cfg) = 3" "unat (ShareMemoryBufferCap demo_cfg) = 33554432"
  "pairs_ok (33554432 - 8 - 36 * 3) (BufferSliceSizes demo_cfg)" "sorted_wrt (<) (map sp_Size (BufferSliceSizes demo_cfg))"
  by (simp_all add: demo_cfg_def sortPairs_def DefaultConfig_def consts_defs pairs_ok_def pair_num_def bufferHeaderSize_def)

lemma demo_cfg_verified:
  assumes "os_GOOS os = ''linux''" and "os_GOARCH os = ''amd64''"
  shows "VerifyConfig os demo_cfg = None"
  unfolding VerifyConfig_None using assms by (simp add: demo_cfg_def DefaultConfig_def consts_defs bufferHeaderSize_def isArmArch_def)

lemma demo_cfg_buffers:
  obtains bm m where "getGlobalBufferManager demo_os (ShareMemoryPathPrefix demo_cfg @ bufferPathSuffix) (ShareMemoryBufferCap demo_cfg) True (BufferSliceSizes demo_cfg) [] =
      Some (Inr (bm, m), [], reg_put (ShareMemoryPathPrefix demo_cfg @ bufferPathSuffix) (bm, m) [])" and "length m = 33554432"
proof -
  let ?mem = "replicate 33554432 (0 :: u8)" and ?ps = "BufferSliceSizes demo_cfg" and ?b = "ShareMemoryPathPrefix demo_cfg @ bufferPathSuffix"
  note dc = demo_cfg_pairs
  have h: "?ps \<noteq> []" "length ?ps < 2 ^ 16" "8 + 36 * length ?ps \<le> length ?mem" "length ?mem < 2 ^ 32" "pairs_ok (length ?mem - 8 - 36 * length ?ps) ?ps"
    using dc by (auto simp del: length_0_conv)
  note cr = created_managers [OF h dc(5), of ?b]
  from cr obtain bm m where c: "createBufferManager ?ps ?b ?mem 0 = Some (Inr (bm, m))" "length m = length ?mem" by blast
  have "canCreateOnDevShm demo_os (ucast (ShareMemoryBufferCap demo_cfg)) ?b" by (simp add: canCreateOnDevShm_def demo_cfg_def bufferPathSuffix_def)
  then have "getGlobalBufferManager demo_os ?b (ShareMemoryBufferCap demo_cfg) True ?ps [] = Some (Inr (bm, m), [], reg_put ?b (bm, m) [])"
    using c(1) dc(1,3) by (simp add: getGlobalBufferManager_def demo_os_def enter_manager_def)
  with that c(2) show thesis by (simp add: length_replicate)
qed

lemma demo_connection:
  obtains bm m where "getGlobalBufferManager demo_os (ShareMemoryPathPrefix demo_cfg @ bufferPathSuffix) (ShareMemoryBufferCap demo_cfg) True (BufferSliceSizes demo_cfg) [] =
      Some (Inr (bm, m), [], reg_put (ShareMemoryPathPrefix demo_cfg @ bufferPathSuffix) (bm, m) [])"
    and "peers_cfg demo_os (mapped_os demo_mem2 m) demo_cfg demo_cfg" and "createQueueManager demo_os (QueuePath demo_cfg) (QueueCap demo_cfg) = Some (Inr (demo_qm demo_send demo_recv, demo_mem2))"
    and "shared_files (mapped_os demo_mem2 m) (QueuePath demo_cfg) demo_mem2 (ShareMemoryPathPrefix demo_cfg @ bufferPathSuffix) m"
proof -
  obtain bm m where b: "getGlobalBufferManager demo_os (ShareMemoryPathPrefix demo_cfg @ bufferPathSuffix) (ShareMemoryBufferCap demo_cfg) True (BufferSliceSizes demo_cfg) [] =
      Some (Inr (bm, m), [], reg_put (ShareMemoryPathPrefix demo_cfg @ bufferPathSuffix) (bm, m) [])" "length m = 33554432" by (rule demo_cfg_buffers)
  have q: "QueuePath demo_cfg = ''/dev/shm/q''" "QueueCap demo_cfg = 2" "cfg_MemMapType demo_cfg = MemMapTypeDevShmFile" "ShareMemoryPathPrefix demo_cfg = ''/tmp/s''"
    by (simp_all add: demo_cfg_def DefaultConfig_def)
  have p: "peers_cfg demo_os (mapped_os demo_mem2 m) demo_cfg demo_cfg"
    using demo_cfg_verified [of demo_os] demo_cfg_verified [of "mapped_os demo_mem2 m"] demo_cfg_pairs
    by (simp add: peers_cfg_def client_cfg_ok_def q bufferPathSuffix_def Let_def) (simp add: demo_os_def mapped_os_def mmap_ok_def isArmArch_def)
  have l: "length demo_mem2 = 96" by code_simp
  have f: "shared_files (mapped_os demo_mem2 m) (QueuePath demo_cfg) demo_mem2 (ShareMemoryPathPrefix demo_cfg @ bufferPathSuffix) m"
    using b(2) l by (simp add: shared_files_def mapped_os_def q bufferPathSuffix_def)
  from that [OF b(1) p _ f] show thesis using demo_manager by (simp add: q demo_qm_def)
qed

lemma demo_socks: "sock (demo_party w []) []" "pt_out (demo_party w segs) = []" "pt_reg (demo_party w segs) = []" "sock (demo_party w (map (\<lambda>b. [b]) bs)) bs"
  by (simp_all add: demo_party_def sock_def list_all_iff)

theorem first_message_arrives_witness:
  "\<exists>m pc' wc. newSession demo_os 24 (Some demo_cfg) True None None (\<lambda>_. None) False (\<lambda>_. []) True (demo_party (initial_world False True) []) = (HsOk wc, pc') \<and>
    (\<exists>ps' ws a a1 a2 b1 x b2.
      newSession (mapped_os demo_mem2 m) 24 (Some demo_cfg) True None None (\<lambda>_. None) False (\<lambda>_. []) False (demo_party (initial_world False False) (map (\<lambda>b. [b]) (pt_out pc'))) = (HsOk ws, ps') \<and>
      OpenStream wc = Some (Inr 0, a) \<and> stream_WriteBytes 0 [7, 8] a = Some (2, a1) \<and> Flush 0 [] (Answered None) a1 = Some (None, a2) \<and>
      received a a2 ws b1 \<and> streams_get 2 b1 = Some x \<and> stream_ReadBytes x [] 2 b1 = Some (Inr [7, 8], b2))"
proof -
  obtain bm m where c: "getGlobalBufferManager demo_os (ShareMemoryPathPrefix demo_cfg @ bufferPathSuffix) (ShareMemoryBufferCap demo_cfg) True (BufferSliceSizes demo_cfg) [] =
      Some (Inr (bm, m), [], reg_put (ShareMemoryPathPrefix demo_cfg @ bufferPathSuffix) (bm, m) [])"
    "peers_cfg demo_os (mapped_os demo_mem2 m) demo_cfg demo_cfg" "createQueueManager demo_os (QueuePath demo_cfg) (QueueCap demo_cfg) = Some (Inr (demo_qm demo_send demo_recv, demo_mem2))"
    "shared_files (mapped_os demo_mem2 m) (QueuePath demo_cfg) demo_mem2 (ShareMemoryPathPrefix demo_cfg @ bufferPathSuffix) m" by (rule demo_connection)
  let ?pc = "demo_party (initial_world False True) []" and ?ps = "\<lambda>bs. demo_party (initial_world False False) (map (\<lambda>b. [b]) bs)"
  have d: "[7, 8 :: u8] \<noteq> []" "headerSize + 8 + length [7, 8 :: u8] < 2 ^ 32" by (simp_all add: headerSize_def)
  have r: "map_of (pt_reg (demo_party w segs)) p = None" for w segs p by (simp add: demo_socks(3))
  have c1: "getGlobalBufferManager demo_os (ShareMemoryPathPrefix demo_cfg @ bufferPathSuffix) (ShareMemoryBufferCap demo_cfg) True (BufferSliceSizes demo_cfg) (pt_reg ?pc) =
      Some (Inr (bm, m), [], reg_put (ShareMemoryPathPrefix demo_cfg @ bufferPathSuffix) (bm, m) [])" using c(1) by (simp only: demo_socks(3))
  note fm = first_message_arrives [OF c(2,3) c1 r demo_socks(1,2) c(4) r d, of 24 True "\<lambda>_. None" False "\<lambda>_. []"]
  obtain pc' wc where n: "newSession demo_os 24 (Some demo_cfg) True None None (\<lambda>_. None) False (\<lambda>_. []) True ?pc = (HsOk wc, pc')" using fm by blast
  from fm [of "initial_world False False" "map (\<lambda>b. [b]) (pt_out pc')" True "\<lambda>_. None" "\<lambda>_. []"] n demo_socks(4) [of "initial_world False False" "pt_out pc'"]
  have "\<exists>ps' ws a a1 a2 b1 x b2.
      newSession (mapped_os demo_mem2 m) 24 (Some demo_cfg) True None None (\<lambda>_. None) False (\<lambda>_. []) False (?ps (pt_out pc')) = (HsOk ws, ps') \<and>
      OpenStream wc = Some (Inr 0, a) \<and> stream_WriteBytes 0 [7, 8] a = Some (2, a1) \<and> Flush 0 [] (Answered None) a1 = Some (None, a2) \<and>
      received a a2 ws b1 \<and> streams_get 2 b1 = Some x \<and> stream_ReadBytes x [] 2 b1 = Some (Inr [7, 8], b2)" by (simp add: numeral_2_eq_2)
  with n show ?thesis by blast
qed

end
