(* ===== verification/Event_Conn.thy ===== *)
theory Event_Conn
  imports Connection
begin

text \<open>
  The connection of a session to the event loop, \<^verbatim>\<open>event_dispatcher_linux.go\<close>: the read buffer
  that collects what arrives until the session has handled it, writing with as many
  calls as the socket needs, and the tasks the loop runs between events.
\<close>

subsection \<open>The connection\<close>

record connEventHandler =
  readBuffer :: bytes
  readStartOff :: nat
  readEndOff :: nat
  onWriteReadyCh :: bool
  ec_isClose :: bool

definition newConnection :: connEventHandler where
  "newConnection = \<lparr>readBuffer = replicate (64 * 1024) 0, readStartOff = 0, readEndOff = 0, onWriteReadyCh = False, ec_isClose = False\<rparr>"

text \<open>The bytes that have been read and not yet been handled.\<close>

definition window :: "connEventHandler \<Rightarrow> bytes" where
  "window c = load (readBuffer c) (readStartOff c) (readEndOff c - readStartOff c)"

definition maybeExpandReadBuffer :: "connEventHandler \<Rightarrow> connEventHandler" where
  "maybeExpandReadBuffer c =
     (if length (readBuffer c) - readEndOff c = 0
      then c\<lparr>readBuffer := window c @ replicate (2 * length (readBuffer c) - length (window c)) 0,
             readEndOff := length (window c), readStartOff := 0\<rparr>
      else c)"

definition commitRead :: "nat \<Rightarrow> connEventHandler \<Rightarrow> connEventHandler" where
  "commitRead n c =
     (let start = readStartOff c + n in
      if start = readEndOff c
      then c\<lparr>readBuffer := (if length (readBuffer c) > 4 * 1024 * 1024 then take (length (readBuffer c) div 2) (readBuffer c) else readBuffer c),
             readStartOff := 0, readEndOff := 0\<rparr>
      else c\<lparr>readStartOff := start\<rparr>)"

text \<open>\<^verbatim>\<open>onEventData\<close> of the session on the window of the connection.\<close>

definition conn_data :: "connEventHandler \<Rightarrow> world \<Rightarrow> (connEventHandler \<times> world) option" where
  "conn_data c w =
     (if IsClosed w then Some (c, w)
      else do {
        (consumed, w1) \<leftarrow> onEventData (window c) w;
        Some (commitRead (nat consumed) c, w1)
      })"

text \<open>
  Closing: the task that takes the descriptor out of the loop is posted by the first call
  only, which the flag that is returned says.
\<close>

definition deferredClose :: "connEventHandler \<Rightarrow> bool \<times> connEventHandler" where
  "deferredClose c = (\<not> ec_isClose c, c\<lparr>ec_isClose := True\<rparr>)"

definition conn_onRemoteClose :: "connEventHandler \<Rightarrow> world \<Rightarrow> connEventHandler \<times> world" where
  "conn_onRemoteClose c w = (snd (deferredClose c), onRemoteClose w)"

definition onDataThreshold :: nat where [consts_defs]: "onDataThreshold = 1 * 1024 * 1024"

text \<open>One read into \<open>room\<close> bytes: what is read, and what stays in the socket.\<close>

definition sys_read :: "nat \<Rightarrow> bytes list \<Rightarrow> bytes \<times> bytes list" where
  "sys_read room segs = (case segs of
     [] \<Rightarrow> ([], [])
   | s # ss \<Rightarrow> (take room s, if length s \<le> room then ss else drop room s # ss))"

partial_function (option) onReadReady :: "bytes list \<Rightarrow> read_end \<Rightarrow> connEventHandler \<Rightarrow> world \<Rightarrow> (bytes list \<times> connEventHandler \<times> world) option" where
  "onReadReady segs e c0 w = (let c = maybeExpandReadBuffer c0; room = length (readBuffer c) - readEndOff c in
     if room = 0 then None
     else if segs = [] \<and> e = EndWait then map_option (Pair []) (conn_data c w)
     else if segs = [] \<and> e \<noteq> EndEOF then Some ([], c, w)
     else case sys_read room segs of (bs, rest) \<Rightarrow>
       if bs = [] then (case conn_onRemoteClose c w of (c1, w1) \<Rightarrow> map_option (Pair rest) (conn_data c1 w1))
       else
         let c1 = c\<lparr>readBuffer := take (readEndOff c) (readBuffer c) @ bs @ drop (readEndOff c + length bs) (readBuffer c),
                    readEndOff := readEndOff c + length bs\<rparr>
         in if readEndOff c1 - readStartOff c1 \<ge> onDataThreshold
            then do { (c2, w2) \<leftarrow> conn_data c1 w; onReadReady rest e c2 w2 }
            else onReadReady rest e c1 w)"

subsection \<open>Writing\<close>

text \<open>
  The attempts of a write: whether the connection has been closed by then, and what the system
  call answers. After \<open>TryAgain\<close> the writer waits until the socket is ready; without a further attempt it waits
  forever, which is \<open>None\<close>.
\<close>

datatype write_result = Took nat | TryAgain | Failed go_error

type_synonym attempts = "(bool \<times> write_result) list"

fun conn_write :: "attempts \<Rightarrow> bytes \<Rightarrow> nat \<Rightarrow> bytes \<Rightarrow> (go_error option \<times> bytes \<times> attempts) option" where
  "conn_write [] data written out = (if written < length data then None else Some (None, out, []))"
| "conn_write ((closed, r) # ws) data written out =
     (if \<not> written < length data then Some (None, out, (closed, r) # ws)
      else if closed then Some (Some EPIPE, out, ws)
      else case r of
        TryAgain \<Rightarrow> conn_write ws data written out
      | Failed e \<Rightarrow> Some (Some e, out, ws)
      | Took n \<Rightarrow> let n = min n (length data - written) in conn_write ws data (written + n) (out @ load data written n))"

text \<open>An \<^verbatim>\<open>Iovec\<close> is its length and the offset of its base in the slice it belongs to.\<close>

type_synonym iovec = "nat \<times> nat"

function ack_write :: "bytes list \<Rightarrow> nat \<Rightarrow> iovec list \<Rightarrow> nat \<Rightarrow> nat \<Rightarrow> (iovec list \<times> nat \<times> nat) option" where
  "ack_write data writtenSize ioves writtenVec need =
     (if writtenSize = 0 then Some (ioves, writtenVec, need)
      else if length ioves \<le> writtenVec then None
      else
        let len = fst (ioves ! writtenVec) in
        if writtenSize \<ge> len then ack_write data (writtenSize - len) ioves (writtenVec + 1) (need - 1)
        else Some (ioves[writtenVec := (len - writtenSize, length (data ! writtenVec) - (len - writtenSize))], writtenVec, need))"
  by pat_completeness auto
termination by (relation "measure (\<lambda>(data, k, ioves, v, need). length ioves - v)") auto

declare ack_write.simps [simp del]

text \<open>The bytes that the submitted vectors stand for.\<close>

definition submitted :: "bytes list \<Rightarrow> iovec list \<Rightarrow> nat \<Rightarrow> nat \<Rightarrow> bytes" where
  "submitted data ioves v need = concat (map (\<lambda>i. load (data ! i) (snd (ioves ! i)) (fst (ioves ! i))) [v ..< v + need])"

fun writev_loop :: "attempts \<Rightarrow> bytes list \<Rightarrow> iovec list \<Rightarrow> nat \<Rightarrow> nat \<Rightarrow> bytes \<Rightarrow> (go_error option \<times> bytes \<times> attempts) option" where
  "writev_loop [] data ioves v need out = (if need > 0 then None else Some (None, out, []))"
| "writev_loop ((closed, r) # ws) data ioves v need out =
     (if \<not> need > 0 then Some (None, out, (closed, r) # ws)
      else if closed then Some (Some EPIPE, out, ws)
      else case r of
        TryAgain \<Rightarrow> writev_loop ws data ioves v need out
      | Failed e \<Rightarrow> Some (Some e, out, ws)
      | Took n \<Rightarrow> do {
          let bs = take n (submitted data ioves v need);
          (ioves', v', need') \<leftarrow> ack_write data (length bs) ioves v need;
          writev_loop ws data ioves' v' need' (out @ bs)
        })"

definition iovMax :: nat where [consts_defs]: "iovMax = 256"

definition doWritev :: "attempts \<Rightarrow> bytes list \<Rightarrow> bytes \<Rightarrow> ((go_error option \<times> bytes \<times> attempts) \<times> nat) option" where
  "doWritev ws data out =
     (let now = take iovMax data in
      if [] \<in> set now then None
      else do {
        r \<leftarrow> writev_loop ws data (map (\<lambda>d. (length d, 0)) now) 0 (length now) out;
        Some (r, length now)
      })"

partial_function (option) writev :: "attempts \<Rightarrow> bytes list \<Rightarrow> nat \<Rightarrow> bytes \<Rightarrow> (go_error option \<times> bytes \<times> attempts) option" where
  "writev ws data writtenSliceNum out =
     (if writtenSliceNum < length data then do {
        ((err, out1, ws1), n) \<leftarrow> doWritev ws (drop writtenSliceNum data) out;
        if err \<noteq> None then Some (err, out1, ws1) else writev ws1 data (writtenSliceNum + n) out1
      } else Some (None, out, ws))"

definition onWriteReady :: "connEventHandler \<Rightarrow> connEventHandler" where
  "onWriteReady c = (if \<not> ec_isClose c then c\<lparr>onWriteReadyCh := True\<rparr> else c)"

text \<open>The flags of an event are \<^verbatim>\<open>EPOLLRDHUP\<close>, \<^verbatim>\<open>EPOLLIN\<close> and \<^verbatim>\<open>EPOLLOUT\<close>.\<close>

definition conn_handleEvent :: "bool \<Rightarrow> bool \<Rightarrow> bool \<Rightarrow> bytes list \<Rightarrow> read_end \<Rightarrow> connEventHandler \<Rightarrow> world \<Rightarrow> (bytes list \<times> connEventHandler \<times> world) option" where
  "conn_handleEvent hup inp outp segs e c w =
     (if hup then Some (segs, conn_onRemoteClose c w)
      else do {
        (segs1, c1, w1) \<leftarrow> (if inp then onReadReady segs e c w else Some (segs, c, w));
        Some (segs1, if outp then onWriteReady c1 else c1, w1)
      })"

subsection \<open>The loop\<close>

text \<open>\<open>pendingLambda\<close> and \<open>runningLambda\<close> hold the posted functions, in the order they were posted.\<close>

record 'f epollDispatcher =
  conns :: "int list"
  pendingLambda :: "'f list"
  runningLambda :: "'f list"
  isShutdown :: bool

definition newEpollDispatcher :: "'f epollDispatcher" where
  "newEpollDispatcher = \<lparr>conns = [], pendingLambda = [], runningLambda = [], isShutdown = False\<rparr>"

definition post :: "'f \<Rightarrow> 'f epollDispatcher \<Rightarrow> 'f epollDispatcher" where
  "post f d = d\<lparr>pendingLambda := pendingLambda d @ [f]\<rparr>"

text \<open>\<open>run\<close> says what a posted function does to the process and to the dispatcher.\<close>

fun run_each :: "('f \<Rightarrow> 's \<times> 'f epollDispatcher \<Rightarrow> ('s \<times> 'f epollDispatcher) option) \<Rightarrow> 'f list \<Rightarrow> 's \<times> 'f epollDispatcher \<Rightarrow>
    (bool \<times> 's \<times> 'f epollDispatcher) option" where
  "run_each run [] x = Some (True, x)"
| "run_each run (f # fs) x = (if isShutdown (snd x) then Some (False, x) else do { x1 \<leftarrow> run f x; run_each run fs x1 })"

definition runLambda :: "('f \<Rightarrow> 's \<times> 'f epollDispatcher \<Rightarrow> ('s \<times> 'f epollDispatcher) option) \<Rightarrow> 's \<times> 'f epollDispatcher \<Rightarrow> ('s \<times> 'f epollDispatcher) option" where
  "runLambda run x = (case x of (s, d) \<Rightarrow> do {
     let d1 = d\<lparr>runningLambda := pendingLambda d, pendingLambda := runningLambda d\<rparr>;
     (done, s2, d2) \<leftarrow> run_each run (runningLambda d1) (s, d1);
     Some (s2, if done then d2\<lparr>runningLambda := []\<rparr> else d2)
   })"

text \<open>Registering a connection; the two system calls may fail.\<close>

definition setCallback :: "int \<Rightarrow> go_error option \<Rightarrow> go_error option \<Rightarrow> 'f epollDispatcher \<Rightarrow> go_error option \<times> 'f epollDispatcher" where
  "setCallback fd nonblock ctl d =
     (if nonblock \<noteq> None then (Some (ErrMsg ''couldn't set nobloking''), d)
      else if ctl \<noteq> None then (Some (ErrMsg ''epollCt failed''), d)
      else (None, d\<lparr>conns := fd # removeAll fd (conns d)\<rparr>))"

definition forget_conn :: "int \<Rightarrow> 'f epollDispatcher \<Rightarrow> 'f epollDispatcher" where
  "forget_conn fd d = d\<lparr>conns := removeAll fd (conns d)\<rparr>"

subsection \<open>The division of the bytes into reads does not matter\<close>

text \<open>The invariant of the read buffer.\<close>

definition conn_ok :: "connEventHandler \<Rightarrow> bool" where
  "conn_ok c \<longleftrightarrow> readStartOff c \<le> readEndOff c \<and> readEndOff c \<le> length (readBuffer c) \<and> 0 < length (readBuffer c)"

lemma newConnection_ok [simp]: "conn_ok newConnection" "window newConnection = []"
proof -
  have k: "conn_ok \<lparr>readBuffer = replicate n 0, readStartOff = 0, readEndOff = 0, onWriteReadyCh = False, ec_isClose = False\<rparr>" if "0 < n" for n
    using that by (simp add: conn_ok_def)
  show "conn_ok newConnection" unfolding newConnection_def by (rule k) simp
  show "window newConnection = []" by (simp only: newConnection_def window_def load_def connEventHandler.simps diff_self_eq_0 take0)
qed

lemma window_length [simp]: "conn_ok c \<Longrightarrow> length (window c) = readEndOff c - readStartOff c"
  by (auto simp: conn_ok_def window_def load_def)

lemma expand_ok:
  assumes "conn_ok c"
  shows "conn_ok (maybeExpandReadBuffer c)" "window (maybeExpandReadBuffer c) = window c"
    "readEndOff (maybeExpandReadBuffer c) < length (readBuffer (maybeExpandReadBuffer c))"
  using assms window_length [OF assms] unfolding maybeExpandReadBuffer_def
  by (cases "readBuffer c"; auto simp: conn_ok_def window_def load_def)+

lemma commit_ok:
  assumes "conn_ok c" "n \<le> length (window c)"
  shows "conn_ok (commitRead n c)" "window (commitRead n c) = drop n (window c)"
  using assms window_length [OF assms(1)] unfolding commitRead_def
  by (auto simp: Let_def conn_ok_def window_def load_def drop_take add.commute)

lemma append_ok:
  assumes "conn_ok c" "length bs \<le> length (readBuffer c) - readEndOff c"
  shows "conn_ok (c\<lparr>readBuffer := take (readEndOff c) (readBuffer c) @ bs @ drop (readEndOff c + length bs) (readBuffer c), readEndOff := readEndOff c + length bs\<rparr>)" (is "conn_ok ?c")
    "window (c\<lparr>readBuffer := take (readEndOff c) (readBuffer c) @ bs @ drop (readEndOff c + length bs) (readBuffer c), readEndOff := readEndOff c + length bs\<rparr>) = window c @ bs"
proof -
  have k: "readStartOff c \<le> readEndOff c" "readEndOff c \<le> length (readBuffer c)" "readBuffer c \<noteq> []" using assms(1) by (auto simp: conn_ok_def)
  from k assms(2) show "conn_ok ?c" by (auto simp: conn_ok_def)
  have "readEndOff c + length bs - readStartOff c = (readEndOff c - readStartOff c) + length bs" using k by simp
  then show "window ?c = window c @ bs" using k assms(2) by (simp add: window_def load_def drop_take)
qed

text \<open>The session stays open while its handlers run.\<close>

lemma open_ops [simp]:
  "ses (upd_obj p f w) = ses w" "shutdown (ses (call_back e w)) = shutdown (ses w)" "ses (pending_add p u w) = ses w" "ses (safeCloseNotify p w) = ses w"
  "shutdown (ses (openCircuitBreaker w)) = shutdown (ses w)"
  by (simp_all add: upd_obj_def call_back_def pending_add_def safeCloseNotify_def openCircuitBreaker_def)

lemma halfClose_open: "halfClose p w = Some w1 \<Longrightarrow> shutdown (ses w1) = shutdown (ses w)"
  by (auto simp: halfClose_def with_obj_def Let_def split: option.splits if_splits)

lemma recycle_recv_open: "recycle_recv p w = Some w1 \<Longrightarrow> ses w1 = ses w"
  by (auto simp: recycle_recv_def with_obj_def split: option.splits Option.bind_split_asm)

lemma pending_clear_open: "pending_clear p w = Some w1 \<Longrightarrow> ses w1 = ses w"
  by (auto simp: pending_clear_def with_obj_def split: option.splits Option.bind_split_asm if_splits)

lemma fill_open: "fillDataToReadBuffer p u w = Some (e, w1) \<Longrightarrow> ses w1 = ses w"
  by (auto simp: fillDataToReadBuffer_def with_obj_def Let_def dest!: recycle_recv_open pending_clear_open
    split: option.splits Option.bind_split_asm if_split_asm)

lemma message_open: "handleStreamMessage p u st w = Some (e, w1) \<Longrightarrow> shutdown (ses w1) = shutdown (ses w)"
  by (auto simp: handleStreamMessage_def dest: halfClose_open fill_open split: Option.bind_split_asm if_split_asm)

lemma getStream_open: "getStream i st w = Some (p, w1) \<Longrightarrow> shutdown (ses w1) = shutdown (ses w)"
  by (auto simp: getStream_def newStream_def streams_put_def split: option.splits Option.bind_split_asm if_split_asm)

lemma poll_queue_open:
  assumes "poll_queue e w = Some y"
  shows "shutdown (ses (snd y)) = shutdown (ses w)"
proof (rule poll_queue.raw_induct [where P = "\<lambda>_ w y. shutdown (ses (snd y)) = shutdown (ses w)", OF _ assms], goal_cases)
  case (1 f e w y)
  from 1(2) show ?case
    by (simp add: Let_def split: Option.bind_split_asm option.split_asm if_split_asm sum.split_asm prod.split_asm)
      (auto dest!: 1(1) getStream_open message_open)
qed

lemma poll_loop_open:
  assumes "poll_loop e w = Some y"
  shows "shutdown (ses (snd y)) = shutdown (ses w)"
proof (rule poll_loop.raw_induct [where P = "\<lambda>_ w y. shutdown (ses (snd y)) = shutdown (ses w)", OF _ assms], goal_cases)
  case (1 f e w y)
  from 1(2) show ?case
    by (simp add: Let_def split: Option.bind_split_asm if_split_asm prod.split_asm) (auto dest!: 1(1) poll_queue_open)
qed

text \<open>
  What the handlers have in common: they keep the session open, they consume what they have seen, and
  one that asks for more data has done nothing. On fewer bytes, a handler does the same or asks for more.
\<close>

lemma handler_open:
  assumes "protocolHandlers t = Some f" "f h b w = Some ((n, stop, err), w1)"
  shows "shutdown (ses w1) = shutdown (ses w)"
  using assms unfolding protocolHandlers_def
  by (auto simp: handlePolling_def handleStreamClose_def handleFallbackData_def handleHotRestart_def handleHotRestartAck_def Let_def
    dest!: poll_loop_open getStream_open message_open halfClose_open split: option.splits Option.bind_split_asm if_split_asm prod.split_asm)

lemma handler_consumes:
  assumes "protocolHandlers t = Some f" "f h b w = Some ((n, stop, err), w1)"
  shows "stop \<and> n = 0 \<and> err = None \<and> w1 = w \<or> \<not> stop \<and> int headerSize \<le> n \<and> n \<le> int (headerSize + length b)"
  using assms unfolding protocolHandlers_def
  by (auto simp: handlePolling_def handleStreamClose_def handleFallbackData_def handleHotRestart_def handleHotRestartAck_def Let_def
    split: option.splits Option.bind_split_asm if_split_asm prod.split_asm)

lemma fallback_prefix:
  assumes "handleFallbackData h (a @ b) w = Some x"
  shows "handleFallbackData h a w = Some x \<or> handleFallbackData h a w = Some ((0, True, None), w)"
proof (cases "hdr_Length h")
  case None
  with assms show ?thesis by (simp add: handleFallbackData_def)
next
  case (Some len)
  show ?thesis
  proof (cases "int (length a) < uint len - int headerSize")
    case True
    with Some show ?thesis by (simp add: handleFallbackData_def Let_def)
  next
    case False
    then have "\<not> int (length (a @ b)) < uint len - int headerSize" "nat (uint len - int headerSize) \<le> length a" by simp_all
    with Some False have "handleFallbackData h (a @ b) w = handleFallbackData h a w" by (simp add: handleFallbackData_def Let_def)
    with assms show ?thesis by simp
  qed
qed

lemma handler_prefix:
  assumes f: "protocolHandlers t = Some f" and x: "f h (a @ b) w = Some x"
  shows "f h a w = Some x \<or> f h a w = Some ((0, True, None), w)"
proof -
  consider "f = handlePolling" | "f = handleStreamClose" | "f = handleFallbackData" | "f = handleHotRestart" | "f = handleHotRestartAck"
    using f unfolding protocolHandlers_def by (auto split: if_split_asm)
  then show ?thesis
  proof cases
    case 3
    with x fallback_prefix show ?thesis by blast
  qed (use x in \<open>auto simp: handlePolling_def handleStreamClose_def handleHotRestart_def handleHotRestartAck_def epochIDLen_def\<close>)
qed

text \<open>The event at a position, and one round of the loop of \<^verbatim>\<open>handleEvents\<close>.\<close>

definition event_at :: "bytes \<Rightarrow> nat \<Rightarrow> (bytes \<Rightarrow> bytes \<Rightarrow> world \<Rightarrow> handled option) \<Rightarrow> bool" where
  "event_at buf c f \<longleftrightarrow> c + headerSize \<le> length buf \<and> checkEventValid (load buf c headerSize) = Some None \<and>
     (\<exists>t. hdr_MsgType (load buf c headerSize) = Some t \<and> protocolHandlers t = Some f)"

lemma events_short:
  assumes "c \<le> length buf" "length buf < c + headerSize"
  shows "handle_events buf (int c) w = Some ((int c, None), w)"
  using assms by (subst handle_events.simps) simp

lemma events_step:
  assumes "event_at buf c f"
  shows "handle_events buf (int c) w = do {
     ((n, stop, err), w1) \<leftarrow> f (load buf c headerSize) (drop (c + headerSize) buf) w;
     if err \<noteq> None then Some ((int c + n, err), w1)
     else if stop then Some ((int c + n, None), w1)
     else handle_events buf (int c + n) w1 }"
  using assms by (subst handle_events.simps) (auto simp: event_at_def Let_def cong: Option.bind_cong)

lemma events_cases:
  assumes "handle_events buf (int c) w = Some ((n, None), w')"
  obtains "c \<le> length buf" "length buf < c + headerSize" "n = int c" "w' = w"
    | f where "event_at buf c f" "f (load buf c headerSize) (drop (c + headerSize) buf) w = Some ((0, True, None), w)" "n = int c" "w' = w"
    | f k w1 where "event_at buf c f" "f (load buf c headerSize) (drop (c + headerSize) buf) w = Some ((int k, False, None), w1)"
      "headerSize \<le> k" "c + k \<le> length buf" "handle_events buf (int (c + k)) w1 = Some ((n, None), w')"
proof (cases "c + headerSize \<le> length buf")
  case False
  with assms show ?thesis by (subst (asm) handle_events.simps) (auto intro: that(1) split: if_split_asm)
next
  case True
  from assms True obtain f where e: "event_at buf c f"
    by (subst (asm) handle_events.simps) (auto simp: event_at_def Let_def split: if_split_asm Option.bind_split_asm option.split_asm)
  then obtain t where t: "protocolHandlers t = Some f" by (auto simp: event_at_def)
  from assms obtain k stop err w1 where h: "f (load buf c headerSize) (drop (c + headerSize) buf) w = Some ((k, stop, err), w1)"
    and r: "err = None \<and> stop \<and> n = int c + k \<and> w' = w1 \<or> err = None \<and> \<not> stop \<and> handle_events buf (int c + k) w1 = Some ((n, None), w')"
    unfolding events_step [OF e] by (auto split: Option.bind_split_asm if_split_asm)
  from handler_consumes [OF t h] consider "stop" "k = 0" "err = None" "w1 = w" | "\<not> stop" "int headerSize \<le> k" "k \<le> int (headerSize + length (drop (c + headerSize) buf))" by blast
  then show ?thesis
  proof cases
    case 1
    with e h r show ?thesis by (auto intro: that(2))
  next
    case 2
    have "k = int (nat k)" "headerSize \<le> nat k" "c + nat k \<le> length buf" using 2 True by auto
    moreover have "int c + k = int (c + nat k)" using 2 by simp
    ultimately show ?thesis using that(3) [OF e, of "nat k" w1] h r 2(1) by simp
  qed
qed

lemma headerSize_pos: "0 < headerSize" by (simp add: headerSize_def)

lemma events_range:
  assumes "handle_events buf (int c) w = Some ((n, None), w')"
  shows "\<exists>k. n = int k \<and> c \<le> k \<and> k \<le> length buf" and "shutdown (ses w') = shutdown (ses w)"
proof -
  have "(\<exists>k. n = int k \<and> c \<le> k \<and> k \<le> length buf) \<and> shutdown (ses w') = shutdown (ses w)"
    using assms
  proof (induction "length buf - c" arbitrary: c w rule: less_induct)
    case less
    from less(2) show ?case
    proof (cases rule: events_cases)
      case (3 f k w1)
      with headerSize_pos have "length buf - (c + k) < length buf - c" by linarith
      from less(1) [OF this 3(5)] 3(1,2) show ?thesis by (auto simp: event_at_def dest: handler_open)
    qed (auto simp: event_at_def)
  qed
  then show "\<exists>k. n = int k \<and> c \<le> k \<and> k \<le> length buf" and "shutdown (ses w') = shutdown (ses w)" by simp_all
qed

lemma load_shift: "load (x @ y) (length x + c) n = load y c n"
  by (simp add: load_def)

lemma event_at_shift: "event_at (x @ y) (length x + c) f \<longleftrightarrow> event_at y c f"
  by (simp add: event_at_def load_shift)

lemma events_shift:
  assumes "handle_events (x @ y) (int (length x + c)) w = Some ((n, None), w')"
  shows "handle_events y (int c) w = Some ((n - int (length x), None), w')"
  using assms
proof (induction "length y - c" arbitrary: c w rule: less_induct)
  case less
  have d: "drop (length x + c + headerSize) (x @ y) = drop (c + headerSize) y" by simp
  from less(2) show ?case
  proof (cases rule: events_cases)
    case 1
    then show ?thesis by (simp add: events_short)
  next
    case (2 f)
    then show ?thesis by (simp add: event_at_shift d load_shift events_step)
  next
    case (3 f k w1)
    with headerSize_pos have "length y - (c + k) < length y - c" by simp
    from less(1) [OF this, of w1] 3 show ?thesis by (simp add: event_at_shift d load_shift events_step add.assoc)
  qed
qed

lemma load_append: "c + n \<le> length a \<Longrightarrow> load (a @ b) c n = load a c n"
  by (simp add: load_def)

lemma events_prefix:
  assumes "handle_events (a @ b) (int c) w = Some ((n, None), w')" and "c \<le> length a"
  shows "\<exists>k w1. handle_events a (int c) w = Some ((int k, None), w1) \<and> k \<le> length a \<and> handle_events (a @ b) (int k) w1 = Some ((n, None), w')"
  using assms
proof (induction "length a - c" arbitrary: c w rule: less_induct)
  case less
  show ?case
  proof (cases "length a < c + headerSize")
    case True
    with events_short [OF less(3) True, of w] less(2,3) show ?thesis by blast
  next
    case False
    then have l: "load (a @ b) c headerSize = load a c headerSize" and d: "drop (c + headerSize) (a @ b) = drop (c + headerSize) a @ b"
      by (simp_all add: load_append)
    have e: "event_at (a @ b) c f \<longleftrightarrow> event_at a c f" for f using False by (simp add: event_at_def l)
    have stop: ?thesis if "event_at a c f" "f (load a c headerSize) (drop (c + headerSize) a) w = Some ((0, True, None), w)" for f
      using events_step [OF that(1), of w] that(2) less(2,3) by auto
    from less(2) show ?thesis
    proof (cases rule: events_cases)
      case 1
      then show ?thesis using False by simp
    next
      case (2 f)
      then obtain t where t: "protocolHandlers t = Some f" by (auto simp: event_at_def)
      from handler_prefix [OF t 2(2) [unfolded l d]] stop 2(1) e show ?thesis by blast
    next
      case (3 f k w1)
      then obtain t where t: "protocolHandlers t = Some f" by (auto simp: event_at_def)
      from handler_prefix [OF t 3(2) [unfolded l d]] show ?thesis
      proof
        assume h: "f (load a c headerSize) (drop (c + headerSize) a) w = Some ((int k, False, None), w1)"
        from handler_consumes [OF t h] False have k: "c + k \<le> length a" by auto
        with 3(3) headerSize_pos False have "length a - (c + k) < length a - c" by simp
        from less(1) [OF this 3(5) k] events_step [of a c f w] 3(1) e h show ?thesis by (auto simp: add.assoc)
      qed (use stop 3(1) e in blast)
    qed
  qed
qed

lemma events_split:
  assumes "handleEvents (a @ b) w = Some ((n, None), w')"
  shows "\<exists>k w1. handleEvents a w = Some ((int k, None), w1) \<and> k \<le> length a \<and> handleEvents (drop k a @ b) w1 = Some ((n - int k, None), w')"
proof -
  from events_prefix [of a b 0 w n w'] assms obtain k w1 where k: "handle_events a 0 w = Some ((int k, None), w1)" "k \<le> length a"
    "handle_events (a @ b) (int k) w1 = Some ((n, None), w')" by (auto simp: handleEvents_def)
  then have "handle_events (take k a @ (drop k a @ b)) (int (length (take k a) + 0)) w1 = Some ((n, None), w')"
    by (metis add.right_neutral append.assoc append_take_drop_id length_take min.absorb2)
  from events_shift [OF this] k show ?thesis by (auto simp: handleEvents_def)
qed

lemma conn_data_step:
  assumes "conn_ok c" "\<not> IsClosed w" "handleEvents (window c) w = Some ((int k, None), w1)" "k \<le> length (window c)"
  shows "conn_data c w = Some (commitRead k c, w1)"
  using assms by (simp add: conn_data_def onEventData_def)

lemma sys_read_parts:
  assumes "s \<noteq> []" "list_all (\<lambda>s. s \<noteq> []) ss" "0 < room"
  shows "fst (sys_read room (s # ss)) \<noteq> []" "length (fst (sys_read room (s # ss))) \<le> room"
    "fst (sys_read room (s # ss)) @ concat (snd (sys_read room (s # ss))) = concat (s # ss)"
    "list_all (\<lambda>s. s \<noteq> []) (snd (sys_read room (s # ss)))" "length (concat (snd (sys_read room (s # ss)))) < length (concat (s # ss))"
  using assms by (auto simp: sys_read_def)

lemma drop_rest:
  assumes "k \<le> length a" "0 \<le> n - int k"
  shows "drop (nat (n - int k)) (drop k a @ b) = drop (nat n) (a @ b)"
proof -
  have "drop k a @ b = drop k (a @ b)" "nat (n - int k) + k = nat n" using assms by (auto simp: nat_diff_distrib')
  then show ?thesis by (metis drop_drop)
qed

lemma onReadReady_all:
  assumes "conn_ok c" "\<not> IsClosed w" "list_all (\<lambda>s. s \<noteq> []) segs" "handleEvents (window c @ concat segs) w = Some ((n, None), w')"
  shows "\<exists>c'. onReadReady segs EndWait c w = Some ([], c', w') \<and> conn_ok c' \<and> window c' = drop (nat n) (window c @ concat segs) \<and> \<not> IsClosed w'"
  using assms
proof (induction "length (concat segs)" arbitrary: segs c w n rule: less_induct)
  case less
  let ?c = "maybeExpandReadBuffer c"
  define room where "room = length (readBuffer ?c) - readEndOff ?c"
  from expand_ok [OF less(2)] have c: "conn_ok ?c" "window ?c = window c" "0 < room" by (simp_all add: room_def)
  show ?case
  proof (cases segs)
    case Nil
    with less(5) have h: "handle_events (window c) (int 0) w = Some ((n, None), w')" by (simp add: handleEvents_def)
    from events_range [OF h] obtain k where k: "n = int k" "k \<le> length (window c)" "shutdown (ses w') = shutdown (ses w)" by blast
    from conn_data_step [OF c(1) less(3), of k w'] h k c(2) have "conn_data ?c w = Some (commitRead k ?c, w')" by (simp add: handleEvents_def)
    with Nil c commit_ok [OF c(1), of k] k less(3) show ?thesis
      by (subst onReadReady.simps) (simp add: Let_def room_def IsClosed_def)
  next
    case (Cons s ss)
    with less(4) have s: "s \<noteq> []" "list_all (\<lambda>s. s \<noteq> []) ss" by simp_all
    define bs where "bs = fst (sys_read room segs)"
    define rest where "rest = snd (sys_read room segs)"
    from sys_read_parts [OF s c(3)] Cons have b: "bs \<noteq> []" "length bs \<le> room" "bs @ concat rest = concat segs" "list_all (\<lambda>s. s \<noteq> []) rest"
      "length (concat rest) < length (concat segs)" by (simp_all add: bs_def rest_def)
    define c1 where "c1 = ?c\<lparr>readBuffer := take (readEndOff ?c) (readBuffer ?c) @ bs @ drop (readEndOff ?c + length bs) (readBuffer ?c), readEndOff := readEndOff ?c + length bs\<rparr>"
    from append_ok [OF c(1), of bs] b(2) c(2) have c1: "conn_ok c1" "window c1 = window c @ bs" by (simp_all add: room_def c1_def)
    have sr: "sys_read room segs = (bs, rest)" and sne: "segs \<noteq> []" using Cons by (simp_all add: bs_def rest_def)
    have run: "onReadReady segs EndWait c w = (if readEndOff c1 - readStartOff c1 \<ge> onDataThreshold
        then do { (c2, w2) \<leftarrow> conn_data c1 w; onReadReady rest EndWait c2 w2 } else onReadReady rest EndWait c1 w)"
      using expand_ok(3) [OF less(2)] sne b(1) by (subst onReadReady.simps) (simp add: Let_def room_def [symmetric] c1_def [symmetric] sr)
    from less(5) b(3) c1(2) have h: "handleEvents (window c1 @ concat rest) w = Some ((n, None), w')" by simp
    show ?thesis
    proof (cases "readEndOff c1 - readStartOff c1 \<ge> onDataThreshold")
      case False
      with run less(1) [OF b(5) c1(1) less(3) b(4) h] c1(2) b(3) show ?thesis by (metis append.assoc)
    next
      case True
      from events_split [OF h] obtain k w1 where k: "handleEvents (window c1) w = Some ((int k, None), w1)" "k \<le> length (window c1)"
        "handleEvents (drop k (window c1) @ concat rest) w1 = Some ((n - int k, None), w')" by blast
      from events_range(2) [of "window c1" 0 w] k(1) less(3) have o: "\<not> IsClosed w1" by (simp add: handleEvents_def IsClosed_def)
      from conn_data_step [OF c1(1) less(3) k(1,2)] have cd: "conn_data c1 w = Some (commitRead k c1, w1)" .
      note cm = commit_ok [OF c1(1) k(2)]
      from less(1) [OF b(5) cm(1) o b(4)] k(3) cm(2) obtain c' where c': "onReadReady rest EndWait (commitRead k c1) w1 = Some ([], c', w')" "conn_ok c'"
        "window c' = drop (nat (n - int k)) (drop k (window c1) @ concat rest)" "\<not> IsClosed w'" by auto
      from events_range(1) [of "drop k (window c1) @ concat rest" 0 w1] k(3) have "0 \<le> n - int k" by (auto simp: handleEvents_def)
      then have "window c' = drop (nat n) (window c1 @ concat rest)" using c'(3) drop_rest [OF k(2)] by simp
      with run True cd c' c1(2) b(3) show ?thesis by simp
    qed
  qed
qed

text \<open>The loop calls \<^verbatim>\<open>onReadReady\<close> once for every round of arrivals.\<close>

fun read_rounds :: "bytes list list \<Rightarrow> connEventHandler \<Rightarrow> world \<Rightarrow> (connEventHandler \<times> world) option" where
  "read_rounds [] c w = Some (c, w)"
| "read_rounds (segs # rounds) c w = do { (rest, c1, w1) \<leftarrow> onReadReady segs EndWait c w; read_rounds rounds c1 w1 }"

lemma rounds_all:
  assumes "conn_ok c" "\<not> IsClosed w" "list_all (list_all (\<lambda>s. s \<noteq> [])) rounds" "handleEvents (window c @ concat (concat rounds)) w = Some ((n, None), w')"
    "rounds \<noteq> []"
  shows "\<exists>c'. read_rounds rounds c w = Some (c', w') \<and> conn_ok c' \<and> window c' = drop (nat n) (window c @ concat (concat rounds))"
  using assms
proof (induction rounds arbitrary: c w n)
  case (Cons segs rounds)
  show ?case
  proof (cases "rounds = []")
    case True
    with Cons(4,5) onReadReady_all [OF Cons(2,3), of segs n w'] show ?thesis by auto
  next
    case False
    let ?b = "concat (concat rounds)"
    from Cons(5) have h: "handleEvents ((window c @ concat segs) @ ?b) w = Some ((n, None), w')" by simp
    from events_split [OF h] obtain k w1 where k: "handleEvents (window c @ concat segs) w = Some ((int k, None), w1)" "k \<le> length (window c @ concat segs)"
      "handleEvents (drop k (window c @ concat segs) @ ?b) w1 = Some ((n - int k, None), w')" by blast
    from onReadReady_all [OF Cons(2,3) _ k(1)] Cons(4) obtain c1 where c1: "onReadReady segs EndWait c w = Some ([], c1, w1)" "conn_ok c1"
      "window c1 = drop k (window c @ concat segs)" "\<not> IsClosed w1" by auto
    from Cons(1) [OF c1(2,4) _ _ False, of "n - int k"] Cons(4) k(3) c1(3) obtain c' where
      c': "read_rounds rounds c1 w1 = Some (c', w')" "conn_ok c'" "window c' = drop (nat (n - int k)) (drop k (window c @ concat segs) @ ?b)" by auto
    from events_range(1) [of "drop k (window c @ concat segs) @ ?b" 0 w1] k(3) have "0 \<le> n - int k" by (auto simp: handleEvents_def)
    then have "window c' = drop (nat n) ((window c @ concat segs) @ ?b)" using c'(3) drop_rest [OF k(2)] by simp
    with c1(1) c'(1,2) show ?thesis by simp
  qed
qed simp

text \<open>
  C4. The events of a session do not depend on how their bytes arrive. Whatever bytes wait in the read buffer, and however the
  following bytes are divided into wake-ups of the event loop and into reads, the session ends in the state
  it has after handling all the bytes in one piece; the read buffer, which grows and shrinks on the way,
  then holds exactly the bytes of the event that is still incomplete.
\<close>

theorem events_framed:
  assumes "conn_ok c" "\<not> IsClosed w" "list_all (list_all (\<lambda>s. s \<noteq> [])) rounds" "rounds \<noteq> []"
    and "handleEvents (window c @ concat (concat rounds)) w = Some ((n, None), w')"
  shows "\<exists>c'. read_rounds rounds c w = Some (c', w') \<and> conn_ok c' \<and> window c' = drop (nat n) (window c @ concat (concat rounds))"
  using rounds_all [OF assms(1-3) assms(5,4)] .

definition restart_event :: bytes where
  "restart_event = wire_header 16 3 typeHotRestart @ be_put (5 :: u64)"

lemma restart_handled:
  "handleEvents (restart_event @ [0, 0, 0]) (initial_world False True) = Some ((16, None), upd_ses (\<lambda>s. s\<lparr>posted := [HotRestartTask 5]\<rparr>) (initial_world False True))"
proof -
  let ?b = "restart_event @ [0, 0, 0]" and ?h = "wire_header 16 3 typeHotRestart"
  have l: "load ?b 0 headerSize = ?h" "drop (0 + headerSize) ?b = be_put (5 :: u64) @ [0, 0, 0]"
    by (simp_all add: restart_event_def)
  have "checkEventValid ?h = Some None" by (rule wire_valid) (simp_all add: event_types)
  then have e: "event_at ?b 0 handleHotRestart"
    by (simp add: event_at_def l) (simp add: restart_event_def protocolHandlers_def event_types)
  have "handleHotRestart ?h (be_put (5 :: u64) @ [0, 0, 0]) (initial_world False True) =
      Some ((16, False, None), upd_ses (\<lambda>s. s\<lparr>posted := [HotRestartTask 5]\<rparr>) (initial_world False True))"
    using be_get_put [of 8 "5 :: u64" "[]"] by (simp add: handleHotRestart_def epochIDLen_def headerSize_def upd_ses_def initial_world_def initial_session_def)
  moreover have "handle_events ?b 16 w = Some ((16, None), w)" for w
    using events_short [of 16 ?b] by (simp add: restart_event_def headerSize_def)
  ultimately show ?thesis unfolding handleEvents_def using events_step [OF e, of "initial_world False True", unfolded l] by simp
qed

theorem events_framed_witness:
  "\<exists>c'. read_rounds [[take 5 restart_event, take 2 (drop 5 restart_event)], [take 4 (drop 7 restart_event)], [drop 11 restart_event, [0, 0, 0]]] newConnection (initial_world False True) =
      Some (c', upd_ses (\<lambda>s. s\<lparr>posted := [HotRestartTask 5]\<rparr>) (initial_world False True)) \<and> conn_ok c' \<and> window c' = [0, 0, 0]"
proof -
  let ?e = restart_event
  let ?r = "[[take 5 ?e, take 2 (drop 5 ?e)], [take 4 (drop 7 ?e)], [drop 11 ?e, [0, 0, 0]]]"
  have l: "length ?e = 16" by (simp add: restart_event_def headerSize_def)
  have "take 4 (drop 7 ?e) @ drop 11 ?e = drop 7 ?e" "take 2 (drop 5 ?e) @ drop 7 ?e = drop 5 ?e"
    using append_take_drop_id [of 4 "drop 7 ?e"] append_take_drop_id [of 2 "drop 5 ?e"] by simp_all
  then have b: "window newConnection @ concat (concat ?r) = ?e @ [0, 0, 0]" by (metis (no_types, lifting) append.assoc append_Nil append_Nil2 append_take_drop_id concat.simps newConnection_ok(2) append_Cons)
  have o: "\<not> IsClosed (initial_world False True)" by (simp add: IsClosed_def initial_world_def initial_session_def)
  have "list_all (list_all (\<lambda>s. s \<noteq> [])) ?r" using l by auto
  from events_framed [OF newConnection_ok(1) o this, unfolded b, OF _ restart_handled] l show ?thesis by simp
qed

subsection \<open>Gathered writes\<close>

text \<open>The vectors from \<open>v\<close> on are to be written, each the end of its slice.\<close>

definition iov_ok :: "bytes list \<Rightarrow> iovec list \<Rightarrow> nat \<Rightarrow> nat \<Rightarrow> bool" where
  "iov_ok data ioves v need \<longleftrightarrow> v + need = length ioves \<and> length ioves \<le> length data \<and>
     (\<forall>i < length ioves. v \<le> i \<longrightarrow> 0 < fst (ioves ! i) \<and> fst (ioves ! i) + snd (ioves ! i) = length (data ! i))"

lemma submitted_Suc: "submitted data ioves v (Suc need) = load (data ! v) (snd (ioves ! v)) (fst (ioves ! v)) @ submitted data ioves (Suc v) need"
proof -
  have "[v ..< v + Suc need] = v # [Suc v ..< Suc v + need]" by (subst upt_rec) simp
  then show ?thesis by (simp add: submitted_def)
qed

lemma iov_ok_Suc:
  assumes "iov_ok data ioves v (Suc need)"
  shows "v < length ioves" "iov_ok data ioves (Suc v) need" "length (load (data ! v) (snd (ioves ! v)) (fst (ioves ! v))) = fst (ioves ! v)" "0 < fst (ioves ! v)"
    "fst (ioves ! v) + snd (ioves ! v) = length (data ! v)"
proof -
  show v: "v < length ioves" "iov_ok data ioves (Suc v) need" using assms by (auto simp: iov_ok_def)
  have "0 < fst (ioves ! v) \<and> fst (ioves ! v) + snd (ioves ! v) = length (data ! v)" using assms v(1) by (simp add: iov_ok_def)
  then show "length (load (data ! v) (snd (ioves ! v)) (fst (ioves ! v))) = fst (ioves ! v)" "0 < fst (ioves ! v)"
    "fst (ioves ! v) + snd (ioves ! v) = length (data ! v)" by (auto simp: load_def)
qed

lemma submitted_update:
  assumes "v < u" shows "submitted data (ioves[v := x]) u need = submitted data ioves u need"
  using assms by (auto simp: submitted_def intro!: arg_cong [where f = concat])

lemma ack_write_ok:
  assumes "iov_ok data ioves v need" "k \<le> length (submitted data ioves v need)"
  shows "\<exists>ioves' v' need'. ack_write data k ioves v need = Some (ioves', v', need') \<and> iov_ok data ioves' v' need' \<and> submitted data ioves' v' need' = drop k (submitted data ioves v need)"
  using assms
proof (induction need arbitrary: v k)
  case 0
  then show ?case by (simp add: submitted_def ack_write.simps)
next
  case (Suc need)
  note i = iov_ok_Suc [OF Suc(2)]
  let ?len = "fst (ioves ! v)"
  consider "k = 0" | "0 < k" "?len \<le> k" | "0 < k" "k < ?len" by linarith
  then show ?case
  proof cases
    case 1
    with Suc(2) show ?thesis by (simp add: ack_write.simps [of data 0])
  next
    case 2
    have "k - ?len \<le> length (submitted data ioves (Suc v) need)" using Suc(3) i(3) 2 by (simp add: submitted_Suc)
    from Suc(1) [OF i(2) this] obtain ioves' v' need' where "ack_write data (k - ?len) ioves (Suc v) need = Some (ioves', v', need')"
      "iov_ok data ioves' v' need'" "submitted data ioves' v' need' = drop (k - ?len) (submitted data ioves (Suc v) need)" by blast
    with 2 i show ?thesis by (subst ack_write.simps) (auto simp: Let_def submitted_Suc)
  next
    case 3
    let ?x = "(?len - k, length (data ! v) - (?len - k))"
    have a: "ack_write data k ioves v (Suc need) = Some (ioves[v := ?x], v, Suc need)" using 3 i(1) by (subst ack_write.simps) (simp add: Let_def)
    have "?len \<le> length (data ! v)" using i(5) by simp
    then have o: "iov_ok data (ioves[v := ?x]) v (Suc need)" using Suc(2) 3 by (auto simp: iov_ok_def nth_list_update)
    have "load (data ! v) (snd ?x) (fst ?x) = drop k (load (data ! v) (snd (ioves ! v)) ?len)"
    proof -
      have "length (data ! v) - (?len - k) = k + snd (ioves ! v)" using 3 i(5) by linarith
      then show ?thesis by (simp add: load_def drop_take)
    qed
    then show ?thesis using a o i(1,3) 3 by (auto simp: submitted_Suc submitted_update)
  qed
qed

text \<open>Attempts that all go through, and how many of them take bytes.\<close>

definition willing :: "attempts \<Rightarrow> bool" where
  "willing ws \<longleftrightarrow> list_all (\<lambda>(closed, r). \<not> closed \<and> (case r of Took n \<Rightarrow> 0 < n | TryAgain \<Rightarrow> True | Failed e \<Rightarrow> False)) ws"

definition takes :: "attempts \<Rightarrow> nat" where
  "takes ws = length (filter (\<lambda>(closed, r). r \<noteq> TryAgain) ws)"

lemma submitted_empty: "iov_ok data ioves v need \<Longrightarrow> submitted data ioves v need = [] \<longleftrightarrow> need = 0"
  using iov_ok_Suc(3,4) [of data ioves v "need - 1"] by (cases need) (auto simp: submitted_Suc, auto simp: submitted_def)

lemma writev_loop_all:
  assumes "iov_ok data ioves v need" "willing ws" "length (submitted data ioves v need) \<le> takes ws"
  shows "\<exists>ws'. writev_loop ws data ioves v need out = Some (None, out @ submitted data ioves v need, ws') \<and> willing ws' \<and>
    takes ws \<le> takes ws' + length (submitted data ioves v need)"
  using assms
proof (induction ws arbitrary: ioves v need out)
  case Nil
  then show ?case using submitted_empty [OF Nil(1)] by (simp add: takes_def willing_def)
next
  case (Cons a ws)
  obtain r where a: "a = (False, r)" "willing ws" "case r of Took n \<Rightarrow> 0 < n | TryAgain \<Rightarrow> True | Failed e \<Rightarrow> False"
    using Cons(3) by (cases a) (auto simp: willing_def)
  let ?s = "submitted data ioves v need"
  show ?case
  proof (cases "need = 0")
    case True
    with Cons(3) a submitted_empty [OF Cons(2)] show ?thesis by simp
  next
    case False
    then have ne: "?s \<noteq> []" using submitted_empty [OF Cons(2)] by simp
    show ?thesis
    proof (cases r)
      case (Took n)
      let ?k = "length (take n ?s)"
      have k: "?k \<le> length ?s" "1 \<le> ?k" using Took a(3) ne by (auto simp: Suc_le_eq)
      from ack_write_ok [OF Cons(2) k(1)] obtain ioves' v' need' where w: "ack_write data ?k ioves v need = Some (ioves', v', need')"
        "iov_ok data ioves' v' need'" "submitted data ioves' v' need' = drop ?k ?s" by blast
      have d: "drop ?k ?s = drop n ?s" by (cases "n \<le> length ?s") auto
      have t: "takes (a # ws) = Suc (takes ws)" using a(1) Took by (simp add: takes_def)
      have "length (submitted data ioves' v' need') \<le> takes ws" using w(3) t k Cons(4) by (simp only: length_drop)
      from Cons(1) [OF w(2) a(2) this, of "out @ take n ?s"] w(3) d obtain ws' where
        "writev_loop ws data ioves' v' need' (out @ take n ?s) = Some (None, (out @ take n ?s) @ drop n ?s, ws')" "willing ws'"
        "takes ws \<le> takes ws' + (length ?s - ?k)" by auto
      with False a(1) Took w(1) t k show ?thesis by (auto simp: Let_def)
    next
      case TryAgain
      with Cons(1) [OF Cons(2) a(2), of out] Cons(4) False a(1) show ?thesis by (auto simp: takes_def)
    next
      case (Failed e)
      with a(3) show ?thesis by simp
    qed
  qed
qed

lemma writev_all:
  assumes "list_all (\<lambda>d. d \<noteq> []) data" "willing ws" "length (concat (drop i data)) \<le> takes ws"
  shows "\<exists>ws'. writev ws data i out = Some (None, out @ concat (drop i data), ws')"
  using assms(2,3)
proof (induction "length data - i" arbitrary: i ws out rule: less_induct)
  case less
  show ?case
  proof (cases "i < length data")
    case False
    then show ?thesis by (subst writev.simps) simp
  next
    case True
    let ?d = "drop i data" and ?now = "take iovMax (drop i data)"
    let ?io = "map (\<lambda>d. (length d, 0 :: nat)) ?now"
    have ne: "[] \<notin> set ?now" using assms(1) by (auto simp: list_all_iff dest!: in_set_takeD in_set_dropD)
    have o: "iov_ok ?d ?io 0 (length ?now)"
      using assms(1) by (auto simp: iov_ok_def list_all_iff)
    have sub: "submitted ?d ?io 0 (length ?now) = concat ?now"
      by (simp add: submitted_def load_def) (rule arg_cong [where f = concat], rule nth_equalityI, auto)
    have pos: "0 < length ?now" using True by (simp add: iovMax_def)
    have split: "concat ?d = concat ?now @ concat (drop (i + length ?now) data)"
    proof -
      have "drop (length ?now) ?d = drop iovMax ?d" by (cases "iovMax \<le> length ?d") auto
      then have "?d = ?now @ drop (length ?now) ?d" by (metis append_take_drop_id)
      then show ?thesis by (metis concat_append drop_drop add.commute)
    qed
    from writev_loop_all [OF o less(2), of out] less(3) sub split obtain ws1 where
      l: "writev_loop ws ?d ?io 0 (length ?now) out = Some (None, out @ concat ?now, ws1)" "willing ws1" "takes ws \<le> takes ws1 + length (concat ?now)" by auto
    have "length data - (i + length ?now) < length data - i" using pos True by linarith
    from less(1) [OF this l(2), of "out @ concat ?now"] l(3) less(3) split obtain ws' where
      "writev ws1 data (i + length ?now) (out @ concat ?now) = Some (None, (out @ concat ?now) @ concat (drop (i + length ?now) data), ws')" by auto
    with True ne l(1) split show ?thesis by (subst writev.simps) (simp add: doWritev_def Let_def)
  qed
qed

lemma conn_write_all:
  assumes "willing ws" "length data - written \<le> takes ws"
  shows "\<exists>ws'. conn_write ws data written out = Some (None, out @ drop written data, ws')"
  using assms
proof (induction ws arbitrary: written out)
  case Nil
  then show ?case by (simp add: takes_def)
next
  case (Cons a ws)
  obtain r where a: "a = (False, r)" "willing ws" "case r of Took n \<Rightarrow> 0 < n | TryAgain \<Rightarrow> True | Failed e \<Rightarrow> False"
    using Cons(2) by (cases a) (auto simp: willing_def)
  show ?case
  proof (cases "written < length data")
    case True
    show ?thesis
    proof (cases r)
      case (Took n)
      let ?n = "min n (length data - written)"
      have "length data - (written + ?n) \<le> takes ws" using Cons(3) a Took True by (auto simp: takes_def)
      from Cons(1) [OF a(2) this, of "out @ load data written ?n"] obtain ws' where
        w: "conn_write ws data (written + ?n) (out @ load data written ?n) = Some (None, (out @ load data written ?n) @ drop (written + ?n) data, ws')" by blast
      have "load data written ?n @ drop (written + ?n) data = drop written data"
        unfolding load_def by (metis append_take_drop_id drop_drop add.commute)
      with w a(1) Took True show ?thesis by (simp add: Let_def)
    qed (use Cons True a in \<open>auto simp: takes_def\<close>)
  qed (use a in simp)
qed

text \<open>
  C24. A gathered write is one write. On a connection whose attempts go through, in pieces of any size and
  with any number of waits between them, \<^verbatim>\<open>writev\<close> of slices that are not empty ends without an error
  and has put the same bytes on the wire, in the same order, as \<^verbatim>\<open>write\<close> of their concatenation,
  also when there are more slices than one call of the system can take.
\<close>

theorem gathered_write:
  assumes "list_all (\<lambda>d. d \<noteq> []) data" "willing ws" "length (concat data) \<le> takes ws"
  shows "\<exists>ws1 ws2. writev ws data 0 out = Some (None, out @ concat data, ws1) \<and> conn_write ws (concat data) 0 out = Some (None, out @ concat data, ws2)"
  using writev_all [of data ws 0 out] conn_write_all [of ws "concat data" 0 out] assms by auto

theorem gathered_write_witness:
  "\<exists>ws1 ws2. writev [(False, Took 2), (False, TryAgain), (False, Took 9), (False, Took 1)] [[1, 2, 3]] 0 [] = Some (None, [1, 2, 3], ws1) \<and>
    conn_write [(False, Took 2), (False, TryAgain), (False, Took 9), (False, Took 1)] [1, 2, 3] 0 [] = Some (None, [1, 2, 3], ws2)"
  using gathered_write [of "[[1, 2, 3]]" "[(False, Took 2), (False, TryAgain), (False, Took 9), (False, Took 1)]" "[]"]
  by (simp add: willing_def takes_def)

subsection \<open>Posted functions\<close>

lemma fold_post: "fold post fs d = d\<lparr>pendingLambda := pendingLambda d @ fs\<rparr>"
  by (induction fs arbitrary: d) (simp_all add: post_def)

lemma run_each_log:
  assumes "\<And>f log d. run f (log, d) = Some (log @ [f], fold post (g f) d)" "\<not> isShutdown d"
  shows "run_each run fs (log, d) = Some (True, log @ fs, fold post (concat (map g fs)) d)"
  using assms(2) by (induction fs arbitrary: log d) (simp_all add: assms(1) fold_post)

text \<open>One round runs what had been posted, once and in order; what those functions post runs in the next round.\<close>

lemma posted_in_order:
  assumes "\<And>f log d. run f (log, d) = Some (log @ [f], fold post (g f) d)" "\<not> isShutdown d" "runningLambda d = []"
  shows "runLambda run (log, d) = Some (log @ pendingLambda d, d\<lparr>pendingLambda := concat (map g (pendingLambda d)), runningLambda := []\<rparr>)"
  using assms(2,3) run_each_log [OF assms(1), of "d\<lparr>runningLambda := pendingLambda d, pendingLambda := []\<rparr>" "pendingLambda d" log]
  by (simp add: runLambda_def fold_post)

end
