(* ===== verification/Server_Listener.thy ===== *)
theory Server_Listener
  imports Event_Conn
begin

text \<open>
  The listener of a server, \<^verbatim>\<open>listener.go\<close>: accepting sessions, closing, and the hot restart, which
  tells every session to reconnect to a new process and waits for their acknowledgements.

  A server holds the listener and the worlds of its sessions, by address. The two mutexes are
  explicit: an operation that waits for a mutex its own caller holds does not return, which is \<open>None\<close>.
\<close>

subsection \<open>State\<close>

datatype li_event = LiShutdown string | LiCloseSocket | LiRemove string

record sessions =
  sessionMu :: bool
  ss_data :: "nat list option"

record Listener =
  li_mu :: bool
  li_sessions :: sessions
  li_unix :: bool
  ListenPath :: string
  li_shutdownErrStr :: string
  isCloseL :: bool
  li_state :: sessionState
  li_hot :: listenerHot
  unlinkOnClose :: bool
  li_checking :: nat
  li_trace :: "li_event list"

record server =
  lis :: Listener
  sws :: "nat \<Rightarrow> world option"
  nsw :: nat
  sv_reg :: registry
  sv_acts :: "os_action list"

definition upd_lis :: "(Listener \<Rightarrow> Listener) \<Rightarrow> server \<Rightarrow> server" where
  "upd_lis f L = L\<lparr>lis := f (lis L)\<rparr>"

definition upd_sessions :: "(sessions \<Rightarrow> sessions) \<Rightarrow> server \<Rightarrow> server" where
  "upd_sessions f = upd_lis (\<lambda>l. l\<lparr>li_sessions := f (li_sessions l)\<rparr>)"

definition upd_sw :: "nat \<Rightarrow> (world \<Rightarrow> world) \<Rightarrow> server \<Rightarrow> server" where
  "upd_sw a f L = L\<lparr>sws := (sws L)(a := map_option f (sws L a))\<rparr>"

definition data_list :: "server \<Rightarrow> nat list" where
  "data_list L = (case ss_data (li_sessions (lis L)) of None \<Rightarrow> [] | Some as \<Rightarrow> as)"

definition emit :: "li_event \<Rightarrow> server \<Rightarrow> server" where
  "emit e = upd_lis (\<lambda>l. l\<lparr>li_trace := li_trace l @ [e]\<rparr>)"

text \<open>Holding a mutex around an operation.\<close>

definition with_sessionMu :: "(server \<Rightarrow> ('a \<times> server) option) \<Rightarrow> server \<Rightarrow> ('a \<times> server) option" where
  "with_sessionMu f L =
     (if sessionMu (li_sessions (lis L)) then None
      else do {
        (r, L1) \<leftarrow> f (upd_sessions (\<lambda>s. s\<lparr>sessionMu := True\<rparr>) L);
        Some (r, upd_sessions (\<lambda>s. s\<lparr>sessionMu := False\<rparr>) L1)
      })"

definition with_mu :: "(server \<Rightarrow> ('a \<times> server) option) \<Rightarrow> server \<Rightarrow> ('a \<times> server) option" where
  "with_mu f L =
     (if li_mu (lis L) then None
      else do {
        (r, L1) \<leftarrow> f (upd_lis (\<lambda>l. l\<lparr>li_mu := True\<rparr>) L);
        Some (r, upd_lis (\<lambda>l. l\<lparr>li_mu := False\<rparr>) L1)
      })"

subsection \<open>The set of sessions\<close>

definition closed_in :: "server \<Rightarrow> nat \<Rightarrow> bool" where
  "closed_in L a \<longleftrightarrow> (case sws L a of None \<Rightarrow> False | Some w \<Rightarrow> IsClosed w)"

definition removeShutdownSession :: "server \<Rightarrow> (unit \<times> server) option" where
  "removeShutdownSession = with_sessionMu (\<lambda>L.
     Some ((), upd_sessions (\<lambda>s. s\<lparr>ss_data := map_option (filter (\<lambda>a. \<not> closed_in L a)) (ss_data s)\<rparr>) L))"

text \<open>
  An operation on one session. It works on the part of the listener that sessions share; when it closes
  the session, the \<^verbatim>\<open>OnShutdown\<close> of \<^verbatim>\<open>sessionCallback\<close> runs before it returns.
\<close>

definition run_session :: "nat \<Rightarrow> (world \<Rightarrow> ('a \<times> world) option) \<Rightarrow> server \<Rightarrow> ('a \<times> server) option" where
  "run_session a f L = do {
     w \<leftarrow> sws L a;
     (r, w1) \<leftarrow> f (w\<lparr>listener_of := Some (li_hot (lis L))\<rparr>);
     hot \<leftarrow> listener_of w1;
     let L1 = upd_lis (\<lambda>l. l\<lparr>li_hot := hot\<rparr>) (L\<lparr>sws := (sws L)(a \<mapsto> w1\<lparr>listener_of := None\<rparr>)\<rparr>);
     if IsClosed w1 \<and> \<not> IsClosed w \<and> listenCallback (ses w) then do {
       (_, L2) \<leftarrow> removeShutdownSession L1;
       Some (r, L2)
     } else Some (r, L1)
   }"

definition close_session :: "nat \<Rightarrow> server \<Rightarrow> (unit \<times> server) option" where
  "close_session a = run_session a (\<lambda>w. Some ((), ses_Close w))"

definition sessions_add :: "nat \<Rightarrow> server \<Rightarrow> (unit \<times> server) option" where
  "sessions_add a = with_sessionMu (\<lambda>L.
     case ss_data (li_sessions (lis L)) of
       Some as \<Rightarrow> Some ((), upd_sessions (\<lambda>s. s\<lparr>ss_data := Some (a # removeAll a as)\<rparr>) L)
     | None \<Rightarrow> close_session a L)"

fun close_each :: "nat list \<Rightarrow> server \<Rightarrow> (unit \<times> server) option" where
  "close_each [] L = Some ((), L)"
| "close_each (a # as) L = do { (_, L1) \<leftarrow> close_session a L; close_each as L1 }"

definition closeAll :: "server \<Rightarrow> (unit \<times> server) option" where
  "closeAll L = do {
     (as, L1) \<leftarrow> with_sessionMu (\<lambda>L. Some (data_list L, upd_sessions (\<lambda>s. s\<lparr>ss_data := None\<rparr>) L)) L;
     close_each as L1
   }"

subsection \<open>The listener\<close>

text \<open>\<open>listen\<close> is what \<^verbatim>\<open>net.Listen\<close> answers.\<close>

definition NewListener :: "os_env \<Rightarrow> bool \<Rightarrow> memMapType \<Rightarrow> bool \<Rightarrow> string \<Rightarrow> go_error option \<Rightarrow> (go_error + Listener) \<times> os_action list" where
  "NewListener os callback memType unix listenPath listen =
     (if \<not> callback then (Inl (ErrMsg ''ListenCallback couldn't be nil''), [])
      else if os_GOOS os \<noteq> ''linux'' then (Inl (ErrMsg ''only support linux OS''), [])
      else if memType = MemMapTypeMemFd \<and> \<not> unix then (Inl (ErrMsg ''config.Network must be unix when config.MemMapType is MemMapTypeMemFd''), [])
      else
        let acts = (if unix \<and> safeRemoveUdsFile os listenPath then [RemoveFile listenPath] else []) in
        if listen \<noteq> None then (Inl (ErrMsg ''create listener failed''), acts)
        else (Inr \<lparr>li_mu = False, li_sessions = \<lparr>sessionMu = False, ss_data = Some []\<rparr>, li_unix = unix, ListenPath = listenPath, li_shutdownErrStr = [],
          isCloseL = False, li_state = defaultState, li_hot = \<lparr>lh_epoch = 0, hotRestartAckCount = 0\<rparr>, unlinkOnClose = True, li_checking = 0, li_trace = []\<rparr>, acts))"

definition listener_Close :: "server \<Rightarrow> (unit \<times> server) option" where
  "listener_Close = with_mu (\<lambda>L.
     if isCloseL (lis L) then Some ((), L)
     else do {
       let L1 = upd_lis (\<lambda>l. l\<lparr>isCloseL := True\<rparr>) L;
       let L2 = emit (LiShutdown (if li_shutdownErrStr (lis L1) \<noteq> [] then li_shutdownErrStr (lis L1) else ''close by Listener.Close()'')) L1;
       let L3 = emit LiCloseSocket L2;
       let L4 = (if li_unix (lis L3) \<and> unlinkOnClose (lis L3) then emit (LiRemove (ListenPath (lis L3))) L3 else L3);
       closeAll L4
     })"

text \<open>
  The loop that accepts connections. A connection comes with the state of its socket; the session that is created over it
  uses the buffer managers of the process.
\<close>

datatype accepted = AcceptTemporary | AcceptTooMany | AcceptFailed string | AcceptConn party

definition accept_conn :: "(party \<Rightarrow> world hs \<times> party) \<Rightarrow> party \<Rightarrow> server \<Rightarrow> (unit \<times> server) option" where
  "accept_conn new pt L = (case new (pt\<lparr>pt_reg := sv_reg L, pt_acts := []\<rparr>) of (r, pt') \<Rightarrow>
     (let L1 = L\<lparr>sv_reg := pt_reg pt', sv_acts := sv_acts L @ pt_acts pt'\<rparr> in
      case r of
        HsOk w \<Rightarrow> sessions_add (nsw L1) (L1\<lparr>sws := (sws L1)(nsw L1 \<mapsto> upd_ses (\<lambda>s. s\<lparr>listenCallback := True\<rparr>) w), nsw := nsw L1 + 1\<rparr>)
      | HsErr e \<Rightarrow> Some ((), L1)
      | _ \<Rightarrow> None))"

text \<open>The flag says that the loop has ended.\<close>

fun listener_Run :: "(party \<Rightarrow> world hs \<times> party) \<Rightarrow> accepted list \<Rightarrow> server \<Rightarrow> (bool \<times> server) option" where
  "listener_Run new [] L = Some (False, L)"
| "listener_Run new (AcceptTemporary # as) L = listener_Run new as L"
| "listener_Run new (AcceptTooMany # as) L = listener_Run new as L"
| "listener_Run new (AcceptFailed err # as) L = do {
     (_, L1) \<leftarrow> listener_Close (upd_lis (\<lambda>l. l\<lparr>li_shutdownErrStr := ''accept failed,reason:'' @ err\<rparr>) L);
     Some (True, L1)
   }"
| "listener_Run new (AcceptConn pt # as) L = do { (_, L1) \<leftarrow> accept_conn new pt L; listener_Run new as L1 }"

subsection \<open>Hot restart\<close>

text \<open>The loop over the sessions, in the order in which the map is walked.\<close>

fun restart_each :: "u64 \<Rightarrow> nat list \<Rightarrow> server \<Rightarrow> (go_error option \<times> server) option" where
  "restart_each epoch [] L = Some (None, L)"
| "restart_each epoch (a # as) L = do {
     w \<leftarrow> sws L a;
     if \<not> handshakeDone (ses w) then Some (Some ErrInHandshakeStage, L)
     else if ss_state (ses w) \<noteq> defaultState then restart_each epoch as L
     else do {
       (err, L1) \<leftarrow> run_session a (hotRestart epoch typeHotRestart) L;
       if err \<noteq> None then Some (err, upd_lis (\<lambda>l. l\<lparr>li_state := defaultState\<rparr>) L1)
       else
         let L2 = upd_sw a (upd_ses (\<lambda>s. s\<lparr>ss_state := hotRestartState\<rparr>)) L1
         in restart_each epoch as (upd_lis (\<lambda>l. l\<lparr>li_hot := (li_hot l)\<lparr>hotRestartAckCount := hotRestartAckCount (li_hot l) + 1\<rparr>\<rparr>) L2)
     }
   }"

text \<open>\<open>li_checking\<close> counts the goroutines that run \<^verbatim>\<open>checkHotRestart\<close>.\<close>

definition HotRestart :: "u64 \<Rightarrow> server \<Rightarrow> (go_error option \<times> server) option" where
  "HotRestart epoch = with_mu (\<lambda>L.
     if li_state (lis L) = hotRestartState then Some (Some ErrHotRestartInProgress, L)
     else with_sessionMu (\<lambda>L. do {
         (err, L1) \<leftarrow> restart_each epoch (data_list L) L;
         if err \<noteq> None then Some (err, L1)
         else Some (None, upd_lis (\<lambda>l. l\<lparr>li_checking := li_checking l + 1\<rparr>) L1)
       }) (upd_lis (\<lambda>l. l\<lparr>li_state := hotRestartState, li_hot := (li_hot l)\<lparr>lh_epoch := epoch\<rparr>\<rparr>) L))"

definition IsHotRestartDone :: "server \<Rightarrow> (bool \<times> server) option" where
  "IsHotRestartDone = with_mu (\<lambda>L. Some (li_state (lis L) \<noteq> hotRestartState, L))"

definition SetUnlinkOnClose :: "bool \<Rightarrow> server \<Rightarrow> (unit \<times> server) option" where
  "SetUnlinkOnClose unlink = with_mu (\<lambda>L. Some ((), upd_lis (\<lambda>l. l\<lparr>unlinkOnClose := unlink\<rparr>) L))"

text \<open>One tick of \<^verbatim>\<open>checkHotRestart\<close>, whose result says whether the goroutine ends, and its timeout.\<close>

definition check_tick :: "server \<Rightarrow> (bool \<times> server) option" where
  "check_tick = with_mu (\<lambda>L.
     if li_state (lis L) \<noteq> hotRestartState then Some (True, upd_lis (\<lambda>l. l\<lparr>li_checking := li_checking l - 1\<rparr>) L)
     else if hotRestartAckCount (li_hot (lis L)) = 0 then
       with_sessionMu (\<lambda>L. Some (True, L)) (upd_lis (\<lambda>l. l\<lparr>li_state := hotRestartDoneState, li_checking := li_checking l - 1\<rparr>) L)
     else Some (False, L))"

definition resetState :: "server \<Rightarrow> (unit \<times> server) option" where
  "resetState = with_mu (\<lambda>L. with_sessionMu (\<lambda>L.
       Some ((), fold (\<lambda>a. upd_sw a (upd_ses (\<lambda>s. s\<lparr>ss_state := defaultState\<rparr>))) (data_list L) L))
     (upd_lis (\<lambda>l. l\<lparr>li_state := defaultState, li_hot := (li_hot l)\<lparr>hotRestartAckCount := 0\<rparr>\<rparr>) L))"

definition check_timeout :: "server \<Rightarrow> (unit \<times> server) option" where
  "check_timeout L = do {
     (_, L1) \<leftarrow> resetState L;
     with_sessionMu (\<lambda>L. Some ((), upd_lis (\<lambda>l. l\<lparr>li_checking := li_checking l - 1\<rparr>) L)) L1
   }"

subsection \<open>Operations on one session\<close>

lemma upd_lis_sel [simp]: "lis (upd_lis f L) = f (lis L)" "sws (upd_lis f L) = sws L" "nsw (upd_lis f L) = nsw L"
  by (simp_all add: upd_lis_def)

lemma upd_sessions_sel [simp]:
  "li_sessions (lis (upd_sessions f L)) = f (li_sessions (lis L))" "sws (upd_sessions f L) = sws L" "li_hot (lis (upd_sessions f L)) = li_hot (lis L)"
  "li_state (lis (upd_sessions f L)) = li_state (lis L)" "li_mu (lis (upd_sessions f L)) = li_mu (lis L)" "li_checking (lis (upd_sessions f L)) = li_checking (lis L)"
  by (simp_all add: upd_sessions_def)

lemma upd_sw_sel [simp]: "lis (upd_sw a f L) = lis L" "sws (upd_sw a f L) = (sws L)(a := map_option f (sws L a))"
  by (simp_all add: upd_sw_def)

lemma sws_lis: "L\<lparr>sws := f, lis := l\<rparr> = L\<lparr>lis := l, sws := f\<rparr>"
  by simp

lemma data_list_sel [simp]: "data_list (upd_sw a f L) = data_list L"
  by (simp add: data_list_def)

text \<open>The events of a hot restart.\<close>

definition restart_msg :: "u8 \<Rightarrow> u8 \<Rightarrow> u64 \<Rightarrow> bytes" where
  "restart_msg v t epoch = wire_header 16 v t @ be_put epoch"

lemma hotRestart_msg:
  assumes "t = typeHotRestart \<or> t = typeHotRestartAck"
  shows "hotRestart epoch t w = Some (None, write_or_queue (restart_msg (communicationVersion (ses w)) t epoch) w)"
proof -
  have p: "put_at (replicate (headerSize + 8) 0) headerSize (be_put epoch) = Some (replicate 8 0 @ be_put epoch)"
    by (simp add: put_at_def headerSize_def store_def)
  have e: "header_encode (replicate 8 0 @ be_put epoch) (word_of_nat (length (replicate 8 (0 :: u8) @ be_put epoch))) v t = Some (restart_msg v t epoch)" for v
    by (subst header_encode_eq) (simp_all add: headerSize_def restart_msg_def)
  show ?thesis using assms unfolding hotRestart_def p by (auto simp: e simp del: length_append length_replicate)
qed

text \<open>A session that can be told: its handshake is done and its connection takes data.\<close>

definition can_restart :: "world \<Rightarrow> bool" where
  "can_restart w \<longleftrightarrow> \<not> IsClosed w \<and> handshakeDone (ses w) \<and> ss_state (ses w) = defaultState \<and> (\<forall>d. eventConn (ses w) d = None)"

text \<open>It has been told: the event is on the wire, or waits for the send goroutine.\<close>

definition told :: "u64 \<Rightarrow> world \<Rightarrow> world \<Rightarrow> bool" where
  "told epoch w w' \<longleftrightarrow> (let ev = restart_msg (communicationVersion (ses w)) typeHotRestart epoch in
     ss_state (ses w') = hotRestartState \<and> IsClosed w' = IsClosed w \<and>
     (eventOut (ses w') = eventOut (ses w) @ ev \<or> sendCh (ses w') = sendCh (ses w) @ [\<lparr>sr_Hdr = None, sr_Body = Some ev\<rparr>]))"

lemma write_or_queue_ok:
  assumes "\<forall>d. eventConn (ses w) d = None"
  shows "shutdown (ses (write_or_queue ev w)) = shutdown (ses w)" "listener_of (write_or_queue ev w) = listener_of w"
    "eventOut (ses (write_or_queue ev w)) = eventOut (ses w) @ ev \<or> sendCh (ses (write_or_queue ev w)) = sendCh (ses w) @ [\<lparr>sr_Hdr = None, sr_Body = Some ev\<rparr>]"
  using assms by (simp_all add: write_or_queue_def writeEventData_def Let_def)

lemma tell_one:
  assumes w: "sws L a = Some w" "can_restart w"
  obtains w' where "run_session a (hotRestart epoch typeHotRestart) L = Some (None, L\<lparr>sws := (sws L)(a \<mapsto> w')\<rparr>)"
    "told epoch w (upd_ses (\<lambda>s. s\<lparr>ss_state := hotRestartState\<rparr>) w')"
proof -
  let ?hot = "li_hot (lis L)"
  let ?w = "w\<lparr>listener_of := Some ?hot\<rparr>" and ?ev = "restart_msg (communicationVersion (ses w)) typeHotRestart epoch"
  let ?w1 = "write_or_queue ?ev ?w"
  have c: "\<forall>d. eventConn (ses ?w) d = None" using w(2) by (simp add: can_restart_def)
  note k = write_or_queue_ok [OF c, of ?ev]
  have "run_session a (hotRestart epoch typeHotRestart) L = Some (None, L\<lparr>sws := (sws L)(a \<mapsto> ?w1\<lparr>listener_of := None\<rparr>)\<rparr>)"
    using w k(1,2) by (simp add: run_session_def hotRestart_msg can_restart_def IsClosed_def Let_def upd_lis_def)
  moreover have "told epoch w (upd_ses (\<lambda>s. s\<lparr>ss_state := hotRestartState\<rparr>) (?w1\<lparr>listener_of := None\<rparr>))"
    using k by (simp add: told_def IsClosed_def)
  ultimately show thesis by (rule that)
qed

definition add_acks :: "int \<Rightarrow> server \<Rightarrow> server" where
  "add_acks n = upd_lis (\<lambda>l. l\<lparr>li_hot := (li_hot l)\<lparr>hotRestartAckCount := hotRestartAckCount (li_hot l) + n\<rparr>\<rparr>)"

lemma add_acks_simps [simp]:
  "sws (add_acks n L) = sws L" "hotRestartAckCount (li_hot (lis (add_acks n L))) = hotRestartAckCount (li_hot (lis L)) + n"
  "lh_epoch (li_hot (lis (add_acks n L))) = lh_epoch (li_hot (lis L))" "li_state (lis (add_acks n L)) = li_state (lis L)"
  "li_mu (lis (add_acks n L)) = li_mu (lis L)" "li_sessions (lis (add_acks n L)) = li_sessions (lis L)" "data_list (add_acks n L) = data_list L"
  "li_checking (lis (add_acks n L)) = li_checking (lis L)" "add_acks m (add_acks n L) = add_acks (n + m) L" "add_acks 0 L = L"
  "add_acks n (L\<lparr>sws := f\<rparr>) = (add_acks n L)\<lparr>sws := f\<rparr>"
  by (simp_all add: add_acks_def data_list_def upd_lis_def add.assoc)

lemma restart_each_all:
  assumes "distinct as" "\<forall>a \<in> set as. \<exists>w. sws L a = Some w \<and> can_restart w"
  shows "\<exists>ws. restart_each epoch as L = Some (None, (add_acks (int (length as)) L)\<lparr>sws := ws\<rparr>) \<and> (\<forall>a. a \<notin> set as \<longrightarrow> ws a = sws L a) \<and>
    (\<forall>a \<in> set as. \<exists>w w'. sws L a = Some w \<and> ws a = Some w' \<and> told epoch w w')"
  using assms
proof (induction as arbitrary: L)
  case Nil
  then show ?case by (intro exI [of _ "sws L"]) simp
next
  case (Cons a as)
  then obtain w where w: "sws L a = Some w" "can_restart w" by auto
  from tell_one [OF w, of epoch] obtain w' where t: "run_session a (hotRestart epoch typeHotRestart) L = Some (None, L\<lparr>sws := (sws L)(a \<mapsto> w')\<rparr>)"
    "told epoch w (upd_ses (\<lambda>s. s\<lparr>ss_state := hotRestartState\<rparr>) w')" .
  let ?w = "upd_ses (\<lambda>s. s\<lparr>ss_state := hotRestartState\<rparr>) w'"
  let ?L = "(add_acks 1 L)\<lparr>sws := (sws L)(a \<mapsto> ?w)\<rparr>"
  have s: "restart_each epoch (a # as) L = restart_each epoch as ?L"
    using w t(1) by (simp add: can_restart_def add_acks_def upd_sw_def upd_lis_def sws_lis)
  have "\<forall>b \<in> set as. \<exists>w. sws ?L b = Some w \<and> can_restart w" using Cons(2,3) by auto
  from Cons(1) [OF _ this] Cons(2) obtain ws where ws: "restart_each epoch as ?L = Some (None, (add_acks (int (length as)) ?L)\<lparr>sws := ws\<rparr>)"
    "\<forall>b. b \<notin> set as \<longrightarrow> ws b = sws ?L b" "\<forall>b \<in> set as. \<exists>w w'. sws ?L b = Some w \<and> ws b = Some w' \<and> told epoch w w'" by auto
  show ?case
  proof (intro exI [of _ ws] conjI allI ballI impI)
    show "restart_each epoch (a # as) L = Some (None, (add_acks (int (length (a # as))) L)\<lparr>sws := ws\<rparr>)" using s ws(1) by (simp add: add.commute)
    show "ws b = sws L b" if "b \<notin> set (a # as)" for b using that ws(2) by simp
    show "\<exists>w w'. sws L b = Some w \<and> ws b = Some w' \<and> told epoch w w'" if "b \<in> set (a # as)" for b
    proof (cases "b = a")
      case True
      with w t(2) ws(2) Cons(2) show ?thesis by auto
    next
      case False
      with that ws(3) show ?thesis by auto
    qed
  qed
qed

lemma ack_one:
  assumes w: "sws L a = Some w" "\<not> IsClosed w" and v: "v \<noteq> 0" and e: "lh_epoch (li_hot (lis L)) = epoch"
  shows "\<exists>w'. run_session a (onEventData (restart_msg v typeHotRestartAck epoch)) L = Some (16, (add_acks (- 1) L)\<lparr>sws := (sws L)(a \<mapsto> w')\<rparr>) \<and>
    ss_state (ses w') = hotRestartDoneState \<and> \<not> IsClosed w' \<and> handshakeDone (ses w') = handshakeDone (ses w)"
proof -
  let ?hot = "li_hot (lis L)"
  let ?w = "w\<lparr>listener_of := Some ?hot\<rparr>" and ?h = "wire_header 16 v typeHotRestartAck"
  let ?w1 = "upd_ses (\<lambda>s. s\<lparr>ss_state := hotRestartDoneState\<rparr>) (?w\<lparr>listener_of := Some (?hot\<lparr>hotRestartAckCount := hotRestartAckCount ?hot - 1\<rparr>)\<rparr>)"
  have "handleHotRestartAck ?h (be_put epoch) ?w = Some ((int (headerSize + length (be_put epoch)), False, None), ?w1)"
    using be_get_put [of 8 epoch "[]"] e by (simp add: handleHotRestartAck_def epochIDLen_def headerSize_def)
  moreover have "protocolHandlers typeHotRestartAck = Some handleHotRestartAck" by (simp add: protocolHandlers_def event_types)
  ultimately have "handleEvents (restart_msg v typeHotRestartAck epoch) ?w = Some ((16, None), ?w1)"
    using handle_one [OF v, of typeHotRestartAck handleHotRestartAck 16 "be_put epoch" ?w ?w1] by (simp add: event_types restart_msg_def headerSize_def)
  then have r: "onEventData (restart_msg v typeHotRestartAck epoch) ?w = Some (16, ?w1)" using w(2) by (simp add: onEventData_def IsClosed_def)
  show ?thesis using w by (intro exI [of _ "?w1\<lparr>listener_of := None\<rparr>"]) (simp add: run_session_def r IsClosed_def Let_def add_acks_def upd_lis_def sws_lis)
qed

text \<open>Acknowledgements of the sessions, in the order in which they arrive.\<close>

fun ack_each :: "u8 \<Rightarrow> u64 \<Rightarrow> nat list \<Rightarrow> server \<Rightarrow> server option" where
  "ack_each v epoch [] L = Some L"
| "ack_each v epoch (a # as) L = do { (n, L1) \<leftarrow> run_session a (onEventData (restart_msg v typeHotRestartAck epoch)) L; ack_each v epoch as L1 }"

lemma ack_each_all:
  assumes "\<forall>a \<in> set as. \<exists>w. sws L a = Some w \<and> \<not> IsClosed w" "v \<noteq> 0" "lh_epoch (li_hot (lis L)) = epoch"
  shows "\<exists>ws. ack_each v epoch as L = Some ((add_acks (- int (length as)) L)\<lparr>sws := ws\<rparr>) \<and> (\<forall>a. a \<notin> set as \<longrightarrow> ws a = sws L a) \<and>
    (\<forall>a \<in> set as. \<exists>w. ws a = Some w \<and> ss_state (ses w) = hotRestartDoneState \<and> \<not> IsClosed w)"
  using assms(1,3)
proof (induction as arbitrary: L)
  case Nil
  then show ?case by (intro exI [of _ "sws L"]) simp
next
  case (Cons a as)
  then obtain w where w: "sws L a = Some w" "\<not> IsClosed w" by auto
  from ack_one [OF w assms(2) Cons(3)] obtain w' where t: "run_session a (onEventData (restart_msg v typeHotRestartAck epoch)) L = Some (16, (add_acks (- 1) L)\<lparr>sws := (sws L)(a \<mapsto> w')\<rparr>)"
    "ss_state (ses w') = hotRestartDoneState" "\<not> IsClosed w'" by blast
  let ?L = "(add_acks (- 1) L)\<lparr>sws := (sws L)(a \<mapsto> w')\<rparr>"
  have "\<forall>b \<in> set as. \<exists>w. sws ?L b = Some w \<and> \<not> IsClosed w" using Cons(2) t(3) by auto
  from Cons(1) [OF this] Cons(3) obtain ws where ws: "ack_each v epoch as ?L = Some ((add_acks (- int (length as)) ?L)\<lparr>sws := ws\<rparr>)"
    "\<forall>b. b \<notin> set as \<longrightarrow> ws b = sws ?L b" "\<forall>b \<in> set as. \<exists>w. ws b = Some w \<and> ss_state (ses w) = hotRestartDoneState \<and> \<not> IsClosed w" by auto
  have n: "- int (length (a # as)) = - 1 - int (length as)" by simp
  show ?case
  proof (intro exI [of _ ws] conjI allI ballI impI)
    show "ack_each v epoch (a # as) L = Some ((add_acks (- int (length (a # as))) L)\<lparr>sws := ws\<rparr>)" unfolding n using t(1) ws(1) by simp
    show "ws b = sws L b" if "b \<notin> set (a # as)" for b using that ws(2) by simp
    show "\<exists>w. ws b = Some w \<and> ss_state (ses w) = hotRestartDoneState \<and> \<not> IsClosed w" if "b \<in> set (a # as)" for b
      using that ws(2,3) t by (cases "b \<in> set as") auto
  qed
qed

text \<open>No operation is running on the listener, and no restart is in progress.\<close>

definition idle :: "server \<Rightarrow> bool" where
  "idle L \<longleftrightarrow> \<not> li_mu (lis L) \<and> \<not> sessionMu (li_sessions (lis L)) \<and> li_state (lis L) \<noteq> hotRestartState"

lemma HotRestart_tells:
  assumes "idle L" "distinct (data_list L)" "\<forall>a \<in> set (data_list L). \<exists>w. sws L a = Some w \<and> can_restart w"
  obtains L1 where "HotRestart epoch L = Some (None, L1)" "\<forall>a \<in> set (data_list L). \<exists>w w'. sws L a = Some w \<and> sws L1 a = Some w' \<and> told epoch w w'"
    "li_state (lis L1) = hotRestartState" "hotRestartAckCount (li_hot (lis L1)) = hotRestartAckCount (li_hot (lis L)) + int (length (data_list L))"
    "lh_epoch (li_hot (lis L1)) = epoch" "\<not> li_mu (lis L1)" "\<not> sessionMu (li_sessions (lis L1))" "li_checking (lis L1) = Suc (li_checking (lis L))"
proof -
  define L0 where "L0 = upd_sessions (\<lambda>s. s\<lparr>sessionMu := True\<rparr>) (upd_lis (\<lambda>l. l\<lparr>li_mu := True, li_state := hotRestartState, li_hot := (li_hot l)\<lparr>lh_epoch := epoch\<rparr>\<rparr>) L)"
  have d: "data_list L0 = data_list L" "sws L0 = sws L" by (simp_all add: L0_def data_list_def)
  from restart_each_all [of "data_list L" L0 epoch] assms(2,3) d obtain ws where ws: "restart_each epoch (data_list L0) L0 = Some (None, (add_acks (int (length (data_list L))) L0)\<lparr>sws := ws\<rparr>)"
    "\<forall>a \<in> set (data_list L). \<exists>w w'. sws L a = Some w \<and> ws a = Some w' \<and> told epoch w w'" by auto
  let ?L = "(add_acks (int (length (data_list L))) L0)\<lparr>sws := ws\<rparr>"
  let ?L1 = "upd_lis (\<lambda>l. l\<lparr>li_mu := False\<rparr>) (upd_sessions (\<lambda>s. s\<lparr>sessionMu := False\<rparr>) (upd_lis (\<lambda>l. l\<lparr>li_checking := li_checking l + 1\<rparr>) ?L))"
  have "HotRestart epoch L = Some (None, ?L1)"
    using assms(1) ws(1) by (simp add: HotRestart_def with_mu_def with_sessionMu_def idle_def L0_def upd_lis_def upd_sessions_def)
  with ws(2) show thesis by (intro that [of ?L1]) (simp_all add: L0_def)
qed

text \<open>
  C8. A hot restart is done when every session has acknowledged it, and not before. On an idle listener whose sessions
  have finished their handshakes and can be written to, \<^verbatim>\<open>HotRestart\<close> succeeds and every session has been sent the event
  with the new epoch, whatever the order in which the map of sessions is walked. After
  the acknowledgements of any of the sessions, in any order, the check of \<^verbatim>\<open>checkHotRestart\<close> ends and the listener is
  in the state \<^verbatim>\<open>hotRestartDoneState\<close> exactly when all sessions have answered.
\<close>

theorem hot_restart_completes:
  assumes "idle L" "hotRestartAckCount (li_hot (lis L)) = 0" "distinct (data_list L)" "\<forall>a \<in> set (data_list L). \<exists>w. sws L a = Some w \<and> can_restart w"
    and "distinct order" "set order \<subseteq> set (data_list L)" "v \<noteq> 0"
  shows "\<exists>L1 L2 L3. HotRestart epoch L = Some (None, L1) \<and> (\<forall>a \<in> set (data_list L). \<exists>w w'. sws L a = Some w \<and> sws L1 a = Some w' \<and> told epoch w w') \<and>
    ack_each v epoch order L1 = Some L2 \<and> check_tick L2 = Some (set order = set (data_list L), L3) \<and>
    li_state (lis L3) = (if set order = set (data_list L) then hotRestartDoneState else hotRestartState)"
proof -
  from HotRestart_tells [OF assms(1,3,4), of epoch] obtain L1 where L1: "HotRestart epoch L = Some (None, L1)"
    "\<forall>a \<in> set (data_list L). \<exists>w w'. sws L a = Some w \<and> sws L1 a = Some w' \<and> told epoch w w'"
    "li_state (lis L1) = hotRestartState" "hotRestartAckCount (li_hot (lis L1)) = hotRestartAckCount (li_hot (lis L)) + int (length (data_list L))"
    "lh_epoch (li_hot (lis L1)) = epoch" "\<not> li_mu (lis L1)" "\<not> sessionMu (li_sessions (lis L1))" .
  have o: "\<forall>a \<in> set order. \<exists>w. sws L1 a = Some w \<and> \<not> IsClosed w"
  proof
    fix a assume "a \<in> set order"
    with assms(6) have a: "a \<in> set (data_list L)" by blast
    with L1(2) obtain w w' where w: "sws L a = Some w" "sws L1 a = Some w'" "told epoch w w'" by blast
    with a assms(4) show "\<exists>w. sws L1 a = Some w \<and> \<not> IsClosed w" by (auto simp: told_def can_restart_def Let_def)
  qed
  from ack_each_all [OF o assms(7) L1(5)] obtain ws where L2: "ack_each v epoch order L1 = Some ((add_acks (- int (length order)) L1)\<lparr>sws := ws\<rparr>)" by blast
  let ?L2 = "(add_acks (- int (length order)) L1)\<lparr>sws := ws\<rparr>"
  have "set order = set (data_list L) \<longleftrightarrow> length order = length (data_list L)"
    using assms(3,5,6) by (metis card_subset_eq distinct_card List.finite_set)
  then have c: "hotRestartAckCount (li_hot (lis ?L2)) = 0 \<longleftrightarrow> set order = set (data_list L)" using L1(4) assms(2) by auto
  have "\<exists>L3. check_tick ?L2 = Some (set order = set (data_list L), L3) \<and> li_state (lis L3) = (if set order = set (data_list L) then hotRestartDoneState else hotRestartState)"
    using c L1(3,6,7) by (auto simp: check_tick_def with_mu_def with_sessionMu_def)
  with L1(1,2) L2 show ?thesis by blast
qed

subsection \<open>Closing the listener\<close>

lemma ses_Close_closed: "IsClosed (ses_Close w)" "listener_of (ses_Close w) = listener_of w"
proof -
  have f: "ses (fold safeCloseNotify ps w) = ses w" "listener_of (fold safeCloseNotify ps w) = listener_of w" for ps w
    by (induction ps arbitrary: w) (simp_all add: safeCloseNotify_def upd_obj_def)
  show "IsClosed (ses_Close w)" "listener_of (ses_Close w) = listener_of w"
    by (simp_all add: ses_Close_def Let_def f IsClosed_def call_back_def)
qed

lemma close_session_ok:
  assumes "sws L a = Some w" "\<not> sessionMu (li_sessions (lis L))" "ss_data (li_sessions (lis L)) = None"
  shows "\<exists>w'. close_session a L = Some ((), L\<lparr>sws := (sws L)(a \<mapsto> w')\<rparr>) \<and> IsClosed w'"
proof -
  let ?w = "ses_Close (w\<lparr>listener_of := Some (li_hot (lis L))\<rparr>)"
  have r: "removeShutdownSession L' = Some ((), L')" if "\<not> sessionMu (li_sessions (lis L'))" "ss_data (li_sessions (lis L')) = None" for L'
    using that by (simp add: removeShutdownSession_def with_sessionMu_def upd_sessions_def upd_lis_def)
  have "close_session a L = Some ((), L\<lparr>sws := (sws L)(a \<mapsto> ?w\<lparr>listener_of := None\<rparr>)\<rparr>)"
    using assms ses_Close_closed [of "w\<lparr>listener_of := Some (li_hot (lis L))\<rparr>"] r [of "L\<lparr>sws := (sws L)(a \<mapsto> ?w\<lparr>listener_of := None\<rparr>)\<rparr>"]
    by (simp add: close_session_def run_session_def Let_def upd_lis_def)
  moreover have "IsClosed (?w\<lparr>listener_of := None\<rparr>)" using ses_Close_closed(1) by (simp add: IsClosed_def)
  ultimately show ?thesis by blast
qed

lemma close_each_ok:
  assumes "\<forall>a \<in> set as. \<exists>w. sws L a = Some w" "\<not> sessionMu (li_sessions (lis L))" "ss_data (li_sessions (lis L)) = None"
  shows "\<exists>ws. close_each as L = Some ((), L\<lparr>sws := ws\<rparr>) \<and> (\<forall>a \<in> set as. \<exists>w. ws a = Some w \<and> IsClosed w) \<and> (\<forall>a. a \<notin> set as \<longrightarrow> ws a = sws L a)"
  using assms
proof (induction as arbitrary: L)
  case Nil
  then show ?case by (intro exI [of _ "sws L"]) simp
next
  case (Cons a as)
  from Cons(2) obtain w where "sws L a = Some w" by auto
  from close_session_ok [OF this Cons(3,4)] obtain w' where w': "close_session a L = Some ((), L\<lparr>sws := (sws L)(a \<mapsto> w')\<rparr>)" "IsClosed w'" by blast
  let ?L = "L\<lparr>sws := (sws L)(a \<mapsto> w')\<rparr>"
  have "\<forall>b \<in> set as. \<exists>w. sws ?L b = Some w" using Cons(2) by simp
  from Cons(1) [OF this] Cons(3,4) obtain ws where "close_each as ?L = Some ((), ?L\<lparr>sws := ws\<rparr>)" "\<forall>a \<in> set as. \<exists>w. ws a = Some w \<and> IsClosed w"
    "\<forall>b. b \<notin> set as \<longrightarrow> ws b = sws ?L b" by auto
  with w' show ?case by (intro exI [of _ ws]) (cases "a \<in> set as"; auto)
qed


subsection \<open>Waiting for a mutex that is held\<close>

text \<open>
  \<^verbatim>\<open>add\<close> on a closed listener closes the session while it holds the mutex of the sessions; the callback of the session
  waits for the same mutex.
\<close>

lemma add_after_close_blocks:
  assumes "ss_data (li_sessions (lis L)) = None" "sws L a = Some w" "\<not> IsClosed w" "listenCallback (ses w)"
  shows "sessions_add a L = None"
  using assms ses_Close_closed [of "w\<lparr>listener_of := Some (li_hot (lis L))\<rparr>"]
  by (simp add: sessions_add_def with_sessionMu_def close_session_def run_session_def removeShutdownSession_def Let_def)

lemma restart_each_append:
  "restart_each epoch as L = Some (None, L1) \<Longrightarrow> restart_each epoch (as @ bs) L = restart_each epoch bs L1"
  by (induction as arbitrary: L) (auto simp: Let_def split: Option.bind_split_asm if_split_asm)

text \<open>The connection refuses the event, so that the session closes.\<close>

definition broken :: "world \<Rightarrow> bool" where
  "broken w \<longleftrightarrow> \<not> IsClosed w \<and> handshakeDone (ses w) \<and> ss_state (ses w) = defaultState \<and> listenCallback (ses w) \<and> \<not> writing (ses w) \<and> (\<forall>d. eventConn (ses w) d \<noteq> None)"

lemma broken_blocks:
  assumes w: "sws L a = Some w" "broken w" and mu: "sessionMu (li_sessions (lis L))"
  shows "run_session a (hotRestart epoch typeHotRestart) L = None"
proof -
  let ?w = "w\<lparr>listener_of := Some (li_hot (lis L))\<rparr>" and ?ev = "restart_msg (communicationVersion (ses w)) typeHotRestart epoch"
  have e: "listener_of (exitErr err x) = listener_of x" "IsClosed (exitErr err x)" for err x
    using ses_Close_closed by (simp_all add: exitErr_def)
  from w(2) obtain err where "eventConn (ses w) ?ev = Some err" by (auto simp: broken_def)
  then have "listener_of (write_or_queue ?ev ?w) = Some (li_hot (lis L))" "IsClosed (write_or_queue ?ev ?w)"
    using w(2) e [of err "upd_ses (\<lambda>s. s\<lparr>writing := True\<rparr>) ?w"] by (simp_all add: write_or_queue_def writeEventData_def broken_def Let_def IsClosed_def)
  with w mu show ?thesis
    by (simp add: run_session_def hotRestart_msg Let_def broken_def removeShutdownSession_def with_sessionMu_def)
qed

text \<open>
  C37. A hot restart does not return when the connection of a session fails. When the write of the event to a session fails,
  the session closes and its callback waits for the mutex of the sessions, which \<^verbatim>\<open>HotRestart\<close> holds together with
  the mutex of the listener: whatever the other sessions are, \<^verbatim>\<open>HotRestart\<close> blocks.
\<close>

theorem restart_blocks_on_broken_session:
  assumes "idle L" "data_list L = as @ a # bs" "distinct (data_list L)" "\<forall>b \<in> set as. \<exists>w. sws L b = Some w \<and> can_restart w"
    and "sws L a = Some w" "broken w"
  shows "HotRestart epoch L = None"
proof -
  define L0 where "L0 = upd_sessions (\<lambda>s. s\<lparr>sessionMu := True\<rparr>) (upd_lis (\<lambda>l. l\<lparr>li_mu := True, li_state := hotRestartState, li_hot := (li_hot l)\<lparr>lh_epoch := epoch\<rparr>\<rparr>) L)"
  have d: "data_list L0 = as @ a # bs" "sws L0 = sws L" using assms(2) by (simp_all add: L0_def data_list_def)
  from restart_each_all [of as L0 epoch] assms(2,3,4) d obtain ws where ws: "restart_each epoch as L0 = Some (None, (add_acks (int (length as)) L0)\<lparr>sws := ws\<rparr>)"
    "\<forall>b. b \<notin> set as \<longrightarrow> ws b = sws L b" by auto
  let ?L = "(add_acks (int (length as)) L0)\<lparr>sws := ws\<rparr>"
  have w: "sws ?L a = Some w" using ws(2) assms(2,3,5) by simp
  have "sessionMu (li_sessions (lis ?L))" by (simp add: L0_def)
  from broken_blocks [OF w assms(6) this] have "restart_each epoch (data_list L0) L0 = None"
    using w assms(6) unfolding d restart_each_append [OF ws(1)] by (simp add: broken_def)
  then show ?thesis using assms(1) by (simp add: HotRestart_def with_mu_def with_sessionMu_def idle_def L0_def upd_lis_def upd_sessions_def)
qed

text \<open>
  An acknowledgement that arrives after the timeout has reset the listener is still counted. The count is then one too small, the session
  that sent it is left out of the next restart, and that restart is reported as done while the other session has not answered.
\<close>

lemma late_ack_premature:
  assumes "idle L" "hotRestartAckCount (li_hot (lis L)) = 0" "lh_epoch (li_hot (lis L)) = e" "data_list L = [a, b]" "a \<noteq> b" "v \<noteq> 0"
    and "sws L a = Some wa" "can_restart wa" "sws L b = Some wb" "can_restart wb"
  shows "\<exists>L1 L2 L3 w. run_session a (onEventData (restart_msg v typeHotRestartAck e)) L = Some (16, L1) \<and> HotRestart e' L1 = Some (None, L2) \<and>
    check_tick L2 = Some (True, L3) \<and> li_state (lis L3) = hotRestartDoneState \<and> sws L3 b = Some w \<and> ss_state (ses w) = hotRestartState"
proof -
  from ack_one [of L a wa v e] assms obtain w' where a: "run_session a (onEventData (restart_msg v typeHotRestartAck e)) L = Some (16, (add_acks (- 1) L)\<lparr>sws := (sws L)(a \<mapsto> w')\<rparr>)"
    "ss_state (ses w') = hotRestartDoneState" "handshakeDone (ses w')" by (auto simp: can_restart_def)
  define L1 where "L1 = (add_acks (- 1) L)\<lparr>sws := (sws L)(a \<mapsto> w')\<rparr>"
  define L0 where "L0 = upd_sessions (\<lambda>s. s\<lparr>sessionMu := True\<rparr>) (upd_lis (\<lambda>l. l\<lparr>li_mu := True, li_state := hotRestartState, li_hot := (li_hot l)\<lparr>lh_epoch := e'\<rparr>\<rparr>) L1)"
  have d: "data_list L0 = [a, b]" "sws L0 a = Some w'" "sws L0 b = Some wb" using assms(4,5,9) by (simp_all add: L0_def L1_def data_list_def add_acks_def)
  from restart_each_all [of "[b]" L0 e'] d assms(10) obtain ws w where ws: "restart_each e' [b] L0 = Some (None, (add_acks 1 L0)\<lparr>sws := ws\<rparr>)"
    "ws b = Some w" "told e' wb w" by auto
  have r: "restart_each e' [a, b] L0 = Some (None, (add_acks 1 L0)\<lparr>sws := ws\<rparr>)"
    using d(2) a(2,3) ws(1) by (subst restart_each.simps) simp
  let ?L2 = "upd_lis (\<lambda>l. l\<lparr>li_mu := False\<rparr>) (upd_sessions (\<lambda>s. s\<lparr>sessionMu := False\<rparr>) (upd_lis (\<lambda>l. l\<lparr>li_checking := li_checking l + 1\<rparr>) ((add_acks 1 L0)\<lparr>sws := ws\<rparr>)))"
  have i: "\<not> li_mu (lis L1)" "\<not> sessionMu (li_sessions (lis L1))" "li_state (lis L1) \<noteq> hotRestartState" using assms(1) by (simp_all add: idle_def L1_def)
  have h: "HotRestart e' L1 = Some (None, ?L2)"
    using i r d(1) by (simp add: HotRestart_def with_mu_def with_sessionMu_def L0_def upd_lis_def upd_sessions_def)
  have "\<exists>L3. check_tick ?L2 = Some (True, L3) \<and> li_state (lis L3) = hotRestartDoneState \<and> sws L3 b = Some w"
    using assms(2) ws(2) by (simp add: check_tick_def with_mu_def with_sessionMu_def L0_def L1_def)
  with a(1) h ws(3) show ?thesis unfolding L1_def [symmetric] told_def Let_def by blast
qed

subsection \<open>Witnesses\<close>

definition demo_listener :: Listener where
  "demo_listener = \<lparr>li_mu = False, li_sessions = \<lparr>sessionMu = False, ss_data = Some [0, 1]\<rparr>, li_unix = True, ListenPath = ''/tmp/l.sock'', li_shutdownErrStr = [],
     isCloseL = False, li_state = defaultState, li_hot = \<lparr>lh_epoch = 0, hotRestartAckCount = 0\<rparr>, unlinkOnClose = True, li_checking = 0, li_trace = []\<rparr>"

definition demo_server :: "(bytes \<Rightarrow> go_error option) \<Rightarrow> server" where
  "demo_server conn = \<lparr>lis = demo_listener, sws = [0 \<mapsto> upd_ses (\<lambda>s. s\<lparr>handshakeDone := True, listenCallback := True\<rparr>) (initial_world False False),
     1 \<mapsto> upd_ses (\<lambda>s. s\<lparr>handshakeDone := True, listenCallback := True, eventConn := conn\<rparr>) (initial_world False False)], nsw = 2, sv_reg = [], sv_acts = []\<rparr>"

lemma demo_server_ok:
  "idle (demo_server conn)" "hotRestartAckCount (li_hot (lis (demo_server conn))) = 0" "data_list (demo_server conn) = [0, 1]"
  "\<exists>w. sws (demo_server conn) 0 = Some w \<and> can_restart w" "\<exists>w. sws (demo_server (\<lambda>_. None)) 1 = Some w \<and> can_restart w"
  "\<exists>w. sws (demo_server (\<lambda>_. Some ErrSessionShutdown)) 1 = Some w \<and> broken w"
  by (simp_all add: idle_def demo_server_def demo_listener_def data_list_def can_restart_def broken_def IsClosed_def initial_world_def initial_session_def)

theorem hot_restart_completes_witness:
  "\<exists>L1 L2 L3. HotRestart 7 (demo_server (\<lambda>_. None)) = Some (None, L1) \<and> ack_each 2 7 [1, 0] L1 = Some L2 \<and> check_tick L2 = Some (True, L3) \<and>
    li_state (lis L3) = hotRestartDoneState"
proof -
  let ?L = "demo_server (\<lambda>_. None)"
  have "\<forall>a \<in> set (data_list ?L). \<exists>w. sws ?L a = Some w \<and> can_restart w" using demo_server_ok(4,5) by (simp add: demo_server_ok(3))
  moreover have "distinct (data_list ?L)" "distinct [1, 0 :: nat]" "set [1, 0] \<subseteq> set (data_list ?L)" "set [1, 0] = set (data_list ?L)" by (auto simp: demo_server_ok(3))
  ultimately show ?thesis using hot_restart_completes [of ?L "[1, 0]" 2 7] demo_server_ok(1,2) by auto
qed


theorem restart_blocks_on_broken_session_witness: "HotRestart 7 (demo_server (\<lambda>_. Some ErrSessionShutdown)) = None"
proof -
  let ?L = "demo_server (\<lambda>_. Some ErrSessionShutdown)"
  obtain w where "sws ?L 1 = Some w" "broken w" using demo_server_ok(6) by blast
  moreover have "data_list ?L = [0] @ 1 # []" "distinct (data_list ?L)" "\<forall>b \<in> set [0]. \<exists>w. sws ?L b = Some w \<and> can_restart w"
    using demo_server_ok(4) by (simp_all add: demo_server_ok(3))
  ultimately show ?thesis using restart_blocks_on_broken_session [of ?L "[0]" 1 "[]" w 7] demo_server_ok(1) by blast
qed

end
