(* ===== verification/Stream_Pool.thy ===== *)
theory Stream_Pool
  imports Connection Fifo_Interface
begin

text \<open>
  The pool of streams of one session, \<^verbatim>\<open>streamPool\<close> of \<^verbatim>\<open>session_manager.go\<close>: a ring of streams that can
  be used again, with running counters for its two ends. A stream is known by its session and its address there.
\<close>

type_synonym sref = "nat \<times> sptr"

record streamPool =
  sp_session :: "nat option"
  sp_streams :: "sref option list"
  sp_head :: u64
  sp_tail :: u64
  sp_capacity :: u32

definition newStreamPool :: "u32 \<Rightarrow> streamPool" where
  "newStreamPool poolCapacity = \<lparr>sp_session = None, sp_streams = replicate (unat poolCapacity) None, sp_head = 0, sp_tail = 0, sp_capacity = poolCapacity\<rparr>"

text \<open>\<open>i % uint64(p.capacity)\<close> as an index; dividing by zero and an index out of range panic.\<close>

definition pool_index :: "streamPool \<Rightarrow> u64 \<Rightarrow> nat option" where
  "pool_index p i = (if sp_capacity p = 0 then None
     else let k = unat (i mod ucast (sp_capacity p)) in if k < length (sp_streams p) then Some k else None)"

definition pool_pop :: "streamPool \<Rightarrow> (sref option \<times> streamPool) option" where
  "pool_pop p =
     (if sp_tail p > sp_head p then do {
        k \<leftarrow> pool_index p (sp_head p);
        Some (sp_streams p ! k, p\<lparr>sp_head := sp_head p + 1\<rparr>)
      } else Some (None, p))"

definition errPoolFull :: go_error where "errPoolFull = ErrMsg ''stream pool is full''"

definition pool_push :: "sref \<Rightarrow> streamPool \<Rightarrow> (go_error option \<times> streamPool) option" where
  "pool_push s p =
     (if sp_tail p - sp_head p < ucast (sp_capacity p) then do {
        k \<leftarrow> pool_index p (sp_tail p);
        Some (None, p\<lparr>sp_streams := (sp_streams p)[k := Some s], sp_tail := sp_tail p + 1\<rparr>)
      } else Some (Some errPoolFull, p))"

subsection \<open>The ring contract\<close>

abbreviation pcap :: "streamPool \<Rightarrow> nat" where "pcap p \<equiv> unat (sp_capacity p)"

definition pool_inv :: "streamPool \<Rightarrow> bool" where
  "pool_inv p \<longleftrightarrow> length (sp_streams p) = pcap p \<and> unat (sp_head p) \<le> unat (sp_tail p) \<and> unat (sp_tail p) \<le> unat (sp_head p) + pcap p \<and>
     (\<forall>i. unat (sp_head p) \<le> i \<and> i < unat (sp_tail p) \<longrightarrow> sp_streams p ! (i mod pcap p) \<noteq> None)"

definition pool_items :: "streamPool \<Rightarrow> sref list" where
  "pool_items p = map (\<lambda>i. the (sp_streams p ! (i mod pcap p))) [unat (sp_head p) ..< unat (sp_tail p)]"

definition pool_budget :: "streamPool \<Rightarrow> nat" where
  "pool_budget p = 2 ^ 64 - 1 - unat (sp_tail p)"

lemma length_pool_items: "length (pool_items p) = unat (sp_tail p) - unat (sp_head p)"
  by (simp add: pool_items_def)

lemma newStreamPool_inv: "pool_inv (newStreamPool c)" "pool_items (newStreamPool c) = []"
  by (simp_all add: pool_inv_def pool_items_def newStreamPool_def)

lemma unat_capacity: "unat (ucast (sp_capacity p) :: u64) = pcap p"
proof -
  have "pcap p < 2 ^ LENGTH(32)" by (rule unsigned_less)
  then have "pcap p < 2 ^ 64" by simp
  then show ?thesis by (simp add: unsigned_ucast_eq take_bit_nat_eq_self_iff)
qed

lemma pool_index_eq:
  assumes "pool_inv p" "0 < pcap p"
  shows "pool_index p i = Some (unat i mod pcap p)" "unat i mod pcap p < length (sp_streams p)"
proof -
  have "sp_capacity p \<noteq> 0" using assms(2) by (metis unat_0 less_irrefl)
  then show "pool_index p i = Some (unat i mod pcap p)" "unat i mod pcap p < length (sp_streams p)"
    using assms by (simp_all add: pool_index_def unat_mod unat_capacity pool_inv_def)
qed

lemma pool_pop_cases:
  assumes "pool_inv p"
  obtains (empty) "pool_items p = []" "pool_pop p = Some (None, p)"
    | (item) s p' where "pool_pop p = Some (Some s, p')" "pool_inv p'" "pool_items p = s # pool_items p'" "pool_budget p' = pool_budget p"
        "sp_capacity p' = sp_capacity p" "sp_session p' = sp_session p"
proof (cases "unat (sp_head p) < unat (sp_tail p)")
  case False
  then show ?thesis using empty by (simp add: pool_items_def pool_pop_def word_less_nat_alt)
next
  case True
  then have c: "0 < pcap p" using assms by (auto simp: pool_inv_def)
  let ?s = "sp_streams p ! (unat (sp_head p) mod pcap p)" and ?p = "p\<lparr>sp_head := sp_head p + 1\<rparr>"
  have "unat (sp_tail p) < 2 ^ LENGTH(64)" by (rule unsigned_less)
  with True have h: "unat (sp_head p + 1) = unat (sp_head p) + 1" by (intro unat_plus_one) simp
  have "?s \<noteq> None" using assms True by (simp add: pool_inv_def)
  then obtain s where s: "?s = Some s" by blast
  have u: "[unat (sp_head p) ..< unat (sp_tail p)] = unat (sp_head p) # [unat (sp_head p) + 1 ..< unat (sp_tail p)]"
    using True by (simp add: upt_conv_Cons)
  show ?thesis
  proof (rule item [of s ?p])
    show "pool_pop p = Some (Some s, ?p)" using True s pool_index_eq(1) [OF assms c] by (simp add: pool_pop_def word_less_nat_alt)
    show "pool_inv ?p" using assms True h by (auto simp: pool_inv_def)
    show "pool_items p = s # pool_items ?p" using h u s by (simp add: pool_items_def)
  qed (simp_all add: pool_budget_def)
qed

lemma pool_push_cases:
  assumes "pool_inv p" "0 < pool_budget p"
  obtains (full) "length (pool_items p) = pcap p" "pool_push s p = Some (Some errPoolFull, p)"
    | (room) p' where "length (pool_items p) < pcap p" "pool_push s p = Some (None, p')" "pool_inv p'" "pool_items p' = pool_items p @ [s]" "pool_budget p' = pool_budget p - 1"
        "sp_capacity p' = sp_capacity p" "sp_session p' = sp_session p"
proof -
  have le: "unat (sp_head p) \<le> unat (sp_tail p)" "unat (sp_tail p) \<le> unat (sp_head p) + pcap p" using assms(1) by (simp_all add: pool_inv_def)
  have "unat (sp_tail p - sp_head p) = unat (sp_tail p) - unat (sp_head p)" using le(1) by (simp add: unat_sub word_le_nat_alt)
  then have lt: "sp_tail p - sp_head p < ucast (sp_capacity p) \<longleftrightarrow> unat (sp_tail p) - unat (sp_head p) < pcap p" by (simp add: word_less_nat_alt unat_capacity)
  show ?thesis
  proof (cases "unat (sp_tail p) - unat (sp_head p) < pcap p")
    case False
    with le have "length (pool_items p) = pcap p" by (simp add: length_pool_items)
    with False lt show ?thesis by (intro full) (simp_all add: pool_push_def)
  next
    case True
    then have c: "0 < pcap p" by simp
    let ?k = "unat (sp_tail p) mod pcap p" and ?p = "p\<lparr>sp_streams := (sp_streams p)[unat (sp_tail p) mod pcap p := Some s], sp_tail := sp_tail p + 1\<rparr>"
    note k = pool_index_eq [OF assms(1) c, of "sp_tail p"]
    have t: "unat (sp_tail p + 1) = unat (sp_tail p) + 1" by (rule unat_plus_one) (use assms(2) in \<open>simp add: pool_budget_def\<close>)
    have ne: "i mod pcap p \<noteq> ?k" if "unat (sp_head p) \<le> i" "i < unat (sp_tail p)" for i
      using that True by (intro live_slot_neq [of "unat (sp_head p)"]) simp_all
    show ?thesis
    proof (rule room [of ?p])
      show "length (pool_items p) < pcap p" using True by (simp add: length_pool_items)
      show "pool_push s p = Some (None, ?p)" using True lt k(1) by (simp add: pool_push_def)
      show "pool_inv ?p" using assms(1) True k(2) t ne by (auto simp: pool_inv_def nth_list_update less_Suc_eq)
      show "pool_items ?p = pool_items p @ [s]" using k(2) t ne [THEN not_sym] le(1) by (auto simp: pool_items_def)
      show "pool_budget ?p = pool_budget p - 1" using t by (simp add: pool_budget_def)
    qed simp_all
  qed
qed

definition pool_enq :: "sref \<Rightarrow> streamPool \<Rightarrow> streamPool option" where
  "pool_enq s p = (case pool_push s p of Some (None, p') \<Rightarrow> Some p' | _ \<Rightarrow> None)"

definition pool_deq :: "streamPool \<Rightarrow> (sref \<times> streamPool) option" where
  "pool_deq p = (case pool_pop p of Some (Some s, p') \<Rightarrow> Some (s, p') | _ \<Rightarrow> None)"

lemma pool_pushed_full: "pool_inv p \<Longrightarrow> length (pool_items p) = pcap p \<Longrightarrow> pool_push s p = Some (Some errPoolFull, p)"
proof -
  assume a: "pool_inv p" "length (pool_items p) = pcap p"
  then have "unat (sp_tail p) - unat (sp_head p) = pcap p" "unat (sp_head p) \<le> unat (sp_tail p)" by (simp_all add: length_pool_items pool_inv_def)
  then have "unat (sp_tail p - sp_head p) = pcap p" by (simp add: unat_sub word_le_nat_alt)
  then show ?thesis by (simp add: pool_push_def word_less_nat_alt unat_capacity)
qed

interpretation spq: bounded_fifo "\<lambda>p. pool_inv p \<and> pcap p = c" pool_items c pool_budget pool_enq pool_deq for c
proof
  fix p assume "pool_inv p \<and> pcap p = c"
  then show "length (pool_items p) \<le> c" by (auto simp: length_pool_items pool_inv_def)
next
  fix p s assume p: "pool_inv p \<and> pcap p = c" and l: "length (pool_items p) < c" and b: "0 < pool_budget p"
  from p have "pool_inv p" by simp
  from this b l p show "\<exists>p'. pool_enq s p = Some p' \<and> (pool_inv p' \<and> pcap p' = c) \<and> pool_items p' = pool_items p @ [s] \<and> pool_budget p' = pool_budget p - 1"
    by (cases rule: pool_push_cases [of p s]) (auto simp: pool_enq_def)
next
  fix p s assume "pool_inv p \<and> pcap p = c" "length (pool_items p) = c"
  then show "pool_enq s p = None" using pool_pushed_full [of p s] by (simp add: pool_enq_def)
next
  fix p assume p: "pool_inv p \<and> pcap p = c" "pool_items p = []"
  then have "pool_inv p" by simp
  from this p(2) show "pool_deq p = None" by (cases rule: pool_pop_cases) (auto simp: pool_deq_def)
next
  fix p x xs assume p: "pool_inv p \<and> pcap p = c" "pool_items p = x # xs"
  then have "pool_inv p" by simp
  from this p show "\<exists>p'. pool_deq p = Some (x, p') \<and> (pool_inv p' \<and> pcap p' = c) \<and> pool_items p' = xs \<and> pool_budget p' = pool_budget p"
    by (cases rule: pool_pop_cases) (auto simp: pool_deq_def)
qed

text \<open>Any sequence of pushes and pops, with the streams accepted and those given out.\<close>

primrec run_pool :: "sref fifo_op list \<Rightarrow> streamPool \<Rightarrow> (sref list \<times> sref list \<times> streamPool) option" where
  "run_pool [] p = Some ([], [], p)"
| "run_pool (o' # os) p = (case o' of
     Enq s \<Rightarrow> do {
       (err, p1) \<leftarrow> pool_push s p;
       (ins, outs, p2) \<leftarrow> run_pool os p1;
       Some (if err = None then s # ins else ins, outs, p2)
     }
   | Deq \<Rightarrow> do {
       (r, p1) \<leftarrow> pool_pop p;
       (ins, outs, p2) \<leftarrow> run_pool os p1;
       Some (ins, case r of None \<Rightarrow> outs | Some s \<Rightarrow> s # outs, p2)
     })"

lemma run_pool_ops:
  assumes "pool_inv p" "length os \<le> pool_budget p"
  shows "run_pool os p = Some (spq.run_ops os p)"
  using assms
proof (induction os arbitrary: p)
  case (Cons o' os)
  show ?case
  proof (cases o')
    case (Enq s)
    from Cons(3) have "0 < pool_budget p" by simp
    from Cons(2) this show ?thesis
    proof (cases rule: pool_push_cases [of p s])
      case full
      then have "pool_enq s p = None" by (simp add: pool_enq_def)
      with full Cons Enq show ?thesis by (simp add: spq.run_ops.simps split: prod.splits)
    next
      case (room p')
      then have "pool_enq s p = Some p'" by (simp add: pool_enq_def)
      with room Cons Enq show ?thesis by (simp add: spq.run_ops.simps split: prod.splits)
    qed
  next
    case Deq
    from Cons(2) show ?thesis
    proof (cases rule: pool_pop_cases)
      case empty
      then have "pool_deq p = None" by (simp add: pool_deq_def)
      with empty Cons Deq show ?thesis by (simp add: spq.run_ops.simps split: prod.splits)
    next
      case (item s p')
      then have "pool_deq p = Some (s, p')" by (simp add: pool_deq_def)
      with item Cons Deq show ?thesis by (simp add: spq.run_ops.simps split: prod.splits)
    qed
  qed
qed (simp add: spq.run_ops.simps)

text \<open>
  C38. The stream pool is a first-in first-out ring. Starting from a new pool of any capacity, every sequence of \<^verbatim>\<open>push\<close> and \<^verbatim>\<open>pop\<close>, for as long
  as the running counters do not overflow, returns without a panic; the streams accepted are exactly the streams given out followed by those in the
  pool, in order; the pool never holds more than its capacity, and no stream is lost or given out twice.
\<close>

theorem stream_pool_fifo:
  assumes "length os < 2 ^ 64"
  shows "\<exists>ins outs p. run_pool os (newStreamPool c) = Some (ins, outs, p) \<and> ins = outs @ pool_items p \<and> length (pool_items p) \<le> unat c \<and> pool_inv p"
proof -
  have b: "length os \<le> pool_budget (newStreamPool c)" using assms by (simp add: pool_budget_def newStreamPool_def)
  obtain ins outs p where r: "spq.run_ops os (newStreamPool c) = (ins, outs, p)" by (metis prod_cases3)
  have "pool_inv (newStreamPool c) \<and> pcap (newStreamPool c) = unat c" using newStreamPool_inv by (simp add: newStreamPool_def)
  from spq.run_ops_fifo [OF this b r] run_pool_ops [OF newStreamPool_inv(1) b] r newStreamPool_inv(2) show ?thesis by auto
qed

theorem stream_pool_fifo_witness:
  "\<exists>ins outs p. run_pool [Enq (0, 1), Enq (0, 2), Enq (0, 3), Deq, Enq (0, 3), Deq] (newStreamPool 2) = Some (ins, outs, p) \<and> ins = outs @ pool_items p \<and>
    length (pool_items p) \<le> 2"
  using stream_pool_fifo [of "[Enq (0, 1), Enq (0, 2), Enq (0, 3), Deq, Enq (0, 3), Deq]" 2] by auto

end
