(* ===== verification/Session_Manager.thy ===== *)
theory Session_Manager
  imports Stream_Pool Server_Listener
begin

text \<open>
  The session manager of a client, \<^verbatim>\<open>session_manager.go\<close>: several sessions with the same peer, a pool of streams for each, the rebuilding of a lost
  session, and the client's side of a hot restart.

  A client holds its sessions and its pools by address. Sessions that name the same buffer path share one mapping: \<open>cl_mem\<close> is the memory
  by path, which an operation of a session works on. Goroutines are split at the points where they wait; what the environment
  answers (a connection, the outcome of a send) is an argument.
\<close>

subsection \<open>State\<close>

definition sessionRoundRobinThreshold :: u64 where [consts_defs]: "sessionRoundRobinThreshold = 32"
definition fileNameMaxLen :: nat where [consts_defs]: "fileNameMaxLen = 255"
definition epochInfoMaxLen :: nat where [consts_defs]: "epochInfoMaxLen = 7 + 20 + 1 + 20"
definition queueInfoMaxLen :: nat where [consts_defs]: "queueInfoMaxLen = 7 + 20"

record SessionManagerConfig =
  smc_Config :: Config
  UnixPath :: string
  Network :: string
  Address :: string
  SessionNum :: nat
  MaxStreamNum :: int
  StreamMaxIdleTime :: int

definition DefaultSessionManagerConfig :: SessionManagerConfig where
  "DefaultSessionManagerConfig = \<lparr>smc_Config = DefaultConfig, UnixPath = [], Network = [], Address = [], SessionNum = 1, MaxStreamNum = 4096, StreamMaxIdleTime = 30000\<rparr>"

record client =
  cl_ws :: "nat \<Rightarrow> world option"
  cl_n :: nat
  cl_mem :: "string \<Rightarrow> bytes option"
  cl_reg :: registry
  cl_acts :: "os_action list"
  pobjs :: "nat \<Rightarrow> streamPool option"
  npool :: nat
  sm_config :: SessionManagerConfig
  pools :: "nat list"
  reservePools :: "(int \<times> nat) list option"
  sm_count :: u64
  sm_epoch :: u64
  sm_randID :: u64
  sm_state :: sessionState
  sm_done :: bool
  sm_checking :: nat

text \<open>The memory of a session before and after an operation.\<close>

definition load_mem :: "client \<Rightarrow> world \<Rightarrow> world" where
  "load_mem C w = (case bufferManager_of (ses w) of None \<Rightarrow> w
     | Some bm \<Rightarrow> (case cl_mem C (bm_path bm) of None \<Rightarrow> w | Some m \<Rightarrow> w\<lparr>bmem := m\<rparr>))"

definition store_mem :: "world \<Rightarrow> client \<Rightarrow> client" where
  "store_mem w C = (case bufferManager_of (ses w) of None \<Rightarrow> C | Some bm \<Rightarrow> C\<lparr>cl_mem := (cl_mem C)(bm_path bm \<mapsto> bmem w)\<rparr>)"

definition on_ses :: "nat \<Rightarrow> (world \<Rightarrow> ('a \<times> world) option) \<Rightarrow> client \<Rightarrow> ('a \<times> client) option" where
  "on_ses a f C = do {
     w \<leftarrow> cl_ws C a;
     (r, w1) \<leftarrow> f (load_mem C w);
     Some (r, store_mem w1 (C\<lparr>cl_ws := (cl_ws C)(a \<mapsto> w1)\<rparr>))
   }"

definition set_pool :: "nat \<Rightarrow> streamPool \<Rightarrow> client \<Rightarrow> client" where
  "set_pool i p C = C\<lparr>pobjs := (pobjs C)(i \<mapsto> p)\<rparr>"

definition add_pool :: "streamPool \<Rightarrow> client \<Rightarrow> nat \<times> client" where
  "add_pool p C = (npool C, C\<lparr>pobjs := (pobjs C)(npool C \<mapsto> p), npool := npool C + 1\<rparr>)"

subsection \<open>Pools\<close>

definition sref_Close :: "sref \<Rightarrow> send_outcome \<Rightarrow> client \<Rightarrow> client option" where
  "sref_Close s r C = map_option snd (on_ses (fst s) (stream_Close (snd s) r) C)"

partial_function (option) close_streams_of :: "nat \<Rightarrow> send_outcome \<Rightarrow> client \<Rightarrow> client option" where
  "close_streams_of i r C = do {
     p \<leftarrow> pobjs C i;
     (s, p1) \<leftarrow> pool_pop p;
     let C1 = set_pool i p1 C;
     case s of
       None \<Rightarrow> Some C1
     | Some s \<Rightarrow> do { C2 \<leftarrow> sref_Close s r C1; close_streams_of i r C2 }
   }"

definition pool_close :: "nat \<Rightarrow> send_outcome \<Rightarrow> client \<Rightarrow> client option" where
  "pool_close i r C = do {
     p \<leftarrow> pobjs C i;
     C1 \<leftarrow> (case sp_session p of None \<Rightarrow> Some C | Some a \<Rightarrow> map_option snd (on_ses a (\<lambda>w. Some ((), ses_Close w)) C));
     close_streams_of i r C1
   }"

fun close_pools :: "nat list \<Rightarrow> send_outcome \<Rightarrow> client \<Rightarrow> client option" where
  "close_pools [] r C = Some C"
| "close_pools (i # is) r C = do { C1 \<leftarrow> pool_close i r C; close_pools is r C1 }"

text \<open>The loop that looks for a stream that can be used; \<open>ok\<close> asks the session and the stream.\<close>

partial_function (option) pop_usable :: "(sref \<Rightarrow> bool option) \<Rightarrow> streamPool \<Rightarrow> (sref option \<times> streamPool) option" where
  "pop_usable ok p = do {
     (s, p1) \<leftarrow> pool_pop p;
     case s of
       None \<Rightarrow> Some (None, p1)
     | Some s \<Rightarrow> do { b \<leftarrow> ok s; if b then Some (Some s, p1) else pop_usable ok p1 }
   }"

definition usable :: "client \<Rightarrow> sref \<Rightarrow> bool option" where
  "usable C s = do { w \<leftarrow> cl_ws C (fst s); if IsClosed w then Some False else IsOpen (snd s) w }"

definition getOrOpenStream :: "nat \<Rightarrow> client \<Rightarrow> ((go_error + sref) \<times> client) option" where
  "getOrOpenStream i C = do {
     p \<leftarrow> pobjs C i;
     a \<leftarrow> sp_session p;
     w \<leftarrow> cl_ws C a;
     if \<not> IsHealthy w then Some (Inl ErrSessionUnhealthy, C)
     else do {
       (s, p1) \<leftarrow> pop_usable (usable C) p;
       let C1 = set_pool i p1 C;
       case s of
         Some s \<Rightarrow> Some (Inr s, C1)
       | None \<Rightarrow> do {
           (r, C2) \<leftarrow> on_ses a OpenStream C1;
           case r of
             Inl e \<Rightarrow> Some (Inl e, C2)
           | Inr x \<Rightarrow> map_option (Pair (Inr (a, x)) \<circ> snd) (on_ses a (\<lambda>w. Some ((), upd_obj x (\<lambda>s. s\<lparr>st_pool := Some i\<rparr>) w)) C2)
         }
     }
   }"

definition putOrCloseStream :: "nat \<Rightarrow> sref \<Rightarrow> send_outcome \<Rightarrow> client \<Rightarrow> client option" where
  "putOrCloseStream i s r C = do {
     w \<leftarrow> cl_ws C (fst s);
     x \<leftarrow> objs w (snd s);
     if inFallbackState x then sref_Close s r C
     else do {
       (err, C1) \<leftarrow> on_ses (fst s) (stream_reset (snd s)) C;
       if err = None then do {
         (_, C2) \<leftarrow> on_ses (fst s) (\<lambda>w. map_option (Pair ()) (ReleaseReadAndReuse (snd s) w)) C1;
         p \<leftarrow> pobjs C2 i;
         (full, p1) \<leftarrow> pool_push s p;
         let C3 = set_pool i p1 C2;
         if full \<noteq> None then sref_Close s r C3 else Some C3
       } else sref_Close s r C1
     }
   }"

definition manager_index :: "u64 \<Rightarrow> nat \<Rightarrow> nat option" where
  "manager_index cnt n = (if n = 0 then None else Some (unat ((cnt div sessionRoundRobinThreshold) mod word_of_nat n)))"

definition GetStream :: "client \<Rightarrow> ((go_error + sref) \<times> client) option" where
  "GetStream C = do {
     let C1 = C\<lparr>sm_count := sm_count C + 1\<rparr>;
     i \<leftarrow> manager_index (sm_count C1) (length (pools C1));
     if i < length (pools C1) then getOrOpenStream (pools C1 ! i) C1 else None
   }"

definition PutBack :: "sref \<Rightarrow> send_outcome \<Rightarrow> client \<Rightarrow> client option" where
  "PutBack s r C = do {
     w \<leftarrow> cl_ws C (fst s);
     x \<leftarrow> objs w (snd s);
     case st_pool x of None \<Rightarrow> Some C | Some i \<Rightarrow> putOrCloseStream i s r C
   }"

subsection \<open>New sessions\<close>

text \<open>The configuration of a session: its own queue path, and a buffer path that carries the process and the epoch.\<close>

definition client_conf :: "nat \<Rightarrow> nat \<Rightarrow> u64 \<Rightarrow> u64 \<Rightarrow> SessionManagerConfig \<Rightarrow> go_error + Config" where
  "client_conf pid sid epoch rid config =
     (let conf = smc_Config config;
          prefix = ShareMemoryPathPrefix conf @ ''_'' @ itoa pid
      in if cfg_MemMapType conf = MemMapTypeDevShmFile \<and> length prefix + epochInfoMaxLen + queueInfoMaxLen > fileNameMaxLen then Inl ErrFileNameTooLong
      else
        let prefix = (if epoch > 0 then prefix @ ''_epoch_'' @ itoa (unat epoch) @ ''_'' @ itoa (unat rid) else prefix);
            queue = (if prefix \<noteq> [] then prefix @ ''_queue_'' @ itoa sid else QueuePath conf)
        in Inr (conf\<lparr>ShareMemoryPathPrefix := prefix, QueuePath := queue\<rparr>))"

record session_env =
  se_os :: os_env
  se_space :: nat
  se_unix :: bool
  se_dup :: "go_error option"
  se_cb :: "go_error option"
  se_conn :: "bytes \<Rightarrow> go_error option"
  se_dbg :: bool
  se_view :: "nat \<Rightarrow> bytes"
  se_pid :: nat

type_synonym dialer = "string \<Rightarrow> string \<Rightarrow> go_error + party"

definition newClientSession :: "session_env \<Rightarrow> dialer \<Rightarrow> nat \<Rightarrow> u64 \<Rightarrow> u64 \<Rightarrow> client \<Rightarrow> ((go_error + nat) \<times> client) option" where
  "newClientSession env dial sid epoch rid C = (let config = sm_config C in
     case (if UnixPath config \<noteq> [] then dial ''unix'' (UnixPath config) else dial (Network config) (Address config)) of
       Inl e \<Rightarrow> Some (Inl e, C)
     | Inr pt \<Rightarrow> (case client_conf (se_pid env) sid epoch rid config of
         Inl e \<Rightarrow> Some (Inl e, C)
       | Inr conf \<Rightarrow>
           (case newSession (se_os env) (se_space env) (Some conf) (se_unix env) (se_dup env) (se_cb env) (se_conn env) (se_dbg env) (se_view env) True
                (pt\<lparr>pt_reg := cl_reg C, pt_acts := []\<rparr>) of (r, pt') \<Rightarrow>
              (let C1 = C\<lparr>cl_reg := pt_reg pt', cl_acts := cl_acts C @ pt_acts pt'\<rparr> in
               case r of
                 HsOk w \<Rightarrow>
                   let w1 = upd_ses (\<lambda>s. s\<lparr>sessionID := int sid, epochID := epoch, randID := rid\<rparr>) w
                   in Some (Inr (cl_n C1), store_mem w1 (C1\<lparr>cl_ws := (cl_ws C1)(cl_n C1 \<mapsto> w1), cl_n := cl_n C1 + 1\<rparr>))
               | HsErr e \<Rightarrow> Some (Inl e, C1)
               | _ \<Rightarrow> None))))"

text \<open>A pool for a session.\<close>

definition pool_for :: "nat \<Rightarrow> client \<Rightarrow> nat \<times> client" where
  "pool_for a C = add_pool ((newStreamPool (word_of_int (MaxStreamNum (sm_config C))))\<lparr>sp_session := Some a\<rparr>) C"

fun start_pools :: "session_env \<Rightarrow> (nat \<Rightarrow> dialer) \<Rightarrow> send_outcome \<Rightarrow> nat \<Rightarrow> nat \<Rightarrow> client \<Rightarrow> (go_error option \<times> client) option" where
  "start_pools env dial r 0 i C = Some (None, C)"
| "start_pools env dial r (Suc n) i C = do {
     (x, C1) \<leftarrow> newClientSession env (dial i) i 0 0 C;
     case x of
       Inl e \<Rightarrow> map_option (Pair (Some e)) (close_pools (pools C1) r C1)
     | Inr a \<Rightarrow> (case pool_for a C1 of (p, C2) \<Rightarrow> start_pools env dial r n (i + 1) (C2\<lparr>pools := pools C2 @ [p]\<rparr>))
   }"

definition new_manager :: "SessionManagerConfig \<Rightarrow> registry \<Rightarrow> client" where
  "new_manager config reg = \<lparr>cl_ws = Map.empty, cl_n = 0, cl_mem = Map.empty, cl_reg = reg, cl_acts = [], pobjs = Map.empty, npool = 0, sm_config = config,
     pools = [], reservePools = None, sm_count = 0, sm_epoch = 0, sm_randID = 0, sm_state = defaultState, sm_done = False, sm_checking = 0\<rparr>"

definition NewSessionManager :: "session_env \<Rightarrow> (nat \<Rightarrow> dialer) \<Rightarrow> send_outcome \<Rightarrow> SessionManagerConfig \<Rightarrow> registry \<Rightarrow> (go_error option \<times> client) option" where
  "NewSessionManager env dial r config reg = start_pools env dial r (SessionNum config) 0 (new_manager config reg)"

definition manager_Close :: "send_outcome \<Rightarrow> client \<Rightarrow> client option" where
  "manager_Close r C = (let C1 = C\<lparr>sm_done := True\<rparr> in close_pools (pools C1) r C1)"

subsection \<open>Rebuilding a lost session\<close>

text \<open>
  The goroutine of \<^verbatim>\<open>background\<close> for the pool at position \<open>k\<close>. When the session of the pool has shut down and no hot restart is in progress, the pool is closed;
  then, after each interval, a new session is tried, unless a hot restart has replaced the pool. The first component says whether the inner loop has ended.
\<close>

definition session_of :: "nat \<Rightarrow> client \<Rightarrow> world option" where
  "session_of i C = do { p \<leftarrow> pobjs C i; a \<leftarrow> sp_session p; cl_ws C a }"

definition rebuild_begin :: "nat \<Rightarrow> send_outcome \<Rightarrow> client \<Rightarrow> client option" where
  "rebuild_begin k r C = (if k < length (pools C) then do {
       w \<leftarrow> session_of (pools C ! k) C;
       if sm_state C = hotRestartState \<or> \<not> shutdownCh (ses w) then Some C
       else pool_close (pools C ! k) r C
     } else None)"

definition rebuild_try :: "session_env \<Rightarrow> dialer \<Rightarrow> nat \<Rightarrow> nat \<Rightarrow> client \<Rightarrow> (bool \<times> client) option" where
  "rebuild_try env dial k i C = (if k < length (pools C) then do {
       w \<leftarrow> session_of (pools C ! k) C;
       w0 \<leftarrow> session_of i C;
       if epochID (ses w) \<noteq> epochID (ses w0) then Some (True, C)
       else do {
         (x, C1) \<leftarrow> newClientSession env dial k (sm_epoch C) (sm_randID C) C;
         case x of
           Inl e \<Rightarrow> Some (False, C1)
         | Inr a \<Rightarrow> do { p \<leftarrow> pobjs C1 i; Some (True, set_pool i (p\<lparr>sp_session := Some a\<rparr>) C1) }
       }
     } else None)"

fun rebuild_loop :: "session_env \<Rightarrow> dialer list \<Rightarrow> nat \<Rightarrow> nat \<Rightarrow> client \<Rightarrow> (bool \<times> client) option" where
  "rebuild_loop env [] k i C = Some (False, C)"
| "rebuild_loop env (d # ds) k i C = do { (ended, C1) \<leftarrow> rebuild_try env d k i C; if ended then Some (True, C1) else rebuild_loop env ds k i C1 }"

subsection \<open>Hot restart\<close>

definition reserve_list :: "client \<Rightarrow> (int \<times> nat) list" where
  "reserve_list C = (case reservePools C of None \<Rightarrow> [] | Some xs \<Rightarrow> xs)"

text \<open>
  The handler that a session's event posts. \<open>sm_checking\<close> counts the goroutines that run \<^verbatim>\<open>checkHotRestart\<close>. \<open>rid\<close> is the random identifier drawn for the epoch. A panic is recovered: the state reached by then stays.
  The second part of the function, after the state of the manager has been set.
\<close>

definition restart_pool :: "session_env \<Rightarrow> dialer \<Rightarrow> nat \<Rightarrow> client \<Rightarrow> client option" where
  "restart_pool env dial a C = do {
     w \<leftarrow> cl_ws C a;
     let sid = sessionID (ses w);
     if map_of (reserve_list C) sid \<noteq> None then Some C
     else do {
       (x, C1) \<leftarrow> newClientSession env dial (nat sid) (sm_epoch C) (sm_randID C) C;
       case x of
         Inl e \<Rightarrow> Some C1
       | Inr b \<Rightarrow> (case pool_for b C1 of (p, C2) \<Rightarrow>
           if nat sid < length (pools C2)
           then Some (C2\<lparr>reservePools := Some ((sid, pools C2 ! nat sid) # reserve_list C2), pools := (pools C2)[nat sid := p]\<rparr>)
           else Some C2)
     }
   }"

definition handleSessionManagerHotRestart :: "session_env \<Rightarrow> dialer \<Rightarrow> send_outcome \<Rightarrow> u64 \<Rightarrow> u64 \<Rightarrow> nat \<Rightarrow> client \<Rightarrow> client option" where
  "handleSessionManagerHotRestart env dial r rid epoch a C =
     (if sm_state C = hotRestartState \<and> sm_epoch C \<noteq> epoch then Some C
      else do {
        C1 \<leftarrow> (if sm_state C \<noteq> hotRestartState then
                 map_option (\<lambda>C. C\<lparr>reservePools := None\<rparr>)
                   (close_pools (map snd (reserve_list C)) r (C\<lparr>sm_state := hotRestartState, sm_epoch := epoch, sm_randID := rid, sm_checking := sm_checking C + 1\<rparr>))
               else Some C);
        restart_pool env dial a C1
      })"

definition manager_handleEvent :: "session_env \<Rightarrow> dialer \<Rightarrow> send_outcome \<Rightarrow> u64 \<Rightarrow> u8 \<Rightarrow> u64 \<Rightarrow> nat \<Rightarrow> client \<Rightarrow> client option" where
  "manager_handleEvent env dial r rid event epoch a C =
     (if event = typeHotRestart then handleSessionManagerHotRestart env dial r rid epoch a C else Some C)"

text \<open>A tick of \<^verbatim>\<open>checkHotRestart\<close>, which says whether the goroutine ends, and its timeout.\<close>

fun ack_pools :: "u64 \<Rightarrow> nat list \<Rightarrow> client \<Rightarrow> client option" where
  "ack_pools epoch [] C = Some C"
| "ack_pools epoch (i # is) C = do {
     p \<leftarrow> pobjs C i;
     a \<leftarrow> sp_session p;
     (err, C1) \<leftarrow> on_ses a (hotRestart epoch typeHotRestartAck) C;
     ack_pools epoch is C1
   }"

definition manager_check_tick :: "client \<Rightarrow> (bool \<times> client) option" where
  "manager_check_tick C =
     (if length (reserve_list C) = length (pools C)
      then map_option (Pair True) (ack_pools (sm_epoch C) (map snd (reserve_list C)) (C\<lparr>sm_state := defaultState, sm_checking := sm_checking C - 1\<rparr>))
      else Some (False, C))"

definition manager_check_timeout :: "send_outcome \<Rightarrow> client \<Rightarrow> client option" where
  "manager_check_timeout r C = map_option (\<lambda>C. C\<lparr>reservePools := None\<rparr>) (close_pools (map snd (reserve_list C)) r (C\<lparr>sm_state := defaultState, sm_checking := sm_checking C - 1\<rparr>))"

subsection \<open>The names of the files\<close>

lemma length_itoa:
  assumes "n < 10 ^ k" "0 < k" shows "length (itoa n) \<le> k"
  using assms
proof (induction n arbitrary: k rule: itoa.induct)
  case (1 n)
  show ?case
  proof (cases "n < 10")
    case False
    obtain j where j: "k = Suc j" using 1(3) by (cases k) auto
    then have p: "0 < j" using 1(2) False by (cases j) auto
    have "n div 10 < 10 ^ j" using 1(2) j by (simp add: less_mult_imp_div_less mult.commute)
    from 1(1) [OF False this p] j False show ?thesis by (subst itoa.simps) simp
  qed (use 1 in \<open>simp add: itoa.simps\<close>)
qed

definition atoi :: "string \<Rightarrow> nat" where
  "atoi s = foldl (\<lambda>a c. 10 * a + (of_char c - 48)) 0 s"

lemma atoi_itoa [simp]: "atoi (itoa n) = n"
proof (induction n rule: itoa.induct)
  case (1 n)
  have d: "(of_char (char_of (48 + d) :: char) :: nat) - 48 = d" if "d < 10" for d using that by (simp add: of_char_of)
  show ?case
  proof (cases "n < 10")
    case True
    with d [of n] show ?thesis by (subst itoa.simps) (simp add: atoi_def)
  next
    case False
    with 1 d [of "n mod 10"] show ?thesis by (subst itoa.simps) (simp add: atoi_def)
  qed
qed

lemma itoa_inject [simp]: "itoa m = itoa n \<longleftrightarrow> m = n"
  by (metis atoi_itoa)

lemma length_itoa64: "length (itoa (unat (x :: u64))) \<le> 20"
proof (rule length_itoa)
  have "unat x < 2 ^ LENGTH(64)" by (rule unsigned_less)
  then show "unat x < 10 ^ 20" by simp
qed simp



subsection \<open>Round robin\<close>

lemma manager_index_eq:
  assumes "k < 2 ^ 64" "0 < n" "n < 2 ^ 64"
  shows "manager_index (word_of_nat k) n = Some ((k div 32) mod n)"
proof -
  have "unat (word_of_nat k :: u64) = k" "unat (word_of_nat n :: u64) = n" using assms by (simp_all add: unat_of_nat)
  then show ?thesis using assms(2) by (simp add: manager_index_def sessionRoundRobinThreshold_def unat_mod unat_div)
qed

lemma window_count:
  fixes n j c :: nat
  assumes "0 < n" "j < n"
  shows "card {k \<in> {c ..< c + 32 * n}. (k div 32) mod n = j} = 32"
proof (induction c)
  case 0
  have "{k \<in> {0 ..< 0 + 32 * n}. (k div 32) mod n = j} = {32 * j ..< 32 * j + 32}"
  proof (intro set_eqI iffI)
    fix k assume "k \<in> {k \<in> {0 ..< 0 + 32 * n}. (k div 32) mod n = j}"
    then have "k div 32 < n" "(k div 32) mod n = j" by (auto simp: less_mult_imp_div_less mult.commute)
    then have "k div 32 = j" by simp
    then show "k \<in> {32 * j ..< 32 * j + 32}" by (simp, linarith)
  next
    fix k assume k: "k \<in> {32 * j ..< 32 * j + 32}"
    then have "k div 32 = j" by auto
    moreover have "32 * j + 32 \<le> 32 * n" using assms(2) by linarith
    ultimately show "k \<in> {k \<in> {0 ..< 0 + 32 * n}. (k div 32) mod n = j}" using k assms by auto
  qed
  then show ?case by simp
next
  case (Suc c)
  let ?A = "\<lambda>c. {k \<in> {c ..< c + 32 * n}. (k div 32) mod n = j}"
  have per: "((c + 32 * n) div 32) mod n = (c div 32) mod n" by simp
  show ?case
  proof (cases "(c div 32) mod n = j")
    case False
    have "?A (Suc c) = ?A c" using False per assms(1) by (auto simp: less_Suc_eq le_less Suc_le_eq)
    with Suc show ?thesis by simp
  next
    case True
    have "?A (Suc c) = insert (c + 32 * n) (?A c - {c})" using True per assms(1) by (auto simp: less_Suc_eq le_less Suc_le_eq)
    moreover have "c \<in> ?A c" "c + 32 * n \<notin> ?A c - {c}" "finite (?A c)" using True assms(1) by auto
    ultimately show ?thesis using Suc by (simp add: card_Diff_singleton)
  qed
qed



subsection \<open>Taking a stream\<close>

lemma pop_usable_ok:
  assumes "pool_inv p" "\<forall>s \<in> set (pool_items p). ok s \<noteq> None"
  shows "\<exists>p'. pop_usable ok p = Some (find (\<lambda>s. ok s = Some True) (pool_items p), p') \<and> pool_inv p' \<and>
    pool_items p' = tl (dropWhile (\<lambda>s. ok s \<noteq> Some True) (pool_items p)) \<and> sp_session p' = sp_session p"
  using assms
proof (induction "pool_items p" arbitrary: p)
  case Nil
  from Nil(2) show ?case using Nil(1,2) by (cases rule: pool_pop_cases) (auto simp: pop_usable.simps)
next
  case (Cons x xs)
  from Cons(3) show ?case
  proof (cases rule: pool_pop_cases)
    case (item s p')
    obtain b where b: "ok s = Some b" using Cons(4) item(3) by auto
    show ?thesis
    proof (cases b)
      case True
      with item b show ?thesis by (subst pop_usable.simps) auto
    next
      case False
      from Cons(1) [of p'] Cons(2,4) item False b show ?thesis by (subst pop_usable.simps) auto
    qed
  qed (use Cons(2) in simp)
qed

lemma on_ses_ok:
  assumes "cl_ws C a = Some w" "f (load_mem C w) = Some (r, w1)"
  shows "on_ses a f C = Some (r, store_mem w1 (C\<lparr>cl_ws := (cl_ws C)(a \<mapsto> w1)\<rparr>))"
  using assms by (simp add: on_ses_def)

lemma mem_parts [simp]: "ses (load_mem C w) = ses w" "objs (load_mem C w) = objs w" "nobj (load_mem C w) = nobj w"
  "cl_ws (store_mem w C) = cl_ws C" "pobjs (store_mem w C) = pobjs C"
  by (simp_all add: load_mem_def store_mem_def split: option.split)

text \<open>The session that a call opens a stream on, when no stream of the pool can be used.\<close>

lemma open_new:
  assumes "cl_ws C a = Some w" "IsHealthy w" "\<not> IsClosed w" "streams (ses w) \<noteq> None" "streams_get (nextStreamID (ses w) + 1) w = None"
  shows "\<exists>C1 w1 s. on_ses a OpenStream C = Some (Inr (nobj w), C1) \<and> cl_ws C1 a = Some w1 \<and> shutdown (ses w1) = shutdown (ses w) \<and> objs w1 (nobj w) = Some s \<and>
    st_id s = nextStreamID (ses w) + 1 \<and> st_state s = streamOpened \<and> slices (recvBuf s) = [] \<and> slices (sendBuf s) = [] \<and> unread s = []"
  using assms by (auto simp: on_ses_def OpenStream_def register_stream_def newStream_def streams_get_def streams_put_def Let_def IsClosed_def IsHealthy_def
    newEmptyLinkedBuffer_def empty_slist_def)

lemma open_refused:
  assumes "cl_ws C a = Some w" "IsHealthy w" "IsClosed w \<Longrightarrow> shutdownErr (ses w) = Some e"
    and "\<not> IsClosed w \<Longrightarrow> streams_get (nextStreamID (ses w) + 1) w \<noteq> None \<and> e = ErrStreamsExhausted"
  shows "\<exists>C1. on_ses a OpenStream C = Some (Inl e, C1)"
  using assms by (cases "IsClosed w") (auto simp: on_ses_def OpenStream_def register_stream_def newStream_def streams_get_def Let_def IsClosed_def IsHealthy_def)

text \<open>What a user relies on: the stream exists and is open, on a session that is open.\<close>

definition open_stream :: "client \<Rightarrow> sref \<Rightarrow> bool" where
  "open_stream C s = (case cl_ws C (fst s) of None \<Rightarrow> False | Some w \<Rightarrow> \<not> shutdown (ses w) \<and> map_option st_state (objs w (snd s)) = Some streamOpened)"

lemma open_stream_usable: "open_stream = (\<lambda>C s. usable C s = Some True)"
  by (intro ext) (auto simp: usable_def open_stream_def IsClosed_def IsOpen_def split: option.split Option.bind_split)

text \<open>
  C12. \<^verbatim>\<open>GetStream\<close> always answers, and a stream it gives out can be used. On an unhealthy session the answer is an error. Otherwise it is the oldest stream of the pool that is open on an open session;
  the ones before it leave the pool. When there is none, a new stream with the next identifier and empty buffers is opened on the session of the pool; this fails
  only when the session is closed, with the error it was closed with, or when the identifier is in use.
\<close>

theorem get_stream_usable:
  assumes j: "manager_index (sm_count C + 1) (length (pools C)) = Some j" "j < length (pools C)" and p: "pobjs C (pools C ! j) = Some p" "pool_inv p"
    and k: "\<forall>s \<in> set (pool_items p). \<exists>w x. cl_ws C (fst s) = Some w \<and> objs w (snd s) = Some x" and a: "sp_session p = Some a" "cl_ws C a = Some w"
    and w: "if IsClosed w then shutdownErr (ses w) \<noteq> None else streams (ses w) \<noteq> None"
  shows "\<exists>r C'. GetStream C = Some (r, C') \<and>
    (if \<not> IsHealthy w then r = Inl ErrSessionUnhealthy
     else (case find (open_stream C) (pool_items p) of
       Some s \<Rightarrow> r = Inr s \<and> open_stream C' s \<and> (\<exists>p'. pobjs C' (pools C ! j) = Some p' \<and> pool_items p' = tl (dropWhile (\<lambda>s. \<not> open_stream C s) (pool_items p)))
     | None \<Rightarrow>
         if IsClosed w then map_option Inl (shutdownErr (ses w)) = Some r
         else if streams_get (nextStreamID (ses w) + 1) w \<noteq> None then r = Inl ErrStreamsExhausted
         else r = Inr (a, nobj w) \<and> open_stream C' (a, nobj w) \<and>
           (\<exists>w' s. cl_ws C' a = Some w' \<and> objs w' (nobj w) = Some s \<and> st_id s = nextStreamID (ses w) + 1 \<and> slices (recvBuf s) = [] \<and> slices (sendBuf s) = [] \<and> unread s = [] \<and>
             st_pool s = Some (pools C ! j))))"
proof -
  let ?i = "pools C ! j" and ?C = "C\<lparr>sm_count := sm_count C + 1\<rparr>"
  have u: "usable ?C = usable C" by (rule ext) (simp add: usable_def)
  obtain p' where p': "pop_usable (usable C) p = Some (find (\<lambda>s. usable C s = Some True) (pool_items p), p')" "pool_inv p'"
    "pool_items p' = tl (dropWhile (\<lambda>s. usable C s \<noteq> Some True) (pool_items p))" using pop_usable_ok [OF p(2), of "usable C"] k by (force simp: usable_def IsOpen_def)
  let ?D = "set_pool ?i p' ?C"
  have g: "GetStream C = getOrOpenStream ?i ?C" using j by (simp add: GetStream_def Let_def)
  have c: "getOrOpenStream ?i ?C = (if \<not> IsHealthy w then Some (Inl ErrSessionUnhealthy, ?C) else
      (case find (\<lambda>s. usable C s = Some True) (pool_items p) of Some s \<Rightarrow> Some (Inr s, ?D) | None \<Rightarrow> do {
         (r, C2) \<leftarrow> on_ses a OpenStream ?D;
         case r of Inl e \<Rightarrow> Some (Inl e, C2)
         | Inr x \<Rightarrow> map_option (Pair (Inr (a, x)) \<circ> snd) (on_ses a (\<lambda>w. Some ((), upd_obj x (\<lambda>s. s\<lparr>st_pool := Some ?i\<rparr>) w)) C2) }))"
    using p(1) a p'(1) by (simp add: getOrOpenStream_def u Let_def)
  have d: "cl_ws ?D a = Some w" "usable ?D = usable C" using a(2) by (auto simp: set_pool_def usable_def)
  show ?thesis
  proof (cases "find (\<lambda>s. usable C s = Some True) (pool_items p)")
    case (Some s)
    then have "usable C s = Some True" by (auto simp: find_Some_iff)
    with Some g c d(2) p'(3) show ?thesis unfolding open_stream_usable by (auto simp: set_pool_def)
  next
    case None
    show ?thesis
    proof (cases "IsHealthy w \<and> \<not> IsClosed w \<and> streams_get (nextStreamID (ses w) + 1) w = None")
      case True
      with open_new [OF d(1)] w obtain C1 w1 s where o: "on_ses a OpenStream ?D = Some (Inr (nobj w), C1)" "cl_ws C1 a = Some w1" "shutdown (ses w1) = shutdown (ses w)"
        "objs w1 (nobj w) = Some s" "st_id s = nextStreamID (ses w) + 1" "st_state s = streamOpened" "slices (recvBuf s) = []" "slices (sendBuf s) = []" "unread s = []" by auto
      let ?f = "upd_obj (nobj w) (\<lambda>s. s\<lparr>st_pool := Some ?i\<rparr>)"
      have "GetStream C = Some (Inr (a, nobj w), store_mem (?f (load_mem C1 w1)) (C1\<lparr>cl_ws := (cl_ws C1)(a \<mapsto> ?f (load_mem C1 w1))\<rparr>))"
        using True None g c o(1) on_ses_ok [OF o(2), of "\<lambda>w. Some ((), ?f w)"] by simp
      with True None o(3-) show ?thesis unfolding open_stream_usable by (simp add: upd_obj_def usable_def IsClosed_def IsOpen_def)
    next
      case False
      then show ?thesis unfolding open_stream_usable
        using None g c w open_refused [OF d(1)] by (cases "IsHealthy w"; cases "IsClosed w") auto
    qed
  qed
qed

text \<open>A manager with one session and one pool.\<close>

definition demo_client :: "world \<Rightarrow> streamPool \<Rightarrow> client" where
  "demo_client w p = (new_manager DefaultSessionManagerConfig [])\<lparr>cl_ws := [0 \<mapsto> w], cl_n := 1, pobjs := [0 \<mapsto> p\<lparr>sp_session := Some 0\<rparr>], npool := 1, pools := [0]\<rparr>"

theorem get_stream_usable_witness:
  "\<exists>C'. GetStream (demo_client (initial_world False True) (newStreamPool 4)) = Some (Inr (0, 0), C') \<and> open_stream C' (0, 0)"
proof -
  let ?w = "initial_world False True" and ?p = "(newStreamPool 4)\<lparr>sp_session := Some 0\<rparr>"
  let ?C = "demo_client ?w (newStreamPool 4)"
  have w: "\<not> IsClosed ?w" "IsHealthy ?w" "streams (ses ?w) = Some []" "nobj ?w = 0"
    by (simp_all add: initial_world_def initial_session_def IsClosed_def IsHealthy_def)
  have p: "pool_inv ?p" "pool_items ?p = []" using newStreamPool_inv [of 4] by (simp_all add: pool_inv_def pool_items_def)
  have c: "manager_index (sm_count ?C + 1) (length (pools ?C)) = Some 0" "0 < length (pools ?C)" "pobjs ?C (pools ?C ! 0) = Some ?p" "cl_ws ?C 0 = Some ?w"
    by (simp_all add: demo_client_def new_manager_def manager_index_def sessionRoundRobinThreshold_def)
  from get_stream_usable [OF c(1,2,3) p(1) _ _ c(4)] w p show ?thesis by (auto simp: streams_get_def)
qed

subsection \<open>Giving a stream back\<close>

lemma reset_owned:
  assumes "owns ct bm ds L m (s # ss)" "isFromShm s"
  shows "\<exists>m'. slice_reset m s = Some (m', s\<lparr>readIndex := 0, writeIndex := 0\<rparr>) \<and> owns ct bm ds L m' (s\<lparr>readIndex := 0, writeIndex := 0\<rparr> # ss) \<and> slink m' s = None"
proof -
  let ?a = "unat (offsetInShm s)" and ?s = "s\<lparr>readIndex := 0, writeIndex := 0\<rparr>"
  obtain hd where hd: "bufferHeader s = Some hd" "sl_base hd = ?a" "hdr_ok (length m) hd" by (rule owns_hdr [OF assms])
  then have b: "?a + 20 \<le> length m" by (simp add: hdr_ok_def)
  note rf = reset_mem_facts [OF b]
  note o = owns_header(1) [OF assms rf(2)]
  have "slice_wf (length (reset_mem ?a m)) s" using o by (rule owns_wf) simp
  then have "slice_wf (length (reset_mem ?a m)) ?s" by (simp add: slice_wf_def)
  from owns_index [OF o this] slice_reset_ok [OF hd(1,3)] hd(2) rf(5) show ?thesis by (simp add: slink_def)
qed

text \<open>A spent read buffer: everything is read, and the buffers were filled from their start.\<close>

definition spent :: "linkedBuffer \<Rightarrow> bool" where
  "spent l \<longleftrightarrow> tight l \<and> lb_len l = 0 \<and> lb_isFromShm l \<and> list_all (\<lambda>s. isFromShm s \<and> bs_start s = 0) (slices l)"

lemma release_reserve_ok:
  assumes rb: "rbuf ct bm ds L [] m l" and sp: "spent l"
  shows "\<exists>l' m'. releasePreviousReadAndReserve bm l m = Some (l', m') \<and> wbuf ct bm ds L m' (if slices l = [] then newEmptyLinkedBuffer else l') \<and> lb_len l' = 0 \<and>
    length (slices l') = length (slices l) \<and> length (slices l) \<le> 1 \<and> lb_content m' l' = []"
proof -
  obtain l1 m1 where c: "cleanPinnedList bm l m = Some (l1, m1)" "rbuf ct bm ds L [] m1 l1" "pinnedList l1 = []" "lb_list l1 = lb_list l" "lb_len l1 = lb_len l" "lb_isFromShm l1 = lb_isFromShm l"
    by (rule cleanPinnedList_ok [OF rb])
  have r: "owns ct bm ds L m1 (slices l)" "slices l \<noteq> [] \<longrightarrow> wslice (lb_list l) = WAt (length (slices l) - 1)" "concat (map (content m1) (slices l)) = []" "lb_len l1 = 0"
    using c(2-5) sp by (simp_all add: rbuf_def rlist_def spent_def lb_content_def)
  show ?thesis
  proof (cases "slices l")
    case Nil
    with c r sp show ?thesis
      by (intro exI [of _ l1] exI [of _ m1])
        (simp add: releasePreviousReadAndReserve_def wbuf_def wstate_def unsent_def newEmptyLinkedBuffer_def empty_slist_def lb_content_def)
  next
    case (Cons s ss)
    have "ss = []"
    proof (rule ccontr)
      assume "ss \<noteq> []"
      then obtain t ts where ss: "ss = t # ts" by (cases ss) auto
      then have "0 < slice_size t" "slice_wf (length m1) t" using sp Cons owns_wf [OF r(1)] by (auto simp: spent_def tight_def)
      with r(3) Cons ss length_content [of m1 t] slice_wfD(4) [of "length m1" t] show False by simp
    qed
    with Cons have s: "slices l = [s]" by simp
    have st: "isFromShm s" "bs_start s = 0" using sp s by (simp_all add: spent_def)
    let ?s = "s\<lparr>readIndex := 0, writeIndex := 0\<rparr>"
    from reset_owned [OF r(1) [unfolded s] st(1)] obtain m2 where m2: "slice_reset m1 s = Some (m2, ?s)" "owns ct bm ds L m2 [?s]" "slink m2 s = None" by blast
    have e: "content m2 ?s = []" by (simp add: content_def slice_size_def load_def)
    have "releasePreviousReadAndReserve bm l m = Some (set_front ?s l1, m2)"
      using c(1,4,5) r(4) s st(1) m2(1) by (simp add: releasePreviousReadAndReserve_def)
    moreover have "wbuf ct bm ds L m2 (set_front ?s l1)"
      using m2(2,3) c(3,4,6) r(2,4) s st sp e by (simp add: wbuf_def wstate_def unsent_def spent_def set_front_def lb_content_def slink_def)
    ultimately show ?thesis using s c(4) r(4) e by (simp add: set_front_def lb_content_def)
  qed
qed

lemma on_ses_step:
  assumes "cl_ws C a = Some w" "load_mem C w = w" "f w = Some (r, w1)" "bufferManager_of (ses w1) = Some bm"
  obtains C1 where "on_ses a f C = Some (r, C1)" "cl_ws C1 a = Some w1" "load_mem C1 w1 = w1" "pobjs C1 = pobjs C"
  using that [OF on_ses_ok] assms by (simp add: load_mem_def store_mem_def)

lemma put_back_path:
  assumes w: "cl_ws C a = Some w" "load_mem C w = w" "objs w p = Some x" "st_pool x = Some i" "bufferManager_of (ses w) = Some bm"
    and x: "st_state x = streamOpened" "\<not> inFallbackState x" "unread x = []" "lb_len (recvBuf x) = 0"
    and l: "releasePreviousReadAndReserve bm (recvBuf x) (bmem w) = Some (l, m)" "lb_len l = 0"
    and pl: "pobjs C i = Some pl" "pool_push (a, p) pl = Some (None, pl')"
  shows "\<exists>C' w' x'. PutBack (a, p) r C = Some C' \<and> cl_ws C' a = Some w' \<and> objs w' p = Some x' \<and> bmem w' = m \<and> pobjs C' i = Some pl' \<and>
    st_state x' = streamOpened \<and> \<not> st_callback x' \<and> readDeadline x' = None \<and> writeDeadline x' = None \<and> \<not> recvNotifyCh x' \<and> unread x' = [] \<and>
    (if length (slices l) = 1 then recvBuf x' = sendBuf x \<and> sendBuf x' = l else recvBuf x' = l \<and> sendBuf x' = sendBuf x)"
proof -
  let ?x = "x\<lparr>readDeadline := None, writeDeadline := None, inFallbackState := False, recvNotifyCh := False, st_callback := False\<rparr>"
  obtain w1 where w1: "stream_reset p w = Some (None, w1)" "objs w1 p = Some ?x" "ses w1 = ses w" "bmem w1 = bmem w"
    using w(3) x by (simp add: stream_reset_def with_obj_def upd_obj_def)
  let ?x2 = "if length (slices l) = 1 then ?x\<lparr>recvBuf := sendBuf x, sendBuf := l\<rparr> else ?x\<lparr>recvBuf := l\<rparr>"
  obtain w2 where w2: "ReleaseReadAndReuse p w1 = Some w2" "objs w2 p = Some ?x2" "ses w2 = ses w" "bmem w2 = m"
    using w(5) w1(2-4) l by (cases "length (slices l) = 1") (simp_all add: ReleaseReadAndReuse_def with_obj_def upd_obj_def Let_def)
  have b: "bufferManager_of (ses w1) = Some bm" "bufferManager_of (ses w2) = Some bm" using w(5) w1(3) w2(3) by simp_all
  from on_ses_step [OF w(1,2), of "stream_reset p", OF w1(1) b(1)] obtain C1 where
    C1: "on_ses a (stream_reset p) C = Some (None, C1)" "cl_ws C1 a = Some w1" "load_mem C1 w1 = w1" "pobjs C1 = pobjs C" .
  have f: "(\<lambda>w. map_option (Pair ()) (ReleaseReadAndReuse p w)) w1 = Some ((), w2)" using w2(1) by simp
  from on_ses_step [OF C1(2,3), of "\<lambda>w. map_option (Pair ()) (ReleaseReadAndReuse p w)", OF f b(2)] obtain C2 where
    C2: "on_ses a (\<lambda>w. map_option (Pair ()) (ReleaseReadAndReuse p w)) C1 = Some ((), C2)" "cl_ws C2 a = Some w2" "load_mem C2 w2 = w2" "pobjs C2 = pobjs C1" .
  have "PutBack (a, p) r C = Some (set_pool i pl' C2)"
    using w x pl C1(1,4) C2(1,4) by (simp add: PutBack_def putOrCloseStream_def Let_def)
  with C2(2) w2(2,4) x show ?thesis by (intro exI [of _ "set_pool i pl' C2"] exI [of _ w2] exI [of _ ?x2]) (simp add: set_pool_def)
qed


text \<open>What was written and not sent is not looked at: when a stream is put back with unsent bytes in its send buffer, they become what its next user reads.\<close>

lemma unsent_becomes_readable:
  assumes w: "cl_ws C a = Some w" "load_mem C w = w" "objs w p = Some x" "st_pool x = Some i" "bufferManager_of (ses w) = Some bm"
    and x: "st_state x = streamOpened" "\<not> inFallbackState x" "unread x = []"
    and l: "releasePreviousReadAndReserve bm (recvBuf x) (bmem w) = Some (l, m)" "lb_len (recvBuf x) = 0" "lb_len l = 0" "length (slices l) = 1"
    and pl: "pobjs C i = Some pl" "pool_inv pl" "length (pool_items pl) < pcap pl" "0 < pool_budget pl"
  shows "\<exists>C' w' x' pl'. PutBack (a, p) r C = Some C' \<and> cl_ws C' a = Some w' \<and> objs w' p = Some x' \<and> pobjs C' i = Some pl' \<and> pool_items pl' = pool_items pl @ [(a, p)] \<and> recvBuf x' = sendBuf x"
proof -
  obtain pl' where pl': "pool_push (a, p) pl = Some (None, pl')" "pool_items pl' = pool_items pl @ [(a, p)]"
    using pl(3) by (cases rule: pool_push_cases [OF pl(2,4), of "(a, p)"]) auto
  from put_back_path [OF w x l(2,1,3) pl(1) pl'(1), of r] l(4) pl'(2) show ?thesis by auto
qed


subsection \<open>A hot restart\<close>

lemma new_session_frame:
  assumes "newClientSession env dial sid epoch rid C = Some (Inr b, C1)"
  shows "b = cl_n C" "pools C1 = pools C" "reservePools C1 = reservePools C" "pobjs C1 = pobjs C" "npool C1 = npool C" "sm_config C1 = sm_config C" "sm_state C1 = sm_state C" "sm_epoch C1 = sm_epoch C"
    "a < cl_n C \<Longrightarrow> cl_ws C1 a = cl_ws C a"
  using assms by (auto simp: newClientSession_def Let_def store_mem_def split: sum.split_asm prod.split_asm hs.split_asm if_split_asm option.splits)

text \<open>
  C22. The client follows a hot restart once per session. When the event of the running epoch arrives on a session of the manager and the new server answers, the
  pool of this session is replaced by an empty pool on the new session, the old pool is kept aside until the restart has ended and the other pools stay;
  the same event again, as well as one of another epoch, changes nothing.
\<close>

theorem restart_replaces_pool:
  assumes a: "cl_ws C a = Some w" "a < cl_n C" "sessionID (ses w) = int sid" "sid < length (pools C)" and s: "sm_state C = hotRestartState" "sm_epoch C = epoch"
    and r: "map_of (reserve_list C) (int sid) = None" and n: "newClientSession env dial sid epoch (sm_randID C) C = Some (Inr b, C1)"
  shows "\<exists>C'. manager_handleEvent env dial o1 r1 typeHotRestart epoch a C = Some C' \<and> pools C' = (pools C)[sid := npool C] \<and>
    pobjs C' = (pobjs C)(npool C \<mapsto> (newStreamPool (word_of_int (MaxStreamNum (sm_config C))))\<lparr>sp_session := Some b\<rparr>) \<and>
    reserve_list C' = (int sid, pools C ! sid) # reserve_list C \<and>
    (\<forall>env' dial' o2 r2. manager_handleEvent env' dial' o2 r2 typeHotRestart epoch a C' = Some C') \<and>
    (\<forall>env' dial' o2 r2 epoch' c. epoch' \<noteq> epoch \<longrightarrow> manager_handleEvent env' dial' o2 r2 typeHotRestart epoch' c C' = Some C')"
proof -
  note f = new_session_frame [OF n]
  let ?p = "(newStreamPool (word_of_int (MaxStreamNum (sm_config C))))\<lparr>sp_session := Some b\<rparr>"
  let ?C = "C1\<lparr>pobjs := (pobjs C)(npool C \<mapsto> ?p), npool := npool C + 1, reservePools := Some ((int sid, pools C ! sid) # reserve_list C), pools := (pools C)[sid := npool C]\<rparr>"
  have "manager_handleEvent env dial o1 r1 typeHotRestart epoch a C = Some ?C"
    using a s r n f by (simp add: manager_handleEvent_def handleSessionManagerHotRestart_def restart_pool_def pool_for_def add_pool_def reserve_list_def Let_def)
  moreover have "manager_handleEvent env' dial' o2 r2 typeHotRestart epoch a ?C = Some ?C" for env' dial' o2 r2
    using a s f by (simp add: manager_handleEvent_def handleSessionManagerHotRestart_def restart_pool_def reserve_list_def Let_def)
  moreover have "manager_handleEvent env' dial' o2 r2 typeHotRestart epoch' c ?C = Some ?C" if "epoch' \<noteq> epoch" for env' dial' o2 r2 epoch' c
    using that s f by (simp add: manager_handleEvent_def handleSessionManagerHotRestart_def)
  ultimately show ?thesis by (intro exI [of _ ?C]) (simp add: reserve_list_def)
qed

text \<open>The first process of the epoch 5 opens its session again.\<close>

definition demo_again :: Config where
  "demo_again = demo_cfg\<lparr>ShareMemoryPathPrefix := ''/tmp/s_1_epoch_5_9'', QueuePath := ''/tmp/s_1_epoch_5_9_queue_0''\<rparr>"

definition demo_env :: session_env where
  "demo_env = \<lparr>se_os = demo_os, se_space = 24, se_unix = True, se_dup = None, se_cb = None, se_conn = (\<lambda>_. None), se_dbg = False, se_view = (\<lambda>_. []), se_pid = 1\<rparr>"

lemma demo_again_buffers:
  obtains bm m where "getGlobalBufferManager demo_os (ShareMemoryPathPrefix demo_again @ bufferPathSuffix) (ShareMemoryBufferCap demo_again) True (BufferSliceSizes demo_again) [] =
      Some (Inr (bm, m), [], reg_put (ShareMemoryPathPrefix demo_again @ bufferPathSuffix) (bm, m) [])"
proof -
  let ?mem = "replicate 33554432 (0 :: u8)" and ?ps = "BufferSliceSizes demo_cfg" and ?b = "ShareMemoryPathPrefix demo_again @ bufferPathSuffix"
  note dc = demo_cfg_pairs
  have h: "?ps \<noteq> []" "length ?ps < 2 ^ 16" "8 + 36 * length ?ps \<le> length ?mem" "length ?mem < 2 ^ 32" "pairs_ok (length ?mem - 8 - 36 * length ?ps) ?ps"
    using dc by (auto simp del: length_0_conv)
  note cr = created_managers [OF h dc(5), of ?b]
  from cr obtain bm m where c: "createBufferManager ?ps ?b ?mem 0 = Some (Inr (bm, m))" by blast
  have e: "BufferSliceSizes demo_again = ?ps" "ShareMemoryBufferCap demo_again = ShareMemoryBufferCap demo_cfg" by (simp_all add: demo_again_def)
  have "canCreateOnDevShm demo_os (ucast (ShareMemoryBufferCap demo_cfg)) ?b" by (simp add: canCreateOnDevShm_def demo_again_def bufferPathSuffix_def)
  then have "getGlobalBufferManager demo_os ?b (ShareMemoryBufferCap demo_again) True (BufferSliceSizes demo_again) [] = Some (Inr (bm, m), [], reg_put ?b (bm, m) [])"
    unfolding e using c dc(1,3) by (simp add: getGlobalBufferManager_def demo_os_def enter_manager_def)
  then show thesis by (rule that)
qed

lemma demo_again_session:
  assumes "sm_config C = DefaultSessionManagerConfig\<lparr>smc_Config := demo_cfg\<rparr>" "cl_reg C = []"
  shows "\<exists>C1. newClientSession demo_env (\<lambda>_ _. Inr (demo_party w [])) 0 5 9 C = Some (Inr (cl_n C), C1)"
proof -
  obtain bm m where b: "getGlobalBufferManager demo_os (ShareMemoryPathPrefix demo_again @ bufferPathSuffix) (ShareMemoryBufferCap demo_again) True (BufferSliceSizes demo_again) [] =
      Some (Inr (bm, m), [], reg_put (ShareMemoryPathPrefix demo_again @ bufferPathSuffix) (bm, m) [])" by (rule demo_again_buffers)
  have f: "QueueCap demo_again = 2" "cfg_MemMapType demo_again = MemMapTypeDevShmFile" by (simp_all add: demo_again_def demo_cfg_def DefaultConfig_def)
  have "createQueueManager demo_os ''/tmp/s_1_epoch_5_9_queue_0'' 2 =
    Some (Inr ((demo_qm demo_send demo_recv)\<lparr>qm_path := ''/tmp/s_1_epoch_5_9_queue_0''\<rparr>, demo_mem2))" by code_simp
  then have q: "createQueueManager demo_os (QueuePath demo_again) (QueueCap demo_again) = Some (Inr ((demo_qm demo_send demo_recv)\<lparr>qm_path := ''/tmp/s_1_epoch_5_9_queue_0''\<rparr>, demo_mem2))"
    unfolding f by (simp add: demo_again_def)
  have v: "VerifyConfig demo_os demo_again = None"
    unfolding VerifyConfig_None by (simp add: demo_again_def demo_cfg_def DefaultConfig_def consts_defs bufferHeaderSize_def isArmArch_def demo_os_def)
  have cfg: "client_cfg_ok demo_os demo_again" using v f by (simp add: client_cfg_ok_def demo_again_def bufferPathSuffix_def)
  let ?pt = "(demo_party w [])\<lparr>pt_reg := [], pt_acts := []\<rparr>"
  have s: "sock ?pt []" "pt_reg ?pt = []" by (simp_all add: demo_party_def sock_def)
  have b': "getGlobalBufferManager demo_os (ShareMemoryPathPrefix demo_again @ bufferPathSuffix) (ShareMemoryBufferCap demo_again) True (BufferSliceSizes demo_again) (pt_reg ?pt) =
      Some (Inr (bm, m), [], reg_put (ShareMemoryPathPrefix demo_again @ bufferPathSuffix) (bm, m) [])" using b by (simp only: s(2))
  from new_client [OF cfg q b' s(1), of 24 True "\<lambda>_. None" False "\<lambda>_. []"] obtain pt' x where
    n: "newSession demo_os 24 (Some demo_again) True None None (\<lambda>_. None) False (\<lambda>_. []) True ?pt = (HsOk x, pt')" by blast
  have i: "itoa 1 = ''1''" "itoa 0 = ''0''" "itoa 5 = ''5''" "itoa 9 = ''9''" by code_simp+
  have "client_conf 1 0 5 9 (sm_config C) = Inr demo_again"
    using i by (simp add: assms client_conf_def DefaultSessionManagerConfig_def demo_again_def demo_cfg_def DefaultConfig_def consts_defs Let_def)
  then show ?thesis using n by (simp add: newClientSession_def assms demo_env_def DefaultSessionManagerConfig_def Let_def)
qed

theorem restart_replaces_pool_witness:
  "let w = upd_ses (\<lambda>s. s\<lparr>sessionID := 0\<rparr>) (initial_world False True);
       C = (demo_client w (newStreamPool 4))\<lparr>sm_config := DefaultSessionManagerConfig\<lparr>smc_Config := demo_cfg\<rparr>, sm_state := hotRestartState, sm_epoch := 5, sm_randID := 9\<rparr>
   in \<exists>C'. manager_handleEvent demo_env (\<lambda>_ _. Inr (demo_party w [])) (Answered None) 9 typeHotRestart 5 0 C = Some C' \<and> pools C' = [1] \<and> reserve_list C' = [(0, 0)] \<and>
     manager_handleEvent demo_env (\<lambda>_ _. Inr (demo_party w [])) (Answered None) 9 typeHotRestart 5 0 C' = Some C'"
proof -
  let ?w = "upd_ses (\<lambda>s. s\<lparr>sessionID := 0\<rparr>) (initial_world False True)"
  let ?C = "(demo_client ?w (newStreamPool 4))\<lparr>sm_config := DefaultSessionManagerConfig\<lparr>smc_Config := demo_cfg\<rparr>, sm_state := hotRestartState, sm_epoch := 5, sm_randID := 9\<rparr>"
  have c: "cl_ws ?C 0 = Some ?w" "0 < cl_n ?C" "sessionID (ses ?w) = int 0" "0 < length (pools ?C)" "sm_state ?C = hotRestartState" "sm_epoch ?C = 5" "map_of (reserve_list ?C) (int 0) = None"
    "pools ?C = [0]" "npool ?C = 1" "reserve_list ?C = []" "sm_randID ?C = 9" by (simp_all add: demo_client_def new_manager_def reserve_list_def)
  obtain C1 where "newClientSession demo_env (\<lambda>_ _. Inr (demo_party ?w [])) 0 5 (sm_randID ?C) ?C = Some (Inr (cl_n ?C), C1)"
    using demo_again_session [of ?C ?w] c(11) by (auto simp: demo_client_def new_manager_def)
  from restart_replaces_pool [OF c(1-7) this, of "Answered None" 9] c(8-10) show ?thesis unfolding Let_def by auto
qed

end
