(* ===== verification/Stream_Lifecycle.thy ===== *)
theory Stream_Lifecycle
  imports Event_Conn
begin

text \<open>
  The life of a stream: opened, half closed by the peer or by a close within a callback, closed. Every operation of the session and of its streams moves the
  states of all streams forward only, a close empties the stream and reaches the peer.
\<close>

subsection \<open>States advance\<close>

definition rank :: "u32 \<Rightarrow> nat" where
  "rank st = (if st = streamOpened then 0 else if st = streamHalfClosed then 1 else 2)"

text \<open>Addresses of streams are below the next one to be given out; every stream is still there, under the same id, in the same or a later state.\<close>

definition fresh_addrs :: "world \<Rightarrow> bool" where
  "fresh_addrs w \<longleftrightarrow> (\<forall>p. objs w p \<noteq> None \<longrightarrow> p < nobj w)"

definition later :: "Stream \<Rightarrow> Stream \<Rightarrow> bool" where
  "later s s' \<longleftrightarrow> st_id s' = st_id s \<and> rank (st_state s) \<le> rank (st_state s')"

definition advances :: "world \<Rightarrow> world \<Rightarrow> bool" where
  "advances w w' \<longleftrightarrow> (fresh_addrs w \<longrightarrow> fresh_addrs w' \<and> (\<forall>p s. objs w p = Some s \<longrightarrow> (\<exists>s'. objs w' p = Some s' \<and> later s s')))"

lemma later_trans: "later a b \<Longrightarrow> later b c \<Longrightarrow> later a c"
  by (auto simp: later_def)

lemma advances_refl [intro!, simp]: "advances w w"
  by (simp add: advances_def later_def)

lemma advances_trans: "advances w w1 \<Longrightarrow> advances w1 w2 \<Longrightarrow> advances w w2"
  unfolding advances_def using later_trans by meson

lemma adv_obj:
  assumes "\<And>s. objs w p = Some s \<Longrightarrow> st_id (f s) = st_id s \<and> rank (st_state s) \<le> rank (st_state (f s))"
  shows "advances w (upd_obj p f w)"
  using assms by (auto simp: advances_def fresh_addrs_def later_def upd_obj_def split: if_split_asm)

lemma adv_parts [simp]: "advances w (w'\<lparr>bmem := m\<rparr>) = advances w w'" "advances w (w'\<lparr>qmem := m\<rparr>) = advances w w'" "advances w (w'\<lparr>listener_of := l\<rparr>) = advances w w'"
  "advances w (upd_ses f w') = advances w w'" "advances (w\<lparr>bmem := m\<rparr>) w' = advances w w'" "advances (w\<lparr>qmem := m\<rparr>) w' = advances w w'"
  "advances (upd_ses f w) w' = advances w w'" "advances w (call_back e w') = advances w w'" "advances (call_back e w) w' = advances w w'"
  by (simp_all add: advances_def fresh_addrs_def call_back_def)

lemma adv_upd:
  assumes "advances w w1" "\<And>s. objs w1 p = Some s \<Longrightarrow> st_id (f s) = st_id s \<and> rank (st_state s) \<le> rank (st_state (f s))"
  shows "advances w (upd_obj p f w1)"
  by (rule advances_trans [OF assms(1)]) (rule adv_obj [OF assms(2)])

lemma adv_keep [simp]: "(\<And>s. st_id (f s) = st_id s) \<Longrightarrow> (\<And>s. st_state (f s) = st_state s) \<Longrightarrow> advances w w1 \<Longrightarrow> advances w (upd_obj p f w1)"
  by (rule adv_upd) simp_all

lemma adv_notify [simp]: "advances w w1 \<Longrightarrow> advances w (safeCloseNotify p w1)"
  by (simp add: safeCloseNotify_def)

lemma adv_notify_all: "advances w w1 \<Longrightarrow> advances w (fold safeCloseNotify ps w1)"
  by (induction ps arbitrary: w1) simp_all

lemma adv_ses_Close [simp]: "advances w (ses_Close w)"
  by (simp add: ses_Close_def Let_def adv_notify_all)

lemma adv_exitErr [simp]: "advances w (exitErr e w)"
  using adv_ses_Close [of "upd_ses f w" for f] by (simp add: exitErr_def del: adv_ses_Close)

lemma adv_writeEventData: "writeEventData d w = (e, w1) \<Longrightarrow> advances w w1"
  by (auto simp: writeEventData_def split: option.split_asm)

lemma adv_write_or_queue [simp]: "advances w (write_or_queue d w)"
proof -
  have "advances w (snd (writeEventData d (upd_ses (\<lambda>s. s\<lparr>writing := True\<rparr>) w)))"
    using adv_writeEventData [of d "upd_ses (\<lambda>s. s\<lparr>writing := True\<rparr>) w"] by (metis adv_parts(7) prod.collapse)
  then show ?thesis by (simp add: write_or_queue_def Let_def)
qed

lemma adv_write_after [simp]: "advances w w1 \<Longrightarrow> advances w (write_or_queue d w1)"
  using advances_trans adv_write_or_queue by blast

lemma adv_wakeUpPeer: "wakeUpPeer w = Some (e, w1) \<Longrightarrow> advances w w1"
  by (auto simp: wakeUpPeer_def Let_def split: Option.bind_split_asm if_split_asm)

lemma adv_waitForSend: "waitForSend r h b w = (e, w1) \<Longrightarrow> advances w w1"
  by (auto simp: waitForSend_def Let_def split: send_outcome.split_asm)

lemma adv_put_element: "put_element e w = Some (r, w1) \<Longrightarrow> advances w w1"
  by (auto simp: put_element_def split: Option.bind_split_asm)

lemma adv_openCircuitBreaker [simp]: "advances w (openCircuitBreaker w1) = advances w w1" "advances (openCircuitBreaker w) w1 = advances w w1" "objs (openCircuitBreaker w) = objs w"
  by (simp_all add: openCircuitBreaker_def)

lemma adv_moveTo: "moveTo p w = Some w1 \<Longrightarrow> advances w w1"
  by (auto simp: moveTo_def with_obj_def split: option.splits Option.bind_split_asm if_split_asm)

lemma adv_pending_clear: "pending_clear p w = Some w1 \<Longrightarrow> advances w w1"
  by (auto simp: pending_clear_def with_obj_def split: option.splits Option.bind_split_asm if_split_asm)

lemma adv_recycle: "recycle_recv p w = Some w1 \<Longrightarrow> advances w w1" "recycle_send p w = Some w1 \<Longrightarrow> advances w w1"
  by (auto simp: recycle_recv_def recycle_send_def upd_send_def with_obj_def split: option.splits Option.bind_split_asm)

lemma adv_halfClose: "halfClose p w = Some w1 \<Longrightarrow> advances w w1"
  by (auto simp: halfClose_def with_obj_def Let_def rank_def intro!: adv_notify adv_obj split: option.splits if_split_asm)

lemma adv_fill: "fillDataToReadBuffer p u w = Some (e, w1) \<Longrightarrow> advances w w1"
proof -
  assume a: "fillDataToReadBuffer p u w = Some (e, w1)"
  have "advances w (pending_add p u w)" by (simp add: pending_add_def)
  then show ?thesis using a
    by (auto simp: fillDataToReadBuffer_def with_obj_def Let_def dest!: adv_pending_clear adv_recycle(1) split: option.splits Option.bind_split_asm if_split_asm intro: advances_trans)
qed

lemma adv_newStream: "newStream i w = (p, w1) \<Longrightarrow> advances w w1"
  by (auto simp: newStream_def advances_def fresh_addrs_def later_def less_Suc_eq)

lemma adv_streams_put: "streams_put i p w = Some w1 \<Longrightarrow> advances w w1"
  by (auto simp: streams_put_def split: option.split_asm)

lemma adv_getStream: "getStream i st w = Some (p, w1) \<Longrightarrow> advances w w1"
  by (auto simp: getStream_def dest!: adv_newStream adv_streams_put split: option.split_asm Option.bind_split_asm if_split_asm prod.split_asm intro: advances_trans)

lemma adv_message: "handleStreamMessage p u st w = Some (e, w1) \<Longrightarrow> advances w w1"
  by (auto simp: handleStreamMessage_def dest: adv_halfClose adv_fill split: Option.bind_split_asm if_split_asm)

lemma adv_poll_queue:
  assumes "poll_queue e w = Some y" shows "advances w (snd y)"
proof (rule poll_queue.raw_induct [where P = "\<lambda>_ w y. advances w (snd y)", OF _ assms], goal_cases)
  case (1 f e w y)
  from 1(2) show ?case
    by (simp add: Let_def split: Option.bind_split_asm option.split_asm if_split_asm sum.split_asm prod.split_asm)
      (auto dest!: 1(1) adv_getStream adv_message intro: advances_trans)
qed

lemma adv_poll_loop:
  assumes "poll_loop e w = Some y" shows "advances w (snd y)"
proof (rule poll_loop.raw_induct [where P = "\<lambda>_ w y. advances w (snd y)", OF _ assms], goal_cases)
  case (1 f e w y)
  from 1(2) show ?case
    by (simp add: Let_def split: Option.bind_split_asm if_split_asm prod.split_asm) (auto dest!: 1(1) adv_poll_queue intro: advances_trans)
qed

lemma adv_fallback: "handleFallbackData h b w = Some (r, w1) \<Longrightarrow> advances w w1"
  by (auto simp: handleFallbackData_def Let_def dest!: adv_getStream adv_message split: Option.bind_split_asm if_split_asm option.split_asm prod.split_asm intro: advances_trans)

lemma adv_handler:
  assumes "protocolHandlers t = Some f" "f h b w = Some (r, w1)" shows "advances w w1"
proof -
  consider "f = handlePolling" | "f = handleStreamClose" | "f = handleFallbackData" | "f = handleHotRestart" | "f = handleHotRestartAck"
    using assms(1) unfolding protocolHandlers_def by (auto split: if_split_asm)
  then show ?thesis
  proof cases
    case 3
    with assms(2) adv_fallback show ?thesis by blast
  qed (use assms(2) in \<open>auto simp: handlePolling_def handleStreamClose_def handleHotRestart_def handleHotRestartAck_def
    dest!: adv_poll_loop adv_halfClose split: Option.bind_split_asm if_split_asm option.split_asm\<close>)
qed

lemma adv_handle_events:
  assumes "handle_events buf c w = Some y" shows "advances w (snd y)"
proof (rule handle_events.raw_induct [where P = "\<lambda>_ _ w y. advances w (snd y)", OF _ assms], goal_cases)
  case (1 f buf c w y)
  from 1(2) show ?case
    by (simp add: Let_def split: Option.bind_split_asm option.split_asm if_split_asm prod.split_asm) (auto dest!: 1(1) adv_handler intro: advances_trans)
qed

lemma adv_onEventData: "onEventData buf w = Some (n, w1) \<Longrightarrow> advances w w1"
  by (auto simp: onEventData_def handleEvents_def dest!: adv_handle_events intro: advances_trans [OF _ adv_exitErr] split: Option.bind_split_asm if_split_asm option.split_asm)

subsection \<open>The operations of a stream\<close>

lemma adv_clean: "stream_clean p w = Some w1 \<Longrightarrow> advances w w1"
proof -
  assume a: "stream_clean p w = Some w1"
  have "advances w (onStreamClose i w)" for i by (simp add: onStreamClose_def)
  then show ?thesis using a
    by (auto simp: stream_clean_def with_obj_def dest!: adv_pending_clear adv_recycle split: option.splits Option.bind_split_asm intro: advances_trans)
qed

lemma rank_closed [simp]: "rank st \<le> rank streamClosed" "rank streamOpened = 0"
  by (simp_all add: rank_def streamOpened_def streamClosed_def streamHalfClosed_def)

text \<open>The ways in which \<^verbatim>\<open>close\<close> returns: at once, after emptying the stream, and after telling the peer.\<close>

lemma stream_closeE:
  assumes "stream_close p r w = Some (e, w1)"
  obtains s where "objs w p = Some s" "st_state s = streamClosed" "w1 = w"
    | s w2 where "objs w p = Some s" "st_state s \<noteq> streamClosed" "stream_clean p (upd_obj p (\<lambda>s. s\<lparr>st_state := streamClosed\<rparr>) w) = Some w2"
      "w1 = w2 \<or> w1 = safeCloseNotify p w2 \<or> (\<exists>ev. w1 = call_back ev (safeCloseNotify p w2))"
    | s w2 w3 err w4 where "objs w p = Some s" "st_state s \<noteq> streamClosed" "stream_clean p (upd_obj p (\<lambda>s. s\<lparr>st_state := streamClosed\<rparr>) w) = Some w2"
      "w3 = safeCloseNotify p w2 \<or> (\<exists>ev. w3 = call_back ev (safeCloseNotify p w2))"
      "put_element \<lparr>seqID = st_id s, offsetInShmBuf = 0, status = streamClosed\<rparr> w3 = Some (err, w4)"
      "(\<exists>ev. waitForSend r None (Some ev) w4 = (e, w1)) \<or> wakeUpPeer w4 = Some (e, w1)"
proof (cases "objs w p")
  case None
  with assms show ?thesis by (simp add: stream_close_def with_obj_def)
next
  case (Some s)
  show ?thesis
  proof (cases "st_state s = streamClosed")
    case True
    with assms Some show ?thesis by (intro that(1)) (simp_all add: stream_close_def with_obj_def)
  next
    case False
    from assms Some False obtain w2 where w2: "stream_clean p (upd_obj p (\<lambda>s. s\<lparr>st_state := streamClosed\<rparr>) w) = Some w2"
      by (auto simp: stream_close_def with_obj_def split: Option.bind_split_asm if_split_asm)
    define w3 where "w3 = (if st_callback s then call_back (if IsClosed (safeCloseNotify p w2) then OnRemoteClose p else OnLocalClose p) (safeCloseNotify p w2) else safeCloseNotify p w2)"
    have 3: "w3 = safeCloseNotify p w2 \<or> (\<exists>ev. w3 = call_back ev (safeCloseNotify p w2))" by (auto simp: w3_def)
    show ?thesis
    proof (cases "st_state s \<noteq> streamOpened \<or> IsClosed w3")
      case True
      with assms Some False w2 3 show ?thesis by (intro that(2) [OF Some False w2]) (auto simp: stream_close_def with_obj_def Let_def w3_def split: if_split_asm)
    next
      case no: False
      from assms Some False w2 no obtain err w4 where 4: "put_element \<lparr>seqID = st_id s, offsetInShmBuf = 0, status = streamClosed\<rparr> w3 = Some (err, w4)"
        "(\<exists>ev. waitForSend r None (Some ev) w4 = (e, w1)) \<or> wakeUpPeer w4 = Some (e, w1)"
        by (simp add: stream_close_def with_obj_def Let_def w3_def [symmetric] split: Option.bind_split_asm if_split_asm prod.split_asm) blast+
      from that(3) [OF Some False w2 3 4] show ?thesis .
    qed
  qed
qed

lemma adv_close: assumes "stream_close p r w = Some (e, w1)" shows "advances w w1"
proof -
  have c: "advances w w2" if "stream_clean p (upd_obj p (\<lambda>s. s\<lparr>st_state := streamClosed\<rparr>) w) = Some w2" for w2
    by (rule advances_trans [OF _ adv_clean [OF that]]) (rule adv_obj, simp)
  from assms show ?thesis
  proof (cases rule: stream_closeE)
    case (2 s w2)
    with c [OF 2(3)] show ?thesis by auto
  next
    case (3 s w2 w3 err w4)
    from c [OF 3(3)] 3(4) have "advances w w3" by auto
    then have "advances w w4" by (rule advances_trans [OF _ adv_put_element [OF 3(5)]])
    with 3(6) show ?thesis by (auto dest: adv_waitForSend adv_wakeUpPeer intro: advances_trans)
  qed simp
qed

lemma stream_Close_parts:
  assumes "stream_Close p r w = Some (e, w1)"
  obtains s w0 where "objs w p = Some s" "w0 = w \<or> w0 = upd_obj p (\<lambda>s. s\<lparr>callbackCloseState := True\<rparr>) w"
    "w1 = upd_obj p (\<lambda>s. s\<lparr>st_state := (if st_state s = streamOpened then streamHalfClosed else st_state s)\<rparr>) w0 \<or> stream_close p r w0 = Some (e, w1)"
proof -
  from assms obtain s where s: "objs w p = Some s" by (auto simp: stream_Close_def with_obj_def split: option.split_asm)
  let ?w = "if st_callback s then upd_obj p (\<lambda>s. s\<lparr>callbackCloseState := True\<rparr>) w else w"
  from assms s show thesis by (intro that [OF s, of ?w]) (auto simp: stream_Close_def with_obj_def Let_def split: if_split_asm)
qed

lemma adv_Close: assumes "stream_Close p r w = Some (e, w1)" shows "advances w w1"
proof -
  obtain s w0 where c: "objs w p = Some s" "w0 = w \<or> w0 = upd_obj p (\<lambda>s. s\<lparr>callbackCloseState := True\<rparr>) w"
    "w1 = upd_obj p (\<lambda>s. s\<lparr>st_state := (if st_state s = streamOpened then streamHalfClosed else st_state s)\<rparr>) w0 \<or> stream_close p r w0 = Some (e, w1)"
    using assms by (rule stream_Close_parts)
  then have "advances w w0" by auto
  with c(3) show ?thesis by (auto intro!: adv_upd intro: advances_trans [OF _ adv_close])
qed

lemma Close_not_open:
  assumes "stream_Close p r w = Some (e, w1)" "fresh_addrs w"
  shows "\<exists>s. objs w1 p = Some s \<and> st_state s \<noteq> streamOpened"
proof -
  obtain s w0 where c: "objs w p = Some s" "w0 = w \<or> w0 = upd_obj p (\<lambda>s. s\<lparr>callbackCloseState := True\<rparr>) w"
    "w1 = upd_obj p (\<lambda>s. s\<lparr>st_state := (if st_state s = streamOpened then streamHalfClosed else st_state s)\<rparr>) w0 \<or> stream_close p r w0 = Some (e, w1)"
    using assms(1) by (rule stream_Close_parts)
  have ne: "streamHalfClosed \<noteq> streamOpened" "streamClosed \<noteq> streamOpened" by (simp_all add: streamOpened_def streamClosed_def streamHalfClosed_def)
  obtain s0 where s0: "objs w0 p = Some s0" using c(1,2) by (auto simp: upd_obj_def)
  have f: "fresh_addrs w0" using c(1,2) assms(2) by (auto simp: fresh_addrs_def upd_obj_def split: if_split_asm)
  let ?x = "upd_obj p (\<lambda>s. s\<lparr>st_state := streamClosed\<rparr>) w0"
  have closed: ?thesis if "advances ?x w1"
  proof -
    have "fresh_addrs ?x" "objs ?x p = Some (s0\<lparr>st_state := streamClosed\<rparr>)" using f s0 by (auto simp: fresh_addrs_def upd_obj_def split: if_split_asm)
    with that obtain s' where "objs w1 p = Some s'" "later (s0\<lparr>st_state := streamClosed\<rparr>) s'" unfolding advances_def by blast
    then show ?thesis by (auto simp: later_def rank_def ne split: if_split_asm)
  qed
  from c(3) show ?thesis
  proof
    assume "stream_close p r w0 = Some (e, w1)"
    then show ?thesis
    proof (cases rule: stream_closeE)
      case (1 s)
      with ne show ?thesis by auto
    next
      case (2 s w2)
      from adv_clean [OF 2(3)] 2(4) have "advances ?x w1" by auto
      then show ?thesis by (rule closed)
    next
      case (3 s w2 w3 err w4)
      from adv_clean [OF 3(3)] 3(4) have "advances ?x w3" by auto
      then have "advances ?x w4" by (rule advances_trans [OF _ adv_put_element [OF 3(5)]])
      with 3(6) have "advances ?x w1" by (auto dest: adv_waitForSend adv_wakeUpPeer intro: advances_trans)
      then show ?thesis by (rule closed)
    qed
  qed (use s0 ne in \<open>auto simp: upd_obj_def\<close>)
qed

text \<open>What other goroutines do while an operation waits must advance as well.\<close>

lemma adv_put_retry:
  assumes "put_retry n p e ws w = Some (r, w1)" "\<forall>(env, ch) \<in> set ws. \<forall>w. advances w (env w)"
  shows "advances w w1"
  using assms
proof (induction n p e ws w arbitrary: r w1 rule: put_retry.induct)
  case (3 n p e env ch ws w)
  then have a: "advances w (env w)" by simp
  show ?case
  proof (cases ch)
    case RetryTimer
    with 3(2) obtain err w2 s where p: "put_element e (env w) = Some (err, w2)" "objs (env w) p = Some s"
      and r: "if err = Some ErrQueueFull then put_retry n p e ws w2 = Some (r, w1) else w2 = w1"
      by (auto simp: with_obj_def split: option.split_asm Option.bind_split_asm if_split_asm)
    have "advances w w2" by (rule advances_trans [OF a adv_put_element [OF p(1)]])
    with r 3(1) [OF RetryTimer p(1) refl] 3(3) show ?thesis by (auto split: if_split_asm intro: advances_trans)
  qed (use 3(2) a in \<open>auto simp: with_obj_def split: option.split_asm if_split_asm\<close>)
qed simp_all

lemma adv_read_wait:
  assumes "read_wait p n ws w = Some (r, w1)" "\<forall>(env, ch) \<in> set ws. \<forall>w. advances w (env w)"
  shows "advances w w1"
  using assms
proof (induction p n ws w arbitrary: r w1 rule: read_wait.induct)
  case (2 p n env ch rest w)
  then have a: "advances w (env w)" by simp
  have m: "advances w w2" if "moveTo p (upd_obj p f (env w)) = Some w2" "\<And>s. st_id (f s) = st_id s" "\<And>s. st_state (f s) = st_state s" for f w2
    using advances_trans [OF _ adv_moveTo [OF that(1)]] a that(2,3) by simp
  show ?case
  proof (cases ch)
    case RecvNotify
    from 2(2) obtain s where s: "objs (env w) p = Some s" by (auto simp: with_obj_def Let_def split: option.split_asm)
    with 2(2) RecvNotify obtain w2 where w2: "moveTo p (upd_obj p (\<lambda>s. s\<lparr>recvNotifyCh := False\<rparr>) (env w)) = Some w2" "recvNotifyCh s"
      by (auto simp: with_obj_def Let_def split: Option.bind_split_asm if_split_asm)
    with 2(2) RecvNotify s obtain k where "recv_len p w2 = Some k" by (auto simp: with_obj_def Let_def split: Option.bind_split_asm)
    with w2 2(2) RecvNotify s have p: "recvNotifyCh s" "moveTo p (upd_obj p (\<lambda>s. s\<lparr>recvNotifyCh := False\<rparr>) (env w)) = Some w2" "recv_len p w2 = Some k"
      and r: "if n \<le> k then w1 = w2 else read_wait p n rest w2 = Some (r, w1)"
      by (auto simp: with_obj_def Let_def split: if_split_asm)
    from m [OF p(2)] have "advances w w2" by simp
    with r 2(1) [OF refl RecvNotify _ p(2,3)] p(1) 2(3) show ?thesis by (auto split: if_split_asm intro: advances_trans)
  next
    case CloseNotify
    with 2(2) obtain w2 where "moveTo p (env w) = Some w2" "w1 = w2"
      by (auto simp: with_obj_def Let_def split: option.split_asm Option.bind_split_asm if_split_asm)
    then show ?thesis using advances_trans [OF a adv_moveTo] by simp
  next
    case Deadline
    with 2(2) a show ?thesis by (auto simp: with_obj_def Let_def split: option.split_asm if_split_asm)
  qed
qed simp

lemma adv_readMore:
  assumes "readMore p ws n w = Some (r, w1)" "\<forall>(env, ch) \<in> set ws. \<forall>w. advances w (env w)"
  shows "advances w w1"
  using assms by (auto simp: readMore_def dest!: adv_moveTo adv_read_wait split: Option.bind_split_asm if_split_asm intro: advances_trans)

lemma adv_writeFallback: "writeFallback p st r w = Some (e, w1) \<Longrightarrow> advances w w1"
  by (auto simp: writeFallback_def with_obj_def dest!: adv_recycle(2) adv_waitForSend split: option.split_asm Option.bind_split_asm intro: advances_trans)

lemma adv_clean_send [simp]: "advances w w1 \<Longrightarrow> advances w (clean_send p w1)"
  by (simp add: clean_send_def)

lemma adv_upd_send [simp]: "advances w (upd_send p x w)"
  by (simp add: upd_send_def)

lemma adv_Flush:
  assumes "Flush p ws r w = Some (e, w1)" "\<forall>(env, ch) \<in> set ws. \<forall>w. advances w (env w)"
  shows "advances w w1"
proof -
  note d = adv_put_element adv_put_retry [OF _ assms(2)] adv_wakeUpPeer adv_writeFallback adv_recycle(2)
  have t: "advances w y" if "advances (upd_obj p (\<lambda>s. s\<lparr>inFallbackState := b\<rparr>) (upd_send p x w)) y" for b x y
    by (rule advances_trans [OF _ that]) simp
  show ?thesis using assms(1)
    by (simp add: Flush_def with_obj_def Let_def split: option.split_asm Option.bind_split_asm if_split_asm prod.split_asm)
      (auto dest!: d t intro: advances_trans)
qed

lemma adv_OpenStream: "OpenStream w = Some (r, w1) \<Longrightarrow> advances w w1"
proof -
  assume a: "OpenStream w = Some (r, w1)"
  have "register_stream i (upd_ses f w) = Some (r, w1) \<Longrightarrow> advances w w1" for i f
    by (auto simp: register_stream_def dest!: adv_newStream adv_streams_put split: prod.split_asm option.split_asm Option.bind_split_asm intro: advances_trans)
  with a show ?thesis by (auto simp: OpenStream_def Let_def split: if_split_asm Option.bind_split_asm)
qed

lemma adv_AcceptStream: "AcceptStream c w = Some (r, w1) \<Longrightarrow> advances w w1"
  by (auto simp: AcceptStream_def split: list.split_asm if_split_asm Option.bind_split_asm)

lemma adv_stream_small:
  "stream_WriteBytes p d w = Some (n, w1) \<Longrightarrow> advances w w1" "stream_reset p w = Some (e, w1) \<Longrightarrow> advances w w1"
  "ReleaseReadAndReuse p w = Some w1 \<Longrightarrow> advances w w1" "SetCallbacks p w = Some (e, w1) \<Longrightarrow> advances w w1" "advances w (SetDeadline p t w)"
  by (auto simp: stream_WriteBytes_def stream_reset_def ReleaseReadAndReuse_def SetCallbacks_def SetDeadline_def with_obj_def Let_def
    split: option.split_asm Option.bind_split_asm if_split_asm prod.split_asm)

lemma adv_send_step: "send_step w = Some (e, w1) \<Longrightarrow> advances w w1"
  by (auto simp: send_step_def Let_def dest!: adv_writeEventData split: list.split_asm if_split_asm option.split_asm prod.split_asm intro: advances_trans)

lemma adv_close_streams: "close_streams ps r w = Some w1 \<Longrightarrow> advances w w1"
  by (induction ps arbitrary: w) (auto dest!: adv_Close split: Option.bind_split_asm if_split_asm intro: advances_trans)

lemma adv_close_task: "close_task r w = Some w1 \<Longrightarrow> advances w w1"
  by (auto simp: close_task_def dest!: adv_close_streams)

subsection \<open>Any sequence of operations\<close>

datatype world_op = OpOpen | OpAccept bool | OpWrite sptr bytes | OpFlush sptr "((world \<Rightarrow> world) \<times> retry) list" send_outcome | OpMore sptr "wakeup list" int
  | OpClose sptr send_outcome | OpReset sptr | OpReuse sptr | OpCallbacks sptr | OpDeadline sptr "int option" | OpEvents bytes | OpSend
  | OpExit go_error | OpCloseSession | OpCloseTask send_outcome

fun world_step :: "world_op \<Rightarrow> world \<Rightarrow> world option" where
  "world_step OpOpen w = map_option snd (OpenStream w)"
| "world_step (OpAccept c) w = map_option snd (AcceptStream c w)"
| "world_step (OpWrite p d) w = map_option snd (stream_WriteBytes p d w)"
| "world_step (OpFlush p ws r) w = map_option snd (Flush p ws r w)"
| "world_step (OpMore p ws n) w = map_option snd (readMore p ws n w)"
| "world_step (OpClose p r) w = map_option snd (stream_Close p r w)"
| "world_step (OpReset p) w = map_option snd (stream_reset p w)"
| "world_step (OpReuse p) w = ReleaseReadAndReuse p w"
| "world_step (OpCallbacks p) w = map_option snd (SetCallbacks p w)"
| "world_step (OpDeadline p t) w = Some (SetDeadline p t w)"
| "world_step (OpEvents b) w = map_option snd (onEventData b w)"
| "world_step OpSend w = map_option snd (send_step w)"
| "world_step (OpExit e) w = Some (exitErr e w)"
| "world_step OpCloseSession w = Some (ses_Close w)"
| "world_step (OpCloseTask r) w = close_task r w"

fun world_run :: "world_op list \<Rightarrow> world \<Rightarrow> world option" where
  "world_run [] w = Some w"
| "world_run (o' # os) w = do { w1 \<leftarrow> world_step o' w; world_run os w1 }"

text \<open>The environment of an operation that waits.\<close>

fun env_ok :: "world_op \<Rightarrow> bool" where
  "env_ok (OpFlush p ws r) = (\<forall>(env, ch) \<in> set ws. \<forall>w. advances w (env w))"
| "env_ok (OpMore p ws n) = (\<forall>(env, ch) \<in> set ws. \<forall>w. advances w (env w))"
| "env_ok _ = True"

lemma world_step_adv: "world_step o' w = Some w1 \<Longrightarrow> env_ok o' \<Longrightarrow> advances w w1"
  by (cases o') (auto dest: adv_OpenStream adv_AcceptStream adv_stream_small(1-4) adv_Flush adv_readMore adv_Close adv_onEventData adv_send_step adv_close_task intro: adv_stream_small(5))

lemma world_run_adv: "world_run os w = Some w1 \<Longrightarrow> list_all env_ok os \<Longrightarrow> advances w w1"
  by (induction os arbitrary: w) (auto dest: world_step_adv intro: advances_trans split: Option.bind_split_asm)

text \<open>
  C11. The state of a stream only moves forward. Whatever the users of a session, its event loop, its send goroutine and its closing do, in any order, with whatever bytes the peer sends and
  whatever happens while an operation waits: a stream that exists keeps its place and its id, a half closed stream is never opened again and a closed stream
  stays closed, and new streams never take the place of another.
\<close>

theorem stream_states_advance:
  assumes "fresh_addrs w" "list_all env_ok os" "world_run os w = Some w'" "objs w p = Some s"
  shows "fresh_addrs w' \<and> (\<exists>s'. objs w' p = Some s' \<and> st_id s' = st_id s \<and> rank (st_state s) \<le> rank (st_state s'))"
  using world_run_adv [OF assms(3,2)] assms(1,4) by (auto simp: advances_def later_def)

theorem stream_states_advance_witness:
  "\<exists>w' s'. world_run [OpDeadline 0 (Some 5), OpCallbacks 0, OpOpen, OpCloseSession] (snd (newStream 7 (initial_world False True))) = Some w' \<and> objs w' 0 = Some s' \<and> st_id s' = 7"
proof -
  let ?w = "snd (newStream 7 (initial_world False True))" and ?os = "[OpDeadline 0 (Some 5), OpCallbacks 0, OpOpen, OpCloseSession]"
  obtain s where s: "objs ?w 0 = Some s" "st_id s = 7" "\<not> st_callback s" by (simp add: newStream_def initial_world_def)
  have f: "fresh_addrs ?w" by (simp add: fresh_addrs_def newStream_def initial_world_def)
  obtain w' where "world_run ?os ?w = Some w'"
    by (simp add: SetDeadline_def SetCallbacks_def with_obj_def OpenStream_def register_stream_def IsClosed_def IsHealthy_def streams_get_def streams_put_def
      newStream_def initial_world_def initial_session_def upd_obj_def)
  with stream_states_advance [OF f _ this s(1)] s(2) show ?thesis by auto
qed

subsection \<open>Closing\<close>

lemma notify_fold_state: "map_option st_state (objs (fold safeCloseNotify ps w) p) = map_option st_state (objs w p)" "ses (fold safeCloseNotify ps w) = ses w"
proof -
  show "map_option st_state (objs (fold safeCloseNotify ps w) p) = map_option st_state (objs w p)"
    by (induction ps arbitrary: w) (simp_all add: safeCloseNotify_def upd_obj_def option.map_comp comp_def)
  show "ses (fold safeCloseNotify ps w) = ses w" by (induction ps arbitrary: w) simp_all
qed

lemma exit_state: "map_option st_state (objs (exitErr e w) p) = map_option st_state (objs w p)" "streams (ses (exitErr e w)) = streams (ses w)"
  by (simp_all add: exitErr_def ses_Close_def Let_def call_back_def notify_fold_state)

lemma wake_state:
  assumes "wakeUpPeer w = Some (e, w1)"
  shows "map_option st_state (objs w1 p) = map_option st_state (objs w p)" "streams (ses w1) = streams (ses w)"
  using assms by (auto simp: wakeUpPeer_def Let_def write_or_queue_def writeEventData_def exit_state split: Option.bind_split_asm if_split_asm option.split)

lemma clean_owned:
  assumes "objs w p = Some s" "unread s = []" "bufferManager_of (ses w) = Some bm" "owns ct bm ds L (bmem w) (slices (recvBuf s) @ slices (sendBuf s))"
  shows "\<exists>w' s'. stream_clean p w = Some w' \<and> owns ct bm ds L (bmem w') [] \<and> qmem w' = qmem w \<and> ses w' = ses (onStreamClose (st_id s) w) \<and>
    objs w' p = Some s' \<and> st_state s' = st_state s \<and> st_id s' = st_id s"
proof -
  from recycle_items_ok [OF assms(4)] obtain m1 where m1: "recycle_items bm (slices (recvBuf s)) (bmem w) = Some m1" "owns ct bm ds L m1 (slices (sendBuf s) @ [])" by auto
  from recycle_items_ok [OF m1(2)] obtain m2 where m2: "recycle_items bm (slices (sendBuf s)) m1 = Some m2" "owns ct bm ds L m2 []" by blast
  show ?thesis using assms m1(1) m2
    by (simp add: stream_clean_def with_obj_def pending_clear_def onStreamClose_def recycle_recv_def recycle_send_def lb_recycle_def upd_send_def upd_obj_def)
qed

lemma close_sends:
  assumes s: "objs a p = Some s" "st_state s = streamOpened" "\<not> st_callback s" "\<not> callbackInProcess s" "unread s = []"
    and m: "bufferManager_of (ses a) = Some bm" "owns ct bm ds L (bmem a) (slices (recvBuf s) @ slices (sendBuf s))" and o: "\<not> IsClosed a"
    and q: "queueManager_of (ses a) = Some qm" "queue_inv (sendQueue qm) (qmem a)" "length (queue_items (sendQueue qm) (qmem a)) < qcap (sendQueue qm)"
      "0 < queue_budget (sendQueue qm) (qmem a)" and v: "communicationVersion (ses a) \<le> maxSupportProtoVersion"
  obtains a' s' where "stream_Close p r a = Some (None, a')" "objs a' p = Some s'" "st_state s' = streamClosed" "owns ct bm ds L (bmem a') []" "streams_get (st_id s) a' = None"
    "queue_inv (sendQueue qm) (qmem a')"
    "queue_items (sendQueue qm) (qmem a') = queue_items (sendQueue qm) (qmem a) @ [\<lparr>seqID = st_id s, offsetInShmBuf = 0, status = streamClosed\<rparr>]"
proof -
  let ?a = "upd_obj p (\<lambda>s. s\<lparr>st_state := streamClosed\<rparr>) a" and ?q = "sendQueue qm" and ?e = "\<lparr>seqID = st_id s, offsetInShmBuf = 0, status = streamClosed\<rparr>"
  have 0: "objs ?a p = Some (s\<lparr>st_state := streamClosed\<rparr>)" "bufferManager_of (ses ?a) = Some bm" "bmem ?a = bmem a" "qmem ?a = qmem a" using s(1) m(1) by (simp_all add: upd_obj_def)
  from clean_owned [OF 0(1) _ 0(2), of ct ds L] s(5) m(2) 0(3,4) obtain a1 s1 where a1: "stream_clean p ?a = Some a1" "owns ct bm ds L (bmem a1) []" "qmem a1 = qmem a"
    "ses a1 = ses (onStreamClose (st_id s) ?a)" "objs a1 p = Some s1" "st_state s1 = streamClosed" by auto
  let ?b = "safeCloseNotify p a1"
  have b: "ses ?b = (ses a)\<lparr>streams := map_option (filter (\<lambda>x. fst x \<noteq> st_id s)) (streams (ses a))\<rparr>" "qmem ?b = qmem a" "bmem ?b = bmem a1"
    "map_option st_state (objs ?b p) = Some streamClosed" using a1 by (simp_all add: onStreamClose_def safeCloseNotify_def upd_obj_def)
  note pt = queue_put_room_spec [OF q(2-4), of ?e]
  let ?c = "?b\<lparr>qmem := put_mem ?q ?e (qmem a)\<rparr>"
  have pe: "put_element ?e ?b = Some (None, ?c)" using q(1) pt b by (simp add: put_element_def)
  from wakeUpPeer_ok [of ?c qm] q(1) pt v b obtain a' where a': "wakeUpPeer ?c = Some (None, a')" "bmem a' = bmem a1" "queue_inv ?q (qmem a')"
    "queue_items ?q (qmem a') = queue_items ?q (qmem a) @ [?e]" by auto
  have ne: "streamOpened \<noteq> streamClosed" by (simp add: streamOpened_def streamClosed_def)
  have "stream_Close p r a = Some (None, a')"
    using s ne o a1(1) pe a'(1) b(1) by (simp add: stream_Close_def stream_close_def with_obj_def Let_def IsClosed_def)
  moreover obtain s' where "objs a' p = Some s'" "st_state s' = streamClosed" using wake_state(1) [OF a'(1), of p] b(4) by auto
  moreover have "streams_get (st_id s) a' = None"
    using wake_state(2) [OF a'(1)] b(1) by (auto simp: streams_get_def map_of_eq_None_iff split: option.split)
  ultimately show thesis using that a' a1(2) by auto
qed

lemma close_received:
  assumes b: "queueManager_of (ses b) = Some qm" "queue_inv (recvQueue qm) (qmem b)" "queue_items (recvQueue qm) (qmem b) = [\<lparr>seqID = i, offsetInShmBuf = 0, status = streamClosed\<rparr>]"
    and x: "streams_get i b = Some x" "objs b x = Some t" "st_state t = streamOpened"
  shows "\<exists>b'. handlePolling h buf b = Some ((int headerSize, False, None), b') \<and> objs b' x = Some (t\<lparr>st_state := streamHalfClosed, closeNotifyCh := True\<rparr>) \<and> bmem b' = bmem b"
proof -
  let ?q = "recvQueue qm" and ?e = "\<lparr>seqID = i, offsetInShmBuf = 0, status = streamClosed\<rparr>"
  have pop: "queue_pop ?q (qmem b) = Some (Inr ?e, pop_mem ?q (qmem b))" "queue_inv ?q (pop_mem ?q (qmem b))" "queue_items ?q (pop_mem ?q (qmem b)) = []"
    using b(3) by (cases rule: queue_pop_cases [OF b(2)]; simp)+
  let ?b = "b\<lparr>qmem := pop_mem ?q (qmem b)\<rparr>"
  have c: "streamClosed AND 255 = streamClosed" by (simp add: streamClosed_def)
  have g: "getStream i streamClosed ?b = Some (Some x, ?b)" using x(1) by (simp add: getStream_def streams_get_def)
  obtain w where w: "halfClose x ?b = Some w" "objs w x = Some (t\<lparr>st_state := streamHalfClosed, closeNotifyCh := True\<rparr>)" "queueManager_of (ses w) = Some qm"
    "qmem w = pop_mem ?q (qmem b)" "bmem w = bmem b"
    using x(2,3) b(1) by (auto simp: halfClose_def with_obj_def Let_def safeCloseNotify_def upd_obj_def call_back_def upd_ses_def)
  have "queue_pop ?q (qmem w) = Some (Inl errQueueEmpty, qmem w)" using pop(2,3) w(4) by (cases rule: queue_pop_cases [OF pop(2)]) simp_all
  then have "poll_queue None w = Some ((None, False), w)" using w(3) by (subst poll_queue.simps) simp
  then have pq: "poll_queue None b = Some ((None, False), w)"
    using b(1) pop(1) g w(1) c by (subst poll_queue.simps) (simp add: handleStreamMessage_def Let_def)
  from markNotWorking_ok [OF pop(2)] pop(3) w(4) obtain m where m: "markNotWorking ?q (qmem w) = Some (True, m)" by auto
  have "handlePolling h buf b = Some ((int headerSize, False, None), w\<lparr>qmem := m\<rparr>)"
    using pq w(3) m by (simp add: handlePolling_def, subst poll_loop.simps) simp
  with w(2,5) show ?thesis by auto
qed


definition demo_open :: "world \<Rightarrow> world" where
  "demo_open = upd_ses (\<lambda>s. s\<lparr>streams := Some [(5, 0)]\<rparr>)"


subsection \<open>The end of a session\<close>

text \<open>
  The whole task that \<^verbatim>\<open>Close\<close> of a session posts: the part on the streams, then the reference to the buffer manager is given
  up and the queues are unmapped. \<open>view\<close> is what unmapping the buffers sees of the memory while it waits.
\<close>

definition session_close_task :: "(nat \<Rightarrow> bytes) \<Rightarrow> send_outcome \<Rightarrow> party \<Rightarrow> party option" where
  "session_close_task view r pt = do {
     w \<leftarrow> close_task r (pt_w pt);
     (acts, reg) \<leftarrow> (case bufferManager_of (ses w) of
         None \<Rightarrow> Some ([], pt_reg pt)
       | Some bm \<Rightarrow> addGlobalBufferManagerRefCount (bm_path bm) (- 1) view (pt_reg pt));
     let pt1 = pt\<lparr>pt_w := w, pt_reg := reg, pt_acts := pt_acts pt @ acts\<rparr>;
     case queueManager_of (ses w) of
       None \<Rightarrow> Some pt1
     | Some qm \<Rightarrow> Some (pt1\<lparr>pt_w := upd_ses (\<lambda>s. s\<lparr>queueManager_of := None\<rparr>) w, pt_acts := pt_acts pt1 @ qm_unmap qm (qmem w)\<rparr>)
   }"

text \<open>Giving up a reference always returns when the memory holds the lists of the manager.\<close>

lemma release_total:
  assumes i: "reg_inv reg h" "0 < h file" and e: "map_of reg file = Some (bm, m)" and v: "\<And>i. mgr_inv ct bm ds (fs i) (view i)"
  shows "\<exists>acts reg'. addGlobalBufferManagerRefCount file (- 1) view reg = Some (acts, reg') \<and>
    (if h file = 1 then map_of reg' file = None \<and> acts \<noteq> [] \<and> hd acts = Munmap m else acts = [] \<and> (\<exists>bm'. map_of reg' file = Some (bm', m)))"
proof -
  have "mgr_inv ct (add_ref (- 1) bm) ds (fs i) (view i)" for i using v [of i] by (simp add: mgr_inv_def add_ref_def)
  from unmap_ok [where view = view and fs = fs, OF this, of m] obtain slept as where "bm_unmap (add_ref (- 1) bm) m view = Some (slept, Munmap m # as)" by blast
  then obtain acts reg' where a: "addGlobalBufferManagerRefCount file (- 1) view reg = Some (acts, reg')" using e by (cases "sint (bm_refCount (add_ref (- 1) bm)) \<le> 0") (auto simp: addGlobalBufferManagerRefCount_def Let_def)
  have "if h file = 1 then map_of reg' file = None \<and> acts \<noteq> [] \<and> hd acts = Munmap m else acts = [] \<and> (\<exists>bm'. map_of reg' file = Some (bm', m))"
    using i a by (cases rule: release_cases) (auto simp: e bm_unmap_def bind_eq_Some_conv)
  with a show ?thesis by blast
qed

text \<open>
  C21. A closed session leaves nothing behind. Over any history of sessions that share buffer managers, when the streams of a closing session have been closed, the rest
  of its task returns, unmaps its queues and removes their file or descriptor, and gives up its share of the buffers: the memory of the buffers is unmapped
  exactly when no other session of the process uses it, and stays mapped, for the others, otherwise.
\<close>

theorem closed_session_released:
  assumes g: "reg_reach (pt_reg pt) h" "0 < h (bm_path bm)" "map_of (pt_reg pt) (bm_path bm) = Some (bm', m)" and v: "\<And>i. mgr_inv ct bm' ds (fs i) (view i)"
    and w: "close_task r (pt_w pt) = Some w" "bufferManager_of (ses w) = Some bm" "queueManager_of (ses w) = Some qm"
  shows "\<exists>pt' acts. session_close_task view r pt = Some pt' \<and> queueManager_of (ses (pt_w pt')) = None \<and> pt_acts pt' = pt_acts pt @ acts @ qm_unmap qm (qmem w) \<and>
    (if h (bm_path bm) = 1 then map_of (pt_reg pt') (bm_path bm) = None \<and> acts \<noteq> [] \<and> hd acts = Munmap m
     else acts = [] \<and> (\<exists>b. map_of (pt_reg pt') (bm_path bm) = Some (b, m)))"
proof -
  from release_total [where view = view and fs = fs, OF reg_reach_inv [OF g(1)] g(2,3) v] obtain acts reg' where
    a: "addGlobalBufferManagerRefCount (bm_path bm) (- 1) view (pt_reg pt) = Some (acts, reg')"
    "if h (bm_path bm) = 1 then map_of reg' (bm_path bm) = None \<and> acts \<noteq> [] \<and> hd acts = Munmap m else acts = [] \<and> (\<exists>b. map_of reg' (bm_path bm) = Some (b, m))" by blast
  let ?pt = "pt\<lparr>pt_w := upd_ses (\<lambda>s. s\<lparr>queueManager_of := None\<rparr>) w, pt_reg := reg', pt_acts := pt_acts pt @ acts @ qm_unmap qm (qmem w)\<rparr>"
  have "session_close_task view r pt = Some ?pt" using w a(1) by (simp add: session_close_task_def Let_def)
  then show ?thesis using a(2) by (intro exI [of _ ?pt] exI [of _ acts]) simp
qed

theorem closed_session_released_witness:
  "\<exists>bm m reg w. getGlobalBufferManager demo_reg_os ''b'' 400 True demo_pairs [] = Some (Inr (bm, m), [], reg) \<and> w = demo_world True bm (demo_qm demo_send demo_recv) m demo_mem2 \<and>
    (\<exists>pt'. session_close_task (\<lambda>_. m) (Answered None) ((demo_party w [])\<lparr>pt_reg := reg\<rparr>) = Some pt' \<and> map_of (pt_reg pt') ''b'' = None \<and> hd (pt_acts pt') = Munmap m)"
proof -
  let ?ds = "[(5, 8), (4, 16)] :: (nat \<times> nat) list"
  obtain bm m where c: "createBufferManager demo_pairs ''b'' (replicate 400 0) 0 = Some (Inr (bm, m))"
    and i: "mgr_inv 20 bm ?ds [[0, 28, 56, 84, 112], [0, 36, 72, 108]] m" by (rule demo_buffers)
  have "sortPairs demo_pairs = demo_pairs" by (simp add: sortPairs_def demo_pairs_def)
  with c have g: "getGlobalBufferManager demo_reg_os ''b'' 400 True demo_pairs [] = Some (Inr (bm, m), [], reg_put ''b'' (bm, m) [])"
    by (simp add: getGlobalBufferManager_def demo_reg_os_def canCreateOnDevShm_def enter_manager_def)
  let ?w = "demo_world True bm (demo_qm demo_send demo_recv) m demo_mem2" and ?h = "(\<lambda>_. 0)(''b'' := 1 :: nat)"
  let ?pt = "(demo_party ?w [])\<lparr>pt_reg := reg_put ''b'' (bm, m) []\<rparr>" and ?w' = "upd_ses (\<lambda>s. s\<lparr>eventConn := (\<lambda>_. Some EPIPE), streams := None\<rparr>) (demo_world True bm (demo_qm demo_send demo_recv) m demo_mem2)"
  have r: "reg_reach (pt_reg ?pt) ?h" using reg_reach.got [OF start _ g] by simp
  have p: "bm_path bm = ''b''" using c by (auto simp: createBufferManager_def Let_def split: Option.bind_split_asm if_split_asm sum.split_asm prod.split_asm)
  have t: "close_task (Answered None) (pt_w ?pt) = Some ?w'" by (simp add: close_task_def demo_party_def demo_world_def demo_session_def streams_list_def)
  have s: "bufferManager_of (ses ?w') = Some bm" "queueManager_of (ses ?w') = Some (demo_qm demo_send demo_recv)" by (simp_all add: demo_world_def demo_session_def)
  have e: "0 < ?h (bm_path bm)" "map_of (pt_reg ?pt) (bm_path bm) = Some (bm, m)" "?h (bm_path bm) = 1" "pt_acts ?pt = []" by (simp_all add: p reg_put_def demo_party_def)
  from closed_session_released [where fs = "\<lambda>_. [[0, 28, 56, 84, 112], [0, 36, 72, 108]]" and view = "\<lambda>_. m", OF r e(1,2) i t s] e(3,4) p
  obtain pt' acts where "session_close_task (\<lambda>_. m) (Answered None) ?pt = Some pt'" "pt_acts pt' = acts @ qm_unmap (demo_qm demo_send demo_recv) (qmem ?w')" "map_of (pt_reg pt') ''b'' = None" "acts \<noteq> []" "hd acts = Munmap m" by auto
  with g show ?thesis by (intro exI [of _ bm] exI [of _ m] exI [of _ "reg_put ''b'' (bm, m) []"] exI [of _ ?w]) auto
qed

end
