(* ===== verification/Spec2Isabelle.thy ===== *)
theory Spec2Isabelle
  imports Shm_Prelude Io_Queue Queue_Concurrency Manager_Contract Slice_List Linked_Write Linked_Read Protocol_Event Session_Config Message_Delivery Buffer_Registry Handshake Connection Event_Conn Server_Listener Stream_Pool Session_Manager Stream_Lifecycle
begin

text \<open>
  A verification of \<^verbatim>\<open>shmipc-go\<close>, inter-process communication over shared memory.

  \<^bold>\<open>The program.\<close> Two processes share two mappings: one with two ring buffers of twelve-byte elements, the IO queues, one for
  each direction, and one with lists of buffers of fixed sizes. A message is written into a chain of buffers; the sender puts the offset of the
  first one into its queue and, when the receiver is idle, wakes it with an event on a socket. The receiver reads the message where it lies
  and returns the buffers. When no buffer is left, the bytes travel in an event on the socket instead. A session is the pair of mappings
  and the socket; it carries many streams. A client has a manager of several sessions with pools of streams to use again, a server a
  listener; both can move to a new server process in a hot restart.

  \<^bold>\<open>Conventions.\<close> Shared memory is a list of bytes that operations take and return; words in it are read and written at their width,
  and the wrap-around of counters and offsets is kept. A Go panic, and waiting forever, is \<open>None\<close>; an \<^verbatim>\<open>error\<close> is a value of
  \<open>go_error\<close>. The operating system is a record \<open>os_env\<close> of answers; \<open>mmap_ok\<close> says that a mapping has the length asked for. What
  happens while a goroutine waits, and what the system calls of a socket answer, are arguments. Maps that are walked in
  Go are lists, and the theorems hold for every order of them. Log output and statistics are left out.

  \<^bold>\<open>The theories\<close>, with the files under \<^verbatim>\<open>src/\<close> they model.

  \<^item> \<open>Shm_Prelude\<close>: bytes, words and ring positions; \<open>Os_Interface\<close>: errors and the answers of the system (\<^verbatim>\<open>errors.go\<close>, \<^verbatim>\<open>util.go\<close>);
    \<open>Fifo_Interface\<close> and \<open>Pool_Interface\<close>: the contracts \<open>bounded_fifo\<close> and \<open>slot_pool\<close> with what follows from them for every
    sequence of operations. The first is interpreted on the IO queue and on the stream pool, the second on the buffer lists.
  \<^item> \<open>Io_Queue\<close> (\<^verbatim>\<open>queue.go\<close>): \<open>queue_put\<close>, \<open>queue_pop\<close>, the working flag, creating and mapping. Any sequence of operations is first-in
    first-out, two queues in one mapping do not touch, and the two processes see their queues crossed. \<open>Queue_Concurrency\<close>: the same operations
    cut into atomic steps of any number of producers and the consumer, as the relation \<open>conc_step\<close>; order is kept and no wake-up is lost.
  \<^item> \<open>Buffer_Slice\<close>, \<open>Buffer_List\<close>, \<open>Buffer_Manager\<close>, \<open>Manager_Contract\<close>, \<open>Buffer_Ownership\<close> (\<^verbatim>\<open>buffer_slice.go\<close>, \<^verbatim>\<open>buffer_manager.go\<close>): a slice and its header, the
    free lists, allocation and recycling. Over all operations of both processes no buffer is lost or given out twice; \<open>owns\<close> says which slices
    a holder has, and is what the theories below build on. \<open>Buffer_Registry\<close>: the table of managers of a process with
    its reference counts, and the bounded wait of unmapping. \<open>Slice_List\<close>: the pointer list of slices refines a list with a write position.
  \<^item> \<open>Linked_Buffer\<close> (\<^verbatim>\<open>buffer.go\<close>), with \<open>Linked_Write\<close> and \<open>Linked_Read\<close>: writing appends, reading takes in order whatever the division into
    slices, what is handed out without copying stays valid until it is released, and everything is returned. The source of more data is
    the locale \<open>data_source\<close>, interpreted on the stream.
  \<^item> \<open>Protocol_Event\<close>, \<open>Session_Config\<close> (\<^verbatim>\<open>protocol_event.go\<close>, \<^verbatim>\<open>const.go\<close>, \<^verbatim>\<open>config.go\<close>): event headers and their round trip, the configuration test.
  \<^item> \<open>Session_State\<close>, \<open>Stream_Ops\<close>, \<open>Session_Ops\<close> (\<^verbatim>\<open>session.go\<close>, \<^verbatim>\<open>stream.go\<close>, the event handlers of \<^verbatim>\<open>protocol_manager.go\<close>): the world of one process, that
    is a session, its streams by address and the two mappings. \<open>Stream_Delivery\<close> and \<open>Message_Delivery\<close>: a flushed message is what
    the peer reads, over the queue or over the socket; handling the queue ends and delivers every element. \<open>Stream_Lifecycle\<close>:
    the states of streams only advance under every sequence of operations, a close returns the buffers and reaches the peer, and a
    session that has closed has released its mappings.
  \<^item> \<open>Handshake\<close> (\<^verbatim>\<open>protocol_manager.go\<close>, \<^verbatim>\<open>protocol_initializer.go\<close>, \<^verbatim>\<open>block_io.go\<close>, \<^verbatim>\<open>newSession\<close>): both ways of sharing the mappings, for every
    division of the bytes on the socket, and the refusal of other versions. \<open>Connection\<close> puts the parts together: from two
    processes with a socket to the first message read by the server.
  \<^item> \<open>Event_Conn\<close> (\<^verbatim>\<open>event_dispatcher_linux.go\<close>): the read buffer and the writes of a connection; the session cannot tell how its bytes were divided.
  \<^item> \<open>Server_Listener\<close> (\<^verbatim>\<open>listener.go\<close>): accepting, closing and the hot restart, with the two mutexes as part of the state; a restart is done
    exactly when all sessions have answered, and blocks when the connection of one has failed.
  \<^item> \<open>Stream_Pool\<close>, \<open>Session_Manager\<close> (\<^verbatim>\<open>session_manager.go\<close>): the pool refines a bounded queue; a stream given out is open, one given back
    can be used as if it were new, sessions are chosen evenly, their files have valid and different names, and a hot restart
    replaces each pool once.

  \<^bold>\<open>Loops.\<close> The loops over the queue, over a connection's reads and over chains in shared memory are \<open>partial_function\<close>s, whose
  result is \<open>None\<close> when they do not end; the theorems show that they return. Only the ten retries of \<^verbatim>\<open>Flush\<close> and the fifty looks of \<^verbatim>\<open>unmap\<close>
  are bounded by a number, which is the one in the source. Running counters are 64 bits wide: the theorems on rings
  assume that the counter does not overflow within the operations considered, which \<open>queue_budget\<close> and \<open>pool_budget\<close> measure.

  \<^bold>\<open>Not modelled.\<close> The lock-free loops of the buffer lists run by one process at a time: interleavings of their compare-and-swap steps are not
  considered. The loop around \<^verbatim>\<open>epoll_wait\<close> and the wrappers of system calls (\<^verbatim>\<open>epoll_linux.go\<close>, \<^verbatim>\<open>sys_memfd_create_linux.go\<close>) are input and output.
  \<^verbatim>\<open>event_dispatcher_race_linux.go\<close> repeats \<^verbatim>\<open>event_dispatcher_linux.go\<close> for the race detector. \<^verbatim>\<open>net_listener.go\<close> and \<^verbatim>\<open>adapter/\<close> wrap sessions in
  the interfaces of the \<^verbatim>\<open>net\<close> package. \<^verbatim>\<open>stats.go\<close>, \<^verbatim>\<open>debug.go\<close>, the monitor loop and the logger only read and print. \<^verbatim>\<open>example/\<close> uses the library.
\<close>

end
